(* ===== verification/Prelude.thy ===== *)
theory Prelude
  imports Main "HOL-Library.Word" "HOL-Library.Sublist"
begin

text \<open>
  Shared ground of the development: the faults a C++ operation can end in (as values of a
  sum type), the integer conversions of the source (\<open>int32_t\<close>, \<open>uint32_t\<close>, \<open>size_t\<close>),
  and the parts of the C++ string and character library that the sources use, each with
  the lemmas the component theories share.
\<close>

section \<open>Lemma collections\<close>

named_theorems result_simps \<open>evaluation of computations that may fault\<close>
named_theorems cstring_simps \<open>C++ string operations\<close>

section \<open>Faults\<close>

text \<open>
  What stops a run of the code: a null pointer that is dereferenced, an access outside an
  allocated block or container, a failed \<open>assert\<close>, a \<open>std::copy\<close> whose destination
  starts inside its source range, an allocation of an impossible size, a variable that is read
  before it has a value, a reference to a variable that is gone, an exception that leaves the modelled function.
\<close>

datatype fault =
    Null_deref
  | Out_of_bounds
  | Assert_failed
  | Overlapping_copy
  | Bad_alloc
  | Uninitialised
  | Dangling
  | Exception string

type_synonym 'a result = "fault + 'a"

fun bindR :: "'a result \<Rightarrow> ('a \<Rightarrow> 'b result) \<Rightarrow> 'b result" where
  "bindR (Inl e) f = Inl e"
| "bindR (Inr x) f = f x"

lemma bindR_eq_Inr_iff: "bindR r f = Inr y \<longleftrightarrow> (\<exists>x. r = Inr x \<and> f x = Inr y)"
  by (cases r) auto

lemma bindR_assoc: "bindR (bindR r f) g = bindR r (\<lambda>x. bindR (f x) g)"
  by (cases r) auto

lemma bindR_Inr_right [simp]: "bindR r Inr = r"
  by (cases r) auto

lemma bindR_cong [fundef_cong]:
  "r = r' \<Longrightarrow> (\<And>x. r' = Inr x \<Longrightarrow> f x = g x) \<Longrightarrow> bindR r f = bindR r' g"
  by (cases r') auto

declare bindR_eq_Inr_iff [result_simps]

section \<open>Integer conversions\<close>

text \<open>
  Signed values are \<open>int\<close>; \<open>to_int32\<close> is the conversion to \<open>int32_t\<close> (two's complement),
  \<open>to_uint32\<close> the conversion to \<open>uint32_t\<close>. Sizes are \<open>nat\<close>; the subtraction of two
  \<open>size_t\<close> values is \<open>usub\<close>, which wraps below zero.
\<close>

definition to_int32 :: "int \<Rightarrow> int" where
  "to_int32 k = (k + 2147483648) mod 4294967296 - 2147483648"

definition to_uint32 :: "int \<Rightarrow> nat" where
  "to_uint32 k = nat (k mod 4294967296)"

definition usub :: "nat \<Rightarrow> nat \<Rightarrow> nat" where
  "usub a b = (if b \<le> a then a - b else 18446744073709551616 + a - b)"

lemma to_int32_id: "-2147483648 \<le> k \<Longrightarrow> k < 2147483648 \<Longrightarrow> to_int32 k = k"
  by (simp add: to_int32_def)

lemma to_int32_wrap: "2147483648 \<le> k \<Longrightarrow> k < 4294967296 \<Longrightarrow> to_int32 k = k - 4294967296"
proof -
  assume k: "2147483648 \<le> k" "k < 4294967296"
  have "(k + 2147483648) mod 4294967296 = (k - 2147483648 + 4294967296) mod 4294967296" by (simp add: add.commute)
  also have "\<dots> = k - 2147483648" using k by (simp only: mod_add_self2 mod_pos_pos_trivial)
  finally show ?thesis by (simp add: to_int32_def)
qed

lemma to_int32_range: "-2147483648 \<le> to_int32 k \<and> to_int32 k < 2147483648"
  by (simp add: to_int32_def)

lemma to_uint32_id: "0 \<le> k \<Longrightarrow> k < 4294967296 \<Longrightarrow> to_uint32 k = nat k"
  by (simp add: to_uint32_def)

lemma to_uint32_lt: "to_uint32 k < 4294967296"
  by (simp add: to_uint32_def nat_less_iff)

lemma usub_le [simp]: "b \<le> a \<Longrightarrow> usub a b = a - b"
  by (simp add: usub_def)

section \<open>Characters\<close>

text \<open>
  A \<open>char\<close> is a byte. The character classes are those of the C locale: bytes outside
  ASCII are in no class and \<open>tolower\<close> leaves them unchanged.
\<close>

definition byte :: "char \<Rightarrow> nat" where
  "byte c = of_char c"

definition byte_char :: "nat \<Rightarrow> char" where
  "byte_char n = char_of n"

definition c_isdigit :: "char \<Rightarrow> bool" where
  "c_isdigit c \<longleftrightarrow> 48 \<le> byte c \<and> byte c \<le> 57"

definition c_isxdigit :: "char \<Rightarrow> bool" where
  "c_isxdigit c \<longleftrightarrow> c_isdigit c \<or> (65 \<le> byte c \<and> byte c \<le> 70) \<or> (97 \<le> byte c \<and> byte c \<le> 102)"

definition c_isspace :: "char \<Rightarrow> bool" where
  "c_isspace c \<longleftrightarrow> byte c = 32 \<or> (9 \<le> byte c \<and> byte c \<le> 13)"

definition c_tolower :: "char \<Rightarrow> char" where
  "c_tolower c = (if 65 \<le> byte c \<and> byte c \<le> 90 then byte_char (byte c + 32) else c)"

definition CR :: char where "CR = CHR 0x0D"
definition LF :: char where "LF = CHR 0x0A"

lemma byte_lt [simp]: "byte c < 256"
  by (simp add: byte_def)

lemma byte_char_byte [simp]: "byte_char (byte c) = c"
  by (simp add: byte_def byte_char_def)

lemma byte_byte_char: "n < 256 \<Longrightarrow> byte (byte_char n) = n"
  by (simp add: byte_def byte_char_def)

lemma byte_inj: "byte c = byte d \<longleftrightarrow> c = d"
  by (simp add: byte_def)

lemma c_tolower_idem [simp]: "c_tolower (c_tolower c) = c_tolower c"
  by (simp add: c_tolower_def byte_byte_char)

definition tolower_str :: "string \<Rightarrow> string" where
  "tolower_str s = map c_tolower s"

lemma tolower_str_idem [simp]: "tolower_str (tolower_str s) = tolower_str s"
  by (simp add: tolower_str_def)

lemma length_tolower_str [simp]: "length (tolower_str s) = length s"
  by (simp add: tolower_str_def)

section \<open>Searching in strings\<close>

text \<open>
  \<open>find_index\<close> is \<open>std::find_if\<close> and \<open>find_first_of\<close>, \<open>rfind_index\<close> is \<open>rfind\<close> of a
  character and \<open>find_last_of\<close>; \<open>find_sub\<close> is \<open>std::search\<close>, \<open>find_from\<close> is
  \<open>std::string::find (pattern, pos)\<close>. The result \<open>None\<close> stands for \<open>npos\<close>.
\<close>

fun find_index :: "('a \<Rightarrow> bool) \<Rightarrow> 'a list \<Rightarrow> nat option" where
  "find_index P [] = None"
| "find_index P (x # xs) = (if P x then Some 0 else map_option Suc (find_index P xs))"

definition rfind_index :: "('a \<Rightarrow> bool) \<Rightarrow> 'a list \<Rightarrow> nat option" where
  "rfind_index P xs = map_option (\<lambda>i. length xs - Suc i) (find_index P (rev xs))"

fun find_sub :: "'a list \<Rightarrow> 'a list \<Rightarrow> nat option" where
  "find_sub d [] = (if d = [] then Some 0 else None)"
| "find_sub d (x # xs) =
     (if take (length d) (x # xs) = d then Some 0 else map_option Suc (find_sub d xs))"

definition find_from :: "'a list \<Rightarrow> 'a list \<Rightarrow> nat \<Rightarrow> nat option" where
  "find_from s d pos =
     (if pos \<le> length s then map_option (\<lambda>i. pos + i) (find_sub d (drop pos s)) else None)"

definition substr :: "'a list \<Rightarrow> nat \<Rightarrow> nat \<Rightarrow> 'a list" where
  "substr s pos n = take n (drop pos s)"

lemma find_index_None_iff [cstring_simps]: "find_index P xs = None \<longleftrightarrow> (\<forall>x\<in>set xs. \<not> P x)"
  by (induction xs) auto

lemma find_index_append:
  "\<forall>x\<in>set xs. \<not> P x \<Longrightarrow> find_index P (xs @ ys) = map_option (\<lambda>i. length xs + i) (find_index P ys)"
  by (induction xs; cases "find_index P ys") auto

lemma find_index_hit [cstring_simps]:
  "\<forall>x\<in>set xs. \<not> P x \<Longrightarrow> P y \<Longrightarrow> find_index P (xs @ y # ys) = Some (length xs)"
  by (simp add: find_index_append)

lemma find_index_SomeD:
  "find_index P xs = Some i \<Longrightarrow>
     i < length xs \<and> P (xs ! i) \<and> (\<forall>x\<in>set (take i xs). \<not> P x)"
  by (induction xs arbitrary: i) (auto split: if_splits)

lemma find_index_lt: "find_index P xs = Some i \<Longrightarrow> i < length xs"
  by (auto dest: find_index_SomeD)

lemma rfind_index_None_iff [cstring_simps]:
  "rfind_index P xs = None \<longleftrightarrow> (\<forall>x\<in>set xs. \<not> P x)"
  by (simp add: rfind_index_def find_index_None_iff)

lemma rfind_index_hit [cstring_simps]:
  "\<forall>x\<in>set ys. \<not> P x \<Longrightarrow> P y \<Longrightarrow> rfind_index P (xs @ y # ys) = Some (length xs)"
  by (simp add: rfind_index_def find_index_append)

lemma rfind_index_SomeE:
  assumes "rfind_index P xs = Some i"
  obtains ys y zs where "xs = ys @ y # zs" "length ys = i" "P y" "\<forall>x\<in>set zs. \<not> P x"
proof -
  from assms obtain j where j: "find_index P (rev xs) = Some j" and i: "i = length xs - Suc j"
    by (auto simp: rfind_index_def)
  from find_index_SomeD [OF j] have jl: "j < length xs" and Pj: "P (rev xs ! j)"
    and tk: "\<forall>x\<in>set (take j (rev xs)). \<not> P x" by auto
  have il: "i < length xs" and xi: "xs ! i = rev xs ! j"
    using jl i by (auto simp: rev_nth)
  have "set (take j (rev xs)) = set (drop (Suc i) xs)"
    using jl i by (simp add: take_rev Suc_diff_Suc)
  with tk have "\<forall>x\<in>set (drop (Suc i) xs). \<not> P x" by simp
  moreover have "xs = take i xs @ xs ! i # drop (Suc i) xs"
    using il by (rule id_take_nth_drop)
  ultimately show thesis using that il Pj xi by (metis length_take min_absorb2 less_imp_le)
qed

lemma take_eq_length_le: "take (length d) xs = d \<Longrightarrow> length d \<le> length xs"
  by (metis length_take min.cobounded1)

lemma find_sub_SomeD:
  "find_sub d s = Some i \<Longrightarrow>
     i + length d \<le> length s \<and> s = take i s @ d @ drop (i + length d) s"
proof (induction s arbitrary: i)
  case Nil
  then show ?case by (auto split: if_splits)
next
  case (Cons x xs)
  show ?case
  proof (cases "take (length d) (x # xs) = d")
    case True
    with Cons.prems have "i = 0" by simp
    with True show ?thesis
      by (metis append_Nil append_take_drop_id take0 add_0 take_eq_length_le)
  next
    case False
    with Cons.prems obtain j where "find_sub d xs = Some j" and "i = Suc j" by auto
    with Cons.IH [of j] show ?thesis by auto
  qed
qed

lemma find_sub_first: "find_sub d s = Some i \<Longrightarrow> j < i \<Longrightarrow> take (length d) (drop j s) \<noteq> d"
proof (induction j arbitrary: s i)
  case 0
  then show ?case by (cases s) (auto split: if_splits)
next
  case (Suc j)
  then show ?case by (cases s; cases i) (auto split: if_splits)
qed

lemma find_sub_None_iff:
  "find_sub d s = None \<longleftrightarrow> (\<forall>i\<le>length s. take (length d) (drop i s) \<noteq> d)"
proof (induction s)
  case Nil
  then show ?case by auto
next
  case (Cons x xs)
  have "(\<forall>i\<le>length (x # xs). take (length d) (drop i (x # xs)) \<noteq> d) \<longleftrightarrow>
      take (length d) (x # xs) \<noteq> d \<and> (\<forall>i\<le>length xs. take (length d) (drop i xs) \<noteq> d)"
    by (metis Suc_le_mono drop0 drop_Suc_Cons length_Cons not0_implies_Suc le0)
  with Cons show ?case by auto
qed

lemma find_from_SomeD:
  "find_from s d pos = Some i \<Longrightarrow>
     pos \<le> i \<and> i + length d \<le> length s \<and> drop pos s = take (i - pos) (drop pos s) @ d @ drop (i + length d) s"
  by (auto simp: find_from_def add_ac dest!: find_sub_SomeD split: if_splits)

end
