(* ===== verification/HttpTypes.thy ===== *)
theory HttpTypes
  imports Prelude
begin

text \<open>
  \<open>src/http/HttpTypes.h\<close>: the enumerations of the HTTP layer. \<open>status_value\<close> is the
  number an enumerator of \<open>HttpStatusCode\<close> stands for; \<open>HttpMethod\<close> is stored and compared
  by name only.
\<close>

datatype HttpStatusCode =
    kUnknown
  | k100Continue
  | k101SwitchingProtocols
  | k200OK
  | k201Created
  | k202Accepted
  | k203NonAuthoritativeInformation
  | k204NoContent
  | k205ResetContent
  | k206PartialContent
  | k300MultipleChoices
  | k301MovedPermanently
  | k302Found
  | k303SeeOther
  | k304NotModified
  | k305UseProxy
  | k307TemporaryRedirect
  | k308PermanentRedirect
  | k400BadRequest
  | k401Unauthorized
  | k402PaymentRequired
  | k403Forbidden
  | k404NotFound
  | k405MethodNotAllowed
  | k406NotAcceptable
  | k407ProxyAuthenticationRequired
  | k408RequestTimeout
  | k409Conflict
  | k410Gone
  | k411LengthRequired
  | k412PreconditionFailed
  | k413RequestEntityTooLarge
  | k414RequestURITooLarge
  | k415UnsupportedMediaType
  | k416RequestedRangeNotSatisfiable
  | k417ExpectationFailed
  | k418ImATeapot
  | k421MisdirectedRequest
  | k425TooEarly
  | k426UpgradeRequired
  | k428PreconditionRequired
  | k429TooManyRequests
  | k431RequestHeaderFieldsTooLarge
  | k451UnavailableForLegalReasons
  | k500InternalServerError
  | k501NotImplemented
  | k502BadGateway
  | k503ServiceUnavailable
  | k504GatewayTimeout
  | k505HTTPVersionNotSupported
  | k510NotExtended

fun status_value :: "HttpStatusCode \<Rightarrow> int" where
  "status_value kUnknown = 0"
| "status_value k100Continue = 100"
| "status_value k101SwitchingProtocols = 101"
| "status_value k200OK = 200"
| "status_value k201Created = 201"
| "status_value k202Accepted = 202"
| "status_value k203NonAuthoritativeInformation = 203"
| "status_value k204NoContent = 204"
| "status_value k205ResetContent = 205"
| "status_value k206PartialContent = 206"
| "status_value k300MultipleChoices = 300"
| "status_value k301MovedPermanently = 301"
| "status_value k302Found = 302"
| "status_value k303SeeOther = 303"
| "status_value k304NotModified = 304"
| "status_value k305UseProxy = 305"
| "status_value k307TemporaryRedirect = 307"
| "status_value k308PermanentRedirect = 308"
| "status_value k400BadRequest = 400"
| "status_value k401Unauthorized = 401"
| "status_value k402PaymentRequired = 402"
| "status_value k403Forbidden = 403"
| "status_value k404NotFound = 404"
| "status_value k405MethodNotAllowed = 405"
| "status_value k406NotAcceptable = 406"
| "status_value k407ProxyAuthenticationRequired = 407"
| "status_value k408RequestTimeout = 408"
| "status_value k409Conflict = 409"
| "status_value k410Gone = 410"
| "status_value k411LengthRequired = 411"
| "status_value k412PreconditionFailed = 412"
| "status_value k413RequestEntityTooLarge = 413"
| "status_value k414RequestURITooLarge = 414"
| "status_value k415UnsupportedMediaType = 415"
| "status_value k416RequestedRangeNotSatisfiable = 416"
| "status_value k417ExpectationFailed = 417"
| "status_value k418ImATeapot = 418"
| "status_value k421MisdirectedRequest = 421"
| "status_value k425TooEarly = 425"
| "status_value k426UpgradeRequired = 426"
| "status_value k428PreconditionRequired = 428"
| "status_value k429TooManyRequests = 429"
| "status_value k431RequestHeaderFieldsTooLarge = 431"
| "status_value k451UnavailableForLegalReasons = 451"
| "status_value k500InternalServerError = 500"
| "status_value k501NotImplemented = 501"
| "status_value k502BadGateway = 502"
| "status_value k503ServiceUnavailable = 503"
| "status_value k504GatewayTimeout = 504"
| "status_value k505HTTPVersionNotSupported = 505"
| "status_value k510NotExtended = 510"

datatype Version = Version_kUnknown | kHttp10 | kHttp11

datatype ContentType =
    kContentTypeNONE
  | kContentTypeAppJson
  | kContentTypeTextPlain
  | kContentTypeTextHTML
  | kContentTypeAppXForm
  | kContentTypeAppMpegUrl
  | kContentTypeVideoMP2T
  | kContentTypeVideoXFlv
  | kContentTypeTextXML
  | kContentTypeAppXML

datatype HttpMethod = kGet | kPost | kHead | kPut | kDelete | kOptions | kPatch | kInvalid

end
