(* ===== verification/StringUtils.thy ===== *)
theory StringUtils
  imports Prelude
begin

text \<open>
  \<open>src/base/StringUtils.cpp\<close>: prefix and suffix tests, the parts of a file path, and the
  two splitting routines. Both splitters are loops over positions in the source and are
  kept so here; \<open>tokens\<close> is the list-level specification they are shown to meet.
\<close>

section \<open>Prefix and suffix\<close>

definition StartWith :: "string \<Rightarrow> string \<Rightarrow> bool" where
  "StartWith s sub =
     (if sub = [] then True
      else if s = [] then False
      else if length s < length sub then False
      else substr s 0 (length sub) = sub)"

definition EndWith :: "string \<Rightarrow> string \<Rightarrow> bool" where
  "EndWith s sub =
     (if sub = [] then True
      else if s = [] then False
      else if length s < length sub then False
      else substr s (length s - length sub) (length sub) = sub)"

lemma StartWith_prefix: "StartWith s sub \<longleftrightarrow> prefix sub s"
  by (auto simp: StartWith_def substr_def prefix_def)
    (metis append_take_drop_id)+

lemma EndWith_suffix: "EndWith s sub \<longleftrightarrow> suffix sub s"
proof -
  have "suffix sub s \<longleftrightarrow> length sub \<le> length s \<and> drop (length s - length sub) s = sub"
    by (metis suffix_take suffix_def append_eq_conv_conj diff_add_inverse2 length_append
        le_add2 suffix_drop)
  then show ?thesis by (auto simp: EndWith_def substr_def)
qed

section \<open>Parts of a path\<close>

definition is_sep :: "char \<Rightarrow> bool" where
  "is_sep c \<longleftrightarrow> c = CHR ''/'' \<or> c = CHR 0x5C"

definition FilePath :: "string \<Rightarrow> string" where
  "FilePath path =
     (case rfind_index is_sep path of
        Some pos \<Rightarrow> substr path 0 pos
      | None \<Rightarrow> ''./'')"

definition FileNameExt :: "string \<Rightarrow> string" where
  "FileNameExt path =
     (case rfind_index is_sep path of
        Some pos \<Rightarrow> if pos + 1 < length path then drop (pos + 1) path else path
      | None \<Rightarrow> path)"

definition FileName :: "string \<Rightarrow> string" where
  "FileName path =
     (let fileName = FileNameExt path
      in case rfind_index (\<lambda>c. c = CHR ''.'') fileName of
           Some pos \<Rightarrow> if pos \<noteq> 0 then substr fileName 0 pos else fileName
         | None \<Rightarrow> fileName)"

definition Extension :: "string \<Rightarrow> string" where
  "Extension path =
     (let fileName = FileNameExt path
      in case rfind_index (\<lambda>c. c = CHR ''.'') fileName of
           Some pos \<Rightarrow> if pos \<noteq> 0 \<and> pos + 1 < length fileName then drop (pos + 1) fileName else []
         | None \<Rightarrow> [])"

lemma FileNameExt_join:
  assumes "is_sep c" and "name \<noteq> []" and "\<forall>x\<in>set name. \<not> is_sep x"
  shows "FileNameExt (dir @ c # name) = name" and "FilePath (dir @ c # name) = dir"
  using assms by (simp_all add: FileNameExt_def FilePath_def rfind_index_hit substr_def)

lemma FileName_Extension_join:
  assumes "is_sep c" and "base \<noteq> []" and "ext \<noteq> []"
    and "\<forall>x\<in>set (base @ ext). \<not> is_sep x" and "CHR ''.'' \<notin> set ext"
  shows "FileName (dir @ c # base @ CHR ''.'' # ext) = base"
    and "Extension (dir @ c # base @ CHR ''.'' # ext) = ext"
proof -
  have "\<forall>x\<in>set (base @ CHR ''.'' # ext). \<not> is_sep x"
    using assms(4) by (auto simp: is_sep_def)
  from FileNameExt_join(1) [OF assms(1) _ this]
  have fne: "FileNameExt (dir @ c # base @ CHR ''.'' # ext) = base @ CHR ''.'' # ext" by simp
  have dot: "rfind_index (\<lambda>c. c = CHR ''.'') (base @ CHR ''.'' # ext) = Some (length base)"
    using assms(5) by (intro rfind_index_hit) auto
  show "FileName (dir @ c # base @ CHR ''.'' # ext) = base"
    using assms(2) by (simp add: FileName_def fne dot substr_def)
  show "Extension (dir @ c # base @ CHR ''.'' # ext) = ext"
    using assms(2,3) by (simp add: Extension_def fne dot)
qed

section \<open>Splitting\<close>

text \<open>
  The loop of \<open>SplitString\<close>: \<open>lastp\<close> (\<open>last\<close> in the source) is where the current token starts. An empty delimiter
  is rejected before the loop, so the guard here is only what its termination rests on.
\<close>

function split_loop :: "string \<Rightarrow> string \<Rightarrow> nat \<Rightarrow> string list" where
  "split_loop s d lastp =
     (case find_from s d lastp of
        Some next \<Rightarrow>
          if d = [] then []
          else (if next > lastp then substr s lastp (next - lastp) else [])
               # split_loop s d (next + length d)
      | None \<Rightarrow> if lastp < length s then [drop lastp s] else [])"
  by pat_completeness auto
termination
proof (relation "measure (\<lambda>(s, d, lastp). Suc (length s) - lastp)")
  show "wf (measure (\<lambda>(s :: string, d :: string, lastp). Suc (length s) - lastp))" by simp
next
  fix s d :: string and lastp "next" :: nat
  assume "find_from s d lastp = Some next" and "d \<noteq> []"
  then have "lastp \<le> next" "next + length d \<le> length s" "0 < length d"
    by (auto dest: find_from_SomeD)
  then have "Suc (length s) - (next + length d) < Suc (length s) - lastp" by linarith
  then show "((s, d, next + length d), s, d, lastp) \<in> measure (\<lambda>(s, d, lastp). Suc (length s) - lastp)"
    by simp
qed

definition SplitString :: "string \<Rightarrow> string \<Rightarrow> string list" where
  "SplitString s delimiter = (if delimiter = [] then [] else split_loop s delimiter 0)"

declare split_loop.simps [simp del]

text \<open>
  The two states the second splitter moves between; \<open>rest\<close> is the input from \<open>pos\<close> on,
  \<open>tmp\<close> the token being read.
\<close>

datatype fsm_state = kStateNormal | kStateDelimiter

function fsm_loop :: "char \<Rightarrow> fsm_state \<Rightarrow> string \<Rightarrow> string \<Rightarrow> string list \<Rightarrow> string list" where
  "fsm_loop delim st tmp [] result = (if tmp \<noteq> [] then result @ [tmp] else result)"
| "fsm_loop delim kStateNormal tmp (c # rest) result =
     (if c = delim then fsm_loop delim kStateDelimiter tmp (c # rest) result
      else fsm_loop delim kStateNormal (tmp @ [c]) rest result)"
| "fsm_loop delim kStateDelimiter tmp (c # rest) result =
     fsm_loop delim kStateNormal [] rest (result @ [tmp])"
  by pat_completeness auto
termination
  by (relation "measure (\<lambda>(d, st, tmp, rest, result). 2 * length rest + (case st of kStateNormal \<Rightarrow> 1 | kStateDelimiter \<Rightarrow> 0))")
    auto

definition SplitStringWithFSM :: "string \<Rightarrow> char \<Rightarrow> string list" where
  "SplitStringWithFSM s delimiter = fsm_loop delimiter kStateNormal [] s []"

subsection \<open>The specification of splitting\<close>

function tokens :: "string \<Rightarrow> string \<Rightarrow> string list" where
  "tokens d s =
     (case find_sub d s of
        Some i \<Rightarrow> if d = [] then [] else take i s # tokens d (drop (i + length d) s)
      | None \<Rightarrow> if s = [] then [] else [s])"
  by pat_completeness auto
termination
proof (relation "measure (\<lambda>(d, s). length s)")
  show "wf (measure (\<lambda>(d :: string, s :: string). length s))" by simp
next
  fix d s :: string and i :: nat
  assume "find_sub d s = Some i" and "d \<noteq> []"
  then have "i + length d \<le> length s" "0 < length d" by (auto dest: find_sub_SomeD)
  then have "length s - (i + length d) < length s" by linarith
  then show "((d, drop (i + length d) s), d, s) \<in> measure (\<lambda>(d, s). length s)" by simp
qed

declare tokens.simps [simp del]

lemma split_loop_tokens: "d \<noteq> [] \<Longrightarrow> split_loop s d lastp = tokens d (drop lastp s)"
proof (induction s d lastp rule: split_loop.induct)
  case (1 s d lastp)
  show ?case
  proof (cases "find_from s d lastp")
    case None
    then show ?thesis
      by (auto simp: split_loop.simps [of s d lastp] tokens.simps [of d "drop lastp s"]
          find_from_def split: if_splits option.splits)
  next
    case (Some n)
    then have le: "lastp \<le> n" and sub: "find_sub d (drop lastp s) = Some (n - lastp)"
      by (auto simp: find_from_def split: if_splits)
    have "drop (n - lastp + length d) (drop lastp s) = drop (n + length d) s"
      using le by (simp add: add.commute)
    with 1 Some le sub show ?thesis
      by (simp add: split_loop.simps [of s d lastp] tokens.simps [of d "drop lastp s"] substr_def)
  qed
qed

lemma SplitString_tokens: "d \<noteq> [] \<Longrightarrow> SplitString s d = tokens d s"
  by (simp add: SplitString_def split_loop_tokens)

lemma find_sub_single: "find_sub [c] s = find_index (\<lambda>x. x = c) s"
  by (induction s) auto

lemma tokens_single:
  "tokens [c] s =
     (case find_index (\<lambda>x. x = c) s of
        Some i \<Rightarrow> take i s # tokens [c] (drop (Suc i) s)
      | None \<Rightarrow> if s = [] then [] else [s])"
  by (subst tokens.simps) (auto simp: find_sub_single split: option.splits)

lemma fsm_loop_normal:
  "\<forall>x\<in>set s. x \<noteq> c \<Longrightarrow>
     fsm_loop c kStateNormal tmp s result = (if tmp @ s = [] then result else result @ [tmp @ s])"
  by (induction s arbitrary: tmp) auto

lemma fsm_loop_token:
  "\<forall>x\<in>set s. x \<noteq> c \<Longrightarrow>
     fsm_loop c kStateNormal tmp (s @ c # rest) result =
     fsm_loop c kStateNormal [] rest (result @ [tmp @ s])"
  by (induction s arbitrary: tmp) auto

lemma fsm_loop_tokens: "fsm_loop c kStateNormal [] s result = result @ tokens [c] s"
proof (induction "length s" arbitrary: s result rule: less_induct)
  case less
  show ?case
  proof (cases "find_index (\<lambda>x. x = c) s")
    case None
    then have "\<forall>x\<in>set s. x \<noteq> c" by (simp add: find_index_None_iff)
    with None show ?thesis by (simp add: fsm_loop_normal tokens_single [of c s])
  next
    case (Some i)
    from find_index_SomeD [OF this] have i: "i < length s" "s ! i = c"
      and pre: "\<forall>x\<in>set (take i s). x \<noteq> c" by auto
    have s: "s = take i s @ c # drop (Suc i) s" using i by (metis id_take_nth_drop)
    have "fsm_loop c kStateNormal [] s result =
        fsm_loop c kStateNormal [] (drop (Suc i) s) (result @ [take i s])"
      using fsm_loop_token [OF pre, of "[]"] s by (metis append_Nil)
    also have "\<dots> = (result @ [take i s]) @ tokens [c] (drop (Suc i) s)"
      using i by (intro less) simp
    finally show ?thesis using Some by (simp add: tokens_single [of c s])
  qed
qed

subsection \<open>Joining\<close>

fun join :: "string \<Rightarrow> string list \<Rightarrow> string" where
  "join d [] = []"
| "join d [x] = x"
| "join d (x # xs) = x @ d @ join d xs"

lemma join_Cons: "xs \<noteq> [] \<Longrightarrow> join d (x # xs) = x @ d @ join d xs"
  by (cases xs) auto

lemma tokens_self: "d \<noteq> [] \<Longrightarrow> tokens d d \<noteq> []"
  by (subst tokens.simps) (cases d; simp)

lemma tokens_join:
  "d \<noteq> [] \<Longrightarrow> s = join d (tokens d s) \<or> s = join d (tokens d s) @ d"
proof (induction d s rule: tokens.induct)
  case (1 d s)
  show ?case
  proof (cases "find_sub d s")
    case None
    then show ?thesis by (simp add: tokens.simps [of d s])
  next
    case (Some i)
    let ?r = "drop (i + length d) s"
    from find_sub_SomeD [OF Some] have s: "s = take i s @ d @ ?r" by simp
    have t: "tokens d s = take i s # tokens d ?r"
      using Some 1(2) by (subst tokens.simps) simp
    from 1(1) [OF Some 1(2) 1(2)] have ih: "?r = join d (tokens d ?r) \<or> ?r = join d (tokens d ?r) @ d" .
    show ?thesis
    proof (cases "tokens d ?r = []")
      case True
      with ih 1(2) have "?r = [] \<or> ?r = d" by auto
      moreover have "?r \<noteq> d"
        using True tokens_self [OF 1(2)] by auto
      ultimately show ?thesis using s t True by simp
    next
      case False
      with ih s t show ?thesis by (metis append.assoc join_Cons)
    qed
  qed
qed

lemma tokens_no_delimiter:
  "d \<noteq> [] \<Longrightarrow> t \<in> set (tokens d s) \<Longrightarrow> find_sub d t = None"
proof (induction d s rule: tokens.induct)
  case (1 d s)
  show ?case
  proof (cases "find_sub d s")
    case None
    with 1(3) show ?thesis by (auto simp: tokens.simps [of d s] split: if_splits)
  next
    case (Some i)
    have "find_sub d (take i s) = None"
      unfolding find_sub_None_iff
    proof (intro allI impI notI)
      fix j assume j: "j \<le> length (take i s)" and eq: "take (length d) (drop j (take i s)) = d"
      have "length d \<le> length (drop j (take i s))" using eq by (rule take_eq_length_le)
      then have ji: "j + length d \<le> i" using j 1(2) by (cases d) auto
      have "take (length d) (drop j s) = d"
        using eq ji by (simp add: drop_take min_absorb1)
      moreover have "j < i" using ji 1(2) by (cases d) auto
      ultimately show False using find_sub_first [OF Some] by blast
    qed
    with Some 1 show ?thesis by (auto simp: tokens.simps [of d s])
  qed
qed

text \<open>Splitting what was joined, for tokens that hold no delimiter character.\<close>

lemma tokens_Nil [simp]: "d \<noteq> [] \<Longrightarrow> tokens d [] = []"
  by (simp add: tokens.simps)

lemma find_sub_skip:
  "\<forall>x\<in>set pre. x \<noteq> hd d \<Longrightarrow> d \<noteq> [] \<Longrightarrow> find_sub d (pre @ d @ rest) = Some (length pre)"
proof (induction pre)
  case Nil
  then show ?case by (cases d) auto
next
  case (Cons x xs)
  then show ?case by (cases d) auto
qed

lemma find_sub_hd_notin: "hd d \<notin> set s \<Longrightarrow> d \<noteq> [] \<Longrightarrow> find_sub d s = None"
  by (induction s) (auto simp: neq_Nil_conv)

lemma tokens_step:
  "hd d \<notin> set x \<Longrightarrow> d \<noteq> [] \<Longrightarrow> tokens d (x @ d @ rest) = x # tokens d rest"
proof -
  assume "hd d \<notin> set x" and d: "d \<noteq> []"
  then have "find_sub d (x @ d @ rest) = Some (length x)" by (intro find_sub_skip) auto
  then show ?thesis using d by (subst tokens.simps) simp
qed

lemma tokens_last: "hd d \<notin> set x \<Longrightarrow> d \<noteq> [] \<Longrightarrow> x \<noteq> [] \<Longrightarrow> tokens d x = [x]"
  by (subst tokens.simps) (simp add: find_sub_hd_notin)

lemma tokens_of_join:
  "d \<noteq> [] \<Longrightarrow> \<forall>x\<in>set xs. hd d \<notin> set x \<Longrightarrow> xs \<noteq> [] \<Longrightarrow> last xs \<noteq> [] \<Longrightarrow> tokens d (join d xs) = xs"
  by (induction d xs rule: join.induct) (auto simp: tokens_step tokens_last)

section \<open>Properties\<close>

text \<open>The two splitters agree: \<open>SplitStringWithFSM\<close> with a character returns the same pieces
  as \<open>SplitString\<close> with the text of that character.\<close>

theorem splitters_agree: "SplitStringWithFSM s c = SplitString s [c]"
  by (simp add: SplitStringWithFSM_def fsm_loop_tokens SplitString_tokens)

text \<open>Splitting loses nothing and is complete: joining the pieces with the delimiter gives the
  text back, up to one delimiter at its end, and no piece contains the delimiter.\<close>

theorem SplitString_correct:
  assumes "d \<noteq> []"
  shows "(s = join d (SplitString s d) \<or> s = join d (SplitString s d) @ d) \<and>
    (\<forall>t\<in>set (SplitString s d). \<forall>pre post. t \<noteq> pre @ d @ post)"
proof -
  have "find_sub d t = None" if "t \<in> set (SplitString s d)" for t
    using tokens_no_delimiter [OF assms, of t s] that assms by (simp add: SplitString_tokens)
  then have "t \<noteq> pre @ d @ post" if "t \<in> set (SplitString s d)" for t pre post
    using that by (auto simp: find_sub_None_iff) (metis append_eq_conv_conj drop_append le_add1
        length_append append.assoc take_append diff_self_eq_0 drop0 take0 append_Nil2 append_Nil)
  then show ?thesis using tokens_join [OF assms, of s] assms by (simp add: SplitString_tokens)
qed

theorem SplitString_correct_witness:
  "(''a, b, '' = join '', '' (SplitString ''a, b, '' '', '') \<or>
      ''a, b, '' = join '', '' (SplitString ''a, b, '' '', '') @ '', '') \<and>
    list_all (\<lambda>t. \<forall>pre post. t \<noteq> pre @ '', '' @ post) (SplitString ''a, b, '' '', '')"
  unfolding list_all_iff by (rule SplitString_correct) simp

end
