(* ===== verification/Numbers.thy ===== *)
theory Numbers
  imports Prelude
begin

text \<open>
  The number conversions of the C and C++ libraries that the sources call: \<open>std::to_string\<close>
  and the \<open>%X\<close> of \<open>sprintf\<close> (printing), \<open>strtol\<close>, \<open>atoi\<close> and \<open>std::stoull\<close>
  (reading). Reading skips white space, takes a sign, then as many digits as there are, and
  ignores the rest; what happens without a digit or out of range is written out per function.
\<close>

section \<open>Printing\<close>

definition digit_char :: "nat \<Rightarrow> char" where
  "digit_char n = byte_char (if n < 10 then 48 + n else 55 + n)"

fun digits_of :: "nat \<Rightarrow> nat \<Rightarrow> string" where
  "digits_of b n =
     (if b < 2 \<or> n < b then [digit_char n] else digits_of b (n div b) @ [digit_char (n mod b)])"

declare digits_of.simps [simp del]

definition to_string :: "nat \<Rightarrow> string" where
  "to_string n = digits_of 10 n"

definition hex_string :: "nat \<Rightarrow> string" where
  "hex_string n = digits_of 16 n"

section \<open>Reading\<close>

definition digit_val :: "char \<Rightarrow> nat" where
  "digit_val c =
     (if c_isdigit c then byte c - 48
      else if 65 \<le> byte c \<and> byte c \<le> 70 then byte c - 55
      else if 97 \<le> byte c \<and> byte c \<le> 102 then byte c - 87
      else 16)"

definition is_digit_of :: "nat \<Rightarrow> char \<Rightarrow> bool" where
  "is_digit_of b c \<longleftrightarrow> digit_val c < b"

definition digits_val :: "nat \<Rightarrow> string \<Rightarrow> nat" where
  "digits_val b s = foldl (\<lambda>acc c. acc * b + digit_val c) 0 s"

definition read_digits :: "nat \<Rightarrow> string \<Rightarrow> nat option" where
  "read_digits b s =
     (let ds = takeWhile (is_digit_of b) s in if ds = [] then None else Some (digits_val b ds))"

text \<open>The optional prefix \<open>0x\<close> of a base 16 number, taken only when a digit follows.\<close>

definition skip_hex_prefix :: "nat \<Rightarrow> string \<Rightarrow> string" where
  "skip_hex_prefix b s =
     (case s of
        c # x # d # rest \<Rightarrow>
          if b = 16 \<and> c = CHR ''0'' \<and> (x = CHR ''x'' \<or> x = CHR ''X'') \<and> is_digit_of 16 d
          then d # rest else s
      | _ \<Rightarrow> s)"

definition read_signed :: "nat \<Rightarrow> string \<Rightarrow> (bool \<times> nat) option" where
  "read_signed b s =
     (case dropWhile c_isspace s of
        [] \<Rightarrow> None
      | c # rest \<Rightarrow>
          if c = CHR ''-'' then map_option (Pair True) (read_digits b (skip_hex_prefix b rest))
          else if c = CHR ''+'' then map_option (Pair False) (read_digits b (skip_hex_prefix b rest))
          else map_option (Pair False) (read_digits b (skip_hex_prefix b (c # rest))))"

text \<open>\<open>strtol\<close>: 0 without digits, clamped to the range of \<open>long\<close>.\<close>

definition strtol :: "nat \<Rightarrow> string \<Rightarrow> int" where
  "strtol b s =
     (case read_signed b s of
        None \<Rightarrow> 0
      | Some (neg, n) \<Rightarrow>
          max (- 9223372036854775808) (min 9223372036854775807 (if neg then - int n else int n)))"

definition atoi :: "string \<Rightarrow> int" where
  "atoi s = to_int32 (strtol 10 s)"

text \<open>\<open>std::stoull\<close>: an exception without digits or out of range; a minus sign negates modulo
  \<open>2 ^ 64\<close>, as \<open>strtoull\<close> does.\<close>

definition stoull :: "string \<Rightarrow> nat result" where
  "stoull s =
     (case read_signed 10 s of
        None \<Rightarrow> Inl (Exception ''invalid_argument'')
      | Some (neg, n) \<Rightarrow>
          if 18446744073709551616 \<le> n then Inl (Exception ''out_of_range'')
          else if neg then Inr ((18446744073709551616 - n) mod 18446744073709551616)
          else Inr n)"

section \<open>Reading what was printed\<close>

lemma byte_digit_char: "n < 16 \<Longrightarrow> byte (digit_char n) = (if n < 10 then 48 + n else 55 + n)"
  by (simp add: digit_char_def byte_byte_char)

lemma digit_val_char [simp]: "n < 16 \<Longrightarrow> digit_val (digit_char n) = n"
  by (simp add: digit_val_def c_isdigit_def byte_digit_char)

lemma digit_char_class:
  "n < 16 \<Longrightarrow> \<not> c_isspace (digit_char n)"
  "n < 16 \<Longrightarrow> digit_char n \<noteq> CHR ''-''"
  "n < 16 \<Longrightarrow> digit_char n \<noteq> CHR ''+''"
  "n < 16 \<Longrightarrow> digit_char n \<noteq> CHR '' ''"
  "n < 16 \<Longrightarrow> digit_char n \<noteq> CHR '':''"
  by (auto simp: c_isspace_def byte_digit_char byte_inj [symmetric])
     (simp_all add: byte_def)

lemma digits_of_small: "n < b \<Longrightarrow> digits_of b n = [digit_char n]"
  by (subst digits_of.simps) simp

lemma digits_of_step:
  "2 \<le> b \<Longrightarrow> \<not> n < b \<Longrightarrow> digits_of b n = digits_of b (n div b) @ [digit_char (n mod b)]"
  by (subst digits_of.simps) simp

lemma digits_of_nonempty [simp]: "digits_of b n \<noteq> []"
  by (subst digits_of.simps) simp

lemma set_digits_of:
  "2 \<le> b \<Longrightarrow> c \<in> set (digits_of b n) \<Longrightarrow> \<exists>k<b. c = digit_char k"
proof (induction b n rule: digits_of.induct)
  case (1 b n)
  show ?case
  proof (cases "n < b")
    case True
    with 1(3) show ?thesis by (auto simp: digits_of_small)
  next
    case False
    have "\<not> (b < 2 \<or> n < b)" using False 1(2) by simp
    note ih = 1(1) [OF this 1(2)]
    from 1(3) have "c \<in> set (digits_of b (n div b)) \<or> c = digit_char (n mod b)"
      using False 1(2) by (auto simp: digits_of_step)
    then show ?thesis
    proof
      assume "c = digit_char (n mod b)"
      then show ?thesis using 1(2) by (intro exI [of _ "n mod b"]) simp
    qed (rule ih)
  qed
qed

lemma digits_val_append [simp]: "digits_val b (xs @ [c]) = digits_val b xs * b + digit_val c"
  by (simp add: digits_val_def)

lemma digits_val_digits_of: "2 \<le> b \<Longrightarrow> b \<le> 16 \<Longrightarrow> digits_val b (digits_of b n) = n"
proof (induction b n rule: digits_of.induct)
  case (1 b n)
  show ?case
  proof (cases "n < b")
    case True
    with 1(3) show ?thesis by (simp add: digits_of_small digits_val_def)
  next
    case False
    have g: "\<not> (b < 2 \<or> n < b)" using False 1(2) by simp
    have "n mod b < b" using 1(2) by simp
    then have "n mod b < 16" using 1(3) by linarith
    then show ?thesis
      using 1(1) [OF g 1(2,3)] False 1(2) by (simp add: digits_of_step)
  qed
qed

lemma all_digits_of: "2 \<le> b \<Longrightarrow> b \<le> 16 \<Longrightarrow> c \<in> set (digits_of b n) \<Longrightarrow> is_digit_of b c"
  by (auto dest!: set_digits_of simp: is_digit_of_def)

lemma read_digits_digits_of:
  assumes "2 \<le> b" "b \<le> 16" and "rest = [] \<or> \<not> is_digit_of b (hd rest)"
  shows "read_digits b (digits_of b n @ rest) = Some n"
proof -
  have "takeWhile (is_digit_of b) (digits_of b n @ rest) = digits_of b n"
    using all_digits_of [OF assms(1,2)] assms(3)
    by (cases rest) (auto simp: takeWhile_append2 intro: takeWhile_eq_all_conv [THEN iffD2])
  then show ?thesis by (simp add: read_digits_def digits_val_digits_of assms)
qed

lemma skip_hex_prefix_id:
  "CHR ''x'' \<notin> set (take 2 s) \<Longrightarrow> CHR ''X'' \<notin> set (take 2 s) \<Longrightarrow> skip_hex_prefix b s = s"
  by (auto simp: skip_hex_prefix_def numeral_2_eq_2 split: list.splits)

lemma read_signed_digits_of:
  assumes "2 \<le> b" "b \<le> 16" and "rest = [] \<or> \<not> is_digit_of b (hd rest)"
    and "\<forall>c\<in>set pre. c_isspace c" and "b = 16 \<Longrightarrow> CHR ''x'' \<notin> set rest \<and> CHR ''X'' \<notin> set rest"
  shows "read_signed b (pre @ digits_of b n @ rest) = Some (False, n)"
proof -
  obtain c cs where ds: "digits_of b n = c # cs" by (cases "digits_of b n") auto
  then have "c \<in> set (digits_of b n)" by simp
  with set_digits_of assms(1,2) obtain k where k: "c = digit_char k" "k < 16" by (metis less_le_trans)
  have sp: "\<not> c_isspace c" "c \<noteq> CHR ''-''" "c \<noteq> CHR ''+''"
    using digit_char_class k by auto
  have dw: "dropWhile c_isspace (pre @ digits_of b n @ rest) = digits_of b n @ rest"
    using assms(4) sp(1) ds by (simp add: dropWhile_append2)
  have hx: "skip_hex_prefix b (digits_of b n @ rest) = digits_of b n @ rest"
  proof (cases "b = 16")
    case True
    have "CHR ''x'' \<notin> set (digits_of b n) \<and> CHR ''X'' \<notin> set (digits_of b n)"
    proof -
      have "\<not> is_digit_of b CHR ''x''" "\<not> is_digit_of b CHR ''X''"
        using assms(2) by (auto simp: is_digit_of_def digit_val_def c_isdigit_def byte_def)
      then show ?thesis using all_digits_of assms(1,2) by blast
    qed
    then show ?thesis using assms(5) True
      by (intro skip_hex_prefix_id) (auto dest!: in_set_takeD)
  next
    case False
    then show ?thesis by (auto simp: skip_hex_prefix_def split: list.splits)
  qed
  show ?thesis
    using dw hx sp read_digits_digits_of [OF assms(1-3), of n]
    by (simp add: read_signed_def ds)
qed

lemma stoull_to_string:
  assumes "\<forall>c\<in>set pre. c_isspace c" and "n < 18446744073709551616"
  shows "stoull (pre @ to_string n) = Inr n"
  using read_signed_digits_of [of 10 "[]" pre n] assms by (simp add: stoull_def to_string_def)

lemma strtol_digits_of:
  assumes "b = 10 \<or> b = 16" and "n < 9223372036854775808"
  shows "strtol b (digits_of b n) = int n"
  using read_signed_digits_of [of b "[]" "[]" n] assms by (auto simp: strtol_def)

lemma atoi_to_string: "n < 2147483648 \<Longrightarrow> atoi (to_string n) = int n"
  by (simp add: atoi_def to_string_def strtol_digits_of to_int32_id)

lemma set_to_string: "c \<in> set (to_string n) \<Longrightarrow> c_isdigit c"
  by (auto dest!: set_digits_of [of 10, simplified] simp: to_string_def c_isdigit_def byte_digit_char)

lemma to_string_nonempty [simp]: "to_string n \<noteq> []"
  by (simp add: to_string_def)

end
