(* ===== verification/HttpUtils.thy ===== *)
theory HttpUtils
  imports HttpTypes StringUtils Numbers
begin

text \<open>
  \<open>src/http/HttpUtils.{h,cpp}\<close>: the tables of status codes, messages, methods and content
  types, the trimming of white space, and URL encoding and decoding. The tables are the
  source's initialiser lists, searched as \<open>std::unordered_map::find\<close> does. The theory ends
  with the contract of the URL codec, the locale \<open>url_codec\<close>.
\<close>

section \<open>Status codes\<close>

definition status_code_table :: "(int \<times> HttpStatusCode) list" where
  "status_code_table =
    [(0, kUnknown),
     (100, k100Continue),
     (101, k101SwitchingProtocols),
     (200, k200OK),
     (201, k201Created),
     (202, k202Accepted),
     (203, k203NonAuthoritativeInformation),
     (204, k204NoContent),
     (205, k205ResetContent),
     (206, k206PartialContent),
     (300, k300MultipleChoices),
     (301, k301MovedPermanently),
     (302, k302Found),
     (303, k303SeeOther),
     (304, k304NotModified),
     (305, k305UseProxy),
     (307, k307TemporaryRedirect),
     (308, k308PermanentRedirect),
     (400, k400BadRequest),
     (401, k401Unauthorized),
     (402, k402PaymentRequired),
     (403, k403Forbidden),
     (404, k404NotFound),
     (405, k405MethodNotAllowed),
     (406, k406NotAcceptable),
     (407, k407ProxyAuthenticationRequired),
     (408, k408RequestTimeout),
     (409, k409Conflict),
     (410, k410Gone),
     (411, k411LengthRequired),
     (412, k412PreconditionFailed),
     (413, k413RequestEntityTooLarge),
     (414, k414RequestURITooLarge),
     (415, k415UnsupportedMediaType),
     (416, k416RequestedRangeNotSatisfiable),
     (417, k417ExpectationFailed),
     (418, k418ImATeapot),
     (421, k421MisdirectedRequest),
     (425, k425TooEarly),
     (426, k426UpgradeRequired),
     (428, k428PreconditionRequired),
     (429, k429TooManyRequests),
     (431, k431RequestHeaderFieldsTooLarge),
     (451, k451UnavailableForLegalReasons),
     (500, k500InternalServerError),
     (501, k501NotImplemented),
     (502, k502BadGateway),
     (503, k503ServiceUnavailable),
     (504, k504GatewayTimeout),
     (505, k505HTTPVersionNotSupported),
     (510, k510NotExtended)]"

definition ParseStatusCode :: "int \<Rightarrow> HttpStatusCode" where
  "ParseStatusCode code =
     (case map_of status_code_table code of Some c \<Rightarrow> c | None \<Rightarrow> kUnknown)"

definition status_message_table :: "(int \<times> string) list" where
  "status_message_table =
    [(0, ''unknown''),
     (100, ''Continue''),
     (101, ''Switching Protocols''),
     (200, ''OK''),
     (201, ''Created''),
     (202, ''Accepted''),
     (203, ''Non Authoritative Information''),
     (204, ''No Content''),
     (205, ''Reset Content''),
     (206, ''Partial Content''),
     (300, ''Multiple Choices''),
     (301, ''Moved Permanently''),
     (302, ''Found''),
     (303, ''See Other''),
     (304, ''Not Modified''),
     (305, ''Use Proxy''),
     (307, ''Temporary Redirect''),
     (308, ''Permanent Redirect''),
     (400, ''Bad Request''),
     (401, ''Unauthorized''),
     (402, ''Payment Required''),
     (403, ''Forbidden''),
     (404, ''Not Found''),
     (405, ''Method Not Allowed''),
     (406, ''Not Acceptable''),
     (407, ''Proxy Authentication Required''),
     (408, ''Request Timeout''),
     (409, ''Conflict''),
     (410, ''Gone''),
     (411, ''Length Required''),
     (412, ''Precondition Failed''),
     (413, ''Request Entity Too Large''),
     (414, ''Request URI Too Large''),
     (415, ''Unsupported Media Type''),
     (416, ''Requested Range Not Satisfiable''),
     (417, ''Expectation Failed''),
     (418, ''Im A Teapot''),
     (421, ''Misdirected Request''),
     (425, ''Too Early''),
     (426, ''Upgrade Required''),
     (428, ''Precondition Required''),
     (429, ''Too Many Requests''),
     (431, ''Request Header Fields Too Large''),
     (451, ''Unavailable For Legal Reasons''),
     (500, ''Internal Server Error''),
     (501, ''Not Implemented''),
     (502, ''Bad Gateway''),
     (503, ''Service Unavailable''),
     (504, ''Gateway Timeout''),
     (505, ''HTTP Version Not Supported''),
     (510, ''Not Extended'')]"

definition ParseStatusMessage :: "int \<Rightarrow> string" where
  "ParseStatusMessage code =
     (case map_of status_message_table code of Some m \<Rightarrow> m | None \<Rightarrow> ''unknown'')"

text \<open>The \<open>switch\<close> of \<open>StatusCodeToString\<close>, its cases and its default branch.\<close>

definition status_string_cases :: "(int \<times> string) list" where
  "status_string_cases =
    [(100, ''Continue''),
     (101, ''Switching Protocols''),
     (200, ''OK''),
     (201, ''Created''),
     (202, ''Accepted''),
     (203, ''Non-Authoritative Information''),
     (204, ''No Content''),
     (205, ''Reset Content''),
     (206, ''Partial Content''),
     (300, ''Multiple Choices''),
     (301, ''Moved Permanently''),
     (302, ''Found''),
     (303, ''See Other''),
     (304, ''Not Modified''),
     (305, ''Use Proxy''),
     (307, ''Temporary Redirect''),
     (308, ''Permanent Redirect''),
     (400, ''Bad Request''),
     (401, ''Unauthorized''),
     (402, ''Payment Required''),
     (403, ''Forbidden''),
     (404, ''Not Found''),
     (405, ''Method Not Allowed''),
     (406, ''Not Acceptable''),
     (407, ''Proxy Authentication Required''),
     (408, ''Request Time-out''),
     (409, ''Conflict''),
     (410, ''Gone''),
     (411, ''Length Required''),
     (412, ''Precondition Failed''),
     (413, ''Request Entity Too Large''),
     (414, ''Request-URI Too Large''),
     (415, ''Unsupported Media Type''),
     (416, ''Requested Range Not Satisfiable''),
     (417, ''Expectation Failed''),
     (418, ''I'' @ CHR 0x27 # ''m a Teapot''),
     (421, ''Misdirected Request''),
     (425, ''Too Early''),
     (426, ''Upgrade Required''),
     (428, ''Precondition Required''),
     (429, ''Too Many Requests''),
     (431, ''Request Header Fields Too Large''),
     (451, ''Unavailable For Legal Reasons''),
     (500, ''Internal Server Error''),
     (501, ''Not Implemented''),
     (502, ''Bad Gateway''),
     (503, ''Service Unavailable''),
     (504, ''Gateway Time-out''),
     (505, ''HTTP Version Not Supported''),
     (510, ''Not Extended'')]"

definition StatusCodeToString :: "int \<Rightarrow> string" where
  "StatusCodeToString code =
     (case map_of status_string_cases code of
        Some m \<Rightarrow> m
      | None \<Rightarrow>
          if 100 \<le> code \<and> code < 200 then ''Informational''
          else if 200 \<le> code \<and> code < 300 then ''Successful''
          else if 300 \<le> code \<and> code < 400 then ''Redirection''
          else if 400 \<le> code \<and> code < 500 then ''Bad Request''
          else if 500 \<le> code \<and> code < 600 then ''Server Error''
          else ''Undefined Error'')"

section \<open>Methods and content types\<close>

definition method_table :: "(string \<times> HttpMethod) list" where
  "method_table =
    [(''GET'', kGet), (''PUT'', kPut), (''POST'', kPost), (''HEAD'', kHead),
     (''DELETE'', kDelete), (''OPTIONS'', kOptions)]"

definition ParseMethod :: "string \<Rightarrow> HttpMethod" where
  "ParseMethod method = (case map_of method_table method of Some m \<Rightarrow> m | None \<Rightarrow> kInvalid)"

fun ContentTypeToString :: "ContentType \<Rightarrow> string" where
  "ContentTypeToString kContentTypeTextHTML = ''Content-Type: text/html; charset=utf-8'' @ [CR, LF]"
| "ContentTypeToString kContentTypeAppXForm = ''Content-Type: application/x-www-form-urlencoded'' @ [CR, LF]"
| "ContentTypeToString kContentTypeTextXML = ''Content-Type: text/xml; charset=utf-8'' @ [CR, LF]"
| "ContentTypeToString kContentTypeAppXML = ''Content-Type: application/xml; charset=utf-8'' @ [CR, LF]"
| "ContentTypeToString kContentTypeAppJson = ''Content-Type: application/json; charset=utf-8'' @ [CR, LF]"
| "ContentTypeToString kContentTypeAppMpegUrl = ''Content-Type: application/vnd.apple.mpegurl'' @ [CR, LF]"
| "ContentTypeToString kContentTypeVideoMP2T = ''Content-Type: video/MP2T'' @ [CR, LF]"
| "ContentTypeToString kContentTypeVideoXFlv = ''Content-Type: video/x-flv'' @ [CR, LF]"
| "ContentTypeToString kContentTypeNONE = []"
| "ContentTypeToString kContentTypeTextPlain = ''Content-Type: text/plain; charset=utf-8'' @ [CR, LF]"

text \<open>The cases 2, 3 and 4 of the \<open>switch\<close> fall through when the extension does not match.\<close>

definition GetContentType :: "string \<Rightarrow> ContentType" where
  "GetContentType fileName =
     (let extName = (case rfind_index (\<lambda>c. c = CHR ''.'') fileName of
                       Some pos \<Rightarrow> tolower_str (drop (pos + 1) fileName)
                     | None \<Rightarrow> []);
          n = length extName
      in if n = 0 then kContentTypeNONE
         else if n = 2 \<and> extName = ''ts'' then kContentTypeVideoMP2T
         else if (n = 2 \<or> n = 3) \<and> extName = ''flv'' then kContentTypeVideoXFlv
         else if (n = 2 \<or> n = 3 \<or> n = 4) \<and> extName = ''html'' then kContentTypeTextHTML
         else kContentTypeTextPlain)"

definition content_type_table :: "(string \<times> ContentType) list" where
  "content_type_table =
    [(''text/html'', kContentTypeTextHTML),
     (''application/x-www-form-urlencoded'', kContentTypeAppXForm),
     (''application/xml'', kContentTypeAppXML),
     (''application/json'', kContentTypeAppJson),
     (''text/plain'', kContentTypeTextPlain)]"

definition ParseContentType :: "string \<Rightarrow> ContentType" where
  "ParseContentType contentType =
     (case map_of content_type_table contentType of None \<Rightarrow> kContentTypeNONE | Some t \<Rightarrow> t)"

section \<open>Trimming\<close>

definition ltrim :: "string \<Rightarrow> string" where
  "ltrim str = (case find_index (\<lambda>c. \<not> c_isspace c) str of Some p \<Rightarrow> drop p str | None \<Rightarrow> [])"

definition rtrim :: "string \<Rightarrow> string" where
  "rtrim str =
     (case rfind_index (\<lambda>c. \<not> c_isspace c) str of Some p \<Rightarrow> take (p + 1) str | None \<Rightarrow> [])"

definition Trim :: "string \<Rightarrow> string" where
  "Trim str = ltrim (rtrim str)"

section \<open>URL encoding\<close>

definition CharToHex :: "char \<Rightarrow> string" where
  "CharToHex c =
     (let first = byte c div 16; second = byte c mod 16
      in [byte_char (first + (if first > 9 then 65 - 10 else 48)),
          byte_char (second + (if second > 9 then 65 - 10 else 48))])"

text \<open>The characters \<open>UrlEncode\<close> copies: letters, digits and the listed marks.\<close>

definition url_marks :: string where
  "url_marks = ''-_.!~*()&=/?'' @ [CHR 0x27, CHR 0x5C]"

definition url_plain :: "char \<Rightarrow> bool" where
  "url_plain c \<longleftrightarrow> (65 \<le> byte c \<and> byte c \<le> 90) \<or> (97 \<le> byte c \<and> byte c \<le> 122) \<or> c_isdigit c
     \<or> c \<in> set url_marks"

fun UrlEncode :: "string \<Rightarrow> string" where
  "UrlEncode [] = []"
| "UrlEncode (c # src) =
     (if c = CHR '' '' then CHR ''+'' # UrlEncode src
      else if url_plain c then c # UrlEncode src
      else CHR ''%'' # CharToHex c @ UrlEncode src)"

definition NeedUrlDecoding :: "string \<Rightarrow> bool" where
  "NeedUrlDecoding url \<longleftrightarrow> find_index (\<lambda>c. c = CHR ''+'' \<or> c = CHR ''%'') url \<noteq> None"

fun UrlDecode :: "string \<Rightarrow> string" where
  "UrlDecode [] = []"
| "UrlDecode [c] = (if c = CHR ''+'' then [CHR '' ''] else [c])"
| "UrlDecode [c, d] =
     (if c = CHR ''+'' then CHR '' '' # UrlDecode [d] else c # UrlDecode [d])"
| "UrlDecode (c # h # l # url) =
     (if c = CHR ''+'' then CHR '' '' # UrlDecode (h # l # url)
      else if c = CHR ''%'' \<and> c_isxdigit h \<and> c_isxdigit l
      then byte_char ((digit_val h * 16 + digit_val l) mod 256) # UrlDecode url
      else c # UrlDecode (h # l # url))"

section \<open>Facts about the tables\<close>

lemma status_tables_same_codes: "map fst status_message_table = map fst status_code_table"
  by (simp add: status_message_table_def status_code_table_def)

lemma distinct_status_codes: "distinct (map fst status_code_table)"
  by code_simp

lemma status_code_entry: "(status_value c, c) \<in> set status_code_table"
  by (cases c; simp only: status_value.simps status_code_table_def list.set insert_iff simp_thms)

lemma ParseStatusCode_value [simp]: "ParseStatusCode (status_value c) = c"
  by (simp add: ParseStatusCode_def map_of_is_SomeI [OF distinct_status_codes status_code_entry])

lemma status_value_table: "\<forall>(n, c) \<in> set status_code_table. status_value c = n"
  by (simp add: status_code_table_def)

lemma map_of_same_keys: "map fst xs = map fst ys \<Longrightarrow> map_of xs k = None \<longleftrightarrow> map_of ys k = None"
  by (metis map_of_eq_None_iff list.set_map)

lemma status_message_unknown:
  "ParseStatusMessage code = ''unknown'' \<longleftrightarrow> ParseStatusCode code = kUnknown"
proof -
  have m: "\<forall>(n, s) \<in> set status_message_table. s = ''unknown'' \<longleftrightarrow> n = 0"
    by (simp add: status_message_table_def)
  have c: "\<forall>(n, s) \<in> set status_code_table. s = kUnknown \<longleftrightarrow> n = 0"
    by (simp add: status_code_table_def)
  note keys = map_of_same_keys [OF status_tables_same_codes, of code]
  show ?thesis
  proof (cases "map_of status_code_table code")
    case None
    then have "map_of status_message_table code = None" using keys by blast
    then show ?thesis
      unfolding ParseStatusMessage_def ParseStatusCode_def None by (simp only: option.case simp_thms)
  next
    case (Some k)
    then obtain t where t: "map_of status_message_table code = Some t"
      using keys by (metis not_Some_eq)
    have "t = ''unknown'' \<longleftrightarrow> k = kUnknown"
      using case_prodD [OF bspec [OF m map_of_SomeD [OF t]]] case_prodD [OF bspec [OF c map_of_SomeD [OF Some]]]
      by (simp only:)
    then show ?thesis
      unfolding ParseStatusMessage_def ParseStatusCode_def Some t by (simp only: option.case simp_thms)
  qed
qed

text \<open>Where the two message tables of the file differ.\<close>

definition message_differs :: "int list" where
  "message_differs = [0, 203, 408, 414, 418, 504]"

lemma StatusCodeToString_table:
  "list_all (\<lambda>(n, m). StatusCodeToString n = m \<longleftrightarrow> n \<notin> set message_differs) status_message_table"
  by code_simp

text \<open>A method that is parsed prints back to the text it came from, all but \<open>PATCH\<close>.\<close>

lemma ParseMethod_kPatch: "ParseMethod m \<noteq> kPatch"
proof (cases "map_of method_table m")
  case (Some x)
  then have "x \<in> snd ` set method_table" by (force dest: map_of_SomeD)
  with Some show ?thesis by (auto simp: ParseMethod_def method_table_def)
qed (simp add: ParseMethod_def)

section \<open>Trimming removes exactly the outer white space\<close>

lemma ltrim_dropWhile: "ltrim s = dropWhile c_isspace s"
proof (cases "find_index (\<lambda>c. \<not> c_isspace c) s")
  case None
  then have "\<forall>x\<in>set s. c_isspace x" by (simp add: find_index_None_iff)
  then have "dropWhile c_isspace s = []" unfolding dropWhile_eq_Nil_conv .
  then show ?thesis by (simp only: ltrim_def None option.case)
next
  case (Some i)
  from find_index_SomeD [OF this] have i: "i < length s" "\<not> c_isspace (s ! i)"
    "\<forall>x\<in>set (take i s). c_isspace x" by auto
  then have "s = take i s @ s ! i # drop (Suc i) s" by (metis id_take_nth_drop)
  with i have "dropWhile c_isspace s = s ! i # drop (Suc i) s"
    by (metis dropWhile.simps(2) dropWhile_append2)
  then show ?thesis using Some i by (simp add: ltrim_def Cons_nth_drop_Suc)
qed

lemma rtrim_rev: "rtrim s = rev (dropWhile c_isspace (rev s))"
proof (cases "rfind_index (\<lambda>c. \<not> c_isspace c) s")
  case None
  then have "\<forall>x\<in>set (rev s). c_isspace x" by (simp add: rfind_index_None_iff)
  then have "dropWhile c_isspace (rev s) = []" unfolding dropWhile_eq_Nil_conv .
  then show ?thesis by (simp only: rtrim_def None option.case rev.simps)
next
  case (Some i)
  then obtain ys y zs where s: "s = ys @ y # zs" "length ys = i" "\<not> c_isspace y" "\<forall>x\<in>set zs. c_isspace x"
    by (auto elim: rfind_index_SomeE)
  then have "dropWhile c_isspace (rev s) = y # rev ys"
    using dropWhile_append2 [of "rev zs" c_isspace "y # rev ys"] by auto
  with s Some show ?thesis by (simp add: rtrim_def)
qed

lemma rtrim_decomp: "\<exists>post. s = rtrim s @ post \<and> (\<forall>c\<in>set post. c_isspace c)"
proof -
  have "rev s = takeWhile c_isspace (rev s) @ dropWhile c_isspace (rev s)" by simp
  then have "s = rev (dropWhile c_isspace (rev s)) @ rev (takeWhile c_isspace (rev s))"
    by (metis rev_append rev_rev_ident)
  then show ?thesis by (metis rtrim_rev set_rev set_takeWhileD)
qed

lemma rtrim_last: "rtrim s \<noteq> [] \<Longrightarrow> \<not> c_isspace (last (rtrim s))"
  by (simp add: rtrim_rev last_rev hd_dropWhile)

lemma Trim_decomp:
  "\<exists>pre post. s = pre @ Trim s @ post \<and> (\<forall>c\<in>set (pre @ post). c_isspace c)"
proof -
  obtain post where p: "s = rtrim s @ post" "\<forall>c\<in>set post. c_isspace c" using rtrim_decomp by blast
  let ?pre = "takeWhile c_isspace (rtrim s)"
  have "rtrim s = ?pre @ Trim s" by (simp add: Trim_def ltrim_dropWhile)
  moreover have "\<forall>c\<in>set ?pre. c_isspace c" by (auto dest: set_takeWhileD)
  ultimately have "s = ?pre @ Trim s @ post" "\<forall>c\<in>set (?pre @ post). c_isspace c"
    using p by (metis append.assoc, auto)
  then show ?thesis by blast
qed

lemma Trim_ends: "Trim s \<noteq> [] \<Longrightarrow> \<not> c_isspace (hd (Trim s)) \<and> \<not> c_isspace (last (Trim s))"
proof -
  assume ne: "Trim s \<noteq> []"
  then have "\<not> c_isspace (hd (Trim s))" by (simp add: Trim_def ltrim_dropWhile hd_dropWhile)
  moreover have "last (Trim s) = last (rtrim s)"
    using ne by (metis Trim_def ltrim_dropWhile last_appendR takeWhile_dropWhile_id)
  moreover have "rtrim s \<noteq> []" using ne by (auto simp: Trim_def ltrim_dropWhile)
  ultimately show ?thesis using rtrim_last by simp
qed

lemma Trim_id:
  assumes "s \<noteq> [] \<Longrightarrow> \<not> c_isspace (hd s) \<and> \<not> c_isspace (last s)"
  shows "Trim s = s"
proof (cases "s = []")
  case False
  then obtain c cs where r: "rev s = c # cs" by (cases "rev s") auto
  then have "c = last s" by (metis hd_rev list.sel(1))
  with assms False have "\<not> c_isspace c" by simp
  then have "dropWhile c_isspace (rev s) = rev s" using r by simp
  then have "rtrim s = s" by (simp add: rtrim_rev)
  moreover have "dropWhile c_isspace s = s" using assms False by (cases s) auto
  ultimately show ?thesis by (simp add: Trim_def ltrim_dropWhile)
qed (simp add: Trim_def ltrim_dropWhile rtrim_rev)

section \<open>The URL codec\<close>

lemma CharToHex_digits: "CharToHex c = [digit_char (byte c div 16), digit_char (byte c mod 16)]"
  by (simp add: CharToHex_def digit_char_def Let_def add.commute)

lemma hex_digit: "n < 16 \<Longrightarrow> c_isxdigit (digit_char n)"
  by (auto simp: c_isxdigit_def c_isdigit_def byte_digit_char)

lemma byte_div_16: "byte c div 16 < 16"
  using byte_lt [of c] by linarith

lemma UrlDecode_plain:
  "c \<noteq> CHR ''+'' \<Longrightarrow> c \<noteq> CHR ''%'' \<Longrightarrow> UrlDecode (c # s) = c # UrlDecode s"
  by (cases s rule: UrlDecode.cases) auto

lemma UrlDecode_plus: "UrlDecode (CHR ''+'' # s) = CHR '' '' # UrlDecode s"
  by (cases s rule: UrlDecode.cases) auto

lemma UrlDecode_hex:
  "UrlDecode (CHR ''%'' # CharToHex c @ s) = c # UrlDecode s"
proof -
  have "byte c div 16 * 16 + byte c mod 16 = byte c" by simp
  then show ?thesis
    by (simp add: CharToHex_digits hex_digit byte_div_16)
qed

lemma url_plain_not_escape: "url_plain c \<Longrightarrow> c \<noteq> CHR ''+'' \<and> c \<noteq> CHR ''%'' \<and> c \<noteq> CHR '' ''"
  by (auto simp: url_plain_def url_marks_def c_isdigit_def byte_def)

lemma UrlDecode_UrlEncode: "UrlDecode (UrlEncode s) = s"
  by (induction s)
    (auto simp: UrlDecode_plus UrlDecode_hex UrlDecode_plain url_plain_not_escape)

lemma UrlDecode_id: "\<not> NeedUrlDecoding s \<Longrightarrow> UrlDecode s = s"
  unfolding NeedUrlDecoding_def
  by (induction s) (auto simp: UrlDecode_plain split: if_splits)

lemma digit_char_plain: "n < 16 \<Longrightarrow> url_plain (digit_char n)"
  by (auto simp: url_plain_def c_isdigit_def byte_digit_char)

lemma set_UrlEncode:
  "c \<in> set (UrlEncode s) \<Longrightarrow> url_plain c \<or> c = CHR ''+'' \<or> c = CHR ''%''"
  by (induction s) (auto simp: CharToHex_digits digit_char_plain byte_div_16 split: if_splits)

lemma url_plain_printable: "url_plain c \<Longrightarrow> 33 \<le> byte c \<and> byte c \<le> 126"
  by (auto simp: url_plain_def url_marks_def c_isdigit_def byte_def)

lemma UrlEncode_printable: "c \<in> set (UrlEncode s) \<Longrightarrow> 33 \<le> byte c \<and> byte c \<le> 126"
  by (drule set_UrlEncode) (auto dest: url_plain_printable simp: byte_def)

lemma UrlEncode_eq_Nil [simp]: "UrlEncode s = [] \<longleftrightarrow> s = []"
  by (cases s) auto

text \<open>
  The contract the request objects use: decoding inverts encoding, and text without escapes
  is its own decoding, so a caller may skip decoding when \<open>need\<close> says it is not needed.
\<close>

locale url_codec =
  fixes enc :: "string \<Rightarrow> string" and dec :: "string \<Rightarrow> string" and need :: "string \<Rightarrow> bool"
  assumes dec_enc: "dec (enc s) = s"
    and dec_plain: "\<not> need s \<Longrightarrow> dec s = s"
begin

lemma enc_inj: "enc s = enc t \<longleftrightarrow> s = t"
  by (metis dec_enc)

lemma dec_when_needed: "(if need s then dec s else s) = dec s"
  by (simp add: dec_plain)

lemma received: "(if need (enc s) then dec (enc s) else enc s) = s"
  by (simp add: dec_when_needed dec_enc)

end

interpretation url: url_codec UrlEncode UrlDecode NeedUrlDecoding
  by unfold_locales (simp_all add: UrlDecode_UrlEncode UrlDecode_id)

section \<open>Properties\<close>

text \<open>C38: URL encoding is inverted by decoding on every byte string, its output is printable ASCII
  without blanks, and the decoder is only called where there is something to decode.\<close>

theorem url_roundtrip:
  "UrlDecode (UrlEncode s) = s \<and> (\<forall>c\<in>set (UrlEncode s). 33 \<le> byte c \<and> byte c \<le> 126) \<and>
     (if NeedUrlDecoding (UrlEncode s) then UrlDecode (UrlEncode s) else UrlEncode s) = s"
  using UrlDecode_UrlEncode UrlEncode_printable url.received by blast

theorem url_roundtrip_witness:
  "UrlDecode (UrlEncode ''a b%'') = ''a b%'' \<and> list_all (\<lambda>c. 33 \<le> byte c) (UrlEncode ''a b%'')"
  unfolding list_all_iff using url_roundtrip [of "''a b%''"] by blast

text \<open>\<open>Trim\<close> removes blanks only, at the two ends only, and all of them; trimming twice is
  trimming once.\<close>

theorem Trim_correct:
  "(\<exists>pre post. s = pre @ Trim s @ post \<and> (\<forall>c\<in>set (pre @ post). c_isspace c)) \<and>
     (Trim s = [] \<or> \<not> c_isspace (hd (Trim s)) \<and> \<not> c_isspace (last (Trim s))) \<and> Trim (Trim s) = Trim s"
  using Trim_decomp [of s] Trim_ends [of s] Trim_id [of "Trim s"] by blast

theorem Trim_correct_witness:
  "Trim (Trim '' a b '') = Trim '' a b '' \<and> Trim '' a b '' = ''a b''"
proof
  show "Trim (Trim '' a b '') = Trim '' a b ''" using Trim_correct by blast
  show "Trim '' a b '' = ''a b''" by code_simp
qed

text \<open>The status tables: every code of the enumeration is parsed back from its number, a number
  gets the message "unknown" exactly when it is not in the table, and the second table of
  messages (\<open>StatusCodeToString\<close>) differs from the first exactly at \<open>message_differs\<close>.\<close>

theorem status_tables:
  "ParseStatusCode (status_value c) = c \<and>
   (ParseStatusMessage n = ''unknown'' \<longleftrightarrow> ParseStatusCode n = kUnknown) \<and>
   list_all (\<lambda>(n, m). StatusCodeToString n = m \<longleftrightarrow> n \<notin> set message_differs) status_message_table"
  using status_message_unknown StatusCodeToString_table by simp

end
