(* ===== verification/HttpRequest.thy ===== *)
theory HttpRequest
  imports HttpUtils "HOL-Library.AList" "HOL-Library.Multiset"
begin

text \<open>
  \<open>src/http/HttpRequest.{h,cpp}\<close>: a request or response message. The two
  \<open>std::unordered_map\<close>s are association lists with distinct keys; where the code iterates
  over one, the order is the container's, so the printing functions take it as the parameter
  \<open>ord\<close>, any rearrangement of the entries (\<open>lawful_order\<close>). The overloads of a setter that
  differ only in moving their argument are one definition.
\<close>

section \<open>State\<close>

record http_request =
  rq_method :: HttpMethod
  rq_version :: Version
  rq_path :: string
  rq_query :: string
  rq_headers :: "(string \<times> string) list"
  rq_parameters :: "(string \<times> string) list"
  rq_body :: string
  rq_code :: nat
  rq_isRequest :: bool
  rq_isStream :: bool
  rq_isChunked :: bool

definition new_HttpRequest :: "bool \<Rightarrow> http_request" where
  "new_HttpRequest isRequest =
     \<lparr>rq_method = kInvalid, rq_version = Version_kUnknown, rq_path = [], rq_query = [],
      rq_headers = [], rq_parameters = [], rq_body = [], rq_code = 0,
      rq_isRequest = isRequest, rq_isStream = False, rq_isChunked = False\<rparr>"

section \<open>Headers\<close>

definition AddHeader :: "string \<Rightarrow> string \<Rightarrow> http_request \<Rightarrow> http_request" where
  "AddHeader field value r = r\<lparr>rq_headers := AList.update (tolower_str field) value (rq_headers r)\<rparr>"

definition RemoveHeader :: "string \<Rightarrow> http_request \<Rightarrow> http_request" where
  "RemoveHeader key r = r\<lparr>rq_headers := AList.delete (tolower_str key) (rq_headers r)\<rparr>"

definition GetHeader :: "http_request \<Rightarrow> string \<Rightarrow> string" where
  "GetHeader r field =
     (case map_of (rq_headers r) (tolower_str field) of Some v \<Rightarrow> v | None \<Rightarrow> [])"

section \<open>Parameters\<close>

definition SetParameter :: "string \<Rightarrow> string \<Rightarrow> http_request \<Rightarrow> http_request" where
  "SetParameter key value r = r\<lparr>rq_parameters := AList.update key value (rq_parameters r)\<rparr>"

definition GetParameter :: "http_request \<Rightarrow> string \<Rightarrow> string" where
  "GetParameter r key = (case map_of (rq_parameters r) key of Some v \<Rightarrow> v | None \<Rightarrow> [])"

fun parse_parameters_loop :: "string list \<Rightarrow> http_request \<Rightarrow> http_request" where
  "parse_parameters_loop [] r = r"
| "parse_parameters_loop (l # ls) r =
     (case find_index (\<lambda>c. c = CHR ''='') l of
        Some pos \<Rightarrow>
          (let k = Trim (substr l 0 pos); v = Trim (drop (pos + 1) l)
           in parse_parameters_loop ls (SetParameter k v r))
      | None \<Rightarrow> parse_parameters_loop ls r)"

definition ParseParameters :: "http_request \<Rightarrow> http_request" where
  "ParseParameters r = parse_parameters_loop (SplitString (rq_query r) ''&'') r"

definition SetQuery :: "string \<Rightarrow> http_request \<Rightarrow> http_request" where
  "SetQuery query r = ParseParameters (r\<lparr>rq_query := query\<rparr>)"

section \<open>The other fields\<close>

definition SetMethod :: "string \<Rightarrow> http_request \<Rightarrow> http_request" where
  "SetMethod method r = r\<lparr>rq_method := ParseMethod method\<rparr>"

definition SetMethod_enum :: "HttpMethod \<Rightarrow> http_request \<Rightarrow> http_request" where
  "SetMethod_enum method r = r\<lparr>rq_method := method\<rparr>"

text \<open>
  \<open>v.compare (0, 6, "HTTP/1.")\<close> compares six characters of \<open>v\<close> with a text of seven, and
  the branch is taken when the result is not zero.
\<close>

definition SetVersion :: "string \<Rightarrow> http_request \<Rightarrow> http_request" where
  "SetVersion v r =
     (let r0 = r\<lparr>rq_version := Version_kUnknown\<rparr>
      in if length v = 8 then
           if substr v 0 6 \<noteq> ''HTTP/1.'' then
             if v ! 7 = CHR ''1'' then r0\<lparr>rq_version := kHttp11\<rparr>
             else if v ! 7 = CHR ''0'' then r0\<lparr>rq_version := kHttp10\<rparr>
             else r0
           else r0
         else r0)"

definition SetVersion_enum :: "Version \<Rightarrow> http_request \<Rightarrow> http_request" where
  "SetVersion_enum v r = r\<lparr>rq_version := v\<rparr>"

definition SetPath :: "string \<Rightarrow> http_request \<Rightarrow> http_request" where
  "SetPath path r =
     (if NeedUrlDecoding path then r\<lparr>rq_path := UrlDecode path\<rparr> else r\<lparr>rq_path := path\<rparr>)"

definition SetStatusCode :: "int \<Rightarrow> http_request \<Rightarrow> http_request" where
  "SetStatusCode code r = r\<lparr>rq_code := to_uint32 code\<rparr>"

definition SetBody :: "string \<Rightarrow> http_request \<Rightarrow> http_request" where
  "SetBody body r = r\<lparr>rq_body := body\<rparr>"

definition SetIsStream :: "bool \<Rightarrow> http_request \<Rightarrow> http_request" where
  "SetIsStream s r = r\<lparr>rq_isStream := s\<rparr>"

definition SetIsChunked :: "bool \<Rightarrow> http_request \<Rightarrow> http_request" where
  "SetIsChunked c r = r\<lparr>rq_isChunked := c\<rparr>"

section \<open>Printing\<close>

type_synonym entry_order = "(string \<times> string) list \<Rightarrow> (string \<times> string) list"

definition lawful_order :: "entry_order \<Rightarrow> bool" where
  "lawful_order ord \<longleftrightarrow> (\<forall>m. mset (ord m) = mset m)"

fun method_text :: "HttpMethod \<Rightarrow> string" where
  "method_text kGet = ''GET ''"
| "method_text kPost = ''POST ''"
| "method_text kHead = ''HEAD ''"
| "method_text kPut = ''PUT ''"
| "method_text kDelete = ''DELETE ''"
| "method_text kOptions = ''OPTIONS ''"
| "method_text kPatch = ''PATCH ''"
| "method_text kInvalid = ''UNKNOW ''"

definition version_text :: "Version \<Rightarrow> string" where
  "version_text v = (if v = kHttp10 then ''HTTP/1.0 '' else ''HTTP/1.1 '')"

fun parameters_text :: "(string \<times> string) list \<Rightarrow> bool \<Rightarrow> string" where
  \<comment> \<open>the flag says that the iterator is at \<open>begin ()\<close>\<close>
  "parameters_text [] first = []"
| "parameters_text ((k, v) # ps) first =
     (if first then k @ ''='' @ v else ''&'' @ k @ ''='' @ v) @ parameters_text ps False"

definition AppendRequestFirstLine :: "entry_order \<Rightarrow> http_request \<Rightarrow> string" where
  "AppendRequestFirstLine ord r =
     (let sss = (if rq_path r \<noteq> [] then rq_path r else ''/'')
              @ (if rq_parameters r \<noteq> [] then ''?'' @ parameters_text (ord (rq_parameters r)) True else [])
      in method_text (rq_method r) @ UrlEncode sss @ '' '' @ version_text (rq_version r) @ [CR, LF])"

definition AppendResponseFirstLine :: "http_request \<Rightarrow> string" where
  "AppendResponseFirstLine r =
     version_text (rq_version r) @ to_string (rq_code r) @ '' ''
       @ ParseStatusMessage (to_int32 (int (rq_code r))) @ [CR, LF]"

fun header_lines :: "(string \<times> string) list \<Rightarrow> string" where
  "header_lines [] = []"
| "header_lines ((k, v) # hs) = k @ '': '' @ v @ [CR, LF] @ header_lines hs"

definition MakeHeaders :: "entry_order \<Rightarrow> http_request \<Rightarrow> string" where
  "MakeHeaders ord r =
     (if rq_isRequest r then AppendRequestFirstLine ord r else AppendResponseFirstLine r)
       @ header_lines (ord (rq_headers r)) @ [CR, LF]"

definition AppendToBuffer :: "entry_order \<Rightarrow> http_request \<Rightarrow> string" where
  "AppendToBuffer ord r = MakeHeaders ord r @ (if rq_body r \<noteq> [] then rq_body r else [])"

section \<open>The contract of the two maps\<close>

text \<open>
  A store of named texts: a later \<open>put\<close> under the same name (up to \<open>norm\<close>) replaces an
  earlier one and leaves every other name alone, and an absent name reads as the empty text.
\<close>

locale named_texts =
  fixes put :: "string \<Rightarrow> string \<Rightarrow> 'r \<Rightarrow> 'r" and get :: "'r \<Rightarrow> string \<Rightarrow> string"
    and norm :: "string \<Rightarrow> string"
  assumes get_put: "get (put k v r) k' = (if norm k = norm k' then v else get r k')"

fun put_all :: "('k \<Rightarrow> 'v \<Rightarrow> 'r \<Rightarrow> 'r) \<Rightarrow> ('k \<times> 'v) list \<Rightarrow> 'r \<Rightarrow> 'r" where
  "put_all put [] r = r"
| "put_all put ((k, v) # kvs) r = put_all put kvs (put k v r)"

context named_texts
begin

lemma get_norm: "norm k = norm k' \<Longrightarrow> get (put j v r) k = get (put j v r) k' \<or> get r k \<noteq> get r k'"
  by (simp add: get_put)

lemma get_put_all_other:
  "\<forall>(k, v)\<in>set kvs. norm k \<noteq> norm k' \<Longrightarrow> get (put_all put kvs r) k' = get r k'"
  by (induction kvs arbitrary: r) (auto simp: get_put)

lemma get_put_all_append:
  "get (put_all put (kvs @ (k, v) # rest) r) k' =
     (if norm k = norm k' \<and> (\<forall>(j, w)\<in>set rest. norm j \<noteq> norm k') then v
      else get (put_all put (kvs @ (k, v) # rest) r) k')"
proof (induction kvs arbitrary: r)
  case Nil
  then show ?case by (simp add: get_put get_put_all_other)
qed auto

lemma get_put_all_last:
  assumes "norm k = norm k'" "\<forall>(j, w)\<in>set rest. norm j \<noteq> norm k'"
  shows "get (put_all put (kvs @ (k, v) # rest) r) k' = v"
  using get_put_all_append [of kvs k v rest r k'] assms by simp

lemma get_put_all_distinct:
  assumes "distinct (map (norm \<circ> fst) kvs)" "(k, v) \<in> set kvs"
  shows "get (put_all put kvs r) k = v"
proof -
  obtain pre post where kvs: "kvs = pre @ (k, v) # post" using assms(2) by (meson split_list)
  have "\<forall>(j, w)\<in>set post. norm j \<noteq> norm k" using assms(1) kvs by (auto simp: image_iff)
  then show ?thesis using kvs get_put_all_last by metis
qed

end

interpretation hdr: named_texts AddHeader GetHeader tolower_str
  by unfold_locales (simp add: AddHeader_def GetHeader_def update_conv')

interpretation prm: named_texts SetParameter GetParameter "\<lambda>k. k"
  by unfold_locales (simp add: SetParameter_def GetParameter_def update_conv')

section \<open>Well-formed messages\<close>

text \<open>Keys are distinct, and header names are kept in lower case.\<close>

definition rq_inv :: "http_request \<Rightarrow> bool" where
  "rq_inv r \<longleftrightarrow> distinct (map fst (rq_headers r)) \<and> distinct (map fst (rq_parameters r))
     \<and> (\<forall>(k, v)\<in>set (rq_headers r). tolower_str k = k) \<and> rq_code r < 4294967296"

lemma rq_inv_new: "rq_inv (new_HttpRequest b)"
  by (simp add: rq_inv_def new_HttpRequest_def)

lemma lower_update:
  "\<forall>(k, v)\<in>set m. tolower_str k = k \<Longrightarrow> \<forall>(k, v)\<in>set (AList.update (tolower_str f) w m). tolower_str k = k"
  by (induction m) (auto split: if_splits)

lemma rq_inv_AddHeader: "rq_inv r \<Longrightarrow> rq_inv (AddHeader k v r)"
  using lower_update [of "rq_headers r" k v] by (simp add: rq_inv_def AddHeader_def distinct_update)

lemma rq_inv_RemoveHeader: "rq_inv r \<Longrightarrow> rq_inv (RemoveHeader k r)"
  by (auto simp: rq_inv_def RemoveHeader_def distinct_delete) (auto simp: AList.delete_eq)

lemma rq_inv_SetParameter: "rq_inv r \<Longrightarrow> rq_inv (SetParameter k v r)"
  by (simp add: rq_inv_def SetParameter_def distinct_update)

lemma rq_inv_parameters_loop: "rq_inv r \<Longrightarrow> rq_inv (parse_parameters_loop ls r)"
  by (induction ls arbitrary: r) (auto simp: rq_inv_SetParameter Let_def split: option.splits)

lemma rq_inv_SetQuery: "rq_inv r \<Longrightarrow> rq_inv (SetQuery q r)"
  unfolding SetQuery_def ParseParameters_def
  by (rule rq_inv_parameters_loop) (simp add: rq_inv_def)

lemma rq_inv_setters:
  "rq_inv r \<Longrightarrow> rq_inv (SetMethod m r)" "rq_inv r \<Longrightarrow> rq_inv (SetVersion v r)"
  "rq_inv r \<Longrightarrow> rq_inv (SetPath p r)" "rq_inv r \<Longrightarrow> rq_inv (SetStatusCode c r)"
  "rq_inv r \<Longrightarrow> rq_inv (SetBody b r)" "rq_inv r \<Longrightarrow> rq_inv (SetIsStream s r)"
  "rq_inv r \<Longrightarrow> rq_inv (SetIsChunked s r)" "rq_inv r \<Longrightarrow> rq_inv (SetMethod_enum e r)"
  "rq_inv r \<Longrightarrow> rq_inv (SetVersion_enum w r)"
  by (auto simp: rq_inv_def SetMethod_def SetVersion_def SetPath_def SetStatusCode_def SetBody_def
      SetIsStream_def SetIsChunked_def SetMethod_enum_def SetVersion_enum_def Let_def to_uint32_lt)

lemma GetHeader_removed: "tolower_str k = tolower_str k' \<Longrightarrow> GetHeader (RemoveHeader k r) k' = []"
  by (simp add: RemoveHeader_def GetHeader_def delete_conv')

lemma GetHeader_not_removed:
  "tolower_str k \<noteq> tolower_str k' \<Longrightarrow> GetHeader (RemoveHeader k r) k' = GetHeader r k'"
  by (simp add: RemoveHeader_def GetHeader_def delete_conv')

lemma SetPath_received: "rq_path (SetPath (UrlEncode p) r) = p"
  using url.received [of p] by (simp add: SetPath_def split: if_splits)

lemma SetVersion_eq:
  "SetVersion v r = r\<lparr>rq_version :=
     (if length v = 8 then (if v ! 7 = CHR ''1'' then kHttp11
                            else if v ! 7 = CHR ''0'' then kHttp10 else Version_kUnknown)
      else Version_kUnknown)\<rparr>"
proof -
  have "substr v 0 6 \<noteq> ''HTTP/1.''"
  proof
    assume "substr v 0 6 = ''HTTP/1.''"
    then have "length (substr v 0 6) = 7" by simp
    then show False by (simp add: substr_def)
  qed
  then show ?thesis by (simp add: SetVersion_def Let_def)
qed

section \<open>Properties\<close>

text \<open>The header store: after any sequence of \<open>AddHeader\<close> calls a name reads as the value that
  was stored last under it, whatever the case of the letters, and \<open>RemoveHeader\<close> makes exactly
  that name read as empty.\<close>

theorem header_store:
  assumes "\<forall>(j, w)\<in>set later. tolower_str j \<noteq> tolower_str k'" "tolower_str k = tolower_str k'"
  shows "GetHeader (put_all AddHeader (earlier @ (k, v) # later) r) k' = v \<and>
    GetHeader (RemoveHeader k r) k'' = (if tolower_str k'' = tolower_str k then [] else GetHeader r k'')"
  using hdr.get_put_all_last [OF assms(2,1)] GetHeader_removed [of k k'' r] GetHeader_not_removed [of k k'' r]
  by (auto simp: eq_commute)

theorem header_store_witness:
  "GetHeader (put_all AddHeader ([(''Host'', ''a'')] @ (''HOST'', ''b'') # [(''Date'', ''c'')]) (new_HttpRequest True)) ''host'' = ''b'' \<and>
    GetHeader (RemoveHeader ''HOST'' (new_HttpRequest True)) ''x''
      = (if tolower_str ''x'' = tolower_str ''HOST'' then [] else GetHeader (new_HttpRequest True) ''x'')"
proof -
  have "tolower_str ''HOST'' = ''host''" "tolower_str ''host'' = ''host''" "tolower_str ''Date'' = ''date''"
    by code_simp+
  then show ?thesis by (intro header_store) simp_all
qed

definition pair_text :: "string \<times> string \<Rightarrow> string" where
  "pair_text kv = fst kv @ ''='' @ snd kv"

lemma parameters_loop_pairs:
  "\<forall>kv\<in>set kvs. CHR ''='' \<notin> set (fst kv) \<Longrightarrow>
     parse_parameters_loop (map pair_text kvs) r = put_all SetParameter (map (\<lambda>(k, v). (Trim k, Trim v)) kvs) r"
proof (induction kvs arbitrary: r)
  case (Cons kv kvs)
  then have "find_index (\<lambda>c. c = CHR ''='') (fst kv @ CHR ''='' # snd kv) = Some (length (fst kv))"
    by (intro find_index_hit) auto
  with Cons show ?case by (cases kv) (simp add: pair_text_def substr_def)
qed simp

lemma split_pairs:
  assumes "kvs \<noteq> []" "\<forall>kv\<in>set kvs. CHR ''&'' \<notin> set (pair_text kv)"
  shows "SplitString (join ''&'' (map pair_text kvs)) ''&'' = map pair_text kvs"
proof -
  have "\<forall>x\<in>set (map pair_text kvs). hd ''&'' \<notin> set x" using assms(2) by simp
  moreover have "last (map pair_text kvs) \<noteq> []" using assms(1) by (simp add: last_map pair_text_def)
  ultimately show ?thesis using assms(1) by (simp add: SplitString_tokens tokens_of_join)
qed

text \<open>A query of distinct \<open>name=value\<close> pairs joined with \<open>&\<close>: every name reads as its value,
  both without blanks around them, but neither is URL-decoded.\<close>

theorem SetQuery_pairs:
  assumes "kvs \<noteq> []" "\<forall>(k, v)\<in>set kvs. CHR ''='' \<notin> set k \<and> CHR ''&'' \<notin> set k \<and> CHR ''&'' \<notin> set v"
    and "distinct (map (Trim \<circ> fst) kvs)" "(k, v) \<in> set kvs"
  shows "GetParameter (SetQuery (join ''&'' (map pair_text kvs)) r) (Trim k) = Trim v"
proof -
  have amp: "\<forall>kv\<in>set kvs. CHR ''&'' \<notin> set (pair_text kv)" "\<forall>kv\<in>set kvs. CHR ''='' \<notin> set (fst kv)"
    using assms(2) by (auto simp: pair_text_def)
  have "distinct (map ((\<lambda>k. k) \<circ> fst) (map (\<lambda>(k, v). (Trim k, Trim v)) kvs))"
    using assms(3) by (simp add: comp_def case_prod_unfold)
  moreover have "(Trim k, Trim v) \<in> set (map (\<lambda>(k, v). (Trim k, Trim v)) kvs)" using assms(4) by force
  moreover have "SetQuery (join ''&'' (map pair_text kvs)) r = put_all SetParameter
      (map (\<lambda>(k, v). (Trim k, Trim v)) kvs) (r\<lparr>rq_query := join ''&'' (map pair_text kvs)\<rparr>)"
    by (simp add: SetQuery_def ParseParameters_def split_pairs [OF assms(1) amp(1)] parameters_loop_pairs [OF amp(2)])
  ultimately show ?thesis by (metis prm.get_put_all_distinct)
qed

theorem SetQuery_pairs_witness:
  "GetParameter (SetQuery (join ''&'' (map pair_text [(''a'', ''1''), (''b'', ''%20'')])) (new_HttpRequest True)) (Trim ''b'')
     = Trim ''%20''"
proof (rule SetQuery_pairs)
  have "Trim ''a'' = ''a''" "Trim ''b'' = ''b''" by code_simp+
  then show "distinct (map (Trim \<circ> fst) [(''a'', ''1''), (''b'', ''%20'')])" by simp
qed simp_all

end
