(* ===== verification/MsgBuffer.thy ===== *)
theory MsgBuffer
  imports Prelude
begin

text \<open>
  \<open>src/network/base/MsgBuffer.{h,cpp}\<close>: the growable byte buffer every connection reads
  into and the HTTP parser consumes from. The record keeps the vector and the two indices
  of the source; \<open>bytes\<close> is the readable region \<open>[head_, tail_)\<close>. Memory operations that
  leave the vector, failed asserts and the overlapping \<open>std::copy\<close> are faults. The theory
  ends with the contract the clients use, the locale \<open>byte_queue\<close>, and its interpretation.

  Sizes are natural numbers: the sums the code forms stay below \<open>2 ^ 64\<close> since a
  \<open>vector<char>\<close> has fewer than \<open>2 ^ 63\<close> elements. The differences \<open>tail_ - head_\<close> and
  \<open>buffer_.size() - tail_\<close> wrap, as \<open>size_t\<close> does.
\<close>

section \<open>State\<close>

definition kBufferDefaultLength :: nat where "kBufferDefaultLength = 2048"
definition kBufferOffset :: nat where "kBufferOffset = 8"
definition CRLF :: string where "CRLF = [CR, LF]"

record msg_buffer =
  mb_head :: nat
  mb_initCap :: nat
  mb_buffer :: string
  mb_tail :: nat

definition new_MsgBuffer :: "nat \<Rightarrow> msg_buffer" where
  "new_MsgBuffer len =
     \<lparr>mb_head = kBufferOffset, mb_initCap = len,
      mb_buffer = replicate (len + kBufferOffset) (byte_char 0), mb_tail = kBufferOffset\<rparr>"

definition ReadableBytes :: "msg_buffer \<Rightarrow> nat" where
  "ReadableBytes b = usub (mb_tail b) (mb_head b)"

definition WritableBytes :: "msg_buffer \<Rightarrow> nat" where
  "WritableBytes b = usub (length (mb_buffer b)) (mb_tail b)"

text \<open>The bytes from \<open>Peek()\<close> to \<open>BeginWrite()\<close>.\<close>

definition bytes :: "msg_buffer \<Rightarrow> string" where
  "bytes b = take (mb_tail b - mb_head b) (drop (mb_head b) (mb_buffer b))"

section \<open>Memory operations\<close>

text \<open>\<open>memcpy\<close> of \<open>xs\<close> to offset \<open>at\<close>, and \<open>std::copy\<close> within one block.\<close>

definition memcpy :: "string \<Rightarrow> nat \<Rightarrow> string \<Rightarrow> string result" where
  "memcpy buf at xs =
     (if at + length xs \<le> length buf
      then Inr (take at buf @ xs @ drop (at + length xs) buf) else Inl Out_of_bounds)"

definition std_copy :: "string \<Rightarrow> nat \<Rightarrow> nat \<Rightarrow> nat \<Rightarrow> string result" where
  "std_copy buf lo hi dst =
     (if hi < lo \<or> length buf < hi then Inl Out_of_bounds
      else if lo \<le> dst \<and> dst < hi then Inl Overlapping_copy
      else memcpy buf dst (substr buf lo (hi - lo)))"

definition resize :: "string \<Rightarrow> nat \<Rightarrow> string" where
  "resize buf n = take n buf @ replicate (n - length buf) (byte_char 0)"

section \<open>Operations\<close>

definition RetrieveAll :: "msg_buffer \<Rightarrow> msg_buffer" where
  "RetrieveAll b =
     (let buf = (if mb_initCap b * 2 < length (mb_buffer b)
                 then resize (mb_buffer b) (mb_initCap b) else mb_buffer b)
      in b\<lparr>mb_buffer := buf, mb_tail := kBufferOffset, mb_head := kBufferOffset\<rparr>)"

definition Retrieve :: "nat \<Rightarrow> msg_buffer \<Rightarrow> msg_buffer" where
  "Retrieve len b =
     (if ReadableBytes b \<le> len then RetrieveAll b else b\<lparr>mb_head := mb_head b + len\<rparr>)"

definition Swap :: "msg_buffer \<Rightarrow> msg_buffer \<Rightarrow> msg_buffer \<times> msg_buffer" where
  "Swap this buf =
     (this\<lparr>mb_buffer := mb_buffer buf, mb_head := mb_head buf,
           mb_tail := mb_tail buf, mb_initCap := mb_initCap buf\<rparr>,
      buf\<lparr>mb_buffer := mb_buffer this, mb_head := mb_head this,
          mb_tail := mb_tail this, mb_initCap := mb_initCap this\<rparr>)"

text \<open>
  \<open>EnsureWritableBytes\<close> and \<open>Append (const MsgBuffer &)\<close> call each other; the recursion
  ends because the fresh buffer of the growing branch has room for all it is given.
\<close>

lemma Writable_new: "WritableBytes (new_MsgBuffer n) = n"
  by (simp add: WritableBytes_def new_MsgBuffer_def kBufferOffset_def)

function EnsureWritableBytes :: "nat \<Rightarrow> msg_buffer \<Rightarrow> msg_buffer result"
  and Append_buffer :: "msg_buffer \<Rightarrow> msg_buffer \<Rightarrow> msg_buffer result" where
  "EnsureWritableBytes len b =
     (if len \<le> WritableBytes b then Inr b
      else if len + kBufferOffset \<le> mb_head b + WritableBytes b then
        bindR (std_copy (mb_buffer b) (mb_head b) (mb_tail b) kBufferOffset)
          (\<lambda>buf. Inr (b\<lparr>mb_buffer := buf,
                        mb_tail := kBufferOffset + usub (mb_tail b) (mb_head b),
                        mb_head := kBufferOffset\<rparr>))
      else
        (let newLen = (if kBufferOffset + ReadableBytes b + len < length (mb_buffer b) * 2
                       then length (mb_buffer b) * 2
                       else kBufferOffset + ReadableBytes b + len)
         in bindR (Append_buffer b (new_MsgBuffer newLen))
              (\<lambda>newbuffer. Inr (fst (Swap b newbuffer)))))"
| "Append_buffer src b =
     bindR (EnsureWritableBytes (ReadableBytes src) b)
       (\<lambda>b'. bindR (memcpy (mb_buffer b') (mb_tail b') (bytes src))
         (\<lambda>buf. Inr (b'\<lparr>mb_buffer := buf, mb_tail := mb_tail b' + ReadableBytes src\<rparr>)))"
  by pat_completeness auto
termination
  by (relation "measure (\<lambda>x. case x of
        Inl (len, b) \<Rightarrow> if len \<le> WritableBytes b then 0 else 2
      | Inr (src, b) \<Rightarrow> if ReadableBytes src \<le> WritableBytes b then 1 else 3)")
    (auto simp: Writable_new)

declare EnsureWritableBytes.simps [simp del] Append_buffer.simps [simp del]

definition Append :: "string \<Rightarrow> msg_buffer \<Rightarrow> msg_buffer result" where
  "Append xs b =
     bindR (EnsureWritableBytes (length xs) b)
       (\<lambda>b'. bindR (memcpy (mb_buffer b') (mb_tail b') xs)
         (\<lambda>buf. Inr (b'\<lparr>mb_buffer := buf, mb_tail := mb_tail b' + length xs\<rparr>)))"

text \<open>\<open>Append (const std::string &)\<close>, and \<open>Append\<close> of a character array, which has to end in its only NUL.\<close>

definition Append_string :: "string \<Rightarrow> msg_buffer \<Rightarrow> msg_buffer result" where
  "Append_string buf b = Append buf b"

definition Append_array :: "string \<Rightarrow> msg_buffer \<Rightarrow> msg_buffer result" where
  "Append_array buf b =
     (if length (takeWhile (\<lambda>c. c \<noteq> CHR 0x00) buf) = length buf - 1 then Append (take (length buf - 1) buf) b
      else Inl Assert_failed)"

definition AddInFront :: "string \<Rightarrow> msg_buffer \<Rightarrow> msg_buffer result" where
  "AddInFront xs b =
     (let len = length xs
      in if len \<le> mb_head b then
           bindR (memcpy (mb_buffer b) (mb_head b - len) xs)
             (\<lambda>buf. Inr (b\<lparr>mb_buffer := buf, mb_head := mb_head b - len\<rparr>))
         else if len \<le> WritableBytes b then
           bindR (std_copy (mb_buffer b) (mb_head b) (mb_tail b) (mb_head b + len))
             (\<lambda>buf. bindR (memcpy buf (mb_head b) xs)
               (\<lambda>buf'. Inr (b\<lparr>mb_buffer := buf', mb_tail := mb_tail b + len\<rparr>)))
         else
           (let newLen = (if len + ReadableBytes b < mb_initCap b then mb_initCap b
                          else len + ReadableBytes b)
            in bindR (Append xs (new_MsgBuffer newLen))
                 (\<lambda>nb. bindR (Append_buffer b nb) (\<lambda>nb'. Inr (fst (Swap b nb'))))))"

definition Read :: "nat \<Rightarrow> msg_buffer \<Rightarrow> string \<times> msg_buffer" where
  "Read len b =
     (let len' = (if ReadableBytes b < len then ReadableBytes b else len)
      in (take len' (bytes b), Retrieve len' b))"

definition RetrieveUntil :: "nat \<Rightarrow> msg_buffer \<Rightarrow> msg_buffer result" where
  \<comment> \<open>\<open>end\<close> is given by its distance from \<open>Peek()\<close>\<close>
  "RetrieveUntil off b =
     (if mb_head b + off \<le> mb_tail b then Inr (Retrieve off b) else Inl Assert_failed)"

definition FindCRLF :: "msg_buffer \<Rightarrow> nat option" where
  \<comment> \<open>the distance from \<open>Peek()\<close>; \<open>None\<close> is the null pointer\<close>
  "FindCRLF b = find_sub CRLF (bytes b)"

definition HasWritten :: "nat \<Rightarrow> msg_buffer \<Rightarrow> msg_buffer result" where
  "HasWritten len b =
     (if len \<le> WritableBytes b then Inr (b\<lparr>mb_tail := mb_tail b + len\<rparr>) else Inl Assert_failed)"

definition Unwrite :: "nat \<Rightarrow> msg_buffer \<Rightarrow> msg_buffer result" where
  "Unwrite offset b =
     (if offset \<le> ReadableBytes b then Inr (b\<lparr>mb_tail := mb_tail b - offset\<rparr>) else Inl Assert_failed)"

definition char_at :: "nat \<Rightarrow> msg_buffer \<Rightarrow> char result" where
  \<comment> \<open>\<open>operator[]\<close>\<close>
  "char_at offset b =
     (if \<not> offset \<le> ReadableBytes b then Inl Assert_failed
      else if mb_head b + offset < length (mb_buffer b)
      then Inr (mb_buffer b ! (mb_head b + offset)) else Inl Out_of_bounds)"

text \<open>
  \<open>ReadFd\<close>: \<open>rd\<close> is what \<open>readv\<close> returns, an \<open>errno\<close> or the bytes it stored. It stores
  them first in the free tail of the vector and then, when that is smaller than 8192 bytes,
  in \<open>extBuffer\<close>; \<open>readv_room\<close> is the room the code hands to the kernel.
\<close>

definition readv_room :: "msg_buffer \<Rightarrow> nat" where
  "readv_room b = WritableBytes b + (if WritableBytes b < 8192 then 8192 else 0)"

definition ReadFd :: "int + string \<Rightarrow> msg_buffer \<Rightarrow> (int \<times> int option \<times> msg_buffer) result" where
  "ReadFd rd b =
     (case rd of
        Inl err \<Rightarrow> Inr (-1, Some err, b)
      | Inr data \<Rightarrow>
          if readv_room b < length data then Inl Out_of_bounds
          else
            (let writable = WritableBytes b; n = length data
             in bindR (memcpy (mb_buffer b) (mb_tail b) (take writable data))
                  (\<lambda>buf.
                    if n \<le> writable then
                      Inr (int n, None, b\<lparr>mb_buffer := buf, mb_tail := mb_tail b + n\<rparr>)
                    else
                      bindR (Append (drop writable data)
                               (b\<lparr>mb_buffer := buf, mb_tail := length (mb_buffer b)\<rparr>))
                        (\<lambda>b'. Inr (int n, None, b')))))"

section \<open>The buffer invariant\<close>

text \<open>
  With an initial capacity of at least \<open>kBufferOffset\<close> the vector always has exactly
  \<open>initCap_ + kBufferOffset\<close> elements, since growing replaces \<open>initCap_\<close> together with the
  vector; so \<open>RetrieveAll\<close> never resizes it.
\<close>

definition mb_inv :: "msg_buffer \<Rightarrow> bool" where
  "mb_inv b \<longleftrightarrow> kBufferOffset \<le> mb_initCap b \<and> length (mb_buffer b) = mb_initCap b + kBufferOffset
     \<and> mb_head b \<le> mb_tail b \<and> mb_tail b \<le> length (mb_buffer b)"

lemma mb_inv_new: "kBufferOffset \<le> n \<Longrightarrow> mb_inv (new_MsgBuffer n)"
  by (simp add: mb_inv_def new_MsgBuffer_def)

lemma bytes_new [simp]: "bytes (new_MsgBuffer n) = []"
  by (simp add: bytes_def new_MsgBuffer_def)

lemma Readable_new [simp]: "ReadableBytes (new_MsgBuffer n) = 0"
  by (simp add: ReadableBytes_def new_MsgBuffer_def)

lemma length_bytes: "mb_inv b \<Longrightarrow> length (bytes b) = ReadableBytes b"
  by (auto simp: mb_inv_def bytes_def ReadableBytes_def min_def)

lemma Readable_inv: "mb_inv b \<Longrightarrow> ReadableBytes b = mb_tail b - mb_head b"
  by (simp add: mb_inv_def ReadableBytes_def)

lemma Writable_inv: "mb_inv b \<Longrightarrow> WritableBytes b = length (mb_buffer b) - mb_tail b"
  by (simp add: mb_inv_def WritableBytes_def)

lemma mb_split:
  assumes "mb_inv b"
  shows "mb_buffer b = take (mb_head b) (mb_buffer b) @ bytes b @ drop (mb_tail b) (mb_buffer b)"
proof -
  have "bytes b @ drop (mb_tail b) (mb_buffer b) = drop (mb_head b) (mb_buffer b)"
    using assms by (simp add: bytes_def mb_inv_def)
      (metis append_take_drop_id drop_drop le_add_diff_inverse2)
  then show ?thesis by (metis append_take_drop_id)
qed

lemma bytesI:
  assumes "mb_buffer b = pre @ xs @ post" "mb_head b = length pre" "mb_tail b = length pre + length xs"
  shows "bytes b = xs"
  using assms by (simp add: bytes_def)

lemma memcpy_Inr:
  "at + length xs \<le> length buf \<Longrightarrow> memcpy buf at xs = Inr (take at buf @ xs @ drop (at + length xs) buf)"
  by (simp add: memcpy_def)

text \<open>Storing behind the readable region, when there is room.\<close>

lemma store_tail:
  assumes "mb_inv b" "length xs \<le> WritableBytes b"
  shows "\<exists>buf. memcpy (mb_buffer b) (mb_tail b) xs = Inr buf \<and>
     mb_inv (b\<lparr>mb_buffer := buf, mb_tail := mb_tail b + length xs\<rparr>) \<and>
     bytes (b\<lparr>mb_buffer := buf, mb_tail := mb_tail b + length xs\<rparr>) = bytes b @ xs"
proof -
  let ?buf = "take (mb_tail b) (mb_buffer b) @ xs @ drop (mb_tail b + length xs) (mb_buffer b)"
  have room: "mb_tail b + length xs \<le> length (mb_buffer b)"
    using assms by (auto simp: Writable_inv mb_inv_def)
  have "take (mb_tail b) (mb_buffer b) = take (mb_head b) (mb_buffer b) @ bytes b"
    using mb_split [OF assms(1)] assms(1)
    by (simp add: bytes_def mb_inv_def) (metis le_add_diff_inverse take_add)
  then have "bytes (b\<lparr>mb_buffer := ?buf, mb_tail := mb_tail b + length xs\<rparr>) = bytes b @ xs"
    using assms(1) length_bytes [OF assms(1)]
    by (intro bytesI [where pre = "take (mb_head b) (mb_buffer b)"])
      (auto simp: mb_inv_def ReadableBytes_def)
  moreover have "mb_inv (b\<lparr>mb_buffer := ?buf, mb_tail := mb_tail b + length xs\<rparr>)"
    using assms(1) room by (auto simp: mb_inv_def)
  ultimately show ?thesis using room by (auto simp: memcpy_Inr)
qed

lemma Append_buffer_room:
  assumes "mb_inv b" "mb_inv src" "ReadableBytes src \<le> WritableBytes b"
  shows "\<exists>b'. Append_buffer src b = Inr b' \<and> mb_inv b' \<and> bytes b' = bytes b @ bytes src
     \<and> mb_initCap b' = mb_initCap b \<and> mb_tail b' = mb_tail b + ReadableBytes src"
proof -
  have "EnsureWritableBytes (ReadableBytes src) b = Inr b"
    using assms(3) by (simp add: EnsureWritableBytes.simps)
  with store_tail [of b "bytes src"] assms show ?thesis
    by (auto simp: Append_buffer.simps [of src b] length_bytes)
qed

text \<open>The three ways \<open>EnsureWritableBytes\<close> ends keep the readable bytes and make room.\<close>

lemma Ensure_ok:
  assumes "mb_inv b"
  shows "\<exists>b'. EnsureWritableBytes len b = Inr b' \<and> mb_inv b' \<and> bytes b' = bytes b \<and> len \<le> WritableBytes b'"
proof (cases "len \<le> WritableBytes b")
  case True
  with assms show ?thesis by (simp add: EnsureWritableBytes.simps)
next
  case short: False
  show ?thesis
  proof (cases "len + kBufferOffset \<le> mb_head b + WritableBytes b")
    case True
    have hd: "kBufferOffset < mb_head b" using True short by simp
    obtain r where r: "mb_tail b = mb_head b + r"
      using assms by (metis mb_inv_def le_Suc_ex)
    define buf where "buf = take kBufferOffset (mb_buffer b) @ bytes b @ drop (kBufferOffset + r) (mb_buffer b)"
    define b1 where "b1 = b\<lparr>mb_buffer := buf, mb_tail := kBufferOffset + r, mb_head := kBufferOffset\<rparr>"
    have lenb: "length (bytes b) = r" using assms r by (simp add: length_bytes Readable_inv)
    have sub: "substr (mb_buffer b) (mb_head b) r = bytes b" by (simp add: substr_def bytes_def r)
    have "std_copy (mb_buffer b) (mb_head b) (mb_tail b) kBufferOffset = Inr buf"
      using assms hd lenb r by (auto simp: std_copy_def sub memcpy_def mb_inv_def buf_def)
    then have "EnsureWritableBytes len b = Inr b1"
      using short True r by (simp add: EnsureWritableBytes.simps [of len b] b1_def)
    moreover have inv: "mb_inv b1" using assms hd lenb r by (auto simp: mb_inv_def b1_def buf_def)
    moreover have "bytes b1 = bytes b"
      using assms hd lenb r
      by (intro bytesI [where pre = "take kBufferOffset (mb_buffer b)"])
        (auto simp: mb_inv_def b1_def buf_def)
    moreover have "len \<le> WritableBytes b1"
    proof -
      have "length (mb_buffer b1) = length (mb_buffer b)" and "mb_tail b1 = kBufferOffset + r"
        using assms hd lenb r by (auto simp: mb_inv_def b1_def buf_def)
      then show ?thesis
        using True assms r unfolding Writable_inv [OF inv] Writable_inv [OF assms]
        by (auto simp: mb_inv_def)
    qed
    ultimately show ?thesis by blast
  next
    case False
    define newLen where "newLen = (if kBufferOffset + ReadableBytes b + len < length (mb_buffer b) * 2
        then length (mb_buffer b) * 2 else kBufferOffset + ReadableBytes b + len)"
    have ge: "kBufferOffset + ReadableBytes b + len \<le> newLen" by (simp add: newLen_def)
    then have new: "mb_inv (new_MsgBuffer newLen)" by (intro mb_inv_new) simp
    from ge Append_buffer_room [OF new assms]
    obtain nb where nb: "Append_buffer b (new_MsgBuffer newLen) = Inr nb" "mb_inv nb"
      "bytes nb = bytes b" "mb_initCap nb = newLen"
      "mb_tail nb = kBufferOffset + ReadableBytes b"
      by (auto simp: Writable_new) (auto simp: new_MsgBuffer_def)
    have sw: "fst (Swap b nb) = nb" by (cases nb; cases b) (simp add: Swap_def)
    have "len \<le> WritableBytes nb" using nb ge by (simp add: Writable_inv mb_inv_def)
    then show ?thesis
      using short False nb sw
      by (simp add: EnsureWritableBytes.simps [of len b] newLen_def [symmetric])
  qed
qed

lemma Append_ok:
  assumes "mb_inv b"
  shows "\<exists>b'. Append xs b = Inr b' \<and> mb_inv b' \<and> bytes b' = bytes b @ xs"
proof -
  obtain b1 where b1: "EnsureWritableBytes (length xs) b = Inr b1" "mb_inv b1" "bytes b1 = bytes b"
    "length xs \<le> WritableBytes b1"
    using Ensure_ok [OF assms] by blast
  with store_tail [OF b1(2,4)] show ?thesis by (auto simp: Append_def)
qed

lemma RetrieveAll_ok: "mb_inv b \<Longrightarrow> mb_inv (RetrieveAll b) \<and> bytes (RetrieveAll b) = []"
  by (auto simp: mb_inv_def RetrieveAll_def bytes_def Let_def)

lemma RetrieveAll_no_resize: "mb_inv b \<Longrightarrow> mb_buffer (RetrieveAll b) = mb_buffer b"
  by (simp add: mb_inv_def RetrieveAll_def)

lemma Retrieve_ok: "mb_inv b \<Longrightarrow> mb_inv (Retrieve n b) \<and> bytes (Retrieve n b) = drop n (bytes b)"
proof (cases "ReadableBytes b \<le> n")
  case True
  then show "mb_inv b \<Longrightarrow> ?thesis"
    by (simp add: Retrieve_def RetrieveAll_ok length_bytes)
next
  case False
  assume "mb_inv b"
  with False show ?thesis
    by (auto simp: Retrieve_def mb_inv_def ReadableBytes_def bytes_def drop_take add.commute)
qed

lemma Read_ok:
  assumes "mb_inv b"
  shows "fst (Read n b) = take n (bytes b)" "mb_inv (snd (Read n b))"
    "bytes (snd (Read n b)) = drop n (bytes b)"
  using assms Retrieve_ok [OF assms] length_bytes [OF assms]
  by (auto simp: Read_def Let_def)

lemma AddInFront_ok:
  assumes inv: "mb_inv b" and no_overlap: "length xs \<le> mb_head b \<or> WritableBytes b < length xs
    \<or> ReadableBytes b \<le> length xs"
  shows "\<exists>b'. AddInFront xs b = Inr b' \<and> mb_inv b' \<and> bytes b' = xs @ bytes b"
proof -
  have lenb: "length (bytes b) = mb_tail b - mb_head b"
    using inv by (simp add: length_bytes Readable_inv)
  consider (front) "length xs \<le> mb_head b"
    | (shift) "\<not> length xs \<le> mb_head b" "length xs \<le> WritableBytes b" "ReadableBytes b \<le> length xs"
    | (grow) "\<not> length xs \<le> mb_head b" "WritableBytes b < length xs"
    using no_overlap by linarith
  then show ?thesis
  proof cases
    case front
    let ?at = "mb_head b - length xs"
    let ?buf = "take ?at (mb_buffer b) @ xs @ drop (mb_head b) (mb_buffer b)"
    have "memcpy (mb_buffer b) ?at xs = Inr ?buf"
      using front inv by (simp add: memcpy_def mb_inv_def)
    moreover have "bytes (b\<lparr>mb_buffer := ?buf, mb_head := ?at\<rparr>) = xs @ bytes b"
    proof (rule bytesI)
      show "mb_buffer (b\<lparr>mb_buffer := ?buf, mb_head := ?at\<rparr>) =
          take ?at (mb_buffer b) @ (xs @ bytes b) @ drop (mb_tail b) (mb_buffer b)"
        using mb_split [OF inv] inv
        by (simp add: mb_inv_def) (metis append_eq_conv_conj length_take min_absorb2 le_trans)
    qed (use front inv lenb in \<open>auto simp: mb_inv_def\<close>)
    moreover have "mb_inv (b\<lparr>mb_buffer := ?buf, mb_head := ?at\<rparr>)"
      using front inv by (auto simp: mb_inv_def)
    ultimately show ?thesis using front by (simp add: AddInFront_def Let_def)
  next
    case shift
    let ?h = "mb_head b" and ?n = "length xs"
    have room: "mb_tail b + ?n \<le> length (mb_buffer b)"
      using shift(2) inv unfolding Writable_inv [OF inv] by (auto simp: mb_inv_def)
    have far: "mb_tail b \<le> ?h + ?n" using shift(3) inv by (simp add: Readable_inv)
    define buf1 where "buf1 = take (?h + ?n) (mb_buffer b) @ bytes b @ drop (mb_tail b + ?n) (mb_buffer b)"
    have l1: "length buf1 = length (mb_buffer b)"
      using room inv lenb far by (auto simp: buf1_def mb_inv_def)
    have "std_copy (mb_buffer b) ?h (mb_tail b) (?h + ?n) = Inr buf1"
      using inv room far lenb
      by (auto simp: std_copy_def memcpy_def substr_def bytes_def [symmetric] mb_inv_def buf1_def add_ac)
    moreover define buf2 where "buf2 = take ?h buf1 @ xs @ drop (?h + ?n) buf1"
    moreover have "memcpy buf1 ?h xs = Inr buf2"
      using l1 room inv by (auto simp: memcpy_def buf2_def mb_inv_def)
    moreover have d: "drop (?h + ?n) buf1 = bytes b @ drop (mb_tail b + ?n) (mb_buffer b)"
      using room inv by (auto simp: buf1_def mb_inv_def)
    moreover have "bytes (b\<lparr>mb_buffer := buf2, mb_tail := mb_tail b + ?n\<rparr>) = xs @ bytes b"
      using inv room l1 lenb
      by (intro bytesI [where pre = "take ?h buf1" and post = "drop (mb_tail b + ?n) (mb_buffer b)"])
        (auto simp: buf2_def d mb_inv_def)
    moreover have "mb_inv (b\<lparr>mb_buffer := buf2, mb_tail := mb_tail b + ?n\<rparr>)"
      using inv room l1 by (auto simp: buf2_def mb_inv_def)
    ultimately show ?thesis using shift by (simp add: AddInFront_def Let_def)
  next
    case grow
    define newLen where "newLen = (if length xs + ReadableBytes b < mb_initCap b then mb_initCap b
      else length xs + ReadableBytes b)"
    have ge: "length xs + ReadableBytes b \<le> newLen" and "mb_initCap b \<le> newLen"
      by (auto simp: newLen_def)
    then have new: "mb_inv (new_MsgBuffer newLen)"
      using inv by (intro mb_inv_new) (simp add: mb_inv_def)
    have "length xs \<le> WritableBytes (new_MsgBuffer newLen)" using ge by (simp add: Writable_new)
    with store_tail [OF new this] obtain nb where
      nb: "Append xs (new_MsgBuffer newLen) = Inr nb" "mb_inv nb" "bytes nb = xs"
        "mb_initCap nb = newLen" "mb_tail nb = kBufferOffset + length xs"
      by (auto simp: Append_def EnsureWritableBytes.simps) (auto simp: new_MsgBuffer_def)
    then have "ReadableBytes b \<le> WritableBytes nb"
      using ge by (simp add: Writable_inv) (auto simp: mb_inv_def)
    with Append_buffer_room [OF nb(2) inv] nb obtain nb' where
      nb': "Append_buffer b nb = Inr nb'" "mb_inv nb'" "bytes nb' = xs @ bytes b" by auto
    have "fst (Swap b nb') = nb'" by (cases nb'; cases b) (simp add: Swap_def)
    with nb nb' grow show ?thesis by (simp add: AddInFront_def newLen_def [symmetric])
  qed
qed

lemma AddInFront_overlap:
  assumes "mb_inv b" "mb_head b < length xs" "length xs \<le> WritableBytes b" "length xs < ReadableBytes b"
  shows "AddInFront xs b = Inl Overlapping_copy"
proof -
  have "mb_head b + length xs < mb_tail b" "mb_tail b \<le> length (mb_buffer b)"
    using assms by (auto simp: Readable_inv mb_inv_def)
  then show ?thesis using assms(2,3) by (auto simp: AddInFront_def Let_def std_copy_def)
qed

lemma ReadFd_ok:
  assumes inv: "mb_inv b" and room: "length data \<le> readv_room b"
  shows "\<exists>b'. ReadFd (Inr data) b = Inr (int (length data), None, b') \<and> mb_inv b' \<and> bytes b' = bytes b @ data"
proof (cases "length data \<le> WritableBytes b")
  case True
  with store_tail [OF inv True] room show ?thesis by (auto simp: ReadFd_def Let_def)
next
  case False
  let ?w = "WritableBytes b"
  from False store_tail [OF inv, of "take ?w data"] obtain buf where
    buf: "memcpy (mb_buffer b) (mb_tail b) (take ?w data) = Inr buf"
      "mb_inv (b\<lparr>mb_buffer := buf, mb_tail := mb_tail b + ?w\<rparr>)"
      "bytes (b\<lparr>mb_buffer := buf, mb_tail := mb_tail b + ?w\<rparr>) = bytes b @ take ?w data"
    by auto
  have "mb_tail b + ?w = length (mb_buffer b)" using inv by (simp add: Writable_inv) (simp add: mb_inv_def)
  with buf Append_ok [OF buf(2), of "drop ?w data"] room False show ?thesis
    by (auto simp: ReadFd_def Let_def)
qed

section \<open>Integers in network order\<close>

text \<open>
  The memory image of an integer on the little-endian machines the code is written for, and
  \<open>hton16\<close>, \<open>hton32\<close>, \<open>hton64\<close> (the last one as the header defines it) reversing it.
\<close>

fun le_bytes :: "nat \<Rightarrow> nat \<Rightarrow> string" where
  "le_bytes 0 n = []"
| "le_bytes (Suc k) n = byte_char (n mod 256) # le_bytes k (n div 256)"

fun le_val :: "string \<Rightarrow> nat" where
  "le_val [] = 0"
| "le_val (c # cs) = byte c + 256 * le_val cs"

definition hton :: "nat \<Rightarrow> nat \<Rightarrow> nat" where
  "hton k n = le_val (rev (le_bytes k n))"

definition AppendInt8 :: "8 word \<Rightarrow> msg_buffer \<Rightarrow> msg_buffer result" where
  "AppendInt8 v b = Append (le_bytes 1 (unat v)) b"
definition AppendInt16 :: "16 word \<Rightarrow> msg_buffer \<Rightarrow> msg_buffer result" where
  "AppendInt16 s b = Append (le_bytes 2 (hton 2 (unat s))) b"
definition AppendInt32 :: "32 word \<Rightarrow> msg_buffer \<Rightarrow> msg_buffer result" where
  "AppendInt32 i b = Append (le_bytes 4 (hton 4 (unat i))) b"
definition AppendInt64 :: "64 word \<Rightarrow> msg_buffer \<Rightarrow> msg_buffer result" where
  "AppendInt64 l b = Append (le_bytes 8 (hton 8 (unat l))) b"

definition AddInFrontInt8 :: "8 word \<Rightarrow> msg_buffer \<Rightarrow> msg_buffer result" where
  "AddInFrontInt8 v b = AddInFront (le_bytes 1 (unat v)) b"
definition AddInFrontInt16 :: "16 word \<Rightarrow> msg_buffer \<Rightarrow> msg_buffer result" where
  "AddInFrontInt16 s b = AddInFront (le_bytes 2 (hton 2 (unat s))) b"
definition AddInFrontInt32 :: "32 word \<Rightarrow> msg_buffer \<Rightarrow> msg_buffer result" where
  "AddInFrontInt32 i b = AddInFront (le_bytes 4 (hton 4 (unat i))) b"
definition AddInFrontInt64 :: "64 word \<Rightarrow> msg_buffer \<Rightarrow> msg_buffer result" where
  "AddInFrontInt64 l b = AddInFront (le_bytes 8 (hton 8 (unat l))) b"

definition peek_nat :: "nat \<Rightarrow> msg_buffer \<Rightarrow> nat result" where
  "peek_nat k b = (if k \<le> ReadableBytes b then Inr (le_val (take k (bytes b))) else Inl Assert_failed)"

definition PeekInt8 :: "msg_buffer \<Rightarrow> 8 word result" where
  "PeekInt8 b = bindR (peek_nat 1 b) (\<lambda>n. Inr (of_nat n))"
definition PeekInt16 :: "msg_buffer \<Rightarrow> 16 word result" where
  "PeekInt16 b = bindR (peek_nat 2 b) (\<lambda>n. Inr (of_nat (hton 2 n)))"
definition PeekInt32 :: "msg_buffer \<Rightarrow> 32 word result" where
  "PeekInt32 b = bindR (peek_nat 4 b) (\<lambda>n. Inr (of_nat (hton 4 n)))"
definition PeekInt64 :: "msg_buffer \<Rightarrow> 64 word result" where
  "PeekInt64 b = bindR (peek_nat 8 b) (\<lambda>n. Inr (of_nat (hton 8 n)))"

definition ReadInt8 :: "msg_buffer \<Rightarrow> (8 word \<times> msg_buffer) result" where
  "ReadInt8 b = bindR (PeekInt8 b) (\<lambda>ret. Inr (ret, Retrieve 1 b))"
definition ReadInt16 :: "msg_buffer \<Rightarrow> (16 word \<times> msg_buffer) result" where
  "ReadInt16 b = bindR (PeekInt16 b) (\<lambda>ret. Inr (ret, Retrieve 2 b))"
definition ReadInt32 :: "msg_buffer \<Rightarrow> (32 word \<times> msg_buffer) result" where
  "ReadInt32 b = bindR (PeekInt32 b) (\<lambda>ret. Inr (ret, Retrieve 4 b))"
definition ReadInt64 :: "msg_buffer \<Rightarrow> (64 word \<times> msg_buffer) result" where
  "ReadInt64 b = bindR (PeekInt64 b) (\<lambda>ret. Inr (ret, Retrieve 8 b))"

lemma length_le_bytes [simp]: "length (le_bytes k n) = k"
  by (induction k arbitrary: n) auto

lemma le_val_le_bytes: "le_val (le_bytes k n) = n mod 256 ^ k"
proof (induction k arbitrary: n)
  case (Suc k)
  then show ?case by (simp add: byte_byte_char mod_mult2_eq)
qed simp

lemma le_bytes_le_val: "le_bytes (length xs) (le_val xs) = xs"
  by (induction xs) (auto simp: div_mult2_eq)

lemma le_val_lt: "le_val xs < 256 ^ length xs"
proof (induction xs)
  case (Cons c cs)
  have "256 * le_val cs + 256 \<le> 256 * 256 ^ length cs" using Cons by linarith
  moreover have "byte c < 256" by simp
  ultimately show ?case unfolding le_val.simps list.size power_Suc add_0_right add_Suc_right
    by linarith
qed simp

lemma le_bytes_hton: "le_bytes k (hton k n) = rev (le_bytes k n)"
  by (metis hton_def le_bytes_le_val length_le_bytes length_rev)

lemma hton_hton: "hton k (hton k n) = n mod 256 ^ k"
  unfolding hton_def by (subst le_bytes_hton [unfolded hton_def]) (simp add: le_val_le_bytes)

lemma peek_front:
  "mb_inv b \<Longrightarrow> bytes b = le_bytes k n @ rest \<Longrightarrow> peek_nat k b = Inr (n mod 256 ^ k)"
  by (simp add: peek_nat_def length_bytes [symmetric] le_val_le_bytes)

text \<open>Network order is the big-endian byte string \<open>be_bytes\<close>.\<close>

definition be_bytes :: "nat \<Rightarrow> nat \<Rightarrow> string" where
  "be_bytes k n = rev (le_bytes k n)"

lemma length_be_bytes [simp]: "length (be_bytes k n) = k"
  by (simp add: be_bytes_def)

lemma hton_peek:
  assumes "mb_inv b" "bytes b = be_bytes k n @ rest" "n < 256 ^ k"
  shows "bindR (peek_nat k b) (\<lambda>m. Inr (f (hton k m))) = Inr (f n)"
proof -
  have "bytes b = le_bytes k (hton k n) @ rest"
    using assms(2) by (simp add: be_bytes_def le_bytes_hton)
  moreover have "hton k n < 256 ^ k"
    using le_val_lt [of "rev (le_bytes k n)"] by (simp add: hton_def)
  ultimately show ?thesis
    using assms by (simp add: peek_front hton_hton)
qed

lemmas append_int_defs = AppendInt8_def AppendInt16_def AppendInt32_def AppendInt64_def
lemmas front_int_defs = AddInFrontInt8_def AddInFrontInt16_def AddInFrontInt32_def AddInFrontInt64_def

lemma append_int_bytes:
  "AppendInt16 v2 b = Append (be_bytes 2 (unat v2)) b"
  "AppendInt32 v4 b = Append (be_bytes 4 (unat v4)) b"
  "AppendInt64 v8 b = Append (be_bytes 8 (unat v8)) b"
  by (simp_all add: append_int_defs le_bytes_hton be_bytes_def)

lemma front_int_bytes:
  "AddInFrontInt16 v2 b = AddInFront (be_bytes 2 (unat v2)) b"
  "AddInFrontInt32 v4 b = AddInFront (be_bytes 4 (unat v4)) b"
  "AddInFrontInt64 v8 b = AddInFront (be_bytes 8 (unat v8)) b"
  by (simp_all add: front_int_defs le_bytes_hton be_bytes_def)

lemma unat_lt_256:
  "unat (v2 :: 16 word) < 256 ^ 2" "unat (v4 :: 32 word) < 256 ^ 4" "unat (v8 :: 64 word) < 256 ^ 8"
  using unsigned_less [of v2, where ?'a = nat] unsigned_less [of v4, where ?'a = nat] unsigned_less [of v8, where ?'a = nat]
  by simp_all

lemma read_int_front:
  "mb_inv b \<Longrightarrow> bytes b = be_bytes 2 (unat v2) @ rest \<Longrightarrow> ReadInt16 b = Inr (v2, Retrieve 2 b)"
  "mb_inv b \<Longrightarrow> bytes b = be_bytes 4 (unat v4) @ rest \<Longrightarrow> ReadInt32 b = Inr (v4, Retrieve 4 b)"
  "mb_inv b \<Longrightarrow> bytes b = be_bytes 8 (unat v8) @ rest \<Longrightarrow> ReadInt64 b = Inr (v8, Retrieve 8 b)"
  by (simp_all add: ReadInt16_def PeekInt16_def ReadInt32_def PeekInt32_def ReadInt64_def PeekInt64_def
      hton_peek [OF _ _ unat_lt_256(1), where f = of_nat] hton_peek [OF _ _ unat_lt_256(2), where f = of_nat]
      hton_peek [OF _ _ unat_lt_256(3), where f = of_nat])

section \<open>The contract: a queue of bytes\<close>

text \<open>
  What the HTTP parser and the connections rely on: \<open>append\<close> and \<open>retrieve\<close> act on the
  readable bytes as on a list, and keep the invariant \<open>inv\<close>.
\<close>

locale byte_queue =
  fixes inv :: "'b \<Rightarrow> bool" and cont :: "'b \<Rightarrow> string"
    and app :: "string \<Rightarrow> 'b \<Rightarrow> 'b result" and ret :: "nat \<Rightarrow> 'b \<Rightarrow> 'b"
    and rd :: "nat \<Rightarrow> 'b \<Rightarrow> string \<times> 'b"
  assumes app_ok: "inv b \<Longrightarrow> \<exists>b'. app xs b = Inr b' \<and> inv b' \<and> cont b' = cont b @ xs"
    and ret_inv: "inv b \<Longrightarrow> inv (ret n b)"
    and ret_cont: "inv b \<Longrightarrow> cont (ret n b) = drop n (cont b)"
    and rd_out: "inv b \<Longrightarrow> fst (rd n b) = take n (cont b)"
    and rd_inv: "inv b \<Longrightarrow> inv (snd (rd n b))"
    and rd_cont: "inv b \<Longrightarrow> cont (snd (rd n b)) = drop n (cont b)"

text \<open>Delivering a list of fragments.\<close>

fun feed :: "(string \<Rightarrow> 'b \<Rightarrow> 'b result) \<Rightarrow> string list \<Rightarrow> 'b \<Rightarrow> 'b result" where
  "feed app [] b = Inr b"
| "feed app (x # xs) b = bindR (app x b) (feed app xs)"

text \<open>A client program: it stores bytes, and reads or drops bytes; the result lists what it read.\<close>

datatype queue_op = Put string | Take nat | Skip nat

fun queue_run :: "(string \<Rightarrow> 'b \<Rightarrow> 'b result) \<Rightarrow> (nat \<Rightarrow> 'b \<Rightarrow> 'b) \<Rightarrow> (nat \<Rightarrow> 'b \<Rightarrow> string \<times> 'b)
    \<Rightarrow> queue_op list \<Rightarrow> 'b \<Rightarrow> (string list \<times> 'b) result" where
  "queue_run app ret rd [] b = Inr ([], b)"
| "queue_run app ret rd (Put xs # ops) b = bindR (app xs b) (queue_run app ret rd ops)"
| "queue_run app ret rd (Take n # ops) b =
     bindR (queue_run app ret rd ops (snd (rd n b))) (\<lambda>(out, b'). Inr (fst (rd n b) # out, b'))"
| "queue_run app ret rd (Skip n # ops) b = queue_run app ret rd ops (ret n b)"

text \<open>The same program on a plain list.\<close>

fun list_run :: "queue_op list \<Rightarrow> string \<Rightarrow> string list \<times> string" where
  "list_run [] q = ([], q)"
| "list_run (Put xs # ops) q = list_run ops (q @ xs)"
| "list_run (Take n # ops) q = (let (out, q') = list_run ops (drop n q) in (take n q # out, q'))"
| "list_run (Skip n # ops) q = list_run ops (drop n q)"

context byte_queue
begin

lemma feed_ok: "inv b \<Longrightarrow> \<exists>b'. feed app xss b = Inr b' \<and> inv b' \<and> cont b' = cont b @ concat xss"
proof (induction xss arbitrary: b)
  case (Cons x xss)
  from app_ok [OF Cons.prems] obtain b1 where "app x b = Inr b1" "inv b1" "cont b1 = cont b @ x"
    by blast
  with Cons.IH [of b1] show ?case by auto
qed simp

lemma run_refines:
  "inv b \<Longrightarrow> \<exists>b'. queue_run app ret rd ops b = Inr (fst (list_run ops (cont b)), b')
     \<and> inv b' \<and> cont b' = snd (list_run ops (cont b))"
proof (induction ops arbitrary: b)
  case (Cons op ops)
  show ?case
  proof (cases op)
    case (Put xs)
    from app_ok [OF Cons.prems] obtain b1 where "app xs b = Inr b1" "inv b1" "cont b1 = cont b @ xs"
      by blast
    with Put Cons.IH [of b1] show ?thesis by auto
  next
    case (Take n)
    with Cons.IH [OF rd_inv, of b n] Cons.prems show ?thesis
      by (auto simp: rd_cont rd_out split: prod.splits)
  next
    case (Skip n)
    with Cons.IH [OF ret_inv, of b n] Cons.prems show ?thesis by (simp add: ret_cont)
  qed
qed simp

end

interpretation mbq: byte_queue mb_inv bytes Append Retrieve Read
  by unfold_locales (use Append_ok Retrieve_ok Read_ok in auto)

text \<open>A buffer with given readable bytes.\<close>

definition buffer_of :: "string \<Rightarrow> msg_buffer" where
  "buffer_of s = \<lparr>mb_head = kBufferOffset, mb_initCap = kBufferOffset + length s,
     mb_buffer = replicate kBufferOffset (byte_char 0) @ s @ replicate kBufferOffset (byte_char 0), mb_tail = kBufferOffset + length s\<rparr>"

lemma buffer_of_inv [simp]: "mb_inv (buffer_of s)"
  by (simp add: mb_inv_def buffer_of_def)

lemma buffer_of_bytes [simp]: "bytes (buffer_of s) = s"
  by (simp add: bytes_def buffer_of_def)

section \<open>Properties\<close>

text \<open>C7: any program of appends, reads and retrieves behaves on a \<open>MsgBuffer\<close> as on a plain list of
  bytes: the same bytes are read, the same bytes are left, nothing faults, whatever moving,
  growing and copying the buffer does underneath.\<close>

theorem buffer_program_refines:
  assumes "mb_inv b"
  shows "\<exists>b'. queue_run Append Retrieve Read ops b = Inr (fst (list_run ops (bytes b)), b')
     \<and> mb_inv b' \<and> bytes b' = snd (list_run ops (bytes b))"
  by (rule mbq.run_refines [OF assms])

theorem buffer_program_refines_witness:
  "\<exists>b'. queue_run Append Retrieve Read [Put ''hello'', Take 2, Put ''!'', Skip 1, Take 9] (new_MsgBuffer 8)
     = Inr ([''he'', ''lo!''], b') \<and> mb_inv b' \<and> bytes b' = []"
  using buffer_program_refines [OF mb_inv_new, of 8 "[Put ''hello'', Take 2, Put ''!'', Skip 1, Take 9]"]
  by (simp add: kBufferOffset_def)

text \<open>\<open>AddInFront\<close>, branch by branch: either the bytes are put before the readable ones, or,
  when the readable bytes have to be shifted by less than their number, \<open>std::copy\<close> is called
  on overlapping ranges in the direction it does not support.\<close>

theorem AddInFront_cases:
  assumes "mb_inv b"
  shows "if mb_head b < length xs \<and> length xs \<le> WritableBytes b \<and> length xs < ReadableBytes b
     then AddInFront xs b = Inl Overlapping_copy
     else \<exists>b'. AddInFront xs b = Inr b' \<and> mb_inv b' \<and> bytes b' = xs @ bytes b"
  using AddInFront_ok [OF assms, of xs] AddInFront_overlap [OF assms, of xs] by auto

theorem AddInFront_cases_witness:
  "\<exists>b. bytes b = ''0123456789'' \<and> AddInFront ''abcdefghi'' b = Inl Overlapping_copy"
proof -
  obtain b where b: "Append ''0123456789'' (new_MsgBuffer 64) = Inr b" "mb_inv b" "bytes b = ''0123456789''"
    "mb_head b = 8" "WritableBytes b = 54"
    using store_tail [OF mb_inv_new, of 64 "''0123456789''"]
    by (auto simp: Append_def EnsureWritableBytes.simps Writable_new kBufferOffset_def)
       (auto simp: new_MsgBuffer_def kBufferOffset_def WritableBytes_def memcpy_def split: if_splits)
  with AddInFront_cases [OF b(2), of "''abcdefghi''"] show ?thesis
    by (auto simp: length_bytes [symmetric])
qed

text \<open>\<open>ReadFd\<close> appends what \<open>readv\<close> returned to the readable bytes, whether it fitted in
  the free tail or spilled into the extra block, and a failed \<open>readv\<close> changes nothing.\<close>

theorem ReadFd_appends:
  assumes "mb_inv b" "length data \<le> readv_room b"
  shows "(\<exists>b'. ReadFd (Inr data) b = Inr (int (length data), None, b') \<and> mb_inv b' \<and> bytes b' = bytes b @ data)
    \<and> ReadFd (Inl err) b = Inr (-1, Some err, b)"
  using ReadFd_ok [OF assms] by (simp add: ReadFd_def)

theorem ReadFd_appends_witness:
  "(\<exists>b'. ReadFd (Inr (replicate 100 CR)) (new_MsgBuffer 16) = Inr (int (length (replicate 100 CR)), None, b')
      \<and> mb_inv b' \<and> bytes b' = bytes (new_MsgBuffer 16) @ replicate 100 CR)
    \<and> ReadFd (Inl 11) (new_MsgBuffer 16) = Inr (-1, Some 11, new_MsgBuffer 16)"
  by (rule ReadFd_appends [OF mb_inv_new]) (simp_all add: kBufferOffset_def readv_room_def Writable_new)

text \<open>Integers of 16, 32 and 64 bits written to a buffer in network order are read back in
  the order they were written.\<close>

theorem int_fifo:
  assumes "mb_inv b" "bytes b = []"
  shows "bindR (AppendInt16 v2 b) (\<lambda>b1. bindR (AppendInt32 v4 b1) (\<lambda>b2. bindR (AppendInt64 v8 b2) (\<lambda>b3.
      bindR (ReadInt16 b3) (\<lambda>(x2, b4). bindR (ReadInt32 b4) (\<lambda>(x4, b5). bindR (ReadInt64 b5) (\<lambda>(x8, b6).
        Inr (x2, x4, x8, bytes b6)))))))
    = Inr (v2, v4, v8, [])"
proof -
  obtain b1 where b1: "Append (be_bytes 2 (unat v2)) b = Inr b1" "mb_inv b1" "bytes b1 = be_bytes 2 (unat v2)"
    using mbq.app_ok [OF assms(1)] assms(2) by fastforce
  obtain b2 where b2: "Append (be_bytes 4 (unat v4)) b1 = Inr b2" "mb_inv b2"
    "bytes b2 = be_bytes 2 (unat v2) @ be_bytes 4 (unat v4)"
    using mbq.app_ok [OF b1(2)] b1(3) by fastforce
  obtain b3 where b3: "Append (be_bytes 8 (unat v8)) b2 = Inr b3" "mb_inv b3"
    "bytes b3 = be_bytes 2 (unat v2) @ be_bytes 4 (unat v4) @ be_bytes 8 (unat v8)"
    using mbq.app_ok [OF b2(2)] b2(3) by fastforce
  let ?b4 = "Retrieve 2 b3"
  let ?b5 = "Retrieve 4 ?b4"
  have b4: "mb_inv ?b4" "bytes ?b4 = be_bytes 4 (unat v4) @ be_bytes 8 (unat v8)"
    using b3 by (simp_all add: mbq.ret_inv mbq.ret_cont)
  then have b5: "mb_inv ?b5" "bytes ?b5 = be_bytes 8 (unat v8) @ []"
    by (simp_all add: mbq.ret_inv mbq.ret_cont)
  then have "bytes (Retrieve 8 ?b5) = []" by (simp add: mbq.ret_cont)
  then show ?thesis
    by (simp add: append_int_bytes b1(1) b2(1) b3(1) read_int_front(1) [OF b3(2,3)]
        read_int_front(2) [OF b4] read_int_front(3) [OF b5])
qed

theorem int_fifo_witness:
  "bindR (AppendInt16 258 (new_MsgBuffer 16)) (\<lambda>b1. bindR (AppendInt32 67305985 b1) (\<lambda>b2. bindR (AppendInt64 9 b2) (\<lambda>b3.
      bindR (ReadInt16 b3) (\<lambda>(x2, b4). bindR (ReadInt32 b4) (\<lambda>(x4, b5). bindR (ReadInt64 b5) (\<lambda>(x8, b6).
        Inr (x2, x4, x8, bytes b6)))))))
    = Inr (258, 67305985, 9, [])"
  by (rule int_fifo [OF mb_inv_new]) (simp_all add: kBufferOffset_def)

text \<open>A buffer made with a capacity below \<open>kBufferOffset\<close> is shrunk by \<open>RetrieveAll\<close> to fewer
  bytes than its indices point at, and the next \<open>Append\<close> writes outside it.\<close>

theorem small_capacity_breaks:
  assumes "n < kBufferOffset" "xs \<noteq> []" "length xs < 2147483648"
  shows "length (mb_buffer (RetrieveAll (new_MsgBuffer n))) < mb_tail (RetrieveAll (new_MsgBuffer n)) \<and>
    Append xs (RetrieveAll (new_MsgBuffer n)) = Inl Out_of_bounds"
proof -
  let ?b = "RetrieveAll (new_MsgBuffer n)"
  have b: "?b = \<lparr>mb_head = 8, mb_initCap = n, mb_buffer = replicate n (byte_char 0), mb_tail = 8\<rparr>" and n: "n < 8"
    using assms(1) by (simp_all add: RetrieveAll_def new_MsgBuffer_def kBufferOffset_def resize_def)
  have "length xs \<le> WritableBytes ?b" using n assms(3) by (simp add: b WritableBytes_def usub_def)
  then show ?thesis using n assms(2) by (simp add: Append_def EnsureWritableBytes.simps b memcpy_def)
qed

theorem small_capacity_breaks_witness:
  "length (mb_buffer (RetrieveAll (new_MsgBuffer 0))) < mb_tail (RetrieveAll (new_MsgBuffer 0)) \<and>
    Append ''x'' (RetrieveAll (new_MsgBuffer 0)) = Inl Out_of_bounds"
  by (rule small_capacity_breaks) (simp_all add: kBufferOffset_def)

end
