(* ===== verification/Packet.thy ===== *)
theory Packet
  imports Prelude
begin

text \<open>
  \<open>src/http/base/Packet.{h,cpp}\<close>: the block a message body is collected in, a header
  followed by \<open>capacity_\<close> bytes of data. The fields \<open>size_\<close> and \<open>capacity_\<close> are \<open>uint32_t\<close>,
  their readers convert to \<open>int\<close>.
\<close>

definition kPacketTypeVideo :: int where "kPacketTypeVideo = 1"
definition kPacketTypeAudio :: int where "kPacketTypeAudio = 2"
definition kPacketTypeMeta :: int where "kPacketTypeMeta = 4"
definition kPacketTypeMeta3 :: int where "kPacketTypeMeta3 = 8"
definition kFrameTypeKeyFrame :: int where "kFrameTypeKeyFrame = 16"
definition kFrameTypeIDR :: int where "kFrameTypeIDR = 32"
definition kPacketTypeUnknowed :: int where "kPacketTypeUnknowed = 255"

text \<open>\<open>pk_data\<close> is the memory behind the header, \<open>pk_ext\<close> the object \<open>ext_\<close> points to.\<close>

record packet =
  pk_type :: int
  pk_size :: nat
  pk_index :: int
  pk_timestamp :: "64 word"
  pk_capacity :: nat
  pk_ext :: "nat option"
  pk_data :: string

definition IsVideo :: "packet \<Rightarrow> bool" where
  "IsVideo p \<longleftrightarrow> and (pk_type p) kPacketTypeVideo = kPacketTypeVideo"
definition IsKeyFrame :: "packet \<Rightarrow> bool" where
  "IsKeyFrame p \<longleftrightarrow> and (pk_type p) kPacketTypeVideo = kPacketTypeVideo
     \<and> and (pk_type p) kFrameTypeKeyFrame = kFrameTypeKeyFrame"
definition IsAudio :: "packet \<Rightarrow> bool" where "IsAudio p \<longleftrightarrow> pk_type p = kPacketTypeAudio"
definition IsMeta :: "packet \<Rightarrow> bool" where "IsMeta p \<longleftrightarrow> pk_type p = kPacketTypeMeta"
definition IsMeta3 :: "packet \<Rightarrow> bool" where "IsMeta3 p \<longleftrightarrow> pk_type p = kPacketTypeMeta3"

definition PacketSize :: "packet \<Rightarrow> int" where
  "PacketSize p = to_int32 (int (pk_size p))"
definition Space :: "packet \<Rightarrow> int" where
  "Space p = to_int32 (int (pk_capacity p) - int (pk_size p))"
definition SetPacketSize :: "nat \<Rightarrow> packet \<Rightarrow> packet" where
  "SetPacketSize len p = p\<lparr>pk_size := len mod 4294967296\<rparr>"
definition UpdatePacketSize :: "nat \<Rightarrow> packet \<Rightarrow> packet" where
  "UpdatePacketSize len p = p\<lparr>pk_size := (pk_size p + len) mod 4294967296\<rparr>"

text \<open>
  \<open>NewPacket\<close>: the block size is computed in \<open>size_t\<close>, where a negative \<open>size\<close> wraps; the
  header of the packed struct takes 40 bytes. A block below 40 bytes does not hold the header
  that is written next; one of \<open>2 ^ 63\<close> bytes or more cannot be allocated.
\<close>

definition sizeof_Packet :: int where "sizeof_Packet = 40"

definition NewPacket :: "int \<Rightarrow> packet result" where
  "NewPacket sz =
     (let block_size = (sz + sizeof_Packet) mod 18446744073709551616
      in if 9223372036854775808 \<le> block_size then Inl Bad_alloc
         else if block_size < sizeof_Packet then Inl Out_of_bounds
         else Inr \<lparr>pk_type = kPacketTypeUnknowed, pk_size = 0, pk_index = -1, pk_timestamp = 0,
                   pk_capacity = to_uint32 sz, pk_ext = None,
                   pk_data = replicate (nat sz) (byte_char 0)\<rparr>)"

text \<open>The bytes collected so far.\<close>

definition packet_bytes :: "packet \<Rightarrow> string" where
  "packet_bytes p = take (pk_size p) (pk_data p)"

definition packet_inv :: "packet \<Rightarrow> bool" where
  "packet_inv p \<longleftrightarrow> length (pk_data p) = pk_capacity p \<and> pk_size p \<le> pk_capacity p
     \<and> pk_capacity p < 2147483648"

lemma NewPacket_ok:
  assumes "0 \<le> sz" "sz < 2147483648"
  shows "\<exists>p. NewPacket sz = Inr p \<and> packet_inv p \<and> pk_capacity p = nat sz \<and> pk_size p = 0"
  using assms by (simp add: NewPacket_def Let_def sizeof_Packet_def packet_inv_def to_uint32_id)

lemma NewPacket_negative:
  "-40 \<le> sz \<Longrightarrow> sz < 0 \<Longrightarrow> NewPacket sz = Inl Out_of_bounds"
  "-2147483648 \<le> sz \<Longrightarrow> sz < -40 \<Longrightarrow> NewPacket sz = Inl Bad_alloc"
proof -
  show "-40 \<le> sz \<Longrightarrow> sz < 0 \<Longrightarrow> NewPacket sz = Inl Out_of_bounds"
    by (simp add: NewPacket_def Let_def sizeof_Packet_def)
  assume "-2147483648 \<le> sz" "sz < -40"
  then have "(sz + 40 + 18446744073709551616) mod 18446744073709551616 = sz + 40 + 18446744073709551616"
    by (intro mod_pos_pos_trivial) auto
  then have "(sz + 40) mod 18446744073709551616 = sz + 40 + 18446744073709551616"
    by (simp only: mod_add_self2)
  then show "NewPacket sz = Inl Bad_alloc"
    using \<open>-2147483648 \<le> sz\<close> by (simp add: NewPacket_def Let_def sizeof_Packet_def)
qed

lemma Space_inv: "packet_inv p \<Longrightarrow> Space p = int (pk_capacity p) - int (pk_size p)"
  unfolding Space_def packet_inv_def by (intro to_int32_id) auto

lemma PacketSize_inv: "packet_inv p \<Longrightarrow> PacketSize p = int (pk_size p)"
  unfolding PacketSize_def packet_inv_def by (intro to_int32_id) auto

end
