(* ===== verification/HttpParser.thy ===== *)
theory HttpParser
  imports HttpRequest MsgBuffer Packet
begin

text \<open>
  \<open>src/http/HttpParser.{h,cpp}\<close>: the incremental parser of one HTTP message. \<open>Parse\<close> makes
  one step on the bytes at the front of the buffer; its result is the state it returns
  (which is not always \<open>state_\<close>), the parser and the buffer. Using the null \<open>req_\<close>, an
  impossible packet size and a \<open>memcpy\<close> out of bounds are faults.
\<close>

section \<open>State\<close>

datatype HttpParserState =
    kExpectHeaders
  | kExpectNormalBody
  | kExpectStreamBody
  | kExpectHttpComplete
  | kExpectChunkLen
  | kExpectChunkBody
  | kExpectChunkComplete
  | kExpectLastEmptyChunk
  | kExpectContinue
  | kExpectError

record http_parser =
  hp_state :: HttpParserState
  hp_curChunkLength :: int
  hp_curContentLength :: int
  hp_isStream :: bool
  hp_isChunked :: bool
  hp_isRequest :: bool
  hp_reason :: HttpStatusCode
  hp_header :: string
  hp_chunk :: "packet option"
  hp_req :: "http_request option"

definition new_HttpParser :: http_parser where
  "new_HttpParser =
     \<lparr>hp_state = kExpectHeaders, hp_curChunkLength = 0, hp_curContentLength = 0,
      hp_isStream = False, hp_isChunked = False, hp_isRequest = True, hp_reason = kUnknown,
      hp_header = [], hp_chunk = None, hp_req = None\<rparr>"

definition CRLFCRLF :: string where "CRLFCRLF = [CR, LF, CR, LF]"
definition kHttpMaxBodySize :: nat where "kHttpMaxBodySize = 64 * 1024"

definition fail400 :: "http_parser \<Rightarrow> http_parser" where
  "fail400 p = p\<lparr>hp_reason := k400BadRequest, hp_state := kExpectError\<rparr>"

definition ClearForNextHttp :: "http_parser \<Rightarrow> http_parser" where
  "ClearForNextHttp p =
     p\<lparr>hp_state := kExpectHeaders, hp_header := [], hp_req := None,
       hp_curContentLength := -1, hp_chunk := None\<rparr>"

definition ClearForNextChunk :: "http_parser \<Rightarrow> http_parser" where
  "ClearForNextChunk p =
     (let p1 = (if hp_isChunked p then p\<lparr>hp_state := kExpectChunkLen, hp_curChunkLength := -1\<rparr>
                else if hp_isStream p then p\<lparr>hp_state := kExpectStreamBody\<rparr>
                else p\<lparr>hp_state := kExpectHeaders, hp_curChunkLength := -1\<rparr>)
      in p1\<lparr>hp_chunk := None\<rparr>)"

section \<open>The header block\<close>

definition method_line_request :: "string list \<Rightarrow> bool \<Rightarrow> http_request" where
  "method_line_request list isRequest =
     (let req = new_HttpRequest isRequest
      in if isRequest then
           (let r1 = SetMethod (list ! 0) req; path = list ! 1;
                r2 = (case find_index (\<lambda>c. c = CHR ''?'') path of
                        Some pos \<Rightarrow> SetQuery (drop (pos + 1) path) (SetPath (substr path 0 pos) r1)
                      | None \<Rightarrow> SetPath path r1)
            in SetVersion (list ! 2) r2)
         else SetStatusCode (atoi (list ! 1)) (SetVersion (list ! 0) req))"

definition ProcessMethodLine :: "string \<Rightarrow> http_parser \<Rightarrow> http_parser" where
  "ProcessMethodLine line p =
     (let list = SplitString line '' ''
      in if length list \<noteq> 3 then fail400 p
         else
           (let isRequest = (take 4 (tolower_str (list ! 0)) \<noteq> ''http'')
            in p\<lparr>hp_isRequest := isRequest, hp_req := Some (method_line_request list isRequest)\<rparr>))"

text \<open>The loop runs over all lines, the first one included.\<close>

fun header_loop :: "string list \<Rightarrow> http_request option \<Rightarrow> http_request option result" where
  "header_loop [] req = Inr req"
| "header_loop (l # ls) req =
     (case find_index (\<lambda>c. c = CHR '':'') l of
        Some pos \<Rightarrow>
          (case req of
             None \<Rightarrow> Inl Null_deref
           | Some r \<Rightarrow> header_loop ls (Some (AddHeader (substr l 0 pos) (drop (pos + 1) l) r)))
      | None \<Rightarrow> header_loop ls req)"

text \<open>What follows the loop: how the body is delimited.\<close>

definition body_kind :: "http_request \<Rightarrow> http_parser \<Rightarrow> http_parser" where
  "body_kind r p =
     (let len = GetHeader r ''content-length''
      in if len \<noteq> [] then
           (case stoull len of
              Inl _ \<Rightarrow> fail400 p
            | Inr n \<Rightarrow>
                (let n32 = to_int32 (int n)
                 in p\<lparr>hp_curContentLength := n32,
                      hp_state := (if n32 = 0 then kExpectHttpComplete else kExpectNormalBody)\<rparr>))
         else
           (let chunk = GetHeader r ''transfer-encoding''
            in if chunk \<noteq> [] \<and> chunk = ''chunked'' then
                 p\<lparr>hp_isChunked := True, hp_req := Some (SetIsChunked True r), hp_state := kExpectChunkLen\<rparr>
               else if (\<not> hp_isRequest p \<and> rq_code r \<noteq> 200)
                 \<or> (hp_isRequest p \<and> (rq_method r = kGet \<or> rq_method r = kHead \<or> rq_method r = kOptions))
               then p\<lparr>hp_curChunkLength := 0, hp_state := kExpectHttpComplete\<rparr>
               else p\<lparr>hp_curContentLength := -1, hp_isStream := True,
                      hp_req := Some (SetIsStream True r), hp_state := kExpectStreamBody\<rparr>))"

definition ParseHeaders :: "http_parser \<Rightarrow> http_parser result" where
  "ParseHeaders p =
     (case SplitString (hp_header p) CRLF of
        [] \<Rightarrow> Inr (fail400 p)
      | l0 # ls \<Rightarrow>
          (let p1 = ProcessMethodLine l0 p
           in bindR (header_loop (l0 # ls) (hp_req p1))
                (\<lambda>req. case req of
                   None \<Rightarrow> Inl Null_deref
                 | Some r \<Rightarrow> Inr (body_kind r (p1\<lparr>hp_req := Some r\<rparr>)))))"

section \<open>Bodies\<close>

text \<open>
  The lines \<open>ParseStream\<close>, \<open>ParseNormalBody\<close> and \<open>ParseChunk\<close> share: create the packet when
  there is none, and move as many bytes as the buffer has and the packet has room for. The
  result is the number moved, the packet and the buffer.
\<close>

definition fill_chunk :: "int \<Rightarrow> packet option \<Rightarrow> msg_buffer \<Rightarrow> (int \<times> packet \<times> msg_buffer) result" where
  "fill_chunk cap chunk buf =
     bindR (case chunk of None \<Rightarrow> NewPacket cap | Some c \<Rightarrow> Inr c)
       (\<lambda>c.
         (let sz = min (to_int32 (int (ReadableBytes buf))) (Space c)
          in if sz < 0 \<or> PacketSize c < 0 then Inl Out_of_bounds
             else bindR (memcpy (pk_data c) (nat (PacketSize c)) (take (nat sz) (bytes buf)))
                    (\<lambda>d. Inr (sz, UpdatePacketSize (nat sz) (c\<lparr>pk_data := d\<rparr>), Retrieve (nat sz) buf))))"

definition ParseStream :: "msg_buffer \<Rightarrow> http_parser \<Rightarrow> (http_parser \<times> msg_buffer) result" where
  "ParseStream buf p =
     bindR (fill_chunk (int kHttpMaxBodySize) (hp_chunk p) buf)
       (\<lambda>(sz, c, buf').
         Inr (p\<lparr>hp_chunk := Some c,
                hp_state := (if Space c = 0 then kExpectChunkComplete else hp_state p)\<rparr>, buf'))"

definition ParseNormalBody :: "msg_buffer \<Rightarrow> http_parser \<Rightarrow> (http_parser \<times> msg_buffer) result" where
  "ParseNormalBody buf p =
     bindR (fill_chunk (hp_curContentLength p) (hp_chunk p) buf)
       (\<lambda>(sz, c, buf').
         (let rest = hp_curContentLength p - sz
          in Inr (p\<lparr>hp_chunk := Some c, hp_curContentLength := rest,
                    hp_state := (if rest = 0 then kExpectHttpComplete else hp_state p)\<rparr>, buf')))"

definition ParseChunk :: "msg_buffer \<Rightarrow> http_parser \<Rightarrow> (http_parser \<times> msg_buffer) result" where
  "ParseChunk buf p =
     bindR (fill_chunk (hp_curChunkLength p) (hp_chunk p) buf)
       (\<lambda>(sz, c, buf').
         (let rest = hp_curChunkLength p - sz
          in Inr (p\<lparr>hp_chunk := Some c, hp_curChunkLength := rest,
                    hp_state := (if rest = 0 \<or> Space c = 0 then kExpectChunkComplete else hp_state p)\<rparr>,
                  buf')))"

section \<open>One step of the parser\<close>

type_synonym parse_result = "(HttpParserState \<times> http_parser \<times> msg_buffer) result"

definition parse_headers_step :: "msg_buffer \<Rightarrow> http_parser \<Rightarrow> parse_result" where
  "parse_headers_step buf p =
     (if length CRLFCRLF < ReadableBytes buf then
        (case find_sub CRLFCRLF (bytes buf) of
           Some sz \<Rightarrow>
             (let p1 = p\<lparr>hp_header := take sz (bytes buf)\<rparr>; buf' = Retrieve (sz + 4) buf
              in bindR (ParseHeaders p1) (\<lambda>p2. Inr (hp_state p2, p2, buf')))
         | None \<Rightarrow>
             if kHttpMaxBodySize < ReadableBytes buf then Inr (kExpectError, fail400 p, buf)
             else Inr (kExpectContinue, p, buf))
      else Inr (kExpectContinue, p, buf))"

definition parse_chunk_len_step :: "msg_buffer \<Rightarrow> http_parser \<Rightarrow> parse_result" where
  "parse_chunk_len_step buf p =
     (case FindCRLF buf of
        Some crlf \<Rightarrow>
          (let n = to_int32 (strtol 16 (take crlf (bytes buf)));
               p1 = p\<lparr>hp_curChunkLength := n\<rparr>;
               p2 = (if 1024 * 1024 < n then p1\<lparr>hp_state := kExpectError, hp_reason := k400BadRequest\<rparr> else p1)
           in bindR (RetrieveUntil (crlf + 2) buf)
                (\<lambda>buf'.
                  (let p3 = p2\<lparr>hp_state := (if n = 0 then kExpectLastEmptyChunk else kExpectChunkBody)\<rparr>
                   in Inr (hp_state p3, p3, buf'))))
      | None \<Rightarrow>
          if 32 < ReadableBytes buf then Inr (kExpectError, fail400 p, RetrieveAll buf)
          else Inr (hp_state p, p, buf))"

definition parse_last_chunk_step :: "msg_buffer \<Rightarrow> http_parser \<Rightarrow> parse_result" where
  "parse_last_chunk_step buf p =
     (case FindCRLF buf of
        Some crlf \<Rightarrow>
          bindR (RetrieveUntil (crlf + 2) buf)
            (\<lambda>buf'. Inr (kExpectChunkComplete, p\<lparr>hp_chunk := None, hp_state := kExpectChunkComplete\<rparr>, buf'))
      | None \<Rightarrow> Inr (hp_state p, p, buf))"

definition Parse :: "msg_buffer \<Rightarrow> http_parser \<Rightarrow> parse_result" where
  "Parse buf p =
     (if ReadableBytes buf = 0 then Inr (hp_state p, p, buf)
      else
        (case hp_state p of
           kExpectHeaders \<Rightarrow> parse_headers_step buf p
         | kExpectNormalBody \<Rightarrow> bindR (ParseNormalBody buf p) (\<lambda>(p', buf'). Inr (hp_state p', p', buf'))
         | kExpectStreamBody \<Rightarrow> bindR (ParseStream buf p) (\<lambda>(p', buf'). Inr (hp_state p', p', buf'))
         | kExpectChunkLen \<Rightarrow> parse_chunk_len_step buf p
         | kExpectChunkBody \<Rightarrow> bindR (ParseChunk buf p) (\<lambda>(p', buf'). Inr (hp_state p', p', buf'))
         | kExpectLastEmptyChunk \<Rightarrow> parse_last_chunk_step buf p
         | _ \<Rightarrow> Inr (hp_state p, p, buf)))"

section \<open>The header loop as a sequence of stores\<close>

fun header_fields :: "string list \<Rightarrow> (string \<times> string) list" where
  "header_fields [] = []"
| "header_fields (l # ls) =
     (case find_index (\<lambda>c. c = CHR '':'') l of
        Some pos \<Rightarrow> (substr l 0 pos, drop (pos + 1) l) # header_fields ls
      | None \<Rightarrow> header_fields ls)"

lemma header_loop_Some:
  "header_loop ls (Some r) = Inr (Some (put_all AddHeader (header_fields ls) r))"
  by (induction ls arbitrary: r) (auto split: option.splits)

lemma header_loop_None:
  "header_loop ls None = Inl Null_deref \<or> header_loop ls None = Inr None"
  by (induction ls) (auto split: option.splits)

lemma rq_inv_put_all: "rq_inv r \<Longrightarrow> rq_inv (put_all AddHeader kvs r)"
  by (induction kvs arbitrary: r) (auto simp: rq_inv_AddHeader)

lemma put_all_AddHeader_frame:
  "rq_method (put_all AddHeader kvs r) = rq_method r" "rq_code (put_all AddHeader kvs r) = rq_code r"
  "rq_path (put_all AddHeader kvs r) = rq_path r" "rq_query (put_all AddHeader kvs r) = rq_query r"
  "rq_version (put_all AddHeader kvs r) = rq_version r"
  "rq_isRequest (put_all AddHeader kvs r) = rq_isRequest r"
  "rq_parameters (put_all AddHeader kvs r) = rq_parameters r"
  "rq_body (put_all AddHeader kvs r) = rq_body r"
  by (induction kvs arbitrary: r) (auto simp: AddHeader_def)

lemma ProcessMethodLine_bad:
  "length (SplitString l '' '') \<noteq> 3 \<Longrightarrow> ProcessMethodLine l p = fail400 p"
  by (simp add: ProcessMethodLine_def Let_def)

lemma rq_inv_method_line: "rq_inv (method_line_request list b)"
  by (auto simp: method_line_request_def Let_def rq_inv_setters rq_inv_new rq_inv_SetQuery
      split: option.splits)

lemma ProcessMethodLine_good:
  "length (SplitString l '' '') = 3 \<Longrightarrow> \<exists>r b. rq_inv r \<and>
     ProcessMethodLine l p = p\<lparr>hp_isRequest := b, hp_req := Some r\<rparr>"
  by (auto simp: ProcessMethodLine_def Let_def intro: rq_inv_method_line)

text \<open>
  When the header block faults: exactly when its first line does not split into three parts
  and there is no request object from before.
\<close>

lemma ParseHeaders_fault_iff:
  "(\<exists>e. ParseHeaders p = Inl e) \<longleftrightarrow>
     hp_req p = None \<and> (\<exists>l ls. SplitString (hp_header p) CRLF = l # ls \<and> length (SplitString l '' '') \<noteq> 3)"
proof (cases "SplitString (hp_header p) CRLF")
  case Nil
  then show ?thesis by (simp add: ParseHeaders_def)
next
  case (Cons l ls)
  let ?p1 = "ProcessMethodLine l p"
  show ?thesis
  proof (cases "hp_req ?p1")
    case None
    then have "length (SplitString l '' '') \<noteq> 3 \<and> hp_req p = None"
      using ProcessMethodLine_good [of l p] ProcessMethodLine_bad [of l p]
      by (cases "length (SplitString l '' '') = 3") (auto simp: fail400_def)
    moreover have "\<exists>e. ParseHeaders p = Inl e"
      using header_loop_None [of "l # ls"] Cons None
      by (auto simp: ParseHeaders_def Let_def simp del: header_loop.simps)
    ultimately show ?thesis using Cons by auto
  next
    case (Some r)
    then have "\<not> (length (SplitString l '' '') \<noteq> 3 \<and> hp_req p = None)"
      using ProcessMethodLine_bad [of l p] by (auto simp: fail400_def)
    moreover have "\<exists>p'. ParseHeaders p = Inr p'"
      using Cons Some by (simp add: ParseHeaders_def Let_def header_loop_Some del: header_loop.simps)
    ultimately show ?thesis using Cons by auto
  qed
qed

lemma ParseHeaders_Null_deref: "ParseHeaders p = Inl e \<Longrightarrow> e = Null_deref"
proof (cases "SplitString (hp_header p) CRLF")
  case (Cons l ls)
  assume e: "ParseHeaders p = Inl e"
  show ?thesis
  proof (cases "hp_req (ProcessMethodLine l p)")
    case None
    with e Cons header_loop_None [of "l # ls"] show ?thesis
      by (auto simp: ParseHeaders_def Let_def simp del: header_loop.simps)
  next
    case (Some r)
    with e Cons show ?thesis
      by (simp add: ParseHeaders_def Let_def header_loop_Some del: header_loop.simps)
  qed
qed (simp add: ParseHeaders_def)

section \<open>The parser invariant\<close>

definition is_int32 :: "int \<Rightarrow> bool" where
  "is_int32 k \<longleftrightarrow> -2147483648 \<le> k \<and> k < 2147483648"

text \<open>
  While a body is collected, what is still expected is exactly the room left in the packet;
  outside the body states there is no packet before the body starts.
\<close>

definition hp_inv :: "http_parser \<Rightarrow> bool" where
  "hp_inv p \<longleftrightarrow>
     (\<forall>c. hp_chunk p = Some c \<longrightarrow> packet_inv c) \<and>
     (\<forall>r. hp_req p = Some r \<longrightarrow> rq_inv r) \<and>
     is_int32 (hp_curContentLength p) \<and> is_int32 (hp_curChunkLength p) \<and>
     (hp_state p \<in> {kExpectHeaders, kExpectChunkLen, kExpectLastEmptyChunk} \<longrightarrow> hp_chunk p = None) \<and>
     (\<forall>c. hp_state p = kExpectNormalBody \<and> hp_chunk p = Some c \<longrightarrow>
        Space c = hp_curContentLength p \<and> 0 < Space c) \<and>
     (\<forall>c. hp_state p = kExpectChunkBody \<and> hp_chunk p = Some c \<longrightarrow>
        Space c = hp_curChunkLength p \<and> 0 < Space c)"

lemma hp_inv_new: "hp_inv new_HttpParser"
  by (simp add: hp_inv_def new_HttpParser_def is_int32_def)

lemma hp_inv_Clear: "hp_inv p \<Longrightarrow> hp_inv (ClearForNextHttp p)" "hp_inv p \<Longrightarrow> hp_inv (ClearForNextChunk p)"
  by (auto simp: hp_inv_def ClearForNextHttp_def ClearForNextChunk_def is_int32_def Let_def)

text \<open>The size of the move in \<open>fill_chunk\<close>, the collected bytes and the room.\<close>

definition chunk_bytes :: "packet option \<Rightarrow> string" where
  "chunk_bytes ch = (case ch of None \<Rightarrow> [] | Some c \<Rightarrow> packet_bytes c)"

definition chunk_room :: "int \<Rightarrow> packet option \<Rightarrow> nat" where
  "chunk_room cap ch = (case ch of None \<Rightarrow> nat cap | Some c \<Rightarrow> pk_capacity c - pk_size c)"

definition small_buf :: "msg_buffer \<Rightarrow> bool" where
  "small_buf buf \<longleftrightarrow> mb_inv buf \<and> ReadableBytes buf < 2147483648"

lemma small_buf_iff: "small_buf buf \<longleftrightarrow> mb_inv buf \<and> length (bytes buf) < 2147483648"
  by (auto simp: small_buf_def length_bytes)

lemma small_buf_of: "length s < 2147483648 \<Longrightarrow> small_buf (buffer_of s)"
  by (simp add: small_buf_iff)

lemma small_buf_Retrieve: "small_buf buf \<Longrightarrow> small_buf (Retrieve n buf)"
  by (auto simp: small_buf_iff mbq.ret_inv mbq.ret_cont)

lemma packet_store:
  assumes "packet_inv c" "length xs \<le> pk_capacity c - pk_size c"
  shows "\<exists>d. memcpy (pk_data c) (pk_size c) xs = Inr d \<and>
     packet_inv (UpdatePacketSize (length xs) (c\<lparr>pk_data := d\<rparr>)) \<and>
     packet_bytes (UpdatePacketSize (length xs) (c\<lparr>pk_data := d\<rparr>)) = packet_bytes c @ xs \<and>
     pk_size (UpdatePacketSize (length xs) (c\<lparr>pk_data := d\<rparr>)) = pk_size c + length xs \<and>
     pk_capacity (UpdatePacketSize (length xs) (c\<lparr>pk_data := d\<rparr>)) = pk_capacity c"
  using assms
  by (auto simp: memcpy_def UpdatePacketSize_def packet_inv_def packet_bytes_def min_def)

lemma fill_chunk_ok:
  assumes buf: "small_buf buf"
    and ch: "case ch of None \<Rightarrow> 0 \<le> cap \<and> cap < 2147483648 | Some c \<Rightarrow> packet_inv c"
    and n: "n = min (ReadableBytes buf) (chunk_room cap ch)"
  shows "\<exists>c. fill_chunk cap ch buf = Inr (int n, c, Retrieve n buf) \<and> packet_inv c \<and>
     packet_bytes c = chunk_bytes ch @ take n (bytes buf) \<and> Space c = int (chunk_room cap ch - n)"
proof -
  obtain c where c: "(case ch of None \<Rightarrow> NewPacket cap | Some c \<Rightarrow> Inr c) = Inr c" "packet_inv c"
    "packet_bytes c = chunk_bytes ch" "chunk_room cap ch = pk_capacity c - pk_size c"
    using ch NewPacket_ok [of cap]
    by (cases ch) (auto simp: chunk_bytes_def chunk_room_def packet_bytes_def)
  have r: "to_int32 (int (ReadableBytes buf)) = int (ReadableBytes buf)"
    using buf by (intro to_int32_id) (auto simp: small_buf_def)
  have sz: "min (int (ReadableBytes buf)) (Space c) = int n"
    using c n by (auto simp: Space_inv packet_inv_def)
  have len: "length (take n (bytes buf)) = n"
    using buf n by (simp add: small_buf_def length_bytes)
  obtain d where d: "memcpy (pk_data c) (pk_size c) (take n (bytes buf)) = Inr d"
    "packet_inv (UpdatePacketSize n (c\<lparr>pk_data := d\<rparr>))"
    "packet_bytes (UpdatePacketSize n (c\<lparr>pk_data := d\<rparr>)) = packet_bytes c @ take n (bytes buf)"
    "pk_size (UpdatePacketSize n (c\<lparr>pk_data := d\<rparr>)) = pk_size c + n"
    "pk_capacity (UpdatePacketSize n (c\<lparr>pk_data := d\<rparr>)) = pk_capacity c"
    using packet_store [of c "take n (bytes buf)", unfolded len] c(2,4) n by auto
  have "fill_chunk cap ch buf = Inr (int n, UpdatePacketSize n (c\<lparr>pk_data := d\<rparr>), Retrieve n buf)"
    using c d r sz by (simp add: fill_chunk_def Let_def PacketSize_inv)
  moreover have "Space (UpdatePacketSize n (c\<lparr>pk_data := d\<rparr>)) = int (chunk_room cap ch - n)"
    using c d(2,4,5) n by (simp add: Space_inv packet_inv_def)
  ultimately show ?thesis using c d by auto
qed

lemma NewPacket_Inr: "NewPacket cap = Inr c \<Longrightarrow> is_int32 cap \<Longrightarrow> 0 \<le> cap \<and> cap < 2147483648"
  using NewPacket_negative [of cap] unfolding is_int32_def by (cases "0 \<le> cap"; cases "-40 \<le> cap") auto

text \<open>A returning \<open>fill_chunk\<close> is one that had a legal size to allocate.\<close>

lemma fill_chunk_Inr:
  assumes "fill_chunk cap ch buf = Inr (sz, c, buf')" "small_buf buf" "is_int32 cap"
    and "\<And>c. ch = Some c \<Longrightarrow> packet_inv c"
  obtains n where "n = min (ReadableBytes buf) (chunk_room cap ch)" "sz = int n" "buf' = Retrieve n buf"
    "packet_inv c" "packet_bytes c = chunk_bytes ch @ take n (bytes buf)"
    "Space c = int (chunk_room cap ch - n)" "ch = None \<Longrightarrow> 0 \<le> cap"
proof -
  have legal: "case ch of None \<Rightarrow> 0 \<le> cap \<and> cap < 2147483648 | Some c \<Rightarrow> packet_inv c"
  proof (cases ch)
    case None
    with assms(1) obtain c0 where "NewPacket cap = Inr c0"
      by (auto simp: fill_chunk_def bindR_eq_Inr_iff)
    with None assms(3) NewPacket_Inr show ?thesis by simp
  qed (use assms(4) in auto)
  show thesis
    using fill_chunk_ok [OF assms(2) legal refl] assms(1) that legal by (auto split: option.splits)
qed

section \<open>Every step keeps the invariant\<close>

lemma is_int32_to_int32 [simp]: "is_int32 (to_int32 k)"
  using to_int32_range by (simp add: is_int32_def)

lemma hp_inv_fail400: "hp_inv p \<Longrightarrow> hp_inv (fail400 p)"
  by (simp add: hp_inv_def fail400_def)

lemma hp_inv_ProcessMethodLine:
  assumes "hp_inv p" shows "hp_inv (ProcessMethodLine l p)"
proof (cases "length (SplitString l '' '') = 3")
  case True
  with assms ProcessMethodLine_good [OF True, of p] show ?thesis by (auto simp: hp_inv_def)
qed (use assms in \<open>simp add: ProcessMethodLine_bad hp_inv_fail400\<close>)

lemma body_kind_frame:
  "hp_chunk (body_kind r p) = hp_chunk p" "hp_header (body_kind r p) = hp_header p"
  by (auto simp: body_kind_def Let_def fail400_def split: sum.splits)

lemma hp_inv_body_kind:
  assumes "hp_inv p" "rq_inv r" "hp_chunk p = None" "hp_req p = Some r"
  shows "hp_inv (body_kind r p)"
  using assms
  by (auto simp: body_kind_def Let_def hp_inv_def fail400_def rq_inv_setters is_int32_def to_int32_range
      split: sum.splits)

lemma ProcessMethodLine_chunk [simp]: "hp_chunk (ProcessMethodLine l p) = hp_chunk p"
  by (auto simp: ProcessMethodLine_def Let_def fail400_def)

lemma hp_inv_ParseHeaders:
  assumes "hp_inv p" "hp_chunk p = None" "ParseHeaders p = Inr p'"
  shows "hp_inv p'"
proof (cases "SplitString (hp_header p) CRLF")
  case Nil
  with assms show ?thesis by (auto simp: ParseHeaders_def hp_inv_fail400)
next
  case (Cons l ls)
  let ?p1 = "ProcessMethodLine l p"
  have p1: "hp_inv ?p1" "hp_chunk ?p1 = None" using assms hp_inv_ProcessMethodLine by auto
  show ?thesis
  proof (cases "hp_req ?p1")
    case None
    with Cons assms(3) header_loop_None [of "l # ls"] show ?thesis
      by (auto simp: ParseHeaders_def Let_def simp del: header_loop.simps)
  next
    case (Some r)
    let ?r = "put_all AddHeader (header_fields (l # ls)) r"
    from Some p1 have "rq_inv ?r" using rq_inv_put_all by (auto simp: hp_inv_def)
    moreover from this p1 have "hp_inv (?p1\<lparr>hp_req := Some ?r\<rparr>)" by (simp add: hp_inv_def)
    ultimately have "hp_inv (body_kind ?r (?p1\<lparr>hp_req := Some ?r\<rparr>))"
      using p1 by (intro hp_inv_body_kind) auto
    moreover have "p' = body_kind ?r (?p1\<lparr>hp_req := Some ?r\<rparr>)"
      using Cons assms(3) Some
      by (simp add: ParseHeaders_def Let_def header_loop_Some del: header_loop.simps header_fields.simps)
    ultimately show ?thesis by simp
  qed
qed

text \<open>What a step does to the buffer: it takes bytes off the front, or leaves it alone.\<close>

definition consumes :: "msg_buffer \<Rightarrow> msg_buffer \<Rightarrow> bool" where
  "consumes buf buf' \<longleftrightarrow> small_buf buf' \<and> (\<exists>n. bytes buf' = drop n (bytes buf))"

lemma consumes_refl: "small_buf buf \<Longrightarrow> consumes buf buf"
  unfolding consumes_def by (metis drop0)

lemma consumes_Retrieve: "small_buf buf \<Longrightarrow> consumes buf (Retrieve n buf)"
  unfolding consumes_def using small_buf_Retrieve [of buf n]
  by (auto simp: mbq.ret_cont small_buf_def)

lemma consumes_RetrieveAll: "small_buf buf \<Longrightarrow> consumes buf (RetrieveAll buf)"
  unfolding consumes_def using RetrieveAll_ok [of buf]
  by (auto simp: small_buf_iff intro!: exI [of _ "length (bytes buf)"])

lemma FindCRLF_bound: "small_buf buf \<Longrightarrow> FindCRLF buf = Some i \<Longrightarrow> i + 2 \<le> ReadableBytes buf"
  by (auto simp: FindCRLF_def small_buf_def CRLF_def length_bytes dest: find_sub_SomeD)

lemma RetrieveUntil_CRLF:
  "small_buf buf \<Longrightarrow> FindCRLF buf = Some i \<Longrightarrow> RetrieveUntil (i + 2) buf = Inr (Retrieve (i + 2) buf)"
  using FindCRLF_bound [of buf i] by (auto simp: RetrieveUntil_def small_buf_def Readable_inv mb_inv_def)

lemma body_step_inv:
  assumes inv: "hp_inv p" and sb: "small_buf buf" and pos: "0 < ReadableBytes buf"
  shows "hp_state p = kExpectNormalBody \<Longrightarrow> ParseNormalBody buf p = Inr (p', buf') \<Longrightarrow> hp_inv p' \<and> consumes buf buf'"
    and "hp_state p = kExpectChunkBody \<Longrightarrow> ParseChunk buf p = Inr (p', buf') \<Longrightarrow> hp_inv p' \<and> consumes buf buf'"
    and "hp_state p = kExpectStreamBody \<Longrightarrow> ParseStream buf p = Inr (p', buf') \<Longrightarrow> hp_inv p' \<and> consumes buf buf'"
proof -
  have pk: "\<And>c. hp_chunk p = Some c \<Longrightarrow> packet_inv c" using inv by (simp add: hp_inv_def)
  have len: "is_int32 (hp_curContentLength p)" "is_int32 (hp_curChunkLength p)"
    using inv by (auto simp: hp_inv_def)
  {
    assume st: "hp_state p = kExpectNormalBody" and "ParseNormalBody buf p = Inr (p', buf')"
    then obtain sz c where f: "fill_chunk (hp_curContentLength p) (hp_chunk p) buf = Inr (sz, c, buf')"
      and p': "p' = p\<lparr>hp_chunk := Some c, hp_curContentLength := hp_curContentLength p - sz,
                hp_state := (if hp_curContentLength p - sz = 0 then kExpectHttpComplete else hp_state p)\<rparr>"
      by (auto simp: ParseNormalBody_def bindR_eq_Inr_iff Let_def)
    from f sb len(1) pk obtain n where n: "n = min (ReadableBytes buf) (chunk_room (hp_curContentLength p) (hp_chunk p))"
      "sz = int n" "buf' = Retrieve n buf" "packet_inv c"
      "Space c = int (chunk_room (hp_curContentLength p) (hp_chunk p) - n)"
      "hp_chunk p = None \<Longrightarrow> 0 \<le> hp_curContentLength p"
      by (elim fill_chunk_Inr) auto
    have "int (chunk_room (hp_curContentLength p) (hp_chunk p)) = hp_curContentLength p"
      using inv st n(6) pk by (auto simp: chunk_room_def hp_inv_def Space_inv packet_inv_def split: option.splits)
    then have "Space c = hp_curContentLength p - sz" "0 \<le> hp_curContentLength p - sz"
      using n by auto
    then have "hp_inv p'" using inv st n len p' by (auto simp: hp_inv_def is_int32_def)
    then show "hp_inv p' \<and> consumes buf buf'" using n(3) sb consumes_Retrieve by simp
  next
    assume st: "hp_state p = kExpectChunkBody" and "ParseChunk buf p = Inr (p', buf')"
    then obtain sz c where f: "fill_chunk (hp_curChunkLength p) (hp_chunk p) buf = Inr (sz, c, buf')"
      and p': "p' = p\<lparr>hp_chunk := Some c, hp_curChunkLength := hp_curChunkLength p - sz,
                hp_state := (if hp_curChunkLength p - sz = 0 \<or> Space c = 0 then kExpectChunkComplete else hp_state p)\<rparr>"
      by (auto simp: ParseChunk_def bindR_eq_Inr_iff Let_def)
    from f sb len(2) pk obtain n where n: "n = min (ReadableBytes buf) (chunk_room (hp_curChunkLength p) (hp_chunk p))"
      "sz = int n" "buf' = Retrieve n buf" "packet_inv c"
      "Space c = int (chunk_room (hp_curChunkLength p) (hp_chunk p) - n)"
      "hp_chunk p = None \<Longrightarrow> 0 \<le> hp_curChunkLength p"
      by (elim fill_chunk_Inr) auto
    have "int (chunk_room (hp_curChunkLength p) (hp_chunk p)) = hp_curChunkLength p"
      using inv st n(6) pk by (auto simp: chunk_room_def hp_inv_def Space_inv packet_inv_def split: option.splits)
    then have "Space c = hp_curChunkLength p - sz" "0 \<le> hp_curChunkLength p - sz"
      using n by auto
    then have "hp_inv p'" using inv st n len p' by (auto simp: hp_inv_def is_int32_def)
    then show "hp_inv p' \<and> consumes buf buf'" using n(3) sb consumes_Retrieve by simp
  next
    assume st: "hp_state p = kExpectStreamBody" and "ParseStream buf p = Inr (p', buf')"
    then obtain sz c where f: "fill_chunk (int kHttpMaxBodySize) (hp_chunk p) buf = Inr (sz, c, buf')"
      and p': "p' = p\<lparr>hp_chunk := Some c, hp_state := (if Space c = 0 then kExpectChunkComplete else hp_state p)\<rparr>"
      by (auto simp: ParseStream_def bindR_eq_Inr_iff Let_def)
    have "is_int32 (int kHttpMaxBodySize)" by (simp add: is_int32_def kHttpMaxBodySize_def)
    with f sb pk obtain n where n: "buf' = Retrieve n buf" "packet_inv c" by (elim fill_chunk_Inr) auto
    then have "hp_inv p'" using inv st p' by (auto simp: hp_inv_def)
    then show "hp_inv p' \<and> consumes buf buf'" using n sb consumes_Retrieve by simp
  }
qed

lemma Parse_inv:
  assumes "hp_inv p" "small_buf buf" "Parse buf p = Inr (st, p', buf')"
  shows "hp_inv p' \<and> consumes buf buf'"
proof (cases "ReadableBytes buf = 0")
  case True
  with assms show ?thesis by (simp add: Parse_def consumes_refl)
next
  case False
  then have pos: "0 < ReadableBytes buf" by simp
  note step = body_step_inv [OF assms(1,2) pos]
  show ?thesis
  proof (cases "hp_state p")
    case kExpectHeaders
    have ch: "hp_chunk p = None" using assms(1) kExpectHeaders by (simp add: hp_inv_def)
    have h: "hp_inv (p\<lparr>hp_header := x\<rparr>)" for x using assms(1) by (auto simp: hp_inv_def)
    from kExpectHeaders pos assms(3) have "parse_headers_step buf p = Inr (st, p', buf')"
      by (simp add: Parse_def)
    then show ?thesis
      using assms(1,2) ch hp_inv_ParseHeaders [OF h]
      by (auto simp: parse_headers_step_def Let_def bindR_eq_Inr_iff consumes_refl consumes_Retrieve
          hp_inv_fail400 split: if_splits option.splits)
  next
    case kExpectChunkLen
    have ch: "hp_chunk p = None" using assms(1) kExpectChunkLen by (simp add: hp_inv_def)
    from kExpectChunkLen pos assms(3) have "parse_chunk_len_step buf p = Inr (st, p', buf')"
      by (simp add: Parse_def)
    then show ?thesis
      using assms(1,2) ch
      by (auto simp: parse_chunk_len_step_def Let_def RetrieveUntil_CRLF [simplified] consumes_refl consumes_Retrieve
          consumes_RetrieveAll hp_inv_fail400 split: option.splits if_splits) (auto simp: hp_inv_def is_int32_def [of 0])
  next
    case kExpectLastEmptyChunk
    from kExpectLastEmptyChunk pos assms(3) have "parse_last_chunk_step buf p = Inr (st, p', buf')"
      by (simp add: Parse_def)
    then show ?thesis
      using assms(1,2)
      by (auto simp: parse_last_chunk_step_def RetrieveUntil_CRLF [simplified] consumes_refl consumes_Retrieve
          split: option.splits) (auto simp: hp_inv_def)
  qed (use assms pos step in \<open>auto simp: Parse_def bindR_eq_Inr_iff consumes_refl\<close>)
qed

end
