(* ===== verification/HttpParserSpec.thy ===== *)
theory HttpParserSpec
  imports HttpParser
begin

text \<open>
  What \<open>HttpParser::Parse\<close> achieves: bodies do not depend on how the network cuts them, the
  exact cases in which a step faults, and the round trip of a message printed by
  \<open>HttpRequest::MakeHeaders\<close> through the parser.
\<close>

section \<open>Fragments\<close>

text \<open>The connection appends what \<open>read\<close> returned to the buffer and calls the parser.\<close>

fun deliver :: "string list \<Rightarrow> msg_buffer \<Rightarrow> http_parser \<Rightarrow> parse_result" where
  "deliver [] buf p = Inr (hp_state p, p, buf)"
| "deliver (x # xs) buf p =
     bindR (Append x buf) (\<lambda>b. bindR (Parse b p) (\<lambda>(st, p', b'). deliver xs b' p'))"

text \<open>A body of known length: \<open>got\<close> is collected and \<open>rest\<close> bytes are missing.\<close>

definition body_at :: "http_parser \<Rightarrow> string \<Rightarrow> nat \<Rightarrow> bool" where
  "body_at p got rest \<longleftrightarrow>
     hp_inv p \<and> chunk_bytes (hp_chunk p) = got \<and> hp_curContentLength p = int rest \<and>
     hp_state p = (if rest = 0 then kExpectHttpComplete else kExpectNormalBody)"

lemma body_at_room:
  assumes "body_at p got rest" "rest \<noteq> 0"
  shows "chunk_room (hp_curContentLength p) (hp_chunk p) = rest"
proof (cases "hp_chunk p")
  case (Some c)
  with assms have "packet_inv c" "Space c = int rest" by (auto simp: body_at_def hp_inv_def)
  with Some show ?thesis by (auto simp: chunk_room_def Space_inv packet_inv_def)
qed (use assms in \<open>simp add: chunk_room_def body_at_def\<close>)

lemma normal_body_step:
  assumes at: "body_at p got rest" and buf: "mb_inv buf" and n: "length (bytes buf) \<le> rest"
  shows "\<exists>p' buf'. Parse buf p = Inr (hp_state p', p', buf') \<and> mb_inv buf' \<and> bytes buf' = []
     \<and> body_at p' (got @ bytes buf) (rest - length (bytes buf)) \<and> hp_req p' = hp_req p"
proof (cases "bytes buf = []")
  case True
  with buf have "ReadableBytes buf = 0" by (metis length_bytes list.size(3))
  with True at buf show ?thesis by (simp add: Parse_def)
next
  case False
  with n have pos: "rest \<noteq> 0" and len: "0 < length (bytes buf)" by (cases rest; simp)+
  let ?n = "length (bytes buf)"
  have st: "hp_state p = kExpectNormalBody" "hp_curContentLength p = int rest" "hp_inv p"
    "chunk_bytes (hp_chunk p) = got"
    using at pos by (auto simp: body_at_def)
  have sb: "small_buf buf" using buf n st by (auto simp: small_buf_iff hp_inv_def is_int32_def)
  have "case hp_chunk p of None \<Rightarrow> 0 \<le> int rest \<and> int rest < 2147483648 | Some c \<Rightarrow> packet_inv c"
    using st(2,3) by (cases "hp_chunk p") (auto simp: hp_inv_def is_int32_def)
  moreover have room: "chunk_room (int rest) (hp_chunk p) = rest" using body_at_room [OF at pos] st(2) by simp
  ultimately obtain c where c: "fill_chunk (int rest) (hp_chunk p) buf = Inr (int ?n, c, Retrieve ?n buf)"
    "packet_inv c" "packet_bytes c = got @ bytes buf" "Space c = int (rest - ?n)"
    using fill_chunk_ok [OF sb, of "int rest" "hp_chunk p" ?n] n st(4) buf by (auto simp: length_bytes)
  define p' where "p' = p\<lparr>hp_chunk := Some c, hp_curContentLength := int rest - int ?n,
    hp_state := (if int rest - int ?n = 0 then kExpectHttpComplete else hp_state p)\<rparr>"
  have run: "ParseNormalBody buf p = Inr (p', Retrieve ?n buf)"
    using c(1) st(2) by (simp add: ParseNormalBody_def p'_def)
  moreover have "0 < ReadableBytes buf" using len buf by (simp add: length_bytes)
  ultimately have "hp_inv p'" using body_step_inv(1) [OF st(3) sb] st(1) by blast
  then have "body_at p' (got @ bytes buf) (rest - ?n)"
    using c n st by (auto simp: body_at_def p'_def chunk_bytes_def)
  moreover have "Parse buf p = Inr (hp_state p', p', Retrieve ?n buf)"
    using run st(1) \<open>0 < ReadableBytes buf\<close> by (simp add: Parse_def)
  moreover have "mb_inv (Retrieve ?n buf) \<and> bytes (Retrieve ?n buf) = []" using Retrieve_ok [OF buf] by simp
  ultimately show ?thesis by (auto simp: p'_def)
qed

lemma deliver_normal_body:
  "body_at p got rest \<Longrightarrow> mb_inv buf \<Longrightarrow> bytes buf = [] \<Longrightarrow> length (concat xs) \<le> rest \<Longrightarrow>
   \<exists>p' buf'. deliver xs buf p = Inr (hp_state p', p', buf') \<and> mb_inv buf' \<and> bytes buf' = []
     \<and> body_at p' (got @ concat xs) (rest - length (concat xs)) \<and> hp_req p' = hp_req p"
proof (induction xs arbitrary: p got rest buf)
  case (Cons x xs)
  obtain b where b: "Append x buf = Inr b" "mb_inv b" "bytes b = x"
    using mbq.app_ok [OF Cons.prems(2), of x] Cons.prems(3) by auto
  obtain p1 b1 where p1: "Parse b p = Inr (hp_state p1, p1, b1)" "mb_inv b1" "bytes b1 = []"
    "body_at p1 (got @ x) (rest - length x)" "hp_req p1 = hp_req p"
    using normal_body_step [OF Cons.prems(1) b(2)] b(3) Cons.prems(4) by auto
  with Cons.IH [OF p1(4,2,3)] Cons.prems(4) b(1) show ?case by auto
qed auto

section \<open>When a step faults\<close>

lemma fill_chunk_fault_iff:
  assumes "small_buf buf" "is_int32 cap" "\<And>c. ch = Some c \<Longrightarrow> packet_inv c"
  shows "(\<exists>e. fill_chunk cap ch buf = Inl e) \<longleftrightarrow> ch = None \<and> cap < 0"
proof (cases "ch = None \<and> cap < 0")
  case True
  then have "\<exists>e. NewPacket cap = Inl e"
    using NewPacket_negative [of cap] assms(2) unfolding is_int32_def by (cases "-40 \<le> cap") auto
  with True show ?thesis by (auto simp: fill_chunk_def)
next
  case False
  then have "case ch of None \<Rightarrow> 0 \<le> cap \<and> cap < 2147483648 | Some c \<Rightarrow> packet_inv c"
    using assms(2,3) by (cases ch) (auto simp: is_int32_def)
  with fill_chunk_ok [OF assms(1) this refl] False show ?thesis by auto
qed

definition bad_first_line :: "string \<Rightarrow> bool" where
  "bad_first_line header \<longleftrightarrow>
     (\<exists>l ls. tokens CRLF header = l # ls \<and> length (tokens '' '' l) \<noteq> 3)"

lemma ParseHeaders_fault:
  "(\<exists>e. ParseHeaders p = Inl e) \<longleftrightarrow> hp_req p = None \<and> bad_first_line (hp_header p)"
  by (simp add: ParseHeaders_fault_iff bad_first_line_def SplitString_tokens CRLF_def)

text \<open>The complete list: a bad first line with no request object, and a negative body length.\<close>

definition step_faults :: "msg_buffer \<Rightarrow> http_parser \<Rightarrow> bool" where
  "step_faults buf p \<longleftrightarrow> 0 < ReadableBytes buf \<and>
     (hp_state p = kExpectHeaders \<and> hp_req p = None \<and>
        (\<exists>n. find_sub CRLFCRLF (bytes buf) = Some n \<and> 4 < ReadableBytes buf \<and> bad_first_line (take n (bytes buf)))
      \<or> hp_state p = kExpectNormalBody \<and> hp_chunk p = None \<and> hp_curContentLength p < 0
      \<or> hp_state p = kExpectChunkBody \<and> hp_chunk p = None \<and> hp_curChunkLength p < 0)"

lemma bindR_Inl_iff: "(\<exists>e. bindR r f = Inl e) \<longleftrightarrow> (\<exists>e. r = Inl e) \<or> (\<exists>x e. r = Inr x \<and> f x = Inl e)"
  by (cases r) auto

lemma headers_step_fault:
  "(\<exists>e. parse_headers_step buf p = Inl e) \<longleftrightarrow>
     4 < ReadableBytes buf \<and> hp_req p = None \<and>
     (\<exists>n. find_sub CRLFCRLF (bytes buf) = Some n \<and> bad_first_line (take n (bytes buf)))"
  by (auto simp: parse_headers_step_def Let_def CRLFCRLF_def bindR_Inl_iff ParseHeaders_fault
      split: option.splits)

text \<open>C26: one call of \<open>Parse\<close> faults exactly in the cases of \<open>step_faults\<close>: a header block whose
  first line has not three words when there is no request object, or a body whose length was
  read as a negative number.\<close>

theorem Parse_fault_iff:
  assumes inv: "hp_inv p" and sb: "small_buf buf"
  shows "(\<exists>e. Parse buf p = Inl e) \<longleftrightarrow> step_faults buf p"
proof (cases "ReadableBytes buf = 0")
  case False
  have ch: "\<And>c. hp_chunk p = Some c \<Longrightarrow> packet_inv c" using inv by (simp add: hp_inv_def)
  have len: "is_int32 (hp_curContentLength p)" "is_int32 (hp_curChunkLength p)" "is_int32 (int kHttpMaxBodySize)"
    using inv by (auto simp: hp_inv_def is_int32_def kHttpMaxBodySize_def)
  note fill = fill_chunk_fault_iff [OF sb _ ch]
  show ?thesis
  proof (cases "hp_state p")
    case kExpectHeaders
    then show ?thesis using False headers_step_fault [of buf p]
      by (auto simp: Parse_def step_faults_def)
  next
    case kExpectNormalBody
    then show ?thesis using False fill [OF len(1)]
      by (auto simp: Parse_def step_faults_def ParseNormalBody_def bindR_Inl_iff Let_def)
  next
    case kExpectStreamBody
    then show ?thesis using False fill [OF len(3)]
      by (auto simp: Parse_def step_faults_def ParseStream_def bindR_Inl_iff kHttpMaxBodySize_def)
  next
    case kExpectChunkBody
    then show ?thesis using False fill [OF len(2)]
      by (auto simp: Parse_def step_faults_def ParseChunk_def bindR_Inl_iff Let_def)
  qed (use False sb in \<open>auto simp: Parse_def step_faults_def parse_chunk_len_step_def parse_last_chunk_step_def
      RetrieveUntil_CRLF [simplified] Let_def split: option.splits\<close>)
qed (simp add: Parse_def step_faults_def)

theorem Parse_fault_iff_witness:
  "(\<exists>e. Parse (buffer_of (''GET /'' @ CRLFCRLF)) new_HttpParser = Inl e) \<longleftrightarrow>
     step_faults (buffer_of (''GET /'' @ CRLFCRLF)) new_HttpParser"
  by (rule Parse_fault_iff [OF hp_inv_new small_buf_of]) (simp add: CRLFCRLF_def)

lemma Parse_incomplete:
  assumes "hp_state p = kExpectHeaders" "mb_inv buf" "bytes buf \<noteq> []"
    and "find_sub CRLFCRLF (bytes buf) = None" "length (bytes buf) \<le> kHttpMaxBodySize"
  shows "Parse buf p = Inr (kExpectContinue, p, buf)"
  using assms by (simp add: Parse_def parse_headers_step_def length_bytes [symmetric])

text \<open>C13: whatever the network delivers, in pieces of any size, a parser that returns keeps its
  invariant: collected bytes and room agree with the packet, and its request is well formed;
  what is left in the buffer is the end of what was received.\<close>

theorem deliver_keeps_inv:
  assumes "hp_inv p" "small_buf buf" "length (bytes buf) + length (concat xs) < 2147483648"
    and "deliver xs buf p = Inr (st, p', buf')"
  shows "hp_inv p' \<and> small_buf buf' \<and> suffix (bytes buf') (bytes buf @ concat xs)"
  using assms
proof (induction xs arbitrary: p buf)
  case (Cons x xs)
  then obtain b st1 p1 b1 where b: "Append x buf = Inr b" "Parse b p = Inr (st1, p1, b1)"
    "deliver xs b1 p1 = Inr (st, p', buf')"
    by (auto simp: bindR_eq_Inr_iff)
  from Cons.prems(2) have ap: "mb_inv b" "bytes b = bytes buf @ x"
    using mbq.app_ok [of buf x] b(1) by (auto simp: small_buf_def)
  with Cons.prems(3) have "small_buf b" by (simp add: small_buf_iff)
  with Parse_inv [OF Cons.prems(1) this b(2)] obtain n where
    p1: "hp_inv p1" "small_buf b1" "bytes b1 = drop n (bytes b)"
    by (auto simp: consumes_def)
  with Cons.prems(3) ap have "length (bytes b1) + length (concat xs) < 2147483648" by simp
  from Cons.IH [OF p1(1,2) this b(3)] have "hp_inv p'" "small_buf buf'"
    "suffix (bytes buf') (drop n (bytes b) @ concat xs)" by (auto simp: p1(3))
  moreover have "suffix (drop n (bytes b) @ concat xs) (bytes buf @ concat (x # xs))"
    using ap by (metis append.assoc concat.simps(2) same_suffix_suffix suffix_drop)
  ultimately show ?case using suffix_order.trans by blast
qed (auto simp: suffix_def)

theorem deliver_keeps_inv_witness:
  "\<exists>st p' buf'. deliver [''GET'', '' / HTTP/1.1''] (buffer_of []) new_HttpParser = Inr (st, p', buf') \<and>
     hp_inv p' \<and> small_buf buf' \<and> suffix (bytes buf') ''GET / HTTP/1.1''"
proof -
  have st: "hp_state new_HttpParser = kExpectHeaders" by (simp add: new_HttpParser_def)
  obtain b1 where b1: "Append ''GET'' (buffer_of []) = Inr b1" "mb_inv b1" "bytes b1 = ''GET''"
    using mbq.app_ok [of "buffer_of []" "''GET''"] by auto
  obtain b2 where b2: "Append '' / HTTP/1.1'' b1 = Inr b2" "mb_inv b2" "bytes b2 = ''GET / HTTP/1.1''"
    using mbq.app_ok [OF b1(2), of "'' / HTTP/1.1''"] b1(3) by auto
  have "find_sub CRLFCRLF ''GET'' = None" "find_sub CRLFCRLF ''GET / HTTP/1.1'' = None"
    by (simp_all add: CRLFCRLF_def CR_def)
  then have "Parse b1 new_HttpParser = Inr (kExpectContinue, new_HttpParser, b1)"
    "Parse b2 new_HttpParser = Inr (kExpectContinue, new_HttpParser, b2)"
    using Parse_incomplete [OF st b1(2)] Parse_incomplete [OF st b2(2)] b1(3) b2(3) by (simp_all add: kHttpMaxBodySize_def)
  with b1 b2 obtain st p' buf' where
    d: "deliver [''GET'', '' / HTTP/1.1''] (buffer_of []) new_HttpParser = Inr (st, p', buf')"
    by simp
  from deliver_keeps_inv [OF hp_inv_new small_buf_of _ d] d show ?thesis by auto
qed

section \<open>Messages the library prints\<close>

definition header_line :: "string \<times> string \<Rightarrow> string" where
  "header_line kv = fst kv @ '': '' @ snd kv"

definition plain_field :: "string \<times> string \<Rightarrow> bool" where
  "plain_field kv \<longleftrightarrow> CHR '':'' \<notin> set (fst kv) \<and> CR \<notin> set (fst kv) \<and> CR \<notin> set (snd kv)"

lemma header_lines_map: "header_lines hs = concat (map (\<lambda>kv. header_line kv @ CRLF) hs)"
  by (induction hs) (auto simp: header_line_def CRLF_def)

lemma lines_join: "ls \<noteq> [] \<Longrightarrow> concat (map (\<lambda>l. l @ CRLF) ls) = join CRLF ls @ CRLF"
  by (induction CRLF ls rule: join.induct) auto

lemma find_sub_prefix:
  "\<forall>x\<in>set pre. x \<noteq> hd d \<Longrightarrow> d \<noteq> [] \<Longrightarrow> find_sub d (pre @ s) = map_option ((+) (length pre)) (find_sub d s)"
  by (induction pre) (cases "find_sub d s"; auto simp: neq_Nil_conv)+

lemma CR_LF: "CR \<noteq> LF" "LF \<noteq> CR"
  by (simp_all add: CR_def LF_def)

lemma find_CRLFCRLF_next:
  "c \<noteq> CR \<Longrightarrow> find_sub CRLFCRLF (CR # LF # c # s) = map_option ((+) 2) (find_sub CRLFCRLF (c # s))"
  by (simp add: CRLFCRLF_def CR_LF option.map_comp comp_def)

text \<open>The blank line that ends a header block is the first one in it.\<close>

lemma find_header_end:
  "ls \<noteq> [] \<Longrightarrow> \<forall>l\<in>set ls. l \<noteq> [] \<and> CR \<notin> set l \<Longrightarrow>
     find_sub CRLFCRLF (join CRLF ls @ CRLFCRLF @ rest) = Some (length (join CRLF ls))"
proof (induction CRLF ls rule: join.induct)
  case (2 x)
  then have "\<forall>c\<in>set x. c \<noteq> hd CRLFCRLF" by (auto simp: CRLFCRLF_def)
  then show ?case by (simp add: find_sub_prefix CRLFCRLF_def)
next
  case (3 x y ys)
  then have x: "\<forall>c\<in>set x. c \<noteq> hd CRLFCRLF" by (auto simp: CRLFCRLF_def)
  obtain c t where c: "join CRLF (y # ys) @ CRLFCRLF @ rest = c # t" "c \<noteq> CR"
    using 3(3) by (cases y; cases ys) auto
  have eq: "join CRLF (x # y # ys) @ CRLFCRLF @ rest = x @ CR # LF # c # t"
    using c(1) by (simp add: CRLF_def)
  have ih: "find_sub CRLFCRLF (join CRLF (y # ys) @ CRLFCRLF @ rest) = Some (length (join CRLF (y # ys)))"
    using 3(3) by (intro 3(1)) auto
  have "find_sub CRLFCRLF (CR # LF # c # t) = Some (2 + length (join CRLF (y # ys)))"
    using find_CRLFCRLF_next [OF c(2), of t] ih unfolding c(1) by (simp del: find_sub.simps)
  moreover have "CRLFCRLF \<noteq> []" by (simp add: CRLFCRLF_def)
  ultimately show ?case unfolding eq find_sub_prefix [OF x \<open>CRLFCRLF \<noteq> []\<close>]
    by (simp add: CRLF_def)
qed simp

lemma tokens_header:
  assumes "ls \<noteq> []" "\<forall>l\<in>set ls. l \<noteq> [] \<and> CR \<notin> set l"
  shows "SplitString (join CRLF ls) CRLF = ls"
proof -
  have "CRLF \<noteq> []" "hd CRLF = CR" by (simp_all add: CRLF_def)
  with assms show ?thesis
    by (simp add: SplitString_tokens tokens_of_join)
qed

lemma header_fields_lines:
  "\<forall>kv\<in>set hs. plain_field kv \<Longrightarrow>
     header_fields (map header_line hs) = map (\<lambda>(k, v). (k, CHR '' '' # v)) hs"
proof (induction hs)
  case (Cons kv hs)
  obtain k v where kv: "kv = (k, v)" by (cases kv)
  with Cons.prems have "\<forall>c\<in>set k. c \<noteq> CHR '':''" by (auto simp: plain_field_def)
  then have "find_index (\<lambda>c. c = CHR '':'') (k @ CHR '':'' # CHR '' '' # v) = Some (length k)"
    by (intro find_index_hit) auto
  with kv Cons show ?case by (simp add: header_line_def substr_def)
qed simp

text \<open>What the receiver knows of the headers: every value has gained the blank after the colon.\<close>

definition received_headers :: "http_request \<Rightarrow> http_request \<Rightarrow> bool" where
  "received_headers r r' \<longleftrightarrow>
     (\<forall>k. GetHeader r' k =
        (case map_of (rq_headers r) (tolower_str k) of Some v \<Rightarrow> CHR '' '' # v | None \<Rightarrow> []))"

lemma lawful_set: "lawful_order ord \<Longrightarrow> set (ord m) = set m"
  by (metis lawful_order_def set_mset_mset)

lemma lawful_distinct: "lawful_order ord \<Longrightarrow> distinct (map fst m) \<Longrightarrow> distinct (map fst (ord m))"
  by (metis lawful_order_def mset_eq_imp_distinct_iff mset_map)

lemma received_put_all:
  assumes inv: "rq_inv r" and ord: "lawful_order ord" and no: "rq_headers r0 = []"
  shows "received_headers r (put_all AddHeader (map (\<lambda>(k, v). (k, CHR '' '' # v)) (ord (rq_headers r))) r0)"
  unfolding received_headers_def
proof
  fix k
  let ?m = "map (\<lambda>(k, v). (k, CHR '' '' # v)) (ord (rq_headers r))"
  have low: "\<forall>(k, v)\<in>set (ord (rq_headers r)). tolower_str k = k"
    using inv lawful_set [OF ord] by (simp add: rq_inv_def)
  show "GetHeader (put_all AddHeader ?m r0) k =
      (case map_of (rq_headers r) (tolower_str k) of Some v \<Rightarrow> CHR '' '' # v | None \<Rightarrow> [])"
  proof (cases "map_of (rq_headers r) (tolower_str k)")
    case (Some v)
    then have "(tolower_str k, CHR '' '' # v) \<in> set ?m"
      using lawful_set [OF ord] by (force dest: map_of_SomeD)
    moreover have keys: "map (tolower_str \<circ> fst) ?m = map fst (ord (rq_headers r))"
      using low by auto
    have "distinct (map (tolower_str \<circ> fst) ?m)"
      unfolding keys using lawful_distinct [OF ord] inv by (simp add: rq_inv_def)
    ultimately have "GetHeader (put_all AddHeader ?m r0) (tolower_str k) = CHR '' '' # v"
      using hdr.get_put_all_distinct by blast
    with Some show ?thesis by (simp add: GetHeader_def)
  next
    case None
    then have "tolower_str k \<notin> fst ` set (rq_headers r)" unfolding map_of_eq_None_iff .
    then have "\<forall>(j, v)\<in>set ?m. tolower_str j \<noteq> tolower_str k"
      using low lawful_set [OF ord] by force
    then have "GetHeader (put_all AddHeader ?m r0) k = GetHeader r0 k"
      by (rule hdr.get_put_all_other)
    with None no show ?thesis by (simp add: GetHeader_def)
  qed
qed

text \<open>One header block of a printed message, read by \<open>Parse\<close> in its first state.\<close>

lemma Parse_header_block:
  assumes p: "hp_state p = kExpectHeaders"
    and buf: "small_buf buf" "bytes buf = join CRLF ls @ CRLFCRLF @ rest"
    and ls: "ls \<noteq> []" "\<forall>l\<in>set ls. l \<noteq> [] \<and> CR \<notin> set l"
  shows "Parse buf p = bindR (ParseHeaders (p\<lparr>hp_header := join CRLF ls\<rparr>))
           (\<lambda>p2. Inr (hp_state p2, p2, Retrieve (length (join CRLF ls) + 4) buf))"
    and "bytes (Retrieve (length (join CRLF ls) + 4) buf) = rest"
proof -
  have ne: "join CRLF ls \<noteq> []" using ls by (cases ls; cases "tl ls") auto
  have "ReadableBytes buf = length (join CRLF ls) + 4 + length rest"
    using buf length_bytes [of buf] by (simp add: small_buf_def CRLFCRLF_def)
  moreover from this ne have "4 < ReadableBytes buf" by (cases "join CRLF ls") auto
  ultimately show "Parse buf p = bindR (ParseHeaders (p\<lparr>hp_header := join CRLF ls\<rparr>))
      (\<lambda>p2. Inr (hp_state p2, p2, Retrieve (length (join CRLF ls) + 4) buf))"
    using p buf(2) find_header_end [OF ls, of rest]
    by (simp add: Parse_def parse_headers_step_def Let_def) (simp add: CRLFCRLF_def)
  show "bytes (Retrieve (length (join CRLF ls) + 4) buf) = rest"
    using buf by (simp add: small_buf_def mbq.ret_cont CRLFCRLF_def)
qed

lemma body_kind_req:
  "\<exists>r'. hp_req (body_kind r (p\<lparr>hp_req := Some r\<rparr>)) = Some r' \<and>
     (\<forall>k. GetHeader r' k = GetHeader r k) \<and> rq_method r' = rq_method r \<and> rq_path r' = rq_path r \<and>
     rq_version r' = rq_version r \<and> rq_code r' = rq_code r \<and> rq_isRequest r' = rq_isRequest r \<and>
     rq_parameters r' = rq_parameters r"
  by (auto simp: body_kind_def Let_def fail400_def GetHeader_def SetIsChunked_def SetIsStream_def
      split: sum.splits)

lemma header_block_text:
  "l @ [CR, LF] @ header_lines hs @ [CR, LF] = join CRLF (l # map header_line hs) @ CRLFCRLF"
proof -
  have "l @ CRLF @ header_lines hs = concat (map (\<lambda>l. l @ CRLF) (l # map header_line hs))"
    by (simp add: header_lines_map comp_def)
  also have "\<dots> = join CRLF (l # map header_line hs) @ CRLF" by (rule lines_join) simp
  finally have "(l @ CRLF @ header_lines hs) @ CRLF = (join CRLF (l # map header_line hs) @ CRLF) @ CRLF"
    by simp
  then show ?thesis by (simp add: CRLF_def CRLFCRLF_def)
qed

lemma Parse_first_line:
  assumes p: "hp_state p = kExpectHeaders" and buf: "small_buf buf"
    and msg: "bytes buf = l @ [CR, LF] @ header_lines hs @ [CR, LF] @ rest"
    and l: "l \<noteq> []" "CR \<notin> set l" "CHR '':'' \<notin> set l" "tokens '' '' l = [a, b, c]"
    and hs: "\<forall>kv\<in>set hs. plain_field kv"
  defines "req \<equiv> take 4 (tolower_str a) \<noteq> ''http''"
  defines "r1 \<equiv> put_all AddHeader (map (\<lambda>(k, v). (k, CHR '' '' # v)) hs) (method_line_request [a, b, c] req)"
  shows "\<exists>h buf'. Parse buf p = (let p2 = body_kind r1 (p\<lparr>hp_header := h, hp_isRequest := req, hp_req := Some r1\<rparr>)
            in Inr (hp_state p2, p2, buf')) \<and> small_buf buf' \<and> bytes buf' = rest"
proof -
  let ?ls = "l # map header_line hs"
  have ls: "?ls \<noteq> []" "\<forall>l\<in>set ?ls. l \<noteq> [] \<and> CR \<notin> set l"
    using l hs by (auto simp: header_line_def plain_field_def CR_def)
  have msg': "bytes buf = join CRLF ?ls @ CRLFCRLF @ rest"
    using msg header_block_text [of l hs] by (metis append.assoc)
  note parse = Parse_header_block [OF p buf msg' ls]
  have "find_index (\<lambda>c. c = CHR '':'') l = None" using l(3) by (auto simp: find_index_None_iff)
  then have fields: "header_fields ?ls = map (\<lambda>(k, v). (k, CHR '' '' # v)) hs"
    using header_fields_lines [OF hs] by simp
  have "SplitString l '' '' = [a, b, c]" using l(4) by (simp add: SplitString_tokens)
  then have line: "ProcessMethodLine l (p\<lparr>hp_header := join CRLF ?ls\<rparr>)
      = p\<lparr>hp_header := join CRLF ?ls, hp_isRequest := req, hp_req := Some (method_line_request [a, b, c] req)\<rparr>"
    by (simp add: ProcessMethodLine_def req_def Let_def)
  have "ParseHeaders (p\<lparr>hp_header := join CRLF ?ls\<rparr>)
      = Inr (body_kind r1 (p\<lparr>hp_header := join CRLF ?ls, hp_isRequest := req, hp_req := Some r1\<rparr>))"
    using tokens_header [OF ls] line
    by (simp add: ParseHeaders_def header_loop_Some fields r1_def del: header_loop.simps header_fields.simps)
  with parse small_buf_Retrieve [OF buf, of "length (join CRLF ?ls) + 4"] show ?thesis
    by (auto simp: Let_def)
qed

lemma parameters_loop_frame:
  "rq_headers (parse_parameters_loop ls r) = rq_headers r" "rq_path (parse_parameters_loop ls r) = rq_path r"
  "rq_method (parse_parameters_loop ls r) = rq_method r" "rq_version (parse_parameters_loop ls r) = rq_version r"
  "rq_isRequest (parse_parameters_loop ls r) = rq_isRequest r"
  by (induction ls arbitrary: r) (auto simp: Let_def SetParameter_def split: option.splits)

lemma no_headers:
  "rq_headers (new_HttpRequest b) = []" "rq_headers (SetMethod m r) = rq_headers r"
  "rq_headers (SetVersion v r) = rq_headers r" "rq_headers (SetPath p r) = rq_headers r"
  "rq_headers (SetStatusCode c r) = rq_headers r" "rq_headers (SetQuery q r) = rq_headers r"
  by (simp_all add: new_HttpRequest_def SetMethod_def SetVersion_def SetPath_def SetStatusCode_def
      SetQuery_def ParseParameters_def parameters_loop_frame Let_def)

lemma method_line_isRequest: "rq_isRequest (method_line_request ws b) = b"
  by (auto simp: method_line_request_def Let_def new_HttpRequest_def SetMethod_def SetVersion_def SetPath_def
      SetStatusCode_def SetQuery_def ParseParameters_def parameters_loop_frame split: option.splits)

lemma body_kind_isRequest: "hp_isRequest (body_kind r p) = hp_isRequest p"
  by (auto simp: body_kind_def Let_def fail400_def split: sum.splits)

text \<open>
  The printed message \<open>r\<close> with first line \<open>l\<close>: the parser has moved on to the body, with a
  request object that has the fields \<open>method_line_request\<close> reads in the line and the headers of \<open>r\<close>.
\<close>

lemma Parse_printed:
  assumes p: "hp_state p = kExpectHeaders" and buf: "small_buf buf"
    and msg: "bytes buf = l @ [CR, LF] @ header_lines (ord (rq_headers r)) @ [CR, LF] @ rest"
    and l: "l \<noteq> []" "CR \<notin> set l" "CHR '':'' \<notin> set l" "tokens '' '' l = [a, b, c]"
    and r: "rq_inv r" "\<forall>kv\<in>set (rq_headers r). plain_field kv" and ord: "lawful_order ord"
  defines "req \<equiv> take 4 (tolower_str a) \<noteq> ''http''"
  defines "r0 \<equiv> method_line_request [a, b, c] req"
  obtains r1 h buf' r' p' where
    "p' = body_kind r1 (p\<lparr>hp_header := h, hp_isRequest := req, hp_req := Some r1\<rparr>)"
    "Parse buf p = Inr (hp_state p', p', buf')" "small_buf buf'" "bytes buf' = rest"
    "hp_isRequest p' = req" "hp_req p' = Some r'" "received_headers r r1" "received_headers r r'"
    "rq_method r' = rq_method r0" "rq_path r' = rq_path r0" "rq_version r' = rq_version r0"
    "rq_code r' = rq_code r0" "rq_parameters r' = rq_parameters r0" "rq_isRequest r' = req"
proof -
  have hs: "\<forall>kv\<in>set (ord (rq_headers r)). plain_field kv" using r(2) lawful_set [OF ord] by simp
  define r1 where "r1 = put_all AddHeader (map (\<lambda>(k, v). (k, CHR '' '' # v)) (ord (rq_headers r))) r0"
  have no: "rq_headers r0 = []"
    by (simp add: r0_def method_line_request_def Let_def no_headers split: option.split)
  then have rec: "received_headers r r1" unfolding r1_def by (rule received_put_all [OF r(1) ord])
  obtain h buf' where step: "Parse buf p = (let p2 = body_kind r1 (p\<lparr>hp_header := h, hp_isRequest := req, hp_req := Some r1\<rparr>)
      in Inr (hp_state p2, p2, buf'))" "small_buf buf'" "bytes buf' = rest"
    using Parse_first_line [OF p buf msg l hs] unfolding r1_def r0_def req_def by blast
  obtain r' where r': "hp_req (body_kind r1 (p\<lparr>hp_header := h, hp_isRequest := req, hp_req := Some r1\<rparr>)) = Some r'"
    "\<forall>k. GetHeader r' k = GetHeader r1 k" "rq_method r' = rq_method r1" "rq_path r' = rq_path r1"
    "rq_version r' = rq_version r1" "rq_code r' = rq_code r1" "rq_parameters r' = rq_parameters r1"
    "rq_isRequest r' = rq_isRequest r1"
    using body_kind_req [of r1 "p\<lparr>hp_header := h, hp_isRequest := req\<rparr>"] by auto
  show thesis
    by (rule that [OF refl _ step(2,3) _ r'(1) rec])
      (use step r' rec in \<open>simp_all add: Let_def body_kind_isRequest received_headers_def\<close>,
       simp_all add: r1_def r0_def put_all_AddHeader_frame method_line_isRequest)
qed

text \<open>A first line with more or fewer than three words, on a parser without a request object.\<close>

lemma Parse_bad_first_line:
  assumes p: "hp_state p = kExpectHeaders" "hp_req p = None" and buf: "small_buf buf"
    and msg: "bytes buf = l @ [CR, LF] @ header_lines hs @ [CR, LF] @ rest"
    and l: "l \<noteq> []" "CR \<notin> set l" "length (tokens '' '' l) \<noteq> 3"
    and hs: "\<forall>kv\<in>set hs. plain_field kv"
  shows "Parse buf p = Inl Null_deref"
proof -
  let ?ls = "l # map header_line hs"
  have ls: "?ls \<noteq> []" "\<forall>l\<in>set ?ls. l \<noteq> [] \<and> CR \<notin> set l"
    using l hs by (auto simp: header_line_def plain_field_def CR_def)
  have msg': "bytes buf = join CRLF ?ls @ CRLFCRLF @ rest"
    using msg header_block_text [of l hs] by (metis append.assoc)
  have "tokens CRLF (join CRLF ?ls) = ?ls"
    using tokens_header [OF ls] by (simp add: SplitString_tokens CRLF_def)
  then obtain e where e: "ParseHeaders (p\<lparr>hp_header := join CRLF ?ls\<rparr>) = Inl e"
    using ParseHeaders_fault [of "p\<lparr>hp_header := join CRLF ?ls\<rparr>"] p(2) l(3)
    by (auto simp: bad_first_line_def)
  with ParseHeaders_Null_deref [OF e] Parse_header_block(1) [OF p(1) buf msg' ls] show ?thesis by simp
qed

subsection \<open>Responses\<close>

lemma message_table_texts:
  "list_all (\<lambda>(n, m). m \<noteq> [] \<and> CR \<notin> set m \<and> CHR '':'' \<notin> set m) status_message_table"
  by code_simp

lemma message_text:
  "ParseStatusMessage n \<noteq> []" "CR \<notin> set (ParseStatusMessage n)" "CHR '':'' \<notin> set (ParseStatusMessage n)"
proof -
  have "ParseStatusMessage n \<noteq> [] \<and> CR \<notin> set (ParseStatusMessage n) \<and> CHR '':'' \<notin> set (ParseStatusMessage n)"
  proof (cases "map_of status_message_table n")
    case None
    then show ?thesis by (simp add: ParseStatusMessage_def CR_def)
  next
    case (Some m)
    then have "(n, m) \<in> set status_message_table" by (rule map_of_SomeD)
    with message_table_texts Some show ?thesis by (auto simp: ParseStatusMessage_def list_all_iff)
  qed
  then show "ParseStatusMessage n \<noteq> []" "CR \<notin> set (ParseStatusMessage n)" "CHR '':'' \<notin> set (ParseStatusMessage n)"
    by auto
qed

definition version_word :: "Version \<Rightarrow> string" where
  "version_word v = (if v = kHttp10 then ''HTTP/1.0'' else ''HTTP/1.1'')"

lemma version_text_word: "version_text v = version_word v @ '' ''"
  by (simp add: version_text_def version_word_def)

lemma version_word_chars:
  "CR \<notin> set (version_word v)" "CHR '' '' \<notin> set (version_word v)" "CHR '':'' \<notin> set (version_word v)"
  "version_word v \<noteq> []"
  by (auto simp: version_word_def CR_def)

lemma version_word_http: "take 4 (tolower_str (version_word v)) = ''http''"
proof -
  have "take 4 (tolower_str ''HTTP/1.0'') = ''http''" "take 4 (tolower_str ''HTTP/1.1'') = ''http''"
    by code_simp+
  then show ?thesis by (simp add: version_word_def)
qed

lemma SetVersion_word: "rq_version (SetVersion (version_word v) r) = (if v = kHttp10 then kHttp10 else kHttp11)"
  by (simp add: SetVersion_eq version_word_def)

lemma digits_chars: "CR \<notin> set (to_string n)" "CHR '' '' \<notin> set (to_string n)" "CHR '':'' \<notin> set (to_string n)"
  by (auto dest!: set_to_string simp: c_isdigit_def CR_def byte_def)

definition response_line :: "http_request \<Rightarrow> string" where
  "response_line r = version_word (rq_version r) @ '' '' @ to_string (rq_code r) @ '' ''
     @ ParseStatusMessage (to_int32 (int (rq_code r)))"

lemma MakeHeaders_response:
  "\<not> rq_isRequest r \<Longrightarrow> MakeHeaders ord r = response_line r @ [CR, LF] @ header_lines (ord (rq_headers r)) @ [CR, LF]"
  by (simp add: MakeHeaders_def AppendResponseFirstLine_def response_line_def version_text_word)

lemma response_line_chars:
  "response_line r \<noteq> []" "CR \<notin> set (response_line r)" "CHR '':'' \<notin> set (response_line r)"
  using version_word_chars message_text digits_chars by (auto simp: response_line_def CR_def)

lemma response_line_tokens:
  "tokens '' '' (response_line r) = version_word (rq_version r) # to_string (rq_code r)
     # tokens '' '' (ParseStatusMessage (to_int32 (int (rq_code r))))"
  by (simp add: response_line_def tokens_step [of "'' ''", simplified] version_word_chars digits_chars)

text \<open>C28: a printed response with a status code below \<open>2 ^ 31\<close> whose reason phrase is one word is read
  back: the same code; version 1.0 as 1.0 and every other as 1.1; every header, whose value has gained
  the blank the printer puts after the colon; and what follows it stays in the buffer.\<close>

theorem response_roundtrip:
  assumes p: "hp_state p = kExpectHeaders" and buf: "small_buf buf" "bytes buf = MakeHeaders ord r @ rest"
    and r: "rq_inv r" "\<not> rq_isRequest r" "rq_code r < 2147483648" "\<forall>kv\<in>set (rq_headers r). plain_field kv"
    and ord: "lawful_order ord"
    and one: "CHR '' '' \<notin> set (ParseStatusMessage (int (rq_code r)))"
  shows "\<exists>p' buf' r'. Parse buf p = Inr (hp_state p', p', buf') \<and> small_buf buf' \<and> bytes buf' = rest \<and>
     \<not> hp_isRequest p' \<and> hp_req p' = Some r' \<and> rq_code r' = rq_code r \<and>
     rq_version r' = (if rq_version r = kHttp10 then kHttp10 else kHttp11) \<and> received_headers r r'"
proof -
  let ?msg = "ParseStatusMessage (int (rq_code r))"
  have code: "to_int32 (int (rq_code r)) = int (rq_code r)" using r(3) by (simp add: to_int32_id)
  have "tokens '' '' ?msg = [?msg]" using one message_text by (intro tokens_last) auto
  then have l: "tokens '' '' (response_line r) = [version_word (rq_version r), to_string (rq_code r), ?msg]"
    by (simp add: response_line_tokens code)
  note fields = method_line_request_def Let_def SetStatusCode_def SetVersion_word atoi_to_string to_uint32_id
    version_word_http
  show ?thesis
    by (rule Parse_printed [OF p buf(1) _ response_line_chars l r(1,4) ord, of rest])
      (use buf(2) r(3) in \<open>auto simp: MakeHeaders_response [OF r(2)] fields\<close>)
qed

text \<open>A printed response whose reason phrase has several words (404 Not Found, say) is not:
  on a fresh parser its header block dereferences the null request.\<close>

theorem response_reason_fault:
  assumes p: "hp_state p = kExpectHeaders" "hp_req p = None"
    and buf: "small_buf buf" "bytes buf = MakeHeaders ord r @ rest"
    and r: "\<not> rq_isRequest r" "\<forall>kv\<in>set (rq_headers r). plain_field kv" and ord: "lawful_order ord"
    and words: "length (tokens '' '' (ParseStatusMessage (to_int32 (int (rq_code r))))) \<noteq> 1"
  shows "Parse buf p = Inl Null_deref"
proof (rule Parse_bad_first_line [OF p buf(1) _ response_line_chars(1,2)])
  show "bytes buf = response_line r @ [CR, LF] @ header_lines (ord (rq_headers r)) @ [CR, LF] @ rest"
    using buf(2) by (simp add: MakeHeaders_response [OF r(1)])
qed (use r(2) words lawful_set [OF ord] in \<open>simp_all add: response_line_tokens\<close>)

definition sample_response :: "nat \<Rightarrow> http_request" where
  "sample_response code = (new_HttpRequest False)\<lparr>rq_code := code, rq_headers := [(''server'', ''nest'')]\<rparr>"

lemma sample_response_fields:
  "code < 4294967296 \<Longrightarrow> rq_inv (sample_response code)" "\<not> rq_isRequest (sample_response code)"
  "\<forall>kv\<in>set (rq_headers (sample_response code)). plain_field kv" "rq_code (sample_response code) = code"
  "lawful_order (\<lambda>m. m)"
proof -
  have "tolower_str ''server'' = ''server''" by code_simp
  then show "code < 4294967296 \<Longrightarrow> rq_inv (sample_response code)" by (simp add: sample_response_def new_HttpRequest_def rq_inv_def)
qed (simp_all add: sample_response_def new_HttpRequest_def plain_field_def CR_def lawful_order_def)

lemma sample_response_text:
  "length (MakeHeaders (\<lambda>m. m) (sample_response 200)) < 100" "length (MakeHeaders (\<lambda>m. m) (sample_response 404)) < 100"
  "CHR '' '' \<notin> set (ParseStatusMessage 200)" "length (tokens '' '' (ParseStatusMessage (to_int32 (int 404)))) \<noteq> 1"
  by code_simp+

theorem response_roundtrip_witness:
  "\<exists>p' buf' r'. Parse (buffer_of (MakeHeaders (\<lambda>m. m) (sample_response 200))) new_HttpParser
       = Inr (hp_state p', p', buf') \<and> small_buf buf' \<and> bytes buf' = [] \<and>
     \<not> hp_isRequest p' \<and> hp_req p' = Some r' \<and> rq_code r' = 200 \<and>
     rq_version r' = kHttp11 \<and> received_headers (sample_response 200) r'"
proof -
  let ?r = "sample_response 200" and ?b = "buffer_of (MakeHeaders (\<lambda>m. m) (sample_response 200))"
  have "\<exists>p' buf' r'. Parse ?b new_HttpParser = Inr (hp_state p', p', buf') \<and> small_buf buf' \<and> bytes buf' = [] \<and>
     \<not> hp_isRequest p' \<and> hp_req p' = Some r' \<and> rq_code r' = rq_code ?r \<and>
     rq_version r' = (if rq_version ?r = kHttp10 then kHttp10 else kHttp11) \<and> received_headers ?r r'"
    by (rule response_roundtrip [OF _ _ _ sample_response_fields(1,2) _ sample_response_fields(3,5)])
      (use sample_response_text in \<open>simp_all add: small_buf_of new_HttpParser_def sample_response_fields\<close>)
  then show ?thesis by (simp add: sample_response_def new_HttpRequest_def)
qed

theorem response_reason_fault_witness:
  "Parse (buffer_of (MakeHeaders (\<lambda>m. m) (sample_response 404))) new_HttpParser = Inl Null_deref"
  by (rule response_reason_fault [OF _ _ _ _ sample_response_fields(2,3,5), where rest = "[]"])
    (use sample_response_text in \<open>simp_all only: sample_response_fields(4) append_Nil2 buffer_of_bytes,
     simp_all add: small_buf_of new_HttpParser_def\<close>)

subsection \<open>Requests\<close>

definition method_word :: "HttpMethod \<Rightarrow> string" where
  "method_word m = butlast (method_text m)"

lemma method_text_word: "method_text m = method_word m @ '' ''"
  by (cases m) (simp_all add: method_word_def)

lemma ParseMethod_word: "ParseMethod (method_word m) = (if m = kPatch then kInvalid else m)"
  by (cases m) (simp_all add: method_word_def ParseMethod_def method_table_def)

lemma method_word_chars:
  "CR \<notin> set (method_word m)" "CHR '' '' \<notin> set (method_word m)" "CHR '':'' \<notin> set (method_word m)"
  "method_word m \<noteq> []"
  by (cases m; simp add: method_word_def CR_def)+

lemma method_word_not_http: "take 4 (tolower_str (method_word m)) \<noteq> ''http''"
proof -
  have "list_all (\<lambda>m. take 4 (tolower_str (method_word m)) \<noteq> ''http'')
    [kGet, kPost, kHead, kPut, kDelete, kOptions, kPatch, kInvalid]"
    by code_simp
  then show ?thesis by (cases m) simp_all
qed

lemma UrlEncode_append: "UrlEncode (s @ t) = UrlEncode s @ UrlEncode t"
  by (induction s) auto

lemma digit_char_marks:
  "n < 16 \<Longrightarrow> digit_char n \<noteq> CHR ''?''" "n < 16 \<Longrightarrow> digit_char n \<noteq> CHR ''&''"
  "n < 16 \<Longrightarrow> digit_char n \<noteq> CHR ''=''"
  by (auto simp: byte_digit_char byte_inj [symmetric]) (simp_all add: byte_def split: if_splits)

text \<open>The three marks that structure a request target are copied by the encoder and never made by it.\<close>

lemma url_mark_kept:
  assumes "c \<in> {CHR ''?'', CHR ''&'', CHR ''=''}"
  shows "c \<in> set (UrlEncode s) \<longleftrightarrow> c \<in> set s" and "url_plain c"
proof -
  show c: "url_plain c" using assms by (auto simp: url_plain_def url_marks_def)
  show "c \<in> set (UrlEncode s) \<longleftrightarrow> c \<in> set s"
  proof (induction s)
    case (Cons d s)
    have "digit_char (byte d div 16) \<noteq> c" "digit_char (byte d mod 16) \<noteq> c"
      using assms digit_char_marks [of "byte d div 16"] digit_char_marks [of "byte d mod 16"] byte_div_16 [of d]
      by auto
    then show ?case using Cons c assms by (auto simp: CharToHex_digits)
  qed simp
qed

lemma UrlEncode_nospace: "CHR '' '' \<notin> set (UrlEncode s)" "CR \<notin> set (UrlEncode s)" "CHR '':'' \<notin> set (UrlEncode s)"
  using UrlEncode_printable [of "CHR '' ''" s] UrlEncode_printable [of CR s] set_UrlEncode [of "CHR '':''" s]
  by (auto simp: byte_def CR_def url_plain_def url_marks_def c_isdigit_def)

lemma Trim_UrlEncode: "Trim (UrlEncode s) = UrlEncode s"
proof (rule Trim_id)
  assume "UrlEncode s \<noteq> []"
  then have "hd (UrlEncode s) \<in> set (UrlEncode s)" "last (UrlEncode s) \<in> set (UrlEncode s)" by auto
  then show "\<not> c_isspace (hd (UrlEncode s)) \<and> \<not> c_isspace (last (UrlEncode s))"
    using UrlEncode_printable by (fastforce simp: c_isspace_def)
qed

text \<open>The query of a printed request: the parameters, encoded one by one.\<close>

definition plain_param :: "string \<times> string \<Rightarrow> bool" where
  "plain_param kv \<longleftrightarrow> CHR ''='' \<notin> set (fst kv) \<and> CHR ''&'' \<notin> set (fst kv) \<and> CHR ''&'' \<notin> set (snd kv)"

definition encode_param :: "string \<times> string \<Rightarrow> string \<times> string" where
  "encode_param kv = (UrlEncode (fst kv), UrlEncode (snd kv))"

lemma parameters_text_False:
  "parameters_text ps False = (if ps = [] then [] else ''&'' @ parameters_text ps True)"
  by (cases ps) auto

lemma parameters_text_join: "parameters_text ps True = join ''&'' (map pair_text ps)"
proof (induction ps)
  case (Cons p ps)
  then show ?case by (cases p; cases ps) (auto simp: pair_text_def parameters_text_False join_Cons)
qed simp

lemma encode_params: "UrlEncode (parameters_text ps True) = join ''&'' (map (pair_text \<circ> encode_param) ps)"
  unfolding parameters_text_join
proof (induction ps)
  case (Cons p ps)
  have "UrlEncode (pair_text p) = pair_text (encode_param p)"
    using url_mark_kept(2) [of "CHR ''=''"] by (simp add: pair_text_def encode_param_def UrlEncode_append)
  then show ?case using Cons url_mark_kept(2) [of "CHR ''&''"]
    by (cases ps) (simp_all add: UrlEncode_append join_Cons)
qed simp

lemma split_params:
  assumes "ps \<noteq> []" "\<forall>kv\<in>set ps. plain_param kv"
  shows "SplitString (UrlEncode (parameters_text ps True)) ''&'' = map (pair_text \<circ> encode_param) ps"
proof -
  have "\<forall>x\<in>set (map (pair_text \<circ> encode_param) ps). hd ''&'' \<notin> set x"
    using assms(2) url_mark_kept(1) [of "CHR ''&''"]
    by (auto simp: pair_text_def encode_param_def plain_param_def)
  moreover have "last (map (pair_text \<circ> encode_param) ps) \<noteq> []"
    using assms(1) by (simp add: last_map pair_text_def)
  ultimately show ?thesis
    using assms(1) by (simp add: SplitString_tokens encode_params tokens_of_join)
qed

lemma parameters_loop_put_all:
  assumes "\<forall>kv\<in>set ps. plain_param kv"
  shows "parse_parameters_loop (map (pair_text \<circ> encode_param) ps) r = put_all SetParameter (map encode_param ps) r"
proof -
  have "\<forall>kv\<in>set (map encode_param ps). CHR ''='' \<notin> set (fst kv)"
    using assms url_mark_kept(1) [of "CHR ''=''"] by (auto simp: plain_param_def encode_param_def)
  note loop = parameters_loop_pairs [OF this, of r]
  have eq: "map (\<lambda>(k, v). (Trim k, Trim v)) (map encode_param ps) = map encode_param ps"
    by (simp add: comp_def encode_param_def Trim_UrlEncode)
  show ?thesis using loop unfolding eq by simp
qed

lemma put_all_SetParameter_frame:
  "rq_method (put_all SetParameter kvs r) = rq_method r" "rq_path (put_all SetParameter kvs r) = rq_path r"
  "rq_version (put_all SetParameter kvs r) = rq_version r" "rq_code (put_all SetParameter kvs r) = rq_code r"
  by (induction kvs arbitrary: r) (auto simp: SetParameter_def)

text \<open>
  The first line of a request: its target is the encoded path, and after a question mark the
  encoded parameters, which the receiver stores as they are, still encoded.
\<close>

definition request_target :: "entry_order \<Rightarrow> http_request \<Rightarrow> string" where
  "request_target ord r = UrlEncode (if rq_path r \<noteq> [] then rq_path r else ''/'')
     @ (if rq_parameters r = [] then [] else ''?'' @ UrlEncode (parameters_text (ord (rq_parameters r)) True))"

definition request_line :: "entry_order \<Rightarrow> http_request \<Rightarrow> string" where
  "request_line ord r = method_word (rq_method r) @ '' '' @ request_target ord r @ '' ''
     @ version_word (rq_version r) @ '' ''"

lemma MakeHeaders_request:
  "rq_isRequest r \<Longrightarrow> MakeHeaders ord r = request_line ord r @ [CR, LF] @ header_lines (ord (rq_headers r)) @ [CR, LF]"
  using url_mark_kept(2) [of "CHR ''?''"]
  by (simp add: MakeHeaders_def AppendRequestFirstLine_def request_line_def request_target_def
      version_text_word method_text_word UrlEncode_append Let_def)

lemma request_target_chars:
  "CHR '' '' \<notin> set (request_target ord r)" "CR \<notin> set (request_target ord r)" "CHR '':'' \<notin> set (request_target ord r)"
  using UrlEncode_nospace by (auto simp: request_target_def CR_def)

lemma request_line_chars:
  "request_line ord r \<noteq> []" "CR \<notin> set (request_line ord r)" "CHR '':'' \<notin> set (request_line ord r)"
  using method_word_chars version_word_chars request_target_chars by (auto simp: request_line_def CR_def)

lemma request_line_tokens:
  "tokens '' '' (request_line ord r) = [method_word (rq_method r), request_target ord r, version_word (rq_version r)]"
  using tokens_step [of "'' ''" "version_word (rq_version r)" "[]"]
  by (simp add: request_line_def tokens_step [of "'' ''", simplified] version_word_chars method_word_chars
      request_target_chars)

lemma setter_frames:
  "rq_method (SetVersion v r) = rq_method r" "rq_path (SetVersion v r) = rq_path r"
  "rq_parameters (SetVersion v r) = rq_parameters r" "rq_method (SetPath t r) = rq_method r"
  "rq_parameters (SetPath t r) = rq_parameters r" "rq_method (SetMethod m r) = ParseMethod m"
  "rq_parameters (SetMethod m r) = rq_parameters r"
  by (simp_all add: SetVersion_eq SetPath_def SetMethod_def)

lemma method_line_fields:
  assumes "\<forall>c\<in>set t. c \<noteq> CHR ''?''"
  shows "method_line_request [m, t, v] True = SetVersion v (SetPath t (SetMethod m (new_HttpRequest True)))"
    and "method_line_request [m, t @ ''?'' @ q, v] True
           = SetVersion v (SetQuery q (SetPath t (SetMethod m (new_HttpRequest True))))"
proof -
  have "find_index (\<lambda>c. c = CHR ''?'') t = None" "find_index (\<lambda>c. c = CHR ''?'') (t @ CHR ''?'' # q) = Some (length t)"
    using assms by (auto simp: find_index_None_iff intro: find_index_hit)
  then show "method_line_request [m, t, v] True = SetVersion v (SetPath t (SetMethod m (new_HttpRequest True)))"
    "method_line_request [m, t @ ''?'' @ q, v] True
       = SetVersion v (SetQuery q (SetPath t (SetMethod m (new_HttpRequest True))))"
    by (simp_all add: method_line_request_def substr_def)
qed

lemma SetQuery_params:
  assumes "ps \<noteq> []" "\<forall>kv\<in>set ps. plain_param kv"
  shows "SetQuery (UrlEncode (parameters_text ps True)) r
     = put_all SetParameter (map encode_param ps) (r\<lparr>rq_query := UrlEncode (parameters_text ps True)\<rparr>)"
  by (simp add: SetQuery_def ParseParameters_def split_params [OF assms] parameters_loop_put_all [OF assms(2)])

lemma put_all_SetParameter_params:
  "rq_parameters r = rq_parameters r' \<Longrightarrow>
     rq_parameters (put_all SetParameter kvs r) = rq_parameters (put_all SetParameter kvs r')"
  by (induction kvs arbitrary: r r') (auto simp: SetParameter_def)

definition target_path :: "http_request \<Rightarrow> string" where
  "target_path r = (if rq_path r \<noteq> [] then rq_path r else ''/'')"

lemma request_fields:
  assumes ps: "\<forall>kv\<in>set (rq_parameters r). plain_param kv" and path: "CHR ''?'' \<notin> set (rq_path r)"
    and ord: "lawful_order ord"
  defines "r0 \<equiv> method_line_request [method_word (rq_method r), request_target ord r, version_word (rq_version r)] True"
  shows "rq_method r0 = ParseMethod (method_word (rq_method r))" "rq_path r0 = target_path r"
    "rq_version r0 = (if rq_version r = kHttp10 then kHttp10 else kHttp11)"
    "rq_parameters r0 = rq_parameters (put_all SetParameter (map encode_param (ord (rq_parameters r))) (new_HttpRequest True))"
proof -
  let ?ps = "ord (rq_parameters r)" and ?t = "UrlEncode (target_path r)" and ?m = "method_word (rq_method r)"
    and ?v = "version_word (rq_version r)"
  let ?r1 = "SetPath ?t (SetMethod ?m (new_HttpRequest True))"
  let ?q = "UrlEncode (parameters_text ?ps True)"
  have "CHR ''?'' \<notin> set (target_path r)" using path by (simp add: target_path_def)
  then have "CHR ''?'' \<notin> set ?t" using url_mark_kept(1) [of "CHR ''?''" "target_path r"] by blast
  then have noq: "\<forall>c\<in>set ?t. c \<noteq> CHR ''?''" by metis
  have empty: "?ps = [] \<longleftrightarrow> rq_parameters r = []" using lawful_set [OF ord, of "rq_parameters r"] by auto
  have "r0 = SetVersion ?v (put_all SetParameter (map encode_param ?ps) (?r1\<lparr>rq_query := if ?ps = [] then [] else ?q\<rparr>))"
  proof (cases "rq_parameters r = []")
    case True
    then have "request_target ord r = ?t" by (simp add: request_target_def target_path_def)
    moreover have "?r1\<lparr>rq_query := []\<rparr> = ?r1"
    proof -
      have "rq_query ?r1 = []" by (simp add: SetPath_def SetMethod_def new_HttpRequest_def)
      then show ?thesis by (metis http_request.surjective http_request.update_convs(4))
    qed
    ultimately show ?thesis using empty True by (simp add: r0_def method_line_fields(1) [OF noq])
  next
    case False
    then have "request_target ord r = ?t @ ''?'' @ ?q" by (simp add: request_target_def target_path_def)
    moreover have "\<forall>kv\<in>set ?ps. plain_param kv" "?ps \<noteq> []" using ps lawful_set [OF ord] empty False by auto
    ultimately show ?thesis
      by (simp only: r0_def method_line_fields(2) [OF noq] SetQuery_params if_False not_False_eq_True)
  qed
  then show "rq_method r0 = ParseMethod ?m" "rq_path r0 = target_path r"
    "rq_version r0 = (if rq_version r = kHttp10 then kHttp10 else kHttp11)"
    "rq_parameters r0 = rq_parameters (put_all SetParameter (map encode_param ?ps) (new_HttpRequest True))"
    by (simp_all add: setter_frames SetVersion_word put_all_SetParameter_frame SetPath_received)
      (auto intro!: put_all_SetParameter_params simp: setter_frames)
qed

text \<open>The encoded parameters are found under their encoded names.\<close>

lemma enc_distinct: "distinct (map fst m) \<Longrightarrow> distinct (map fst (map encode_param m))"
proof -
  assume "distinct (map fst m)"
  moreover have "inj UrlEncode" by (rule injI) (simp add: url.enc_inj)
  moreover have "map fst (map encode_param m) = map UrlEncode (map fst m)" by (simp add: encode_param_def)
  ultimately show ?thesis by (metis distinct_map inj_on_subset subset_UNIV)
qed

lemma received_params:
  assumes "lawful_order ord" "distinct (map fst ps)" "(k, v) \<in> set ps"
  shows "GetParameter (put_all SetParameter (map encode_param (ord ps)) r) (UrlEncode k) = UrlEncode v"
proof (rule prm.get_put_all_distinct)
  show "distinct (map ((\<lambda>k. k) \<circ> fst) (map encode_param (ord ps)))"
    using enc_distinct [OF lawful_distinct [OF assms(1,2)]] by (simp add: comp_def)
  show "(UrlEncode k, UrlEncode v) \<in> set (map encode_param (ord ps))"
    using assms(3) lawful_set [OF assms(1)] by (force simp: encode_param_def)
qed

lemma request_roundtrip:
  assumes p: "hp_state p = kExpectHeaders" and buf: "small_buf buf" "bytes buf = MakeHeaders ord r @ rest"
    and r: "rq_inv r" "rq_isRequest r" "\<forall>kv\<in>set (rq_headers r). plain_field kv"
      "\<forall>kv\<in>set (rq_parameters r). plain_param kv" "CHR ''?'' \<notin> set (rq_path r)" "rq_method r \<noteq> kPatch"
    and ord: "lawful_order ord"
  obtains r1 h p' buf' r' where
    "p' = body_kind r1 (p\<lparr>hp_header := h, hp_isRequest := True, hp_req := Some r1\<rparr>)" "received_headers r r1"
    "Parse buf p = Inr (hp_state p', p', buf')" "small_buf buf'" "bytes buf' = rest"
    "hp_isRequest p'" "hp_req p' = Some r'" "rq_method r' = rq_method r" "rq_path r' = target_path r"
    "rq_version r' = (if rq_version r = kHttp10 then kHttp10 else kHttp11)" "received_headers r r'"
    "\<forall>(k, v)\<in>set (rq_parameters r). GetParameter r' (UrlEncode k) = UrlEncode v" "rq_isRequest r'"
proof (rule Parse_printed [OF p buf(1) _ request_line_chars request_line_tokens r(1,3) ord, where rest = rest])
  show "bytes buf = request_line ord r @ [CR, LF] @ header_lines (ord (rq_headers r)) @ [CR, LF] @ rest"
    using buf(2) by (simp add: MakeHeaders_request [OF r(2)])
next
  fix r1 h buf' r' p'
  let ?r0 = "method_line_request [method_word (rq_method r), request_target ord r, version_word (rq_version r)]
    (take 4 (tolower_str (method_word (rq_method r))) \<noteq> ''http'')"
  have req: "(take 4 (tolower_str (method_word (rq_method r))) \<noteq> ''http'') = True"
    using method_word_not_http by simp
  note fields = request_fields [OF r(4,5) ord]
  assume a: "p' = body_kind r1 (p\<lparr>hp_header := h,
      hp_isRequest := take 4 (tolower_str (method_word (rq_method r))) \<noteq> ''http'', hp_req := Some r1\<rparr>)"
    "Parse buf p = Inr (hp_state p', p', buf')" "small_buf buf'" "bytes buf' = rest"
    "hp_isRequest p' = (take 4 (tolower_str (method_word (rq_method r))) \<noteq> ''http'')"
    "hp_req p' = Some r'" "received_headers r r1" "received_headers r r'" "rq_method r' = rq_method ?r0"
    "rq_path r' = rq_path ?r0" "rq_version r' = rq_version ?r0" "rq_parameters r' = rq_parameters ?r0"
    "rq_isRequest r' = (take 4 (tolower_str (method_word (rq_method r))) \<noteq> ''http'')"
  have "GetParameter r' k = GetParameter (put_all SetParameter (map encode_param (ord (rq_parameters r)))
      (new_HttpRequest True)) k" for k
    using a(12) by (simp only: req fields GetParameter_def)
  then have "\<forall>(k, v)\<in>set (rq_parameters r). GetParameter r' (UrlEncode k) = UrlEncode v"
    using received_params [OF ord] r(1) by (auto simp: rq_inv_def)
  then show thesis
    using a fields by (intro that [of p' r1 h buf' r']) (simp_all only: req ParseMethod_word r(6) if_False)
qed

section \<open>How the body is delimited\<close>

lemma lower_names:
  "tolower_str ''content-length'' = ''content-length''" "tolower_str ''transfer-encoding'' = ''transfer-encoding''"
  by code_simp+

lemma body_kind_length:
  assumes "GetHeader r ''content-length'' = pre @ to_string n" "\<forall>c\<in>set pre. c_isspace c"
    and "n < 18446744073709551616"
  shows "body_kind r p = p\<lparr>hp_curContentLength := to_int32 (int n),
           hp_state := (if to_int32 (int n) = 0 then kExpectHttpComplete else kExpectNormalBody)\<rparr>"
  using assms stoull_to_string [OF assms(2,3)] by (simp add: body_kind_def Let_def)

lemma body_kind_blank_chunked:
  assumes "GetHeader r ''content-length'' = []" "GetHeader r ''transfer-encoding'' = CHR '' '' # v"
  shows "hp_state (body_kind r p) \<in> {kExpectHttpComplete, kExpectStreamBody}"
    "hp_isChunked (body_kind r p) = hp_isChunked p"
  using assms by (auto simp: body_kind_def Let_def)

text \<open>After the headers of a request that carries its length, the parser waits for that many bytes.\<close>

lemma request_with_length:
  assumes inv: "hp_inv p" "hp_state p = kExpectHeaders"
    and buf: "small_buf buf" "bytes buf = MakeHeaders ord r @ rest"
    and r: "rq_inv r" "rq_isRequest r" "\<forall>kv\<in>set (rq_headers r). plain_field kv"
      "\<forall>kv\<in>set (rq_parameters r). plain_param kv" "CHR ''?'' \<notin> set (rq_path r)" "rq_method r \<noteq> kPatch"
    and ord: "lawful_order ord"
    and len: "map_of (rq_headers r) ''content-length'' = Some (to_string n)" "0 < n" "n < 2147483648"
  obtains p1 b1 r' where "Parse buf p = Inr (kExpectNormalBody, p1, b1)" "small_buf b1" "bytes b1 = rest"
    "body_at p1 [] n" "hp_req p1 = Some r'" "rq_method r' = rq_method r" "rq_path r' = target_path r"
    "received_headers r r'"
proof -
  obtain r1 h p1 b1 r' where p1: "p1 = body_kind r1 (p\<lparr>hp_header := h, hp_isRequest := True, hp_req := Some r1\<rparr>)"
    "received_headers r r1" "Parse buf p = Inr (hp_state p1, p1, b1)" "small_buf b1" "bytes b1 = rest"
    "hp_req p1 = Some r'" "rq_method r' = rq_method r" "rq_path r' = target_path r" "received_headers r r'"
    using request_roundtrip [OF inv(2) buf r ord] by metis
  have "GetHeader r1 ''content-length'' = [CHR '' ''] @ to_string n"
    using p1(2) len(1) lower_names(1) by (simp add: received_headers_def)
  from body_kind_length [OF this] len p1(1)
  have st: "hp_curContentLength p1 = int n" "hp_state p1 = kExpectNormalBody" "hp_chunk p1 = hp_chunk p"
    by (auto simp: to_int32_id c_isspace_def byte_def)
  moreover have "hp_inv p1" using Parse_inv [OF inv(1) buf(1) p1(3)] by simp
  moreover have "hp_chunk p = None" using inv by (simp add: hp_inv_def)
  ultimately have "body_at p1 [] n" using len(2) by (simp add: body_at_def chunk_bytes_def)
  with p1 st that show thesis by simp
qed


definition sample_post :: http_request where
  "sample_post = (new_HttpRequest True)\<lparr>rq_method := kPost, rq_path := ''/a'',
     rq_headers := [(''content-length'', ''3'')], rq_parameters := [(''k'', ''v'')]\<rparr>"

lemma sample_post_fields:
  "rq_inv sample_post" "rq_isRequest sample_post" "\<forall>kv\<in>set (rq_headers sample_post). plain_field kv"
  "\<forall>kv\<in>set (rq_parameters sample_post). plain_param kv" "CHR ''?'' \<notin> set (rq_path sample_post)"
  "rq_method sample_post \<noteq> kPatch" "lawful_order (\<lambda>m. m)"
  using lower_names(1)
  by (simp_all add: sample_post_def new_HttpRequest_def rq_inv_def plain_field_def plain_param_def CR_def
      lawful_order_def)

lemma sample_post_text: "length (MakeHeaders (\<lambda>m. m) sample_post) < 100"
  by code_simp


text \<open>A chunk length line: \<open>n\<close> in hexadecimal.\<close>

lemma find_CRLF_digits:
  assumes "mb_inv buf" "bytes buf = digits_of 16 n @ CRLF @ rest"
  shows "FindCRLF buf = Some (length (digits_of 16 n))"
proof -
  have "\<forall>c\<in>set (digits_of 16 n). c \<noteq> CR"
    by (auto dest!: set_digits_of [of 16, simplified] simp: byte_inj [symmetric] byte_digit_char)
      (auto simp: CR_def byte_def split: if_splits)
  then show ?thesis using find_sub_skip [of "digits_of 16 n" CRLF rest] assms
    by (simp add: FindCRLF_def) (simp add: CRLF_def)
qed

text \<open>A chunk of any length up to \<open>2 ^ 31 - 1\<close> is accepted: the test against 1 MB sets the
  error state, and the lines after it overwrite it.\<close>

theorem chunk_length_line:
  assumes p: "hp_state p = kExpectChunkLen" and buf: "small_buf buf" "bytes buf = digits_of 16 n @ CRLF @ rest"
    and n: "0 < n" "n < 2147483648"
  shows "\<exists>p' buf'. Parse buf p = Inr (kExpectChunkBody, p', buf') \<and> bytes buf' = rest \<and>
     hp_state p' = kExpectChunkBody \<and> hp_curChunkLength p' = int n"
proof -
  let ?k = "length (digits_of 16 n)"
  have mb: "mb_inv buf" using buf(1) by (simp add: small_buf_def)
  note f = find_CRLF_digits [OF mb buf(2)]
  have v: "to_int32 (strtol 16 (digits_of 16 n)) = int n"
    using n by (simp add: strtol_digits_of to_int32_id)
  have pos: "0 < ReadableBytes buf" using buf mb by (simp add: length_bytes [symmetric])
  have rest: "bytes (Retrieve (?k + 2) buf) = rest" using buf(2) mbq.ret_cont [OF mb] by (simp add: CRLF_def)
  have "parse_chunk_len_step buf p = Inr (kExpectChunkBody,
      (if 1024 * 1024 < int n then p\<lparr>hp_curChunkLength := int n, hp_state := kExpectError, hp_reason := k400BadRequest\<rparr>
       else p\<lparr>hp_curChunkLength := int n\<rparr>)\<lparr>hp_state := kExpectChunkBody\<rparr>, Retrieve (?k + 2) buf)"
    using f n(1) buf(2) RetrieveUntil_CRLF [OF buf(1) f] by (simp add: parse_chunk_len_step_def Let_def v)
  then show ?thesis using p pos rest by (simp add: Parse_def)
qed

theorem chunk_length_line_witness:
  "\<exists>p' buf'. Parse (buffer_of (digits_of 16 2097152 @ CRLF @ ''abc'')) (new_HttpParser\<lparr>hp_state := kExpectChunkLen\<rparr>)
       = Inr (kExpectChunkBody, p', buf') \<and> bytes buf' = ''abc'' \<and> hp_state p' = kExpectChunkBody \<and>
     hp_curChunkLength p' = int 2097152"
proof -
  have "length (digits_of 16 2097152) < 100" by (simp add: digits_of_step digits_of_small)
  then have "small_buf (buffer_of (digits_of 16 2097152 @ CRLF @ ''abc''))"
    by (intro small_buf_of) (simp add: CRLF_def)
  from chunk_length_line [OF _ this buffer_of_bytes, of "new_HttpParser\<lparr>hp_state := kExpectChunkLen\<rparr>"]
  show ?thesis by simp
qed

text \<open>C40: a content length from \<open>2 ^ 31\<close> up to \<open>2 ^ 32 - 1\<close> is stored as a negative number, and the
  first bytes of the body fault instead of being rejected.\<close>

theorem content_length_wraps:
  assumes r: "GetHeader r ''content-length'' = CHR '' '' # to_string n" "2147483648 \<le> n" "n < 4294967296"
    and buf: "small_buf buf" "0 < ReadableBytes buf" and p: "hp_chunk p = None"
  shows "hp_state (body_kind r p) = kExpectNormalBody \<and> hp_curContentLength (body_kind r p) = int n - 4294967296 \<and>
     (\<exists>e. Parse buf (body_kind r p) = Inl e)"
proof -
  have wrap: "to_int32 (int n) = int n - 4294967296" using r(2,3) by (intro to_int32_wrap) auto
  have "GetHeader r ''content-length'' = [CHR '' ''] @ to_string n" using r(1) by simp
  from body_kind_length [OF this] r have eq: "body_kind r p = p\<lparr>hp_curContentLength := int n - 4294967296,
      hp_state := kExpectNormalBody\<rparr>"
    by (simp add: wrap c_isspace_def byte_def)
  have "is_int32 (int n - 4294967296)" "int n - 4294967296 < 0" using r(2,3) by (auto simp: is_int32_def)
  with fill_chunk_fault_iff [OF buf(1), of "int n - 4294967296" None]
  obtain e where "fill_chunk (int n - 4294967296) None buf = Inl e" by auto
  with buf(2) p show ?thesis by (simp add: eq Parse_def ParseNormalBody_def)
qed

theorem content_length_wraps_witness:
  "let r = AddHeader ''Content-Length'' ('' '' @ to_string 4294967295) (new_HttpRequest True)
   in hp_state (body_kind r new_HttpParser) = kExpectNormalBody
      \<and> hp_curContentLength (body_kind r new_HttpParser) = int 4294967295 - 4294967296
      \<and> (\<exists>e. Parse (buffer_of ''abc'') (body_kind r new_HttpParser) = Inl e)"
proof -
  have l: "tolower_str ''Content-Length'' = tolower_str ''content-length''" by code_simp
  show ?thesis unfolding Let_def
    by (rule content_length_wraps)
      (simp_all add: hdr.get_put l small_buf_of new_HttpParser_def length_bytes [symmetric])
qed

text \<open>A request that announces a chunked body is printed with a blank after the colon, and
  the receiving parser does not take it as chunked: it ends the message, or takes what follows
  as a stream.\<close>

theorem printed_chunked_lost:
  assumes p: "hp_state p = kExpectHeaders" and buf: "small_buf buf" "bytes buf = MakeHeaders ord r @ rest"
    and r: "rq_inv r" "rq_isRequest r" "\<forall>kv\<in>set (rq_headers r). plain_field kv"
      "\<forall>kv\<in>set (rq_parameters r). plain_param kv" "CHR ''?'' \<notin> set (rq_path r)" "rq_method r \<noteq> kPatch"
    and ord: "lawful_order ord"
    and te: "map_of (rq_headers r) ''content-length'' = None"
      "map_of (rq_headers r) ''transfer-encoding'' = Some ''chunked''"
  shows "\<exists>p' buf'. Parse buf p = Inr (hp_state p', p', buf') \<and> bytes buf' = rest \<and>
     hp_state p' \<in> {kExpectHttpComplete, kExpectStreamBody} \<and> hp_isChunked p' = hp_isChunked p"
proof (rule request_roundtrip [OF p buf r ord])
  fix r1 h p' buf' r'
  assume a: "p' = body_kind r1 (p\<lparr>hp_header := h, hp_isRequest := True, hp_req := Some r1\<rparr>)"
    "received_headers r r1" "Parse buf p = Inr (hp_state p', p', buf')" "bytes buf' = rest"
  have "GetHeader r1 ''content-length'' = []" "GetHeader r1 ''transfer-encoding'' = CHR '' '' # ''chunked''"
    using a(2) te lower_names by (simp_all add: received_headers_def)
  note body_kind_blank_chunked [OF this, of "p\<lparr>hp_header := h, hp_isRequest := True, hp_req := Some r1\<rparr>"]
  with a show ?thesis by auto
qed

definition sample_chunked :: http_request where
  "sample_chunked = (new_HttpRequest True)\<lparr>rq_method := kPost, rq_path := ''/a'',
     rq_headers := [(''transfer-encoding'', ''chunked'')]\<rparr>"

theorem printed_chunked_lost_witness:
  "\<exists>p' buf'. Parse (buffer_of (MakeHeaders (\<lambda>m. m) sample_chunked @ ''3'')) new_HttpParser = Inr (hp_state p', p', buf')
     \<and> bytes buf' = ''3'' \<and> hp_state p' \<in> {kExpectHttpComplete, kExpectStreamBody}
     \<and> hp_isChunked p' = hp_isChunked new_HttpParser"
proof -
  have len: "length (MakeHeaders (\<lambda>m. m) sample_chunked) < 100" by code_simp
  show ?thesis
    by (rule printed_chunked_lost [OF _ _ buffer_of_bytes, where r = sample_chunked])
      (use len lower_names in \<open>simp_all add: small_buf_of new_HttpParser_def sample_chunked_def new_HttpRequest_def
         rq_inv_def plain_field_def CR_def lawful_order_def GetHeader_def\<close>)
qed

end
