(* ===== verification/HttpContext.thy ===== *)
theory HttpContext
  imports HttpParserSpec
begin

text \<open>
  \<open>src/http/HttpContext.{h,cpp}\<close>: what a server or client keeps per connection. \<open>Parse\<close> is the
  loop that drives the parser over the receive buffer; it may run for ever, so it is a partial
  function whose value is \<open>None\<close> where the C++ loop does not return. The \<open>Post\<close> operations and
  \<open>WriteComplete\<close> are the state machine of the sending side. \<open>TcpConnection::Send\<close> may write
  everything at once and then calls \<open>WriteComplete\<close> before it returns; whether it does is the
  next element of an oracle \<open>os\<close>, one element for each call of \<open>Send\<close> (\<open>False\<close> when the list
  has ended). What the context asks of its connection and its handler is recorded as events.
\<close>

section \<open>State\<close>

datatype HttpContextPostState =
    kHttpContextPostInit
  | kHttpContextPostHttp
  | kHttpContextPostHttpHeader
  | kHttpContextPostHttpBody
  | kHttpContextPostHttpStreamHeader
  | kHttpContextPostHttpStreamChunk
  | kHttpContextPostChunkHeader
  | kHttpContextPostChunkLen
  | kHttpContextPostChunkBody
  | kHttpContextPostChunkEOF

record http_context =
  cx_parser :: http_parser
  cx_header :: string
  cx_outPacket :: "packet option"
  cx_postState :: HttpContextPostState
  cx_headerSent :: bool
  cx_handler :: bool  \<comment> \<open>\<open>handler_\<close> is not null\<close>

text \<open>\<open>headerSent_\<close> has no initialiser: \<open>junk\<close> is the value it starts with.\<close>

definition new_HttpContext :: "bool \<Rightarrow> bool \<Rightarrow> http_context" where
  "new_HttpContext handler junk =
     \<lparr>cx_parser = new_HttpParser, cx_header = [], cx_outPacket = None,
      cx_postState = kHttpContextPostInit, cx_headerSent = junk, cx_handler = handler\<rparr>"

datatype cx_event =
    OnRequest "http_request option" "packet option"
  | ForceClose
  | SendBytes string
  | OnSent
  | OnSentNextChunk

definition CHUNK_EOF :: string where "CHUNK_EOF = ''0'' @ [CR, LF, CR, LF]"

section \<open>Receiving\<close>

definition parse_events :: "http_context \<Rightarrow> HttpParserState \<Rightarrow> http_parser \<Rightarrow> cx_event list" where
  "parse_events cx st p =
     (if st = kExpectHttpComplete \<or> st = kExpectChunkComplete then
        (if cx_handler cx then [OnRequest (hp_req p) (hp_chunk p)] else [])
      else if st = kExpectError then [ForceClose]
      else [])"

partial_function (option) context_parse ::
    "msg_buffer \<Rightarrow> http_context \<Rightarrow> (cx_event list \<times> http_context \<times> msg_buffer) result option" where
  "context_parse buf cx =
     (if 1 < ReadableBytes buf then
        (case Parse buf (cx_parser cx) of
           Inl e \<Rightarrow> Some (Inl e)
         | Inr (st, p, buf') \<Rightarrow>
             Option.bind (context_parse buf' (cx\<lparr>cx_parser := p\<rparr>))
               (\<lambda>r. Some (bindR r (\<lambda>(evs, cx', b). Inr (parse_events cx st p @ evs, cx', b)))))
      else Some (Inr ([], cx, buf)))"

lemma context_parse_done: "ReadableBytes buf \<le> 1 \<Longrightarrow> context_parse buf cx = Some (Inr ([], cx, buf))"
  by (subst context_parse.simps) simp

lemma context_parse_step:
  "1 < ReadableBytes buf \<Longrightarrow> Parse buf (cx_parser cx) = Inr (st, p, buf') \<Longrightarrow>
     context_parse buf' (cx\<lparr>cx_parser := p\<rparr>) = Some (Inr (evs, cx', b)) \<Longrightarrow>
     context_parse buf cx = Some (Inr (parse_events cx st p @ evs, cx', b))"
  by (subst context_parse.simps) simp

text \<open>A step that changes neither the parser nor the buffer is repeated for ever.\<close>

definition no_progress :: "msg_buffer \<Rightarrow> http_parser \<Rightarrow> bool" where
  "no_progress buf p \<longleftrightarrow> 1 < ReadableBytes buf \<and> (\<exists>st. Parse buf p = Inr (st, p, buf))"

lemma context_parse_progress:
  assumes "context_parse buf cx = Some r"
  shows "\<not> no_progress buf (cx_parser cx)"
proof (rule context_parse.raw_induct [OF _ assms, where P = "\<lambda>buf cx r. \<not> no_progress buf (cx_parser cx)"])
  fix f buf cx r
  assume ih: "\<And>buf cx r. f buf cx = Some r \<Longrightarrow> \<not> no_progress buf (cx_parser cx)"
    and run: "(if 1 < ReadableBytes buf then
        (case Parse buf (cx_parser cx) of
           Inl e \<Rightarrow> Some (Inl e)
         | Inr (st, p, buf') \<Rightarrow>
             Option.bind (f buf' (cx\<lparr>cx_parser := p\<rparr>))
               (\<lambda>r. Some (bindR r (\<lambda>(evs, cx', b). Inr (parse_events cx st p @ evs, cx', b)))))
      else Some (Inr ([], cx, buf))) = Some r"
  show "\<not> no_progress buf (cx_parser cx)"
  proof
    assume stuck: "no_progress buf (cx_parser cx)"
    then obtain st where "1 < ReadableBytes buf" "Parse buf (cx_parser cx) = Inr (st, cx_parser cx, buf)"
      by (auto simp: no_progress_def)
    with run obtain r' where "f buf cx = Some r'" by (auto simp: bind_eq_Some_conv)
    from ih [OF this] stuck show False by simp
  qed
qed

lemma context_parse_stuck: "no_progress buf (cx_parser cx) \<Longrightarrow> context_parse buf cx = None"
  using context_parse_progress by (cases "context_parse buf cx") auto

text \<open>
  Where the loop spins: nothing has arrived that the parser can take, or the message has ended
  (or failed) and at least two more bytes are in the buffer, since nothing resets the parser.
\<close>

definition stalls :: "msg_buffer \<Rightarrow> http_parser \<Rightarrow> bool" where
  "stalls buf p \<longleftrightarrow>
     hp_state p = kExpectHeaders \<and> find_sub CRLFCRLF (bytes buf) = None \<and> length (bytes buf) \<le> kHttpMaxBodySize
   \<or> hp_state p = kExpectChunkLen \<and> FindCRLF buf = None \<and> length (bytes buf) \<le> 32
   \<or> hp_state p = kExpectLastEmptyChunk \<and> FindCRLF buf = None
   \<or> hp_state p \<in> {kExpectHttpComplete, kExpectChunkComplete, kExpectContinue, kExpectError}"

lemma stalls_no_progress:
  assumes "mb_inv buf" "1 < length (bytes buf)" "stalls buf p"
  shows "no_progress buf p"
proof -
  have "0 < ReadableBytes buf" "1 < ReadableBytes buf" "ReadableBytes buf = length (bytes buf)"
    using assms(1,2) by (simp_all add: length_bytes)
  with assms(3) show ?thesis
    by (auto simp: no_progress_def stalls_def Parse_def parse_headers_step_def parse_chunk_len_step_def
        parse_last_chunk_step_def split: option.splits)
qed

text \<open>C5: the receive loop never returns when two or more bytes are buffered and the parser is
  waiting for the rest of a header block or of a chunk length line, or has finished or failed:
  an incomplete request, and the second request on a connection, hang the event loop.\<close>

theorem context_parse_hangs:
  assumes "mb_inv buf" "1 < length (bytes buf)" "stalls buf (cx_parser cx)"
  shows "context_parse buf cx = None"
  by (rule context_parse_stuck [OF stalls_no_progress [OF assms]])

theorem context_parse_hangs_witness:
  "context_parse (buffer_of ''GET / HT'') (new_HttpContext True False) = None"
proof -
  have "find_sub CRLFCRLF ''GET / HT'' = None" by (simp add: CRLFCRLF_def CR_def)
  then have "stalls (buffer_of ''GET / HT'') (cx_parser (new_HttpContext True False))"
    by (simp add: stalls_def new_HttpContext_def new_HttpParser_def kHttpMaxBodySize_def)
  then show ?thesis by (intro context_parse_hangs) simp_all
qed



section \<open>Sending\<close>

type_synonym send_result = "(cx_event list \<times> http_context \<times> bool list) result"

text \<open>A call of a handler method, which dereferences \<open>handler_\<close>.\<close>

definition notify :: "cx_event \<Rightarrow> bool list \<Rightarrow> http_context \<Rightarrow> send_result" where
  "notify ev os cx = (if cx_handler cx then Inr ([ev], cx, os) else Inl Null_deref)"

text \<open>The bytes \<open>Send (outPakcet_->Data (), outPakcet_->PacketSize ())\<close> reads.\<close>

definition packet_out :: "packet option \<Rightarrow> string result" where
  "packet_out ch =
     (case ch of
        None \<Rightarrow> Inl Null_deref
      | Some c \<Rightarrow>
          if PacketSize c < 0 \<or> length (pk_data c) < nat (PacketSize c) then Inl Out_of_bounds
          else Inr (take (nat (PacketSize c)) (pk_data c)))"

function WriteComplete :: "bool list \<Rightarrow> http_context \<Rightarrow> send_result"
  and Send :: "string \<Rightarrow> bool list \<Rightarrow> http_context \<Rightarrow> send_result" where
  "WriteComplete os cx =
     (case cx_postState cx of
        kHttpContextPostInit \<Rightarrow> Inr ([], cx, os)
      | kHttpContextPostHttp \<Rightarrow> notify OnSent os (cx\<lparr>cx_postState := kHttpContextPostInit\<rparr>)
      | kHttpContextPostHttpHeader \<Rightarrow>
          bindR (packet_out (cx_outPacket cx))
            (\<lambda>d. Send d os (cx\<lparr>cx_postState := kHttpContextPostHttpBody\<rparr>))
      | kHttpContextPostHttpBody \<Rightarrow> notify OnSent os (cx\<lparr>cx_postState := kHttpContextPostInit\<rparr>)
      | kHttpContextPostChunkHeader \<Rightarrow> notify OnSentNextChunk os (cx\<lparr>cx_postState := kHttpContextPostChunkLen\<rparr>)
      | kHttpContextPostChunkLen \<Rightarrow>
          bindR (packet_out (cx_outPacket cx))
            (\<lambda>d. Send d os (cx\<lparr>cx_postState := kHttpContextPostChunkBody\<rparr>))
      | kHttpContextPostChunkBody \<Rightarrow> notify OnSentNextChunk os (cx\<lparr>cx_postState := kHttpContextPostInit\<rparr>)
      | kHttpContextPostChunkEOF \<Rightarrow> notify OnSent os (cx\<lparr>cx_postState := kHttpContextPostInit\<rparr>)
      | kHttpContextPostHttpStreamHeader \<Rightarrow> notify OnSentNextChunk os (cx\<lparr>cx_postState := kHttpContextPostInit\<rparr>)
      | kHttpContextPostHttpStreamChunk \<Rightarrow> notify OnSentNextChunk os (cx\<lparr>cx_postState := kHttpContextPostInit\<rparr>))"
| "Send d os cx =
     (case os of
        True # os' \<Rightarrow> bindR (WriteComplete os' cx) (\<lambda>(evs, cx', os''). Inr (SendBytes d # evs, cx', os''))
      | _ \<Rightarrow> Inr ([SendBytes d], cx, tl os))"
  by pat_completeness auto
termination
  by (relation "measure (\<lambda>x. case x of Inl (os, cx) \<Rightarrow> 2 * length os + 1 | Inr (d, os, cx) \<Rightarrow> 2 * length os)") auto

declare WriteComplete.simps [simp del] Send.simps [simp del]

type_synonym post_result = "(bool \<times> cx_event list \<times> http_context \<times> bool list) result"

definition posted :: "send_result \<Rightarrow> post_result" where
  "posted r = bindR r (\<lambda>(evs, cx, os). Inr (True, evs, cx, os))"

definition refused :: "bool list \<Rightarrow> http_context \<Rightarrow> post_result" where
  "refused os cx = Inr (False, [], cx, os)"

definition PostRequest_text :: "string \<Rightarrow> bool list \<Rightarrow> http_context \<Rightarrow> post_result" where
  "PostRequest_text header_and_body os cx =
     (if cx_postState cx \<noteq> kHttpContextPostInit then refused os cx
      else posted (Send header_and_body os
             (cx\<lparr>cx_header := header_and_body, cx_postState := kHttpContextPostHttp\<rparr>)))"

definition headers_posted :: "send_result \<Rightarrow> post_result" where
  "headers_posted r = bindR r (\<lambda>(evs, cx, os). Inr (True, evs, cx\<lparr>cx_headerSent := True\<rparr>, os))"

definition PostStreamHeader :: "string \<Rightarrow> bool list \<Rightarrow> http_context \<Rightarrow> post_result" where
  "PostStreamHeader header os cx =
     (if cx_postState cx \<noteq> kHttpContextPostInit then refused os cx
      else headers_posted (Send header os (cx\<lparr>cx_header := header, cx_postState := kHttpContextPostInit\<rparr>)))"

definition PostChunkHeader :: "string \<Rightarrow> bool list \<Rightarrow> http_context \<Rightarrow> post_result" where
  "PostChunkHeader header os cx =
     (if cx_postState cx \<noteq> kHttpContextPostInit then refused os cx
      else headers_posted (Send header os (cx\<lparr>cx_header := header, cx_postState := kHttpContextPostInit\<rparr>)))"

definition PostRequest_packet :: "string \<Rightarrow> packet option \<Rightarrow> bool list \<Rightarrow> http_context \<Rightarrow> post_result" where
  "PostRequest_packet header packet os cx =
     (if cx_postState cx \<noteq> kHttpContextPostInit then refused os cx
      else posted (Send header os
             (cx\<lparr>cx_header := header, cx_outPacket := packet, cx_postState := kHttpContextPostHttpHeader\<rparr>)))"

definition PostRequest :: "entry_order \<Rightarrow> http_request \<Rightarrow> bool list \<Rightarrow> http_context \<Rightarrow> post_result" where
  "PostRequest ord request os cx =
     bindR (if rq_isChunked request then PostChunkHeader (MakeHeaders ord request) os cx
            else if rq_isStream request then PostStreamHeader (MakeHeaders ord request) os cx
            else PostRequest_text (AppendToBuffer ord request) os cx)
       (\<lambda>(ok, evs, cx', os'). Inr (True, evs, cx', os'))"

text \<open>\<open>sprintf (buf, "%X\r\n", ...)\<close>\<close>

definition chunk_len_line :: "packet \<Rightarrow> string" where
  "chunk_len_line c = hex_string (to_uint32 (PacketSize c)) @ [CR, LF]"

definition PostChunk :: "packet option \<Rightarrow> bool list \<Rightarrow> http_context \<Rightarrow> send_result" where
  "PostChunk chunk os cx =
     (let cx1 = cx\<lparr>cx_outPacket := chunk\<rparr>
      in if \<not> cx_headerSent cx1 then
           bindR (Send (cx_header cx1) os (cx1\<lparr>cx_postState := kHttpContextPostChunkHeader\<rparr>))
             (\<lambda>(evs, cx', os'). Inr (evs, cx'\<lparr>cx_headerSent := True\<rparr>, os'))
         else
           (case chunk of
              None \<Rightarrow> Inl Null_deref
            | Some c \<Rightarrow>
                Send (chunk_len_line c) os
                  (cx1\<lparr>cx_postState := kHttpContextPostChunkLen, cx_header := chunk_len_line c\<rparr>)))"

definition PostEofChunk :: "bool list \<Rightarrow> http_context \<Rightarrow> send_result" where
  "PostEofChunk os cx = Send CHUNK_EOF os (cx\<lparr>cx_postState := kHttpContextPostChunkEOF\<rparr>)"

definition PostStreamChunk :: "packet option \<Rightarrow> bool list \<Rightarrow> http_context \<Rightarrow> post_result" where
  "PostStreamChunk packet os cx =
     (if cx_postState cx = kHttpContextPostInit then
        (let cx1 = cx\<lparr>cx_outPacket := packet\<rparr>
         in if \<not> cx_headerSent cx1 then
              headers_posted (Send (cx_header cx1) os (cx1\<lparr>cx_postState := kHttpContextPostHttpStreamHeader\<rparr>))
            else
              bindR (packet_out packet)
                (\<lambda>d. posted (Send d os (cx1\<lparr>cx_postState := kHttpContextPostHttpStreamChunk\<rparr>))))
      else refused os cx)"

section \<open>One response, one completion\<close>

lemma Send_cases:
  "Send d os cx =
     (if os \<noteq> [] \<and> hd os then bindR (WriteComplete (tl os) cx) (\<lambda>(evs, cx', os'). Inr (SendBytes d # evs, cx', os'))
      else Inr ([SendBytes d], cx, tl os))"
  by (subst Send.simps) (auto split: list.split bool.split)

lemma packet_out_ok: "packet_inv c \<Longrightarrow> packet_out (Some c) = Inr (packet_bytes c)"
  by (simp add: packet_out_def PacketSize_inv packet_bytes_def) (simp add: packet_inv_def)

text \<open>The states a context is in while its user keeps to the protocol: idle, writing a whole message or
  the end of a chunked one, or writing a chunk.\<close>

definition message_states :: "HttpContextPostState list" where
  "message_states = [kHttpContextPostHttp, kHttpContextPostHttpHeader, kHttpContextPostHttpBody, kHttpContextPostChunkEOF]"

definition chunk_states :: "HttpContextPostState list" where
  "chunk_states = [kHttpContextPostChunkLen, kHttpContextPostChunkBody, kHttpContextPostHttpStreamHeader, kHttpContextPostHttpStreamChunk]"

definition busy_message :: "http_context \<Rightarrow> nat" where
  "busy_message cx = (if List.member message_states (cx_postState cx) then 1 else 0)"

definition busy_chunk :: "http_context \<Rightarrow> nat" where
  "busy_chunk cx = (if List.member chunk_states (cx_postState cx) then 1 else 0)"

definition idle :: "http_context \<Rightarrow> bool" where
  "idle cx \<longleftrightarrow> cx_postState cx = kHttpContextPostInit"

definition posting :: "http_context \<Rightarrow> bool" where
  "posting cx \<longleftrightarrow> cx_handler cx \<and> cx_postState cx \<noteq> kHttpContextPostChunkHeader \<and>
     (cx_postState cx = kHttpContextPostHttpHeader \<or> cx_postState cx = kHttpContextPostChunkLen \<longrightarrow>
        (\<exists>c. cx_outPacket cx = Some c \<and> packet_inv c))"

lemmas busy_defs = busy_message_def busy_chunk_def message_states_def chunk_states_def idle_def

text \<open>A call after which \<open>m\<close> messages and \<open>k\<close> chunks are reported or still being written.\<close>

definition sent_ok :: "nat \<Rightarrow> nat \<Rightarrow> send_result \<Rightarrow> bool" where
  "sent_ok m k r \<longleftrightarrow> (\<exists>evs cx' os'. r = Inr (evs, cx', os') \<and> posting cx' \<and>
     count_list evs OnSent + busy_message cx' = m \<and> count_list evs OnSentNextChunk + busy_chunk cx' = k)"

lemma WriteComplete_Init: "cx_postState cx = kHttpContextPostInit \<Longrightarrow> WriteComplete os cx = Inr ([], cx, os)"
  by (subst WriteComplete.simps) simp

lemma WriteComplete_chunk:
  "cx_postState cx = kHttpContextPostChunkLen \<Longrightarrow> cx_outPacket cx = Some c \<Longrightarrow> packet_inv c \<Longrightarrow>
     WriteComplete os cx = Send (packet_bytes c) os (cx\<lparr>cx_postState := kHttpContextPostChunkBody\<rparr>)"
  "cx_postState cx = kHttpContextPostChunkBody \<Longrightarrow> cx_handler cx \<Longrightarrow>
     WriteComplete os cx = Inr ([OnSentNextChunk], cx\<lparr>cx_postState := kHttpContextPostInit\<rparr>, os)"
  "cx_postState cx = kHttpContextPostChunkEOF \<Longrightarrow> cx_handler cx \<Longrightarrow>
     WriteComplete os cx = Inr ([OnSent], cx\<lparr>cx_postState := kHttpContextPostInit\<rparr>, os)"
  by (subst WriteComplete.simps, simp add: packet_out_ok notify_def)+

lemma WriteComplete_header:
  assumes "cx_postState cx = kHttpContextPostHttpHeader" "cx_outPacket cx = Some c" "packet_inv c"
  shows "WriteComplete os cx = Send (packet_bytes c) os (cx\<lparr>cx_postState := kHttpContextPostHttpBody\<rparr>)"
  using assms by (subst WriteComplete.simps) (simp add: packet_out_ok)

lemma WriteComplete_last:
  assumes "posting cx" "cx_postState cx \<notin> {kHttpContextPostHttpHeader, kHttpContextPostChunkLen}"
  shows "sent_ok (busy_message cx) (busy_chunk cx) (WriteComplete os cx)"
  using assms by (cases "cx_postState cx"; subst WriteComplete.simps) (auto simp: sent_ok_def notify_def posting_def busy_defs)

lemma Send_last:
  assumes "posting cx" "cx_postState cx \<notin> {kHttpContextPostHttpHeader, kHttpContextPostChunkLen}"
  shows "sent_ok (busy_message cx) (busy_chunk cx) (Send d os cx)"
  using WriteComplete_last [OF assms, of "tl os"] assms(1) by (auto simp: Send_cases sent_ok_def)

lemma WriteComplete_ok: "posting cx \<Longrightarrow> sent_ok (busy_message cx) (busy_chunk cx) (WriteComplete os cx)"
proof -
  assume p: "posting cx"
  consider (header) c where "cx_postState cx = kHttpContextPostHttpHeader" "cx_outPacket cx = Some c" "packet_inv c"
    | (len) c where "cx_postState cx = kHttpContextPostChunkLen" "cx_outPacket cx = Some c" "packet_inv c"
    | (last) "cx_postState cx \<notin> {kHttpContextPostHttpHeader, kHttpContextPostChunkLen}"
    using p by (auto simp: posting_def)
  then show ?thesis
  proof cases
    case header
    have "posting (cx\<lparr>cx_postState := kHttpContextPostHttpBody\<rparr>)" using p by (simp add: posting_def)
    with Send_last [OF this] header show ?thesis by (simp add: WriteComplete_header busy_defs)
  next
    case len
    have "posting (cx\<lparr>cx_postState := kHttpContextPostChunkBody\<rparr>)" using p by (simp add: posting_def)
    with Send_last [OF this] len show ?thesis by (simp add: WriteComplete_chunk busy_defs)
  qed (rule WriteComplete_last [OF p])
qed

lemma Send_ok: "posting cx \<Longrightarrow> sent_ok (busy_message cx) (busy_chunk cx) (Send d os cx)"
  using WriteComplete_ok [of cx "tl os"] by (auto simp: Send_cases sent_ok_def)

text \<open>
  A history: the caller posts texts, headers with a packet, headers of a stream or of a chunked
  message and stream chunks at any time, chunks and the end of a chunked message, which are not
  checked, when the context is idle, and the connection completes writes at any time, also inside a
  post. The numbers count the messages and the chunks that were accepted.
\<close>

inductive post_run :: "http_context \<Rightarrow> nat \<Rightarrow> nat \<Rightarrow> cx_event list \<Rightarrow> http_context \<Rightarrow> bool" where
  start: "cx_postState cx = kHttpContextPostInit \<Longrightarrow> cx_handler cx \<Longrightarrow> post_run cx 0 0 [] cx"
| post_text: "post_run cx0 m k evs cx \<Longrightarrow> PostRequest_text d os cx = Inr (ok, evs', cx', os') \<Longrightarrow>
    post_run cx0 (m + of_bool ok) k (evs @ evs') cx'"
| post_packet: "post_run cx0 m k evs cx \<Longrightarrow> packet_inv c \<Longrightarrow>
    PostRequest_packet d (Some c) os cx = Inr (ok, evs', cx', os') \<Longrightarrow>
    post_run cx0 (m + of_bool ok) k (evs @ evs') cx'"
| stream_header: "post_run cx0 m k evs cx \<Longrightarrow> PostStreamHeader d os cx = Inr (ok, evs', cx', os') \<Longrightarrow>
    post_run cx0 m k (evs @ evs') cx'"
| chunk_header: "post_run cx0 m k evs cx \<Longrightarrow> PostChunkHeader d os cx = Inr (ok, evs', cx', os') \<Longrightarrow>
    post_run cx0 m k (evs @ evs') cx'"
| stream_chunk: "post_run cx0 m k evs cx \<Longrightarrow> packet_inv c \<Longrightarrow>
    PostStreamChunk (Some c) os cx = Inr (ok, evs', cx', os') \<Longrightarrow>
    post_run cx0 m (k + of_bool ok) (evs @ evs') cx'"
| chunk: "post_run cx0 m k evs cx \<Longrightarrow> idle cx \<Longrightarrow> cx_headerSent cx \<Longrightarrow> packet_inv c \<Longrightarrow>
    PostChunk (Some c) os cx = Inr (evs', cx', os') \<Longrightarrow> post_run cx0 m (Suc k) (evs @ evs') cx'"
| chunk_eof: "post_run cx0 m k evs cx \<Longrightarrow> idle cx \<Longrightarrow> PostEofChunk os cx = Inr (evs', cx', os') \<Longrightarrow>
    post_run cx0 (Suc m) k (evs @ evs') cx'"
| written: "post_run cx0 m k evs cx \<Longrightarrow> WriteComplete os cx = Inr (evs', cx', os') \<Longrightarrow>
    post_run cx0 m k (evs @ evs') cx'"

text \<open>A post that asks first: it is accepted when the context is idle, for \<open>m\<close> messages and \<open>k\<close> chunks.\<close>

definition post_ok :: "nat \<Rightarrow> nat \<Rightarrow> http_context \<Rightarrow> post_result \<Rightarrow> bool" where
  "post_ok m k cx r \<longleftrightarrow> (\<exists>evs cx' os'. r = Inr (idle cx, evs, cx', os') \<and> posting cx' \<and>
     count_list evs OnSent + busy_message cx' = busy_message cx + m * of_bool (idle cx) \<and>
     count_list evs OnSentNextChunk + busy_chunk cx' = busy_chunk cx + k * of_bool (idle cx))"

lemma post_ok_refused: "posting cx \<Longrightarrow> \<not> idle cx \<Longrightarrow> post_ok m k cx (refused os cx)"
  by (simp add: post_ok_def refused_def)

lemma idle_not_busy: "idle cx \<Longrightarrow> busy_message cx = 0 \<and> busy_chunk cx = 0"
  by (simp add: busy_defs)

lemma post_ok_posted: "idle cx \<Longrightarrow> sent_ok m k r \<Longrightarrow> post_ok m k cx (posted r)"
  by (auto simp: post_ok_def sent_ok_def posted_def idle_not_busy)

lemma post_ok_headers: "idle cx \<Longrightarrow> sent_ok m k r \<Longrightarrow> post_ok m k cx (headers_posted r)"
  by (auto simp: post_ok_def sent_ok_def headers_posted_def idle_not_busy) (auto simp: posting_def busy_defs)

lemma PostRequest_text_ok: "posting cx \<Longrightarrow> post_ok 1 0 cx (PostRequest_text d os cx)"
  using post_ok_posted [OF _ Send_ok, of cx "cx\<lparr>cx_header := d, cx_postState := kHttpContextPostHttp\<rparr>" d os] post_ok_refused [of cx 1 0 os]
  by (auto simp: PostRequest_text_def posting_def busy_defs)

lemma PostRequest_packet_ok: "posting cx \<Longrightarrow> packet_inv c \<Longrightarrow> post_ok 1 0 cx (PostRequest_packet d (Some c) os cx)"
  using post_ok_posted [OF _ Send_ok, of cx "cx\<lparr>cx_header := d, cx_outPacket := Some c, cx_postState := kHttpContextPostHttpHeader\<rparr>" d os]
    post_ok_refused [of cx 1 0 os]
  by (auto simp: PostRequest_packet_def posting_def busy_defs)

lemma header_ok: "posting cx \<Longrightarrow> idle cx \<Longrightarrow>
    post_ok 0 0 cx (headers_posted (Send d os (cx\<lparr>cx_header := d, cx_postState := kHttpContextPostInit\<rparr>)))"
  using post_ok_headers [OF _ Send_ok, of cx "cx\<lparr>cx_header := d, cx_postState := kHttpContextPostInit\<rparr>" d os]
  by (auto simp: posting_def busy_defs)

lemma PostStreamHeader_ok: "posting cx \<Longrightarrow> post_ok 0 0 cx (PostStreamHeader d os cx)"
  and PostChunkHeader_ok: "posting cx \<Longrightarrow> post_ok 0 0 cx (PostChunkHeader d os cx)"
  using header_ok [of cx d os] post_ok_refused [of cx 0 0 os]
  by (auto simp: PostStreamHeader_def PostChunkHeader_def idle_def)

lemma PostStreamChunk_ok: "posting cx \<Longrightarrow> packet_inv c \<Longrightarrow> post_ok 0 1 cx (PostStreamChunk (Some c) os cx)"
  using post_ok_posted [OF _ Send_ok, of cx "cx\<lparr>cx_outPacket := Some c, cx_postState := kHttpContextPostHttpStreamChunk\<rparr>" "packet_bytes c" os]
    post_ok_headers [OF _ Send_ok, of cx "cx\<lparr>cx_outPacket := Some c, cx_postState := kHttpContextPostHttpStreamHeader\<rparr>" "cx_header cx" os]
    post_ok_refused [of cx 0 1 os]
  by (auto simp: PostStreamChunk_def Let_def packet_out_ok posting_def busy_defs)

lemma PostChunk_ok: "posting cx \<Longrightarrow> cx_headerSent cx \<Longrightarrow> packet_inv c \<Longrightarrow> sent_ok 0 1 (PostChunk (Some c) os cx)"
  using Send_ok [of "cx\<lparr>cx_outPacket := Some c, cx_postState := kHttpContextPostChunkLen, cx_header := chunk_len_line c\<rparr>" "chunk_len_line c" os]
  by (auto simp: PostChunk_def Let_def posting_def busy_defs)

lemma PostEofChunk_ok: "posting cx \<Longrightarrow> sent_ok 1 0 (PostEofChunk os cx)"
  using Send_ok [of "cx\<lparr>cx_postState := kHttpContextPostChunkEOF\<rparr>" CHUNK_EOF os]
  by (auto simp: PostEofChunk_def posting_def busy_defs)

lemma post_okD: "post_ok m k cx (Inr (ok, evs, cx', os)) \<Longrightarrow> posting cx' \<and>
    count_list evs OnSent + busy_message cx' = busy_message cx + m * of_bool ok \<and>
    count_list evs OnSentNextChunk + busy_chunk cx' = busy_chunk cx + k * of_bool ok"
  by (auto simp: post_ok_def)

lemma sent_okD: "sent_ok m k (Inr (evs, cx', os)) \<Longrightarrow> posting cx' \<and>
    count_list evs OnSent + busy_message cx' = m \<and> count_list evs OnSentNextChunk + busy_chunk cx' = k"
  by (auto simp: sent_ok_def)

lemma post_run_posting: "post_run cx0 m k evs cx \<Longrightarrow>
    posting cx \<and> count_list evs OnSent + busy_message cx = m \<and> count_list evs OnSentNextChunk + busy_chunk cx = k"
proof (induction rule: post_run.induct)
  case (start cx)
  then show ?case by (simp add: posting_def busy_defs)
next
  case (post_text cx0 m k evs cx d os ok evs' cx' os')
  then show ?case using PostRequest_text_ok [of cx d os] by (auto dest!: post_okD)
next
  case (post_packet cx0 m k evs cx c d os ok evs' cx' os')
  then show ?case using PostRequest_packet_ok [of cx c d os] by (auto dest!: post_okD)
next
  case (stream_header cx0 m k evs cx d os ok evs' cx' os')
  then show ?case using PostStreamHeader_ok [of cx d os] by (auto dest!: post_okD)
next
  case (chunk_header cx0 m k evs cx d os ok evs' cx' os')
  then show ?case using PostChunkHeader_ok [of cx d os] by (auto dest!: post_okD)
next
  case (stream_chunk cx0 m k evs cx c os ok evs' cx' os')
  then show ?case using PostStreamChunk_ok [of cx c os] by (auto dest!: post_okD)
next
  case (chunk cx0 m k evs cx c os evs' cx' os')
  then show ?case using PostChunk_ok [of cx c os] idle_not_busy [of cx] by (auto dest!: sent_okD)
next
  case (chunk_eof cx0 m k evs cx os evs' cx' os')
  then show ?case using PostEofChunk_ok [of cx os] idle_not_busy [of cx] by (auto dest!: sent_okD)
next
  case (written cx0 m k evs cx os evs' cx' os')
  then show ?case using WriteComplete_ok [of cx os] by (auto dest!: sent_okD)
qed



text \<open>A chunk that is posted while a message is being written takes its place: \<open>OnSent\<close> is never
  reported for the message.\<close>

lemma chunk_while_busy:
  assumes "cx_handler cx" "cx_headerSent cx" "cx_postState cx = kHttpContextPostHttp" "packet_inv c"
  shows "\<exists>cx1 cx2. PostChunk (Some c) [] cx = Inr ([SendBytes (chunk_len_line c)], cx1, []) \<and>
    WriteComplete [] cx1 = Inr ([SendBytes (packet_bytes c)], cx2, []) \<and>
    WriteComplete [] cx2 = Inr ([OnSentNextChunk], cx2\<lparr>cx_postState := kHttpContextPostInit\<rparr>, [])"
  using assms by (simp add: PostChunk_def Send_cases WriteComplete_chunk)

section \<open>Chunked messages on the wire\<close>

text \<open>Completing writes until the context is idle again: at most two are pending for a chunk.\<close>

fun settle :: "nat \<Rightarrow> cx_event list \<times> http_context \<times> bool list \<Rightarrow> send_result" where
  "settle 0 x = Inr x"
| "settle (Suc k) (evs, cx, os) =
     bindR (WriteComplete os cx) (\<lambda>(evs', cx', os'). settle k (evs @ evs', cx', os'))"

text \<open>The handler posts its chunks one after the other, each when the one before is out, and the end.\<close>

fun post_chunks :: "packet list \<Rightarrow> cx_event list \<times> http_context \<times> bool list \<Rightarrow> send_result" where
  "post_chunks [] (evs, cx, os) =
     bindR (PostEofChunk os cx) (\<lambda>(evs', cx', os'). settle 2 (evs @ evs', cx', os'))"
| "post_chunks (c # cs) (evs, cx, os) =
     bindR (PostChunk (Some c) os cx)
       (\<lambda>(evs', cx', os'). bindR (settle 2 (evs @ evs', cx', os')) (post_chunks cs))"

definition wire :: "cx_event list \<Rightarrow> string" where
  "wire evs = concat (map (\<lambda>e. case e of SendBytes s \<Rightarrow> s | _ \<Rightarrow> []) evs)"

lemma settle_Init: "cx_postState cx = kHttpContextPostInit \<Longrightarrow> settle k (evs, cx, os) = Inr (evs, cx, os)"
  by (induction k) (simp_all add: WriteComplete_Init)

text \<open>However the writes of one chunk complete, the same two sends and one notification result.\<close>

lemma PostChunk_settles:
  assumes "cx_handler cx" "cx_headerSent cx" "packet_inv c"
  shows "\<exists>cx' os'. bindR (PostChunk (Some c) os cx) (\<lambda>(evs', cx', os'). settle 2 (evs @ evs', cx', os'))
     = Inr (evs @ [SendBytes (chunk_len_line c), SendBytes (packet_bytes c), OnSentNextChunk], cx', os')
     \<and> cx_postState cx' = kHttpContextPostInit \<and> cx_handler cx' \<and> cx_headerSent cx'"
  using assms
  by (cases "os \<noteq> [] \<and> hd os"; cases "tl os \<noteq> [] \<and> hd (tl os)"; cases "tl (tl os) \<noteq> [] \<and> hd (tl (tl os))")
    (simp_all add: PostChunk_def Let_def Send_cases WriteComplete_chunk settle_Init numeral_2_eq_2 WriteComplete_Init)

lemma PostEofChunk_settles:
  assumes "cx_handler cx"
  shows "\<exists>cx' os'. bindR (PostEofChunk os cx) (\<lambda>(evs', cx', os'). settle 2 (evs @ evs', cx', os'))
     = Inr (evs @ [SendBytes CHUNK_EOF, OnSent], cx', os') \<and> cx_postState cx' = kHttpContextPostInit"
  using assms
  by (cases "os \<noteq> [] \<and> hd os")
    (simp_all add: PostEofChunk_def Send_cases WriteComplete_chunk settle_Init numeral_2_eq_2 WriteComplete_Init)

text \<open>C27: the bytes a chunked message puts on the wire, whichever of its writes complete at once:
  for every chunk its length line and its bytes, with no line end after them, and the
  terminating chunk; and one notification for every chunk and one for the message.\<close>

theorem chunked_wire:
  assumes "cx_handler cx" "cx_headerSent cx" "\<forall>c\<in>set cs. packet_inv c"
  shows "\<exists>evs' cx' os'. post_chunks cs (evs, cx, os) = Inr (evs @ evs', cx', os') \<and>
     wire evs' = concat (map (\<lambda>c. chunk_len_line c @ packet_bytes c) cs) @ CHUNK_EOF \<and>
     count_list evs' OnSentNextChunk = length cs \<and> count_list evs' OnSent = 1 \<and>
     cx_postState cx' = kHttpContextPostInit"
  using assms
proof (induction cs arbitrary: evs cx os)
  case Nil
  from PostEofChunk_settles [OF Nil(1), of os evs] show ?case by (auto simp: wire_def)
next
  case (Cons c cs)
  then have "packet_inv c" by simp
  from PostChunk_settles [OF Cons.prems(1,2) this, of os evs] obtain cx1 os1 where
    one: "bindR (PostChunk (Some c) os cx) (\<lambda>(evs', cx', os'). settle 2 (evs @ evs', cx', os'))
       = Inr (evs @ [SendBytes (chunk_len_line c), SendBytes (packet_bytes c), OnSentNextChunk], cx1, os1)"
      "cx_handler cx1" "cx_headerSent cx1" by auto
  let ?e = "[SendBytes (chunk_len_line c), SendBytes (packet_bytes c), OnSentNextChunk]"
  obtain p where p: "PostChunk (Some c) os cx = Inr p"
    using one(1) by (cases "PostChunk (Some c) os cx") auto
  have "post_chunks (c # cs) (evs, cx, os) = post_chunks cs (evs @ ?e, cx1, os1)"
    using one(1) unfolding post_chunks.simps p by (cases p) simp
  moreover obtain evs' cx' os' where "post_chunks cs (evs @ ?e, cx1, os1) = Inr ((evs @ ?e) @ evs', cx', os')"
    "wire evs' = concat (map (\<lambda>c. chunk_len_line c @ packet_bytes c) cs) @ CHUNK_EOF"
    "count_list evs' OnSentNextChunk = length cs" "count_list evs' OnSent = 1"
    "cx_postState cx' = kHttpContextPostInit"
    using Cons.IH [OF one(2,3), of "evs @ ?e" os1] Cons.prems(3) by auto
  ultimately show ?case
    by (intro exI [of _ "?e @ evs'"] exI [of _ cx'] exI [of _ os']) (simp add: wire_def)
qed

theorem chunked_wire_witness:
  "\<exists>c evs' cx' os'. packet_bytes c = [] \<and>
     post_chunks [c] ([], (new_HttpContext True True), [True, False]) = Inr ([] @ evs', cx', os') \<and>
     wire evs' = concat (map (\<lambda>c. chunk_len_line c @ packet_bytes c) [c]) @ CHUNK_EOF \<and>
     count_list evs' OnSentNextChunk = length [c] \<and> count_list evs' OnSent = 1 \<and>
     cx_postState cx' = kHttpContextPostInit"
proof -
  obtain c where c: "packet_inv c" "pk_size c = 0" using NewPacket_ok [of 0] by auto
  then have "packet_bytes c = []" by (simp add: packet_bytes_def)
  moreover have "cx_handler (new_HttpContext True True)" "cx_headerSent (new_HttpContext True True)"
    by (simp_all add: new_HttpContext_def)
  note chunked_wire [OF this, of "[c]" "[]" "[True, False]"]
  ultimately show ?thesis using c(1) by auto
qed

end
