(* ===== verification/TimingWheel.thy ===== *)
theory TimingWheel
  imports Prelude
begin

text \<open>
  \<open>src/network/net/TimingWheel.{h,cpp}\<close>: four wheels of slots. A slot holds shared pointers,
  and a timer fires in the destructor of the object when its last reference is dropped. The
  objects are named: \<open>Once\<close> and \<open>Every\<close> are the callbacks of \<open>RunAfter\<close> and \<open>RunEvery\<close>,
  \<open>Idle\<close> the \<open>TimeoutEntry\<close> of a connection. A reference to an object is held directly by a
  slot, or by the callback of an entry of a coarser wheel (\<open>Cascade\<close>) which inserts the object
  again with the seconds left over. A slot is a list in the order of insertion (the order in
  which an \<open>unordered_set\<close> destroys its elements is not fixed by the language). What a user
  callback does besides being called is outside the model, as is the conversion of a
  \<open>double\<close> delay to \<open>uint32_t\<close>. Indexing a deque out of range is a fault.
\<close>

section \<open>State\<close>

datatype timer_obj = Once nat | Every nat nat | Idle nat
datatype wheel_entry = Direct timer_obj | Cascade nat timer_obj
datatype timer_event = Fired timer_obj

fun obj_of :: "wheel_entry \<Rightarrow> timer_obj" where
  "obj_of (Direct x) = x"
| "obj_of (Cascade s x) = x"

type_synonym wheel = "wheel_entry list list"

definition kTimingMinute :: nat where "kTimingMinute = 60"
definition kTimingHour :: nat where "kTimingHour = 60 * 60"
definition kTimingDay :: nat where "kTimingDay = 60 * 60 * 24"

record timing_wheel =
  tw_second :: wheel
  tw_minute :: wheel
  tw_hour :: wheel
  tw_day :: wheel
  tw_lastTs :: int
  tw_tick :: nat

definition new_TimingWheel :: timing_wheel where
  "new_TimingWheel =
     \<lparr>tw_second = replicate 60 [], tw_minute = replicate 60 [], tw_hour = replicate 24 [],
      tw_day = replicate 30 [], tw_lastTs = 0, tw_tick = 0\<rparr>"

section \<open>Inserting\<close>

text \<open>An \<open>unordered_set\<close> keeps one copy of a pointer; every \<open>Cascade\<close> is an object of its own.\<close>

definition slot_add :: "wheel_entry \<Rightarrow> wheel_entry list \<Rightarrow> wheel_entry list" where
  "slot_add e slot = (case e of Direct x \<Rightarrow> if e \<in> set slot then slot else slot @ [e] | Cascade s x \<Rightarrow> slot @ [e])"

definition emplace :: "nat \<Rightarrow> wheel_entry \<Rightarrow> wheel \<Rightarrow> wheel result" where
  "emplace i e w = (if i < length w then Inr (w[i := slot_add e (w ! i)]) else Inl Out_of_bounds)"

text \<open>\<open>delay - 1\<close> in \<open>uint32_t\<close>.\<close>

definition index32 :: "nat \<Rightarrow> nat" where
  "index32 n = (if n = 0 then 4294967295 else n - 1)"

definition InsertSecondEntry :: "nat \<Rightarrow> timer_obj \<Rightarrow> timing_wheel \<Rightarrow> timing_wheel result" where
  "InsertSecondEntry delay x tw =
     bindR (emplace (index32 delay) (Direct x) (tw_second tw)) (\<lambda>w. Inr (tw\<lparr>tw_second := w\<rparr>))"

definition InsertMinuteEntry :: "nat \<Rightarrow> timer_obj \<Rightarrow> timing_wheel \<Rightarrow> timing_wheel result" where
  "InsertMinuteEntry delay x tw =
     (let minute = delay div kTimingMinute; second = delay mod kTimingMinute
      in bindR (emplace (index32 minute) (Cascade second x) (tw_minute tw)) (\<lambda>w. Inr (tw\<lparr>tw_minute := w\<rparr>)))"

definition InsertHourEntry :: "nat \<Rightarrow> timer_obj \<Rightarrow> timing_wheel \<Rightarrow> timing_wheel result" where
  "InsertHourEntry delay x tw =
     (let hour = delay div kTimingHour; second = delay mod kTimingHour
      in bindR (emplace (index32 hour) (Cascade second x) (tw_hour tw)) (\<lambda>w. Inr (tw\<lparr>tw_hour := w\<rparr>)))"

definition InsertDayEntry :: "nat \<Rightarrow> timer_obj \<Rightarrow> timing_wheel \<Rightarrow> timing_wheel result" where
  "InsertDayEntry delay x tw =
     (let day = delay div kTimingDay; second = delay mod kTimingDay
      in bindR (emplace (index32 day) (Cascade second x) (tw_day tw)) (\<lambda>w. Inr (tw\<lparr>tw_day := w\<rparr>)))"

definition InsertEntry :: "nat \<Rightarrow> timer_obj \<Rightarrow> timing_wheel \<Rightarrow> timing_wheel result" where
  "InsertEntry delay x tw =
     (if delay < kTimingMinute then InsertSecondEntry delay x tw
      else if delay < kTimingHour then InsertMinuteEntry delay x tw
      else if delay < kTimingDay then InsertHourEntry delay x tw
      else if delay div kTimingDay > 30 then Inr tw
      else InsertDayEntry delay x tw)"

section \<open>Dropping references\<close>

definition wheel_has :: "timer_obj \<Rightarrow> wheel \<Rightarrow> bool" where
  "wheel_has x w = list_ex (list_ex (\<lambda>e. obj_of e = x)) w"

definition referenced :: "timer_obj \<Rightarrow> timing_wheel \<Rightarrow> bool" where
  "referenced x tw \<longleftrightarrow> wheel_has x (tw_second tw) \<or> wheel_has x (tw_minute tw)
     \<or> wheel_has x (tw_hour tw) \<or> wheel_has x (tw_day tw)"

type_synonym timer_result = "(timer_event list \<times> timing_wheel) result"

text \<open>
  The destructor of an object. That of a periodic timer runs the callback and inserts a new
  object; with an interval of more than thirty days the insertion drops that object, so that
  its destructor runs at once, and so on without end.
\<close>

definition fire :: "timer_obj \<Rightarrow> timing_wheel \<Rightarrow> timer_result" where
  "fire x tw =
     (case x of
        Every i interval \<Rightarrow>
          if interval div kTimingDay > 30 then Inl (Exception ''unbounded recursion'')
          else bindR (InsertEntry interval x tw) (\<lambda>tw'. Inr ([Fired x], tw'))
      | _ \<Rightarrow> Inr ([Fired x], tw))"

text \<open>One reference to \<open>x\<close> goes; \<open>rest\<close> are the entries of a popped slot not yet destroyed.\<close>

definition release :: "timer_obj \<Rightarrow> wheel_entry list \<Rightarrow> timing_wheel \<Rightarrow> timer_result" where
  "release x rest tw =
     (if referenced x tw \<or> list_ex (\<lambda>e. obj_of e = x) rest then Inr ([], tw) else fire x tw)"

definition andthen :: "timer_result \<Rightarrow> (timing_wheel \<Rightarrow> timer_result) \<Rightarrow> timer_result" where
  "andthen r f = bindR r (\<lambda>(evs, tw). bindR (f tw) (\<lambda>(evs', tw'). Inr (evs @ evs', tw')))"

fun destroy :: "wheel_entry list \<Rightarrow> timing_wheel \<Rightarrow> timer_result" where
  "destroy [] tw = Inr ([], tw)"
| "destroy (Direct x # es) tw = andthen (release x es tw) (destroy es)"
| "destroy (Cascade s x # es) tw =
     bindR (InsertEntry s x tw) (\<lambda>tw1. andthen (release x es tw1) (destroy es))"

section \<open>Running\<close>

text \<open>\<open>RunAfter\<close> and \<open>RunEvery\<close> hold the new object until they return.\<close>

definition RunAfter :: "nat \<Rightarrow> nat \<Rightarrow> timing_wheel \<Rightarrow> timer_result" where
  "RunAfter delay cb tw = bindR (InsertEntry delay (Once cb) tw) (release (Once cb) [])"

definition RunEvery :: "nat \<Rightarrow> nat \<Rightarrow> timing_wheel \<Rightarrow> timer_result" where
  "RunEvery interval cb tw =
     bindR (InsertEntry interval (Every cb interval) tw) (release (Every cb interval) [])"

text \<open>\<open>PopUp\<close>: the first slot is taken out and destroyed after the wheel has turned.\<close>

definition rotate_wheel :: "wheel \<Rightarrow> wheel" where
  "rotate_wheel w = tl w @ [[]]"

definition pop_second :: "timing_wheel \<Rightarrow> timer_result" where
  "pop_second tw = destroy (hd (tw_second tw)) (tw\<lparr>tw_second := rotate_wheel (tw_second tw)\<rparr>)"
definition pop_minute :: "timing_wheel \<Rightarrow> timer_result" where
  "pop_minute tw = destroy (hd (tw_minute tw)) (tw\<lparr>tw_minute := rotate_wheel (tw_minute tw)\<rparr>)"
definition pop_hour :: "timing_wheel \<Rightarrow> timer_result" where
  "pop_hour tw = destroy (hd (tw_hour tw)) (tw\<lparr>tw_hour := rotate_wheel (tw_hour tw)\<rparr>)"
definition pop_day :: "timing_wheel \<Rightarrow> timer_result" where
  "pop_day tw = destroy (hd (tw_day tw)) (tw\<lparr>tw_day := rotate_wheel (tw_day tw)\<rparr>)"

text \<open>The branches of \<open>OnTimer\<close> after the second wheel, with \<open>tick\<close> already counted.\<close>

definition pop_coarse :: "timing_wheel \<Rightarrow> timer_result" where
  "pop_coarse tw =
     (if tw_tick tw mod kTimingMinute = 0 then pop_minute tw
      else if tw_tick tw mod kTimingHour = 0 then pop_hour tw
      else if tw_tick tw mod kTimingDay = 0 then pop_day tw
      else Inr ([], tw))"

definition OnTimer :: "int \<Rightarrow> timing_wheel \<Rightarrow> timer_result" where
  "OnTimer now tw =
     (let tw1 = (if tw_lastTs tw = 0 then tw\<lparr>tw_lastTs := now\<rparr> else tw)
      in if now - tw_lastTs tw1 < 1000 then Inr ([], tw1)
         else andthen (pop_second (tw1\<lparr>tw_lastTs := now, tw_tick := tw_tick tw1 + 1\<rparr>)) pop_coarse)"

text \<open>The calls of \<open>OnTimer\<close> an event loop makes, at the given times.\<close>

fun run_timer :: "int list \<Rightarrow> timing_wheel \<Rightarrow> timer_result" where
  "run_timer [] tw = Inr ([], tw)"
| "run_timer (t # ts) tw = andthen (OnTimer t tw) (run_timer ts)"

text \<open>Times that are at least a second apart: every call counts one tick.\<close>

fun spaced :: "int \<Rightarrow> int list \<Rightarrow> bool" where
  "spaced t0 [] = True"
| "spaced t0 (t # ts) = (1000 \<le> t - t0 \<and> 0 < t \<and> spaced t ts)"

section \<open>Where an object is\<close>

text \<open>The entries of a wheel that refer to \<open>x\<close>, slot by slot, and those of the four wheels.\<close>

definition occ :: "timer_obj \<Rightarrow> wheel \<Rightarrow> wheel" where
  "occ x w = map (filter (\<lambda>e. obj_of e = x)) w"

definition loc :: "timer_obj \<Rightarrow> timing_wheel \<Rightarrow> wheel \<times> wheel \<times> wheel \<times> wheel" where
  "loc x tw = (occ x (tw_second tw), occ x (tw_minute tw), occ x (tw_hour tw), occ x (tw_day tw))"

text \<open>What no operation but the turning of the wheels changes.\<close>

definition frame :: "timing_wheel \<Rightarrow> nat list \<times> int \<times> nat" where
  "frame tw = (map length [tw_second tw, tw_minute tw, tw_hour tw, tw_day tw], tw_lastTs tw, tw_tick tw)"

definition second_direct :: "timing_wheel \<Rightarrow> bool" where
  "second_direct tw \<longleftrightarrow> (\<forall>slot\<in>set (tw_second tw). \<forall>e\<in>set slot. e = Direct (obj_of e))"

definition tw_inv :: "timing_wheel \<Rightarrow> bool" where
  "tw_inv tw \<longleftrightarrow> length (tw_second tw) = 60 \<and> length (tw_minute tw) = 60 \<and> length (tw_hour tw) = 24
     \<and> length (tw_day tw) = 30 \<and> second_direct tw"

lemma tw_inv_new: "tw_inv new_TimingWheel"
  by (simp add: tw_inv_def new_TimingWheel_def second_direct_def)

lemma wheel_has_occ: "wheel_has x w \<longleftrightarrow> (\<exists>s\<in>set (occ x w). s \<noteq> [])"
  by (auto simp: wheel_has_def occ_def list_ex_iff filter_empty_conv)

lemma referenced_loc: "loc x tw = loc x tw' \<Longrightarrow> referenced x tw = referenced x tw'"
  by (simp add: referenced_def loc_def wheel_has_occ)

lemma occ_update: "i < length w \<Longrightarrow> occ x (w[i := s]) = (occ x w)[i := filter (\<lambda>e. obj_of e = x) s]"
  by (simp add: occ_def map_update)

lemma length_occ [simp]: "length (occ x w) = length w"
  by (simp add: occ_def)

lemma nth_occ: "i < length w \<Longrightarrow> occ x w ! i = filter (\<lambda>e. obj_of e = x) (w ! i)"
  by (simp add: occ_def)

lemma emplace_other:
  assumes "emplace i e w = Inr w'" "obj_of e \<noteq> x"
  shows "occ x w' = occ x w" "length w' = length w"
proof -
  have "filter (\<lambda>e. obj_of e = x) (slot_add e (w ! i)) = filter (\<lambda>e. obj_of e = x) (w ! i)"
    using assms(2) by (auto simp: slot_add_def split: wheel_entry.split)
  with assms(1) show "occ x w' = occ x w" "length w' = length w"
    by (auto simp: emplace_def occ_update nth_occ [symmetric] split: if_splits)
qed

lemmas insert_defs = InsertSecondEntry_def InsertMinuteEntry_def InsertHourEntry_def InsertDayEntry_def

lemma emplace_direct:
  "emplace i (Direct y) w = Inr w' \<Longrightarrow> \<forall>slot\<in>set w. \<forall>e\<in>set slot. e = Direct (obj_of e) \<Longrightarrow>
     \<forall>slot\<in>set w'. \<forall>e\<in>set slot. e = Direct (obj_of e)"
proof -
  assume e: "emplace i (Direct y) w = Inr w'" and w: "\<forall>slot\<in>set w. \<forall>e\<in>set slot. e = Direct (obj_of e)"
  then have i: "i < length w" "w' = w[i := slot_add (Direct y) (w ! i)]"
    by (auto simp: emplace_def split: if_splits)
  then have "w ! i \<in> set w" by simp
  with w have "\<forall>e\<in>set (slot_add (Direct y) (w ! i)). e = Direct (obj_of e)"
    by (auto simp: slot_add_def)
  with w i show ?thesis using set_update_subset_insert [of w i] by blast
qed

lemma InsertEntry_other:
  assumes "InsertEntry d y tw = Inr tw'"
  shows "frame tw' = frame tw" "y \<noteq> x \<Longrightarrow> loc x tw' = loc x tw" "second_direct tw \<Longrightarrow> second_direct tw'"
proof -
  note parts = assms [unfolded InsertEntry_def insert_defs Let_def]
  have other: "occ x w' = occ x w \<and> length w' = length w" if "emplace i e w = Inr w'" "obj_of e \<noteq> x" for i e w w' x
    using emplace_other [OF that] by simp
  have len: "length w' = length w" if "emplace i e w = Inr w'" for i e w w'
    using that by (auto simp: emplace_def split: if_splits)
  show "frame tw' = frame tw"
    using parts by (auto simp: frame_def bindR_eq_Inr_iff len split: if_splits)
  show "loc x tw' = loc x tw" if "y \<noteq> x"
    using parts that by (auto simp: loc_def bindR_eq_Inr_iff split: if_splits dest!: other [of _ "Direct y"] other [of _ "Cascade k y" for k])
  show "second_direct tw'" if "second_direct tw"
    using parts that by (auto simp: second_direct_def bindR_eq_Inr_iff split: if_splits dest!: emplace_direct)
qed

text \<open>A step that keeps the frame, and leaves the references to \<open>x\<close> and its firing alone.\<close>

definition keeps :: "timing_wheel \<Rightarrow> timing_wheel \<Rightarrow> bool" where
  "keeps tw tw' \<longleftrightarrow> frame tw' = frame tw \<and> (second_direct tw \<longrightarrow> second_direct tw')"

definition quiet :: "timer_obj \<Rightarrow> timing_wheel \<Rightarrow> timer_event list \<times> timing_wheel \<Rightarrow> bool" where
  "quiet x tw r \<longleftrightarrow> loc x (snd r) = loc x tw \<and> count_list (fst r) (Fired x) = 0"

lemma keeps_refl [simp]: "keeps tw tw"
  by (simp add: keeps_def)

lemma keeps_trans: "keeps a b \<Longrightarrow> keeps b c \<Longrightarrow> keeps a c"
  by (simp add: keeps_def)

lemma andthen_Inr:
  "andthen r f = Inr (evs, tw'') \<longleftrightarrow>
     (\<exists>e1 tw1 e2. r = Inr (e1, tw1) \<and> f tw1 = Inr (e2, tw'') \<and> evs = e1 @ e2)"
  by (auto simp: andthen_def bindR_eq_Inr_iff split: prod.splits)

lemma InsertEntry_keeps: "InsertEntry d y tw = Inr tw' \<Longrightarrow> keeps tw tw'"
  using InsertEntry_other by (simp add: keeps_def)

lemma fire_keeps: "fire y tw = Inr (evs, tw') \<Longrightarrow> keeps tw tw'"
  by (auto simp: fire_def bindR_eq_Inr_iff InsertEntry_keeps split: timer_obj.splits if_splits)

lemma fire_quiet: "fire y tw = Inr (evs, tw') \<Longrightarrow> y \<noteq> x \<Longrightarrow> quiet x tw (evs, tw')"
  by (auto simp: fire_def quiet_def bindR_eq_Inr_iff InsertEntry_other(2) split: timer_obj.splits if_splits)

lemma release_keeps: "release y es tw = Inr (evs, tw') \<Longrightarrow> keeps tw tw'"
  by (auto simp: release_def fire_keeps split: if_splits)

lemma release_quiet: "release y es tw = Inr (evs, tw') \<Longrightarrow> y \<noteq> x \<Longrightarrow> quiet x tw (evs, tw')"
  using fire_quiet by (auto simp: release_def quiet_def split: if_splits)

lemma destroy_keeps: "destroy es tw = Inr (evs, tw') \<Longrightarrow> keeps tw tw'"
proof (induction es tw arbitrary: evs rule: destroy.induct)
  case (2 x es tw)
  then show ?case by (auto simp: andthen_Inr intro: keeps_trans dest!: release_keeps)
next
  case (3 s x es tw)
  then obtain tw0 e1 tw1 e2 where t: "InsertEntry s x tw = Inr tw0" "release x es tw0 = Inr (e1, tw1)"
    "destroy es tw1 = Inr (e2, tw')"
    by (auto simp: andthen_Inr bindR_eq_Inr_iff)
  have "keeps tw1 tw'" using 3(1) t by blast
  have "keeps tw tw1" using InsertEntry_keeps [OF t(1)] release_keeps [OF t(2)] by (rule keeps_trans)
  then show ?case using \<open>keeps tw1 tw'\<close> by (rule keeps_trans)
qed simp

lemma quiet_trans: "quiet x tw (e1, tw1) \<Longrightarrow> quiet x tw1 (e2, tw2) \<Longrightarrow> quiet x tw (e1 @ e2, tw2)"
  by (simp add: quiet_def)

lemma destroy_quiet:
  "destroy es tw = Inr (evs, tw') \<Longrightarrow> \<forall>e\<in>set es. obj_of e \<noteq> x \<Longrightarrow> quiet x tw (evs, tw')"
proof (induction es tw arbitrary: evs rule: destroy.induct)
  case (2 y es tw)
  then obtain e1 tw1 e2 where "release y es tw = Inr (e1, tw1)" "destroy es tw1 = Inr (e2, tw')" "evs = e1 @ e2"
    by (auto simp: andthen_Inr)
  with 2 release_quiet [of y es tw e1 tw1 x] show ?case by (auto intro: quiet_trans)
next
  case (3 s y es tw)
  then obtain tw0 e1 tw1 e2 where t: "InsertEntry s y tw = Inr tw0" "release y es tw0 = Inr (e1, tw1)"
    "destroy es tw1 = Inr (e2, tw')" "evs = e1 @ e2"
    by (auto simp: andthen_Inr bindR_eq_Inr_iff)
  with 3 release_quiet [of y es tw0 e1 tw1 x] have "quiet x tw0 (evs, tw')" by (auto intro: quiet_trans)
  moreover have "loc x tw0 = loc x tw" using InsertEntry_other(2) [OF t(1)] 3(3) by simp
  ultimately show ?case by (simp add: quiet_def)
qed (simp add: quiet_def)

text \<open>Objects that fire once: all but periodic callbacks.\<close>

definition single :: "timer_obj \<Rightarrow> bool" where
  "single x \<longleftrightarrow> (case x of Every _ _ \<Rightarrow> False | _ \<Rightarrow> True)"

lemma fire_single: "single x \<Longrightarrow> fire x tw = Inr ([Fired x], tw)"
  by (cases x) (simp_all add: single_def fire_def)

text \<open>Dropping direct references: the last one fires the object, unless a wheel still holds it.\<close>

lemma destroy_direct:
  assumes "destroy es tw = Inr (evs, tw')" "single x" "\<forall>e\<in>set es. obj_of e = x \<longrightarrow> e = Direct x"
  shows "loc x tw' = loc x tw \<and>
     count_list evs (Fired x) = (if \<not> referenced x tw \<and> (\<exists>e\<in>set es. obj_of e = x) then 1 else 0)"
  using assms
proof (induction es tw arbitrary: evs rule: destroy.induct)
  case (2 y es tw)
  then obtain e1 tw1 e2 where t: "release y es tw = Inr (e1, tw1)" "destroy es tw1 = Inr (e2, tw')" "evs = e1 @ e2"
    by (auto simp: andthen_Inr)
  show ?case
  proof (cases "y = x")
    case False
    with release_quiet [OF t(1)] have q: "quiet x tw (e1, tw1)" by simp
    then have "referenced x tw1 = referenced x tw" by (intro referenced_loc) (simp add: quiet_def)
    with 2 t q False show ?thesis by (auto simp: quiet_def)
  next
    case True
    show ?thesis
    proof (cases "referenced x tw \<or> list_ex (\<lambda>e. obj_of e = x) es")
      case True
      with t(1) \<open>y = x\<close> have "e1 = []" "tw1 = tw" by (auto simp: release_def)
      with 2 t True show ?thesis by (auto simp: list_ex_iff)
    next
      case False
      with t(1) \<open>y = x\<close> 2(3) have "e1 = [Fired x]" "tw1 = tw" by (auto simp: release_def fire_single)
      moreover have "quiet x tw1 (e2, tw')" using destroy_quiet [OF t(2)] False by (auto simp: list_ex_iff)
      ultimately show ?thesis using t(3) False \<open>y = x\<close> by (auto simp: quiet_def)
    qed
  qed
next
  case (3 s y es tw)
  then obtain tw0 e1 tw1 e2 where t: "InsertEntry s y tw = Inr tw0" "release y es tw0 = Inr (e1, tw1)"
    "destroy es tw1 = Inr (e2, tw')" "evs = e1 @ e2" and y: "y \<noteq> x"
    by (auto simp: andthen_Inr bindR_eq_Inr_iff)
  have l: "loc x tw0 = loc x tw" using InsertEntry_other(2) [OF t(1) y] .
  have q: "quiet x tw0 (e1, tw1)" using release_quiet [OF t(2) y] .
  with l have "referenced x tw1 = referenced x tw" by (intro referenced_loc) (simp add: quiet_def)
  with 3 t q l y show ?case by (auto simp: quiet_def)
qed simp

text \<open>A cascade moves its object to the second wheel.\<close>

lemma InsertEntry_second:
  assumes "InsertEntry s x tw = Inr tw1" "s < 60" "length (tw_second tw) = 60"
  shows "0 < s"
    "loc x tw1 = ((occ x (tw_second tw))[s - 1 := filter (\<lambda>e. obj_of e = x) (slot_add (Direct x) (tw_second tw ! (s - 1)))],
       occ x (tw_minute tw), occ x (tw_hour tw), occ x (tw_day tw))"
  using assms
  by (auto simp: InsertEntry_def InsertSecondEntry_def kTimingMinute_def bindR_eq_Inr_iff emplace_def index32_def
      loc_def occ_update split: if_splits)

lemma slot_add_only:
  "filter (\<lambda>e. obj_of e = x) slot = [] \<Longrightarrow> filter (\<lambda>e. obj_of e = x) (slot_add (Direct x) slot) = [Direct x]"
  by (auto simp: slot_add_def filter_empty_conv)

section \<open>One tick\<close>

lemma occ_rotate: "w \<noteq> [] \<Longrightarrow> occ x (rotate_wheel w) = tl (occ x w) @ [[]]"
  by (cases w) (simp_all add: occ_def rotate_wheel_def)

lemma length_rotate: "w \<noteq> [] \<Longrightarrow> length (rotate_wheel w) = length w"
  by (cases w) (simp_all add: rotate_wheel_def)

lemma second_direct_rotate: "second_direct tw \<Longrightarrow> tw_second tw \<noteq> [] \<Longrightarrow>
    second_direct (tw\<lparr>tw_second := rotate_wheel (tw_second tw)\<rparr>)"
  by (cases "tw_second tw") (auto simp: second_direct_def rotate_wheel_def)

lemma keeps_inv: "keeps tw tw' \<Longrightarrow> tw_inv tw \<Longrightarrow> tw_inv tw' \<and> tw_tick tw' = tw_tick tw \<and> tw_lastTs tw' = tw_lastTs tw"
  by (auto simp: keeps_def tw_inv_def frame_def)

text \<open>The hour and day wheels are never popped: a multiple of an hour is a multiple of a minute.\<close>

lemma pop_coarse_eq: "pop_coarse tw = (if tw_tick tw mod 60 = 0 then pop_minute tw else Inr ([], tw))"
proof -
  have "n mod 60 = 0" if "n mod 3600 = 0 \<or> n mod 86400 = 0" for n :: nat
    using that mod_mod_cancel [of 60 3600 n] mod_mod_cancel [of 60 86400 n] by auto
  then show ?thesis by (auto simp: pop_coarse_def kTimingMinute_def kTimingHour_def kTimingDay_def)
qed

text \<open>A call of \<open>OnTimer\<close> a second or more after the one before, in its three stages.\<close>

lemma OnTimer_tick:
  assumes run: "OnTimer t tw = Inr (evs, tw')" and t: "1000 \<le> t - tw_lastTs tw" "tw_lastTs tw \<noteq> 0" and inv: "tw_inv tw"
  obtains tw0 e1 tw1 e2 tw2 where
    "tw0 = tw\<lparr>tw_lastTs := t, tw_tick := tw_tick tw + 1, tw_second := rotate_wheel (tw_second tw)\<rparr>"
    "destroy (hd (tw_second tw)) tw0 = Inr (e1, tw1)" "tw_inv tw0" "tw_inv tw1"
    "tw_tick tw1 = tw_tick tw + 1" "tw_lastTs tw1 = t"
    "if (tw_tick tw + 1) mod 60 = 0
     then tw2 = tw1\<lparr>tw_minute := rotate_wheel (tw_minute tw1)\<rparr> \<and> destroy (hd (tw_minute tw1)) tw2 = Inr (e2, tw')
     else tw' = tw1 \<and> e2 = []"
    "evs = e1 @ e2" "tw_inv tw'" "tw_tick tw' = tw_tick tw + 1" "tw_lastTs tw' = t"
proof -
  define tw0 where "tw0 = tw\<lparr>tw_lastTs := t, tw_tick := tw_tick tw + 1, tw_second := rotate_wheel (tw_second tw)\<rparr>"
  from run t obtain e1 tw1 e2 where d: "destroy (hd (tw_second tw)) tw0 = Inr (e1, tw1)"
    "pop_coarse tw1 = Inr (e2, tw')" "evs = e1 @ e2"
    by (auto simp: OnTimer_def Let_def andthen_Inr pop_second_def tw0_def)
  have ne: "tw_second tw \<noteq> []" using inv by (auto simp: tw_inv_def)
  then have inv0: "tw_inv tw0"
    using inv second_direct_rotate [of "tw\<lparr>tw_lastTs := t, tw_tick := tw_tick tw + 1\<rparr>"]
    by (simp add: tw_inv_def tw0_def length_rotate second_direct_def)
  from keeps_inv [OF destroy_keeps [OF d(1)] inv0]
  have tw1: "tw_inv tw1" "tw_tick tw1 = tw_tick tw + 1" "tw_lastTs tw1 = t" by (simp_all add: tw0_def)
  define tw2 where "tw2 = tw1\<lparr>tw_minute := rotate_wheel (tw_minute tw1)\<rparr>"
  have ne2: "tw_minute tw1 \<noteq> []" using tw1(1) by (auto simp: tw_inv_def)
  then have "tw_inv tw2" using tw1(1) by (simp add: tw_inv_def tw2_def length_rotate second_direct_def)
  have coarse: "if (tw_tick tw + 1) mod 60 = 0 then destroy (hd (tw_minute tw1)) tw2 = Inr (e2, tw')
      else tw' = tw1 \<and> e2 = []"
    using d(2) tw1(2) by (auto simp: pop_coarse_eq pop_minute_def tw2_def split: if_splits)
  have "tw_inv tw' \<and> tw_tick tw' = tw_tick tw + 1 \<and> tw_lastTs tw' = t"
  proof (cases "(tw_tick tw + 1) mod 60 = 0")
    case True
    with coarse have "keeps tw2 tw'" using destroy_keeps by simp
    from keeps_inv [OF this \<open>tw_inv tw2\<close>] tw1 show ?thesis by (simp add: tw2_def)
  qed (use coarse tw1 in simp)
  with that [OF tw0_def d(1) inv0 tw1 _ d(3), of tw2] coarse tw2_def show thesis by auto
qed

text \<open>Where a single object can be: nowhere, in the second wheel only, or in one minute slot.\<close>

definition nowhere :: "timer_obj \<Rightarrow> timing_wheel \<Rightarrow> bool" where
  "nowhere x tw \<longleftrightarrow> \<not> referenced x tw"

definition in_seconds :: "timer_obj \<Rightarrow> nat \<Rightarrow> timing_wheel \<Rightarrow> bool" where
  \<comment> \<open>\<open>k\<close> is the last slot of the second wheel that holds it\<close>
  "in_seconds x k tw \<longleftrightarrow> k < 60 \<and> occ x (tw_second tw) ! k \<noteq> [] \<and>
     (\<forall>j. k < j \<and> j < 60 \<longrightarrow> occ x (tw_second tw) ! j = []) \<and>
     \<not> wheel_has x (tw_minute tw) \<and> \<not> wheel_has x (tw_hour tw) \<and> \<not> wheel_has x (tw_day tw)"

definition in_minutes :: "timer_obj \<Rightarrow> nat \<Rightarrow> nat \<Rightarrow> timing_wheel \<Rightarrow> bool" where
  "in_minutes x k s tw \<longleftrightarrow> k < 60 \<and> s < 60 \<and> occ x (tw_minute tw) ! k = [Cascade s x] \<and>
     (\<forall>j. j \<noteq> k \<and> j < 60 \<longrightarrow> occ x (tw_minute tw) ! j = []) \<and>
     \<not> wheel_has x (tw_second tw) \<and> \<not> wheel_has x (tw_hour tw) \<and> \<not> wheel_has x (tw_day tw)"

lemma wheel_has_nth: "wheel_has x w \<longleftrightarrow> (\<exists>i<length w. occ x w ! i \<noteq> [])"
proof
  assume "wheel_has x w"
  then obtain s where "s \<in> set (occ x w)" "s \<noteq> []" unfolding wheel_has_occ by blast
  then show "\<exists>i<length w. occ x w ! i \<noteq> []" by (metis in_set_conv_nth length_occ)
next
  assume "\<exists>i<length w. occ x w ! i \<noteq> []"
  then show "wheel_has x w" unfolding wheel_has_occ by (metis length_occ nth_mem)
qed

lemma loc_parts:
  assumes "loc x tw = loc x tw'"
  shows "occ x (tw_second tw) = occ x (tw_second tw')" "occ x (tw_minute tw) = occ x (tw_minute tw')"
    "occ x (tw_hour tw) = occ x (tw_hour tw')" "occ x (tw_day tw) = occ x (tw_day tw')"
  using assms by (simp_all add: loc_def)

lemma in_seconds_loc: "loc x tw = loc x tw' \<Longrightarrow> in_seconds x k tw = in_seconds x k tw'"
  unfolding in_seconds_def wheel_has_occ by (simp only: loc_parts [of x tw tw'])

lemma in_minutes_loc: "loc x tw = loc x tw' \<Longrightarrow> in_minutes x k s tw = in_minutes x k s tw'"
  unfolding in_minutes_def wheel_has_occ by (simp only: loc_parts [of x tw tw'])

lemma nowhere_loc: "loc x tw = loc x tw' \<Longrightarrow> nowhere x tw = nowhere x tw'"
  unfolding nowhere_def by (drule referenced_loc) simp

lemma nth_occ_rotate:
  "j < length w \<Longrightarrow> occ x (rotate_wheel w) ! j = (if Suc j < length w then occ x w ! Suc j else [])"
proof -
  assume j: "j < length w"
  then have "w \<noteq> []" by auto
  with j show ?thesis by (auto simp: occ_rotate nth_append nth_tl)
qed

lemma occ_hd: "w \<noteq> [] \<Longrightarrow> filter (\<lambda>e. obj_of e = x) (hd w) = occ x w ! 0"
  by (cases w) (simp_all add: occ_def)

lemma hd_without: "w \<noteq> [] \<Longrightarrow> occ x w ! 0 = [] \<Longrightarrow> \<forall>e\<in>set (hd w). obj_of e \<noteq> x"
  using occ_hd [of w x] by (simp add: filter_empty_conv)

lemma wheel_has_rotate: "\<not> wheel_has x w \<Longrightarrow> \<not> wheel_has x (rotate_wheel w)"
  by (cases w) (auto simp: wheel_has_def rotate_wheel_def)

lemma in_seconds_referenced: "in_seconds x k tw \<Longrightarrow> length (tw_second tw) = 60 \<Longrightarrow> referenced x tw"
  by (auto simp: in_seconds_def referenced_def wheel_has_nth)

lemma destroy_cascade:
  assumes "destroy (pre @ Cascade s x # post) tw = Inr (evs, tw')" "\<forall>e\<in>set (pre @ post). obj_of e \<noteq> x"
    and "nowhere x tw" "s < 60" "length (tw_second tw) = 60"
  shows "0 < s \<and> in_seconds x (s - 1) tw' \<and> count_list evs (Fired x) = 0"
  using assms
proof (induction pre arbitrary: tw evs)
  case Nil
  then obtain tw0 e1 tw1 e2 where t: "InsertEntry s x tw = Inr tw0" "release x post tw0 = Inr (e1, tw1)"
    "destroy post tw1 = Inr (e2, tw')" "evs = e1 @ e2"
    by (auto simp: andthen_Inr bindR_eq_Inr_iff)
  note ins = InsertEntry_second [OF t(1) Nil(4,5)]
  have no: "\<not> wheel_has x (tw_second tw)" "\<not> wheel_has x (tw_minute tw)" "\<not> wheel_has x (tw_hour tw)"
    "\<not> wheel_has x (tw_day tw)" using Nil(3) by (auto simp: nowhere_def referenced_def)
  have slot: "occ x (tw_second tw) ! j = []" if "j < 60" for j
    using no(1) that Nil(5) by (auto simp: wheel_has_nth)
  have s1: "s - 1 < 60" using Nil(4) by simp
  have "filter (\<lambda>e. obj_of e = x) (tw_second tw ! (s - 1)) = []"
    using slot [OF s1] nth_occ [of "s - 1" "tw_second tw" x] s1 Nil(5) by simp
  with ins(2) have l: "loc x tw0 = ((occ x (tw_second tw))[s - 1 := [Direct x]], occ x (tw_minute tw),
      occ x (tw_hour tw), occ x (tw_day tw))" by (simp add: slot_add_only)
  have "in_seconds x (s - 1) tw0"
    using l no(2-4) slot s1 Nil(5) by (auto simp: in_seconds_def loc_def wheel_has_occ nth_list_update)
  moreover have "length (tw_second tw0) = 60"
    using InsertEntry_other(1) [OF t(1)] Nil(5) by (simp add: frame_def)
  ultimately have "e1 = [] \<and> tw1 = tw0" using t(2) in_seconds_referenced by (auto simp: release_def)
  moreover have "quiet x tw1 (e2, tw')" using destroy_quiet [OF t(3)] Nil(2) by simp
  ultimately show ?case
    using t(4) ins(1) \<open>in_seconds x (s - 1) tw0\<close> in_seconds_loc [of x tw' tw0] by (simp add: quiet_def)
next
  case (Cons e pre)
  have ex: "obj_of e \<noteq> x" using Cons.prems(2) by simp
  obtain tw0 e1 tw1 e2 where t: "loc x tw0 = loc x tw" "frame tw0 = frame tw"
    "release (obj_of e) (pre @ Cascade s x # post) tw0 = Inr (e1, tw1)"
    "destroy (pre @ Cascade s x # post) tw1 = Inr (e2, tw')" "evs = e1 @ e2"
  proof (cases e)
    case (Direct y)
    with Cons.prems(1) that show ?thesis by (auto simp: andthen_Inr)
  next
    case (Cascade k y)
    with Cons.prems(1) obtain tw0 e1 tw1 e2 where "InsertEntry k y tw = Inr tw0"
      "release y (pre @ Cascade s x # post) tw0 = Inr (e1, tw1)"
      "destroy (pre @ Cascade s x # post) tw1 = Inr (e2, tw')" "evs = e1 @ e2"
      by (auto simp: andthen_Inr bindR_eq_Inr_iff)
    then show ?thesis
      using Cascade ex InsertEntry_other(1,2) [of k y tw tw0] by (intro that [of tw0 e1 tw1 e2]) auto
  qed
  have q: "quiet x tw0 (e1, tw1)" using release_quiet [OF t(3) ex] .
  then have "nowhere x tw1" using Cons.prems(3) t(1) nowhere_loc by (metis quiet_def snd_conv)
  moreover have "length (tw_second tw1) = 60"
    using release_keeps [OF t(3)] t(2) Cons.prems(5) by (simp add: keeps_def frame_def)
  moreover have "\<forall>e\<in>set (pre @ post). obj_of e \<noteq> x" using Cons.prems(2) by simp
  ultimately have "0 < s \<and> in_seconds x (s - 1) tw' \<and> count_list e2 (Fired x) = 0"
    using Cons.IH [OF t(4)] Cons.prems(4) by blast
  with t(5) q show ?case by (simp add: quiet_def)
qed

text \<open>What one tick does to a single object.\<close>

definition tick_of :: "int \<Rightarrow> timing_wheel \<Rightarrow> timer_event list \<Rightarrow> timing_wheel \<Rightarrow> bool" where
  "tick_of t tw evs tw' \<longleftrightarrow> OnTimer t tw = Inr (evs, tw') \<and> 1000 \<le> t - tw_lastTs tw \<and> tw_lastTs tw \<noteq> 0 \<and> tw_inv tw"

lemma minute_stage_quiet:
  assumes "if c then tw2 = tw1\<lparr>tw_minute := rotate_wheel (tw_minute tw1)\<rparr> \<and> destroy (hd (tw_minute tw1)) tw2 = Inr (e2, tw')
     else tw' = tw1 \<and> e2 = []"
    and "\<not> wheel_has x (tw_minute tw1)" "tw_inv tw1"
  shows "count_list e2 (Fired x) = 0 \<and> occ x (tw_second tw') = occ x (tw_second tw1) \<and> \<not> wheel_has x (tw_minute tw')
     \<and> occ x (tw_hour tw') = occ x (tw_hour tw1) \<and> occ x (tw_day tw') = occ x (tw_day tw1)"
proof (cases c)
  case True
  have h: "\<forall>e\<in>set (hd (tw_minute tw1)). obj_of e \<noteq> x"
    using assms(2,3) by (cases "tw_minute tw1") (auto simp: wheel_has_def tw_inv_def list_ex_iff)
  have d: "destroy (hd (tw_minute tw1)) tw2 = Inr (e2, tw')" using assms(1) unfolding if_P [OF True] by blast
  have "quiet x tw2 (e2, tw')" by (rule destroy_quiet [OF d h])
  then have l: "loc x tw' = loc x tw2" "count_list e2 (Fired x) = 0" by (simp_all add: quiet_def)
  have "\<not> wheel_has x (tw_minute tw2)" using True assms(1) wheel_has_rotate [OF assms(2)] by simp
  then have "\<not> wheel_has x (tw_minute tw')" by (simp add: wheel_has_occ loc_parts(2) [OF l(1)])
  with l True assms(1) loc_parts [OF l(1)] show ?thesis by simp
qed (use assms in simp)

lemma tick_coarse:
  assumes tick: "tick_of t tw evs tw'" and no: "\<not> wheel_has x (tw_second tw)" "\<not> wheel_has x (tw_minute tw)"
  shows "count_list evs (Fired x) = 0 \<and> \<not> wheel_has x (tw_second tw') \<and> \<not> wheel_has x (tw_minute tw')
    \<and> occ x (tw_hour tw') = occ x (tw_hour tw) \<and> occ x (tw_day tw') = occ x (tw_day tw)"
proof -
  obtain tw0 e1 tw1 e2 tw2 where s: "tw0 = tw\<lparr>tw_lastTs := t, tw_tick := tw_tick tw + 1, tw_second := rotate_wheel (tw_second tw)\<rparr>"
    "destroy (hd (tw_second tw)) tw0 = Inr (e1, tw1)" "tw_inv tw1" "evs = e1 @ e2"
    "if (tw_tick tw + 1) mod 60 = 0
     then tw2 = tw1\<lparr>tw_minute := rotate_wheel (tw_minute tw1)\<rparr> \<and> destroy (hd (tw_minute tw1)) tw2 = Inr (e2, tw')
     else tw' = tw1 \<and> e2 = []"
    using tick by (auto simp: tick_of_def elim!: OnTimer_tick)
  have "\<forall>e\<in>set (hd (tw_second tw)). obj_of e \<noteq> x"
    using no(1) tick by (cases "tw_second tw") (auto simp: wheel_has_def tick_of_def tw_inv_def list_ex_iff)
  then have q: "loc x tw1 = loc x tw0" "count_list e1 (Fired x) = 0"
    using destroy_quiet [OF s(2)] by (simp_all add: quiet_def)
  have n1: "\<not> wheel_has x (tw_second tw1)" "\<not> wheel_has x (tw_minute tw1)"
    using no(2) wheel_has_rotate [OF no(1)] by (simp_all add: wheel_has_occ loc_parts [OF q(1)] s(1))
  have far: "occ x (tw_hour tw1) = occ x (tw_hour tw)" "occ x (tw_day tw1) = occ x (tw_day tw)"
    by (simp_all add: loc_parts [OF q(1)] s(1))
  from minute_stage_quiet [OF s(5) n1(2) s(3)] n1 q(2) s(4) far show ?thesis
    by (simp add: wheel_has_occ)
qed

lemma tick_nowhere:
  assumes "tick_of t tw evs tw'" "nowhere x tw"
  shows "nowhere x tw' \<and> count_list evs (Fired x) = 0"
proof -
  have no: "\<not> wheel_has x (tw_second tw)" "\<not> wheel_has x (tw_minute tw)" "\<not> wheel_has x (tw_hour tw)"
    "\<not> wheel_has x (tw_day tw)" using assms(2) by (auto simp: nowhere_def referenced_def)
  note c = tick_coarse [OF assms(1) no(1,2)]
  then have far: "occ x (tw_hour tw') = occ x (tw_hour tw)" "occ x (tw_day tw') = occ x (tw_day tw)" by auto
  have "\<not> wheel_has x (tw_hour tw')" "\<not> wheel_has x (tw_day tw')"
    using no(3,4) unfolding wheel_has_occ far .
  with c show ?thesis by (simp add: nowhere_def referenced_def)
qed

lemma tick_seconds:
  assumes tick: "tick_of t tw evs tw'" and x: "in_seconds x k tw" "single x"
  shows "if k = 0 then nowhere x tw' \<and> count_list evs (Fired x) = 1
    else in_seconds x (k - 1) tw' \<and> count_list evs (Fired x) = 0"
proof -
  have inv: "tw_inv tw" using tick by (simp add: tick_of_def)
  then have len: "length (tw_second tw) = 60" "tw_second tw \<noteq> []" by (auto simp: tw_inv_def)
  obtain tw0 e1 tw1 e2 tw2 where s: "tw0 = tw\<lparr>tw_lastTs := t, tw_tick := tw_tick tw + 1, tw_second := rotate_wheel (tw_second tw)\<rparr>"
    "destroy (hd (tw_second tw)) tw0 = Inr (e1, tw1)" "tw_inv tw0" "tw_inv tw1" "evs = e1 @ e2"
    "if (tw_tick tw + 1) mod 60 = 0
     then tw2 = tw1\<lparr>tw_minute := rotate_wheel (tw_minute tw1)\<rparr> \<and> destroy (hd (tw_minute tw1)) tw2 = Inr (e2, tw')
     else tw' = tw1 \<and> e2 = []"
    using tick by (auto simp: tick_of_def elim!: OnTimer_tick)
  have others: "\<not> wheel_has x (tw_minute tw0)" "\<not> wheel_has x (tw_hour tw0)" "\<not> wheel_has x (tw_day tw0)"
    using x(1) s(1) by (simp_all add: in_seconds_def)
  have occ0: "occ x (tw_second tw0) ! j = (if Suc j < 60 then occ x (tw_second tw) ! Suc j else [])" if "j < 60" for j
    using that len by (simp add: s(1) nth_occ_rotate)
  have "\<forall>e\<in>set (hd (tw_second tw)). obj_of e = x \<longrightarrow> e = Direct x"
    using inv len(2) hd_in_set [of "tw_second tw"] by (metis tw_inv_def second_direct_def)
  note d = destroy_direct [OF s(2) x(2) this]
  then have l1: "loc x tw1 = loc x tw0" by simp
  have n1: "\<not> wheel_has x (tw_minute tw1)" using others(1) by (simp add: wheel_has_occ loc_parts [OF l1])
  note st = minute_stage_quiet [OF s(6) n1 s(4)]
  show ?thesis
  proof (cases "k = 0")
    case True
    have "occ x (tw_second tw0) ! j = []" if "j < 60" for j
      using occ0 [OF that] x(1) True by (simp add: in_seconds_def)
    moreover have "length (tw_second tw0) = 60" using s(3) by (simp add: tw_inv_def)
    ultimately have no: "\<not> wheel_has x (tw_second tw0)" by (simp add: wheel_has_nth)
    have "filter (\<lambda>e. obj_of e = x) (hd (tw_second tw)) \<noteq> []"
      using x(1) True occ_hd [OF len(2)] by (simp add: in_seconds_def)
    then have "\<exists>e\<in>set (hd (tw_second tw)). obj_of e = x" by (simp add: filter_empty_conv)
    with d no others have "count_list e1 (Fired x) = 1" by (simp add: referenced_def)
    moreover have "nowhere x tw'"
      using st no others by (simp add: nowhere_def referenced_def wheel_has_occ loc_parts [OF l1])
    ultimately show ?thesis using True st s(5) by simp
  next
    case False
    then have k: "k - 1 < 60" "Suc (k - 1) = k" "k < 60" using x(1) by (auto simp: in_seconds_def)
    have "in_seconds x (k - 1) tw0"
      using x(1) k others occ0 by (auto simp: in_seconds_def)
    moreover have "length (tw_second tw0) = 60" using s(3) by (simp add: tw_inv_def)
    ultimately have "referenced x tw0" "in_seconds x (k - 1) tw1"
      using in_seconds_referenced in_seconds_loc [OF l1] by auto
    moreover from this st have "in_seconds x (k - 1) tw'"
      by (simp add: in_seconds_def wheel_has_occ)
    ultimately show ?thesis using False d st s(5) by simp
  qed
qed

lemma filter_one: "filter P xs = [y] \<Longrightarrow> \<exists>pre post. xs = pre @ y # post \<and> (\<forall>e\<in>set (pre @ post). \<not> P e)"
proof -
  assume "filter P xs = [y]"
  from filter_eq_ConsD [OF this] obtain us vs where
    u: "xs = us @ y # vs \<and> (\<forall>u\<in>set us. \<not> P u) \<and> P y \<and> [] = filter P vs"
    by (elim exE)
  then have "filter P vs = []" by simp
  then have "\<forall>e\<in>set vs. \<not> P e" unfolding filter_empty_conv .
  then have "\<forall>e\<in>set (us @ vs). \<not> P e" using u by (metis Un_iff set_append)
  then show ?thesis using u by blast
qed

lemma tick_minutes:
  assumes tick: "tick_of t tw evs tw'" and x: "in_minutes x k s tw"
  shows "count_list evs (Fired x) = 0 \<and>
    (if (tw_tick tw + 1) mod 60 \<noteq> 0 then in_minutes x k s tw'
     else if k = 0 then 0 < s \<and> in_seconds x (s - 1) tw' else in_minutes x (k - 1) s tw')"
proof -
  have inv: "tw_inv tw" using tick by (simp add: tick_of_def)
  obtain tw0 e1 tw1 e2 tw2 where st: "tw0 = tw\<lparr>tw_lastTs := t, tw_tick := tw_tick tw + 1, tw_second := rotate_wheel (tw_second tw)\<rparr>"
    "destroy (hd (tw_second tw)) tw0 = Inr (e1, tw1)" "tw_inv tw1" "evs = e1 @ e2"
    "if (tw_tick tw + 1) mod 60 = 0
     then tw2 = tw1\<lparr>tw_minute := rotate_wheel (tw_minute tw1)\<rparr> \<and> destroy (hd (tw_minute tw1)) tw2 = Inr (e2, tw')
     else tw' = tw1 \<and> e2 = []"
    using tick by (auto simp: tick_of_def elim!: OnTimer_tick)
  have no: "\<not> wheel_has x (tw_second tw)" using x by (simp add: in_minutes_def)
  have "\<forall>e\<in>set (hd (tw_second tw)). obj_of e \<noteq> x"
    using no inv by (cases "tw_second tw") (auto simp: wheel_has_def tw_inv_def list_ex_iff)
  then have q: "loc x tw1 = loc x tw0" "count_list e1 (Fired x) = 0"
    using destroy_quiet [OF st(2)] by (simp_all add: quiet_def)
  have "in_minutes x k s tw0" using x wheel_has_rotate [OF no] by (simp add: in_minutes_def st(1))
  then have m1: "in_minutes x k s tw1" using in_minutes_loc [OF q(1)] by simp
  have len: "length (tw_minute tw1) = 60" "tw_minute tw1 \<noteq> []" "length (tw_second tw1) = 60"
    using st(3) by (auto simp: tw_inv_def)
  show ?thesis
  proof (cases "(tw_tick tw + 1) mod 60 = 0")
    case False
    with st(4,5) m1 q(2) show ?thesis by (simp only: if_False) simp
  next
    case True
    have tw2: "tw2 = tw1\<lparr>tw_minute := rotate_wheel (tw_minute tw1)\<rparr>"
      and d: "destroy (hd (tw_minute tw1)) tw2 = Inr (e2, tw')"
      using st(5) unfolding if_P [OF True] by blast+
    have occ2: "occ x (tw_minute tw2) ! j = (if Suc j < 60 then occ x (tw_minute tw1) ! Suc j else [])" if "j < 60" for j
      using that len by (simp add: tw2 nth_occ_rotate)
    show ?thesis
    proof (cases "k = 0")
      case False
      then have k: "k - 1 < 60" "Suc (k - 1) = k" "k < 60" using m1 by (auto simp: in_minutes_def)
      have "Suc j \<noteq> k" if "j \<noteq> k - 1" for j using that k(2) by auto
      then have "occ x (tw_minute tw2) ! j = []" if "j \<noteq> k - 1" "j < 60" for j
        using occ2 [OF that(2)] m1 that by (simp add: in_minutes_def)
      moreover have "occ x (tw_minute tw2) ! (k - 1) = [Cascade s x]"
        using occ2 [OF k(1)] m1 k(2,3) by (simp add: in_minutes_def)
      ultimately have m2: "in_minutes x (k - 1) s tw2"
        using m1 k(1) unfolding in_minutes_def by (simp add: tw2)
      have "\<forall>e\<in>set (hd (tw_minute tw1)). obj_of e \<noteq> x"
        using m1 False by (intro hd_without [OF len(2)]) (simp add: in_minutes_def)
      from destroy_quiet [OF d this] have l: "loc x tw' = loc x tw2" "count_list e2 (Fired x) = 0"
        by (simp_all add: quiet_def)
      have "in_minutes x (k - 1) s tw'" using in_minutes_loc [OF l(1)] m2 by simp
      then show ?thesis using True False q(2) l(2) st(4) by simp
    next
      case zero: True
      have "filter (\<lambda>e. obj_of e = x) (hd (tw_minute tw1)) = [Cascade s x]"
        using m1 zero occ_hd [OF len(2)] by (simp add: in_minutes_def)
      from filter_one [OF this] obtain pre post where hd: "hd (tw_minute tw1) = pre @ Cascade s x # post"
        "\<forall>e\<in>set (pre @ post). obj_of e \<noteq> x"
        by blast
      have "occ x (tw_minute tw2) ! j = []" if "j < 60" for j
        using occ2 [OF that] m1 zero by (auto simp: in_minutes_def)
      moreover have "length (tw_minute tw2) = 60" using len by (simp add: tw2 length_rotate)
      ultimately have "\<not> wheel_has x (tw_minute tw2)" by (simp add: wheel_has_nth)
      then have no2: "nowhere x tw2" using m1 by (simp add: nowhere_def referenced_def in_minutes_def tw2)
      have "s < 60" "length (tw_second tw2) = 60" using m1 len(3) by (simp_all add: in_minutes_def tw2)
      from destroy_cascade [OF d [unfolded hd(1)] hd(2) no2 this] q(2) st(4) True zero show ?thesis by auto
    qed
  qed
qed

section \<open>When a timer fires\<close>

text \<open>The tick at which an object will fire, read off its place in the wheels.\<close>

definition due :: "timer_obj \<Rightarrow> timing_wheel \<Rightarrow> nat \<Rightarrow> bool" where
  "due x tw d \<longleftrightarrow> (\<exists>k. in_seconds x k tw \<and> d = tw_tick tw + k + 1) \<or>
     (\<exists>k s. 0 < s \<and> in_minutes x k s tw \<and> d = 60 * (tw_tick tw div 60 + k + 1) + s)"

lemma tick_of_after: "tick_of t tw evs tw' \<Longrightarrow> tw_inv tw' \<and> tw_tick tw' = tw_tick tw + 1 \<and> tw_lastTs tw' = t"
  by (auto simp: tick_of_def elim!: OnTimer_tick)

lemma due_step:
  assumes tick: "tick_of t tw evs tw'" and x: "single x" "due x tw d"
  shows "if d = tw_tick tw + 1 then nowhere x tw' \<and> count_list evs (Fired x) = 1
    else tw_tick tw + 1 < d \<and> due x tw' d \<and> count_list evs (Fired x) = 0"
proof -
  have n: "tw_tick tw' = tw_tick tw + 1" using tick_of_after [OF tick] by simp
  from x(2) consider (sec) k where "in_seconds x k tw" "d = tw_tick tw + k + 1"
    | (minu) k s where "0 < s" "in_minutes x k s tw" "d = 60 * (tw_tick tw div 60 + k + 1) + s"
    by (auto simp: due_def)
  then show ?thesis
  proof cases
    case sec
    note st = tick_seconds [OF tick sec(1) x(1)]
    show ?thesis
    proof (cases "k = 0")
      case False
      with st sec(2) n have "due x tw' d" unfolding due_def by (intro disjI1 exI [of _ "k - 1"]) simp
      with False st sec(2) show ?thesis by simp
    qed (use st sec(2) in simp)
  next
    case minu
    note st = tick_minutes [OF tick minu(2)]
    have div: "tw_tick tw < 60 * (tw_tick tw div 60 + 1)"
      by (simp add: dividend_less_times_div)
    with minu have late: "tw_tick tw + 1 < d" by simp
    have "due x tw' d"
    proof (cases "(tw_tick tw + 1) mod 60 = 0")
      case False
      then have "(tw_tick tw + 1) div 60 = tw_tick tw div 60" by (simp add: div_Suc)
      with False st minu(1,3) n show ?thesis unfolding due_def
        by (intro disjI2 exI [of _ k] exI [of _ s]) simp
    next
      case True
      then have q1: "(tw_tick tw + 1) div 60 = tw_tick tw div 60 + 1" by (simp add: div_Suc)
      have "60 * ((tw_tick tw + 1) div 60) = tw_tick tw + 1"
        using True mult_div_mod_eq [of 60 "tw_tick tw + 1"] by (simp only: add_0_right)
      then have q: "60 * (tw_tick tw div 60 + 1) = tw_tick tw + 1" by (simp only: q1)
      show ?thesis
      proof (cases "k = 0")
        case zero: True
        with True st minu(3) n q show ?thesis unfolding due_def
          by (intro disjI1 exI [of _ "s - 1"]) simp
      next
        case False
        have "tw_tick tw' div 60 = tw_tick tw div 60 + 1" using q1 n by simp
        with True False st minu(1,3) show ?thesis unfolding due_def
          by (intro disjI2 exI [of _ "k - 1"] exI [of _ s]) simp
      qed
    qed
    with late st show ?thesis by simp
  qed
qed

lemma run_nowhere:
  "run_timer ts tw = Inr (evs, tw') \<Longrightarrow> spaced (tw_lastTs tw) ts \<Longrightarrow> tw_lastTs tw \<noteq> 0 \<Longrightarrow> tw_inv tw \<Longrightarrow>
     nowhere x tw \<Longrightarrow> count_list evs (Fired x) = 0"
proof (induction ts arbitrary: tw evs)
  case (Cons t ts)
  then obtain e1 tw1 e2 where r: "OnTimer t tw = Inr (e1, tw1)" "run_timer ts tw1 = Inr (e2, tw')" "evs = e1 @ e2"
    by (auto simp: andthen_Inr)
  with Cons.prems have tick: "tick_of t tw e1 tw1" by (simp add: tick_of_def)
  have "spaced (tw_lastTs tw1) ts" "tw_lastTs tw1 \<noteq> 0" "tw_inv tw1"
    using tick_of_after [OF tick] Cons.prems(2) by auto
  with Cons.IH [OF r(2)] tick_nowhere [OF tick Cons.prems(5)] r(3) show ?case by simp
qed simp

lemma run_due:
  "run_timer ts tw = Inr (evs, tw') \<Longrightarrow> spaced (tw_lastTs tw) ts \<Longrightarrow> tw_lastTs tw \<noteq> 0 \<Longrightarrow> tw_inv tw \<Longrightarrow>
     single x \<Longrightarrow> due x tw d \<Longrightarrow> tw_tick tw < d \<Longrightarrow>
     count_list evs (Fired x) = (if d \<le> tw_tick tw + length ts then 1 else 0)"
proof (induction ts arbitrary: tw evs)
  case (Cons t ts)
  then obtain e1 tw1 e2 where r: "OnTimer t tw = Inr (e1, tw1)" "run_timer ts tw1 = Inr (e2, tw')" "evs = e1 @ e2"
    by (auto simp: andthen_Inr)
  with Cons.prems have tick: "tick_of t tw e1 tw1" by (simp add: tick_of_def)
  have n: "spaced (tw_lastTs tw1) ts" "tw_lastTs tw1 \<noteq> 0" "tw_inv tw1" "tw_tick tw1 = tw_tick tw + 1"
    using tick_of_after [OF tick] Cons.prems(2) by auto
  note st = due_step [OF tick Cons.prems(5,6)]
  show ?case
  proof (cases "d = tw_tick tw + 1")
    case True
    with st have "nowhere x tw1" "count_list e1 (Fired x) = 1" by auto
    with run_nowhere [OF r(2) n(1,2,3)] r(3) True show ?thesis by simp
  next
    case False
    with st have "due x tw1 d" "tw_tick tw1 < d" "count_list e1 (Fired x) = 0" using n(4) by auto
    with Cons.IH [OF r(2) n(1,2,3) Cons.prems(5)] r(3) n(4) show ?thesis by simp
  qed
qed simp

section \<open>Properties\<close>

lemma nowhere_occ:
  assumes "nowhere x tw" "tw_inv tw"
  shows "j < 60 \<Longrightarrow> occ x (tw_second tw) ! j = []" "j < 60 \<Longrightarrow> occ x (tw_minute tw) ! j = []"
    "\<not> wheel_has x (tw_second tw)" "\<not> wheel_has x (tw_minute tw)" "\<not> wheel_has x (tw_hour tw)" "\<not> wheel_has x (tw_day tw)"
  using assms by (auto simp: nowhere_def referenced_def wheel_has_nth tw_inv_def)

lemma InsertEntry_places:
  assumes "nowhere x tw" "tw_inv tw" "0 < delay" "delay < 3600"
  shows "\<exists>tw'. InsertEntry delay x tw = Inr tw' \<and> keeps tw tw' \<and>
    (if delay < 60 then in_seconds x (delay - 1) tw' else in_minutes x (delay div 60 - 1) (delay mod 60) tw')"
proof -
  note no = nowhere_occ [OF assms(1,2)]
  have len: "length (tw_second tw) = 60" "length (tw_minute tw) = 60" using assms(2) by (simp_all add: tw_inv_def)
  show ?thesis
  proof (cases "delay < 60")
    case True
    then have d: "delay - 1 < 60" by simp
    define tw' where "tw' = tw\<lparr>tw_second := (tw_second tw)[delay - 1 := slot_add (Direct x) (tw_second tw ! (delay - 1))]\<rparr>"
    have ins: "InsertEntry delay x tw = Inr tw'"
      using True assms(3) len d
      by (simp add: InsertEntry_def InsertSecondEntry_def kTimingMinute_def emplace_def index32_def tw'_def)
    have "filter (\<lambda>e. obj_of e = x) (tw_second tw ! (delay - 1)) = []"
      using no(1) [OF d] nth_occ [of "delay - 1" "tw_second tw" x] d len(1) by simp
    with InsertEntry_second(2) [OF ins True len(1)]
    have "loc x tw' = ((occ x (tw_second tw))[delay - 1 := [Direct x]], occ x (tw_minute tw), occ x (tw_hour tw), occ x (tw_day tw))"
      by (simp add: slot_add_only)
    then have "in_seconds x (delay - 1) tw'"
      using no d len by (auto simp: in_seconds_def loc_def wheel_has_occ nth_list_update)
    with ins True InsertEntry_keeps [OF ins] show ?thesis by simp
  next
    case False
    define m where "m = delay div 60 - 1"
    have m: "m < 60" "index32 (delay div 60) = m" using False assms(4) by (auto simp: index32_def m_def less_mult_imp_div_less)
    have f: "filter (\<lambda>e. obj_of e = x) (tw_minute tw ! m) = []"
      using no(2) [OF m(1)] nth_occ [of m "tw_minute tw" x] m(1) len(2) by simp
    define w where "w = (tw_minute tw)[m := tw_minute tw ! m @ [Cascade (delay mod 60) x]]"
    have ins: "InsertEntry delay x tw = Inr (tw\<lparr>tw_minute := w\<rparr>)"
      using False assms(4) m len
      by (simp add: InsertEntry_def InsertMinuteEntry_def kTimingMinute_def kTimingHour_def emplace_def slot_add_def w_def)
    have "occ x w = (occ x (tw_minute tw))[m := [Cascade (delay mod 60) x]]"
      using m(1) len(2) f by (simp add: w_def occ_update)
    then have "in_minutes x m (delay mod 60) (tw\<lparr>tw_minute := w\<rparr>)"
      using no m(1) len(2) by (simp add: in_minutes_def nth_list_update)
    with ins False InsertEntry_keeps [OF ins] show ?thesis by (simp add: m_def)
  qed
qed

lemma RunAfter_places:
  assumes "nowhere (Once cb) tw" "tw_inv tw" "0 < delay" "delay < 3600"
  shows "\<exists>tw'. RunAfter delay cb tw = Inr ([], tw') \<and> keeps tw tw' \<and>
    (if delay < 60 then in_seconds (Once cb) (delay - 1) tw'
     else in_minutes (Once cb) (delay div 60 - 1) (delay mod 60) tw')"
proof -
  obtain tw' where t: "InsertEntry delay (Once cb) tw = Inr tw'" "keeps tw tw'"
    "if delay < 60 then in_seconds (Once cb) (delay - 1) tw' else in_minutes (Once cb) (delay div 60 - 1) (delay mod 60) tw'"
    using InsertEntry_places [OF assms] by blast
  have "tw_inv tw'" using keeps_inv [OF t(2) assms(2)] by simp
  then have len: "length (tw_second tw') = 60" "length (tw_minute tw') = 60" by (simp_all add: tw_inv_def)
  have "referenced (Once cb) tw'"
  proof (cases "delay < 60")
    case True
    with t(3) len(1) in_seconds_referenced show ?thesis by simp
  next
    case False
    with t(3) have "in_minutes (Once cb) (delay div 60 - 1) (delay mod 60) tw'" by simp
    with len(2) have "wheel_has (Once cb) (tw_minute tw')" unfolding in_minutes_def wheel_has_nth
      by (intro exI [of _ "delay div 60 - 1"]) simp
    then show ?thesis by (simp add: referenced_def)
  qed
  with t show ?thesis by (simp add: RunAfter_def release_def)
qed

lemma once_when_due:
  assumes "tw_inv tw" "tw_lastTs tw \<noteq> 0" "nowhere (Once cb) tw" "delay mod 60 \<noteq> 0" "delay < 3600"
  shows "\<exists>tw1. RunAfter delay cb tw = Inr ([], tw1) \<and>
    (\<forall>ts evs tw2. spaced (tw_lastTs tw) ts \<and> run_timer ts tw1 = Inr (evs, tw2) \<longrightarrow>
       count_list evs (Fired (Once cb)) =
         (if delay \<le> length ts + (if delay < 60 then 0 else tw_tick tw mod 60) then 1 else 0))"
proof -
  have "0 < delay" using assms(4) by (cases delay) auto
  from RunAfter_places [OF assms(3,1) this assms(5)] obtain tw1 where t: "RunAfter delay cb tw = Inr ([], tw1)" "keeps tw tw1"
    "if delay < 60 then in_seconds (Once cb) (delay - 1) tw1 else in_minutes (Once cb) (delay div 60 - 1) (delay mod 60) tw1"
    by blast
  note inv = keeps_inv [OF t(2) assms(1)]
  have tick: "60 * (tw_tick tw div 60) = tw_tick tw - tw_tick tw mod 60" "tw_tick tw mod 60 \<le> tw_tick tw"
    by (simp_all add: minus_mod_eq_mult_div)
  define d where "d = tw_tick tw + delay - (if delay < 60 then 0 else tw_tick tw mod 60)"
  have d: "due (Once cb) tw1 d \<and> tw_tick tw < d"
  proof (cases "delay < 60")
    case True
    with t(3) inv \<open>0 < delay\<close> show ?thesis unfolding due_def d_def
      by (intro conjI disjI1 exI [of _ "delay - 1"]) auto
  next
    case False
    then obtain m where m: "delay div 60 = Suc m" by (metis div_greater_zero_iff gr0_implies_Suc not_less zero_less_numeral)
    define q r e where "q = tw_tick tw div 60" and "r = tw_tick tw mod 60" and "e = delay mod 60"
    have "delay = 60 * Suc m + e" unfolding e_def m [symmetric] by (simp only: mult_div_mod_eq)
    moreover have "tw_tick tw = 60 * q + r" unfolding q_def r_def by (simp only: mult_div_mod_eq)
    ultimately have "60 * (q + m + 1) + e + r = tw_tick tw + delay" by (simp add: algebra_simps)
    then have "60 * (q + m + 1) + e = tw_tick tw + delay - r" by linarith
    then have "60 * (tw_tick tw div 60 + (delay div 60 - 1) + 1) + delay mod 60 = d"
      using False unfolding d_def q_def r_def e_def m by simp
    then have "due (Once cb) tw1 d" using t(3) inv assms(4) False unfolding due_def
      by (intro disjI2 exI [of _ "delay div 60 - 1"] exI [of _ "delay mod 60"]) simp
    moreover have "tw_tick tw mod 60 < 60" by simp
    then have "tw_tick tw < d" using False tick(2) by (simp add: d_def)
    ultimately show ?thesis by simp
  qed
  have le: "d \<le> tw_tick tw + n \<longleftrightarrow> delay \<le> n + (if delay < 60 then 0 else tw_tick tw mod 60)" for n
    using tick(2) by (auto simp: d_def)
  have "single (Once cb)" by (simp add: single_def)
  have main: "count_list evs (Fired (Once cb)) = (if d \<le> tw_tick tw + length ts then 1 else 0)"
    if "spaced (tw_lastTs tw) ts" "run_timer ts tw1 = Inr (evs, tw2)" for ts evs tw2
    using run_due [OF that(2) _ _ _ \<open>single (Once cb)\<close> conjunct1 [OF d]] that(1) inv d assms(2) by simp
  show ?thesis
    using t(1) main unfolding le by blast
qed

text \<open>C11: \<open>RunAfter\<close> with a delay below an hour that is not a number of whole minutes: in any run of
  the wheel that does not fault the callback runs exactly once, at a tick that is fixed when it
  is inserted: after \<open>delay\<close> ticks when it is below a minute, and otherwise up to 59 ticks too
  early, by the position of the insertion in its minute.\<close>

theorem RunAfter_fires:
  assumes "tw_inv tw" "tw_lastTs tw \<noteq> 0" "nowhere (Once cb) tw" "delay mod 60 \<noteq> 0" "delay < 3600"
  shows "\<exists>tw1. RunAfter delay cb tw = Inr ([], tw1) \<and>
    (\<forall>ts evs tw2. spaced (tw_lastTs tw) ts \<and> run_timer ts tw1 = Inr (evs, tw2) \<longrightarrow>
       count_list evs (Fired (Once cb)) =
         (if delay \<le> length ts + (if delay < 60 then 0 else tw_tick tw mod 60) then 1 else 0))"
  using assms by (rule once_when_due)

definition started :: "timing_wheel" where
  "started = new_TimingWheel\<lparr>tw_lastTs := 5000, tw_tick := 30\<rparr>"

lemma started_ok: "tw_inv started" "tw_lastTs started = 5000" "tw_tick started = 30" "nowhere x started"
  using tw_inv_new
  by (simp_all add: started_def tw_inv_def second_direct_def nowhere_def referenced_def wheel_has_def
      new_TimingWheel_def list_ex_iff)

theorem RunAfter_fires_witness:
  "\<exists>tw1. RunAfter 61 7 started = Inr ([], tw1) \<and>
    (\<forall>ts evs tw2. spaced (tw_lastTs started) ts \<and> run_timer ts tw1 = Inr (evs, tw2) \<longrightarrow>
       count_list evs (Fired (Once 7)) =
         (if 61 \<le> length ts + (if (61::nat) < 60 then 0 else tw_tick started mod 60) then 1 else 0))"
  by (rule RunAfter_fires) (simp_all add: started_ok)

text \<open>\<open>RunAfter\<close> with a delay of whole minutes: no run of the wheel gets past the tick at which
  the entry leaves the minute wheel, since it is inserted again with a delay of zero, whose
  slot index wraps to \<open>2 ^ 32 - 1\<close>.\<close>

theorem whole_minutes_fault:
  assumes "tw_inv tw" "tw_lastTs tw \<noteq> 0" "nowhere (Once cb) tw" "delay mod 60 = 0" "0 < delay" "delay < 3600"
    and "spaced (tw_lastTs tw) ts" "delay \<le> length ts + tw_tick tw mod 60"
  shows "\<exists>tw1. RunAfter delay cb tw = Inr ([], tw1) \<and> (\<exists>e. run_timer ts tw1 = Inl e)"
proof -
  define m where "m = delay div 60 - 1"
  have "\<not> delay < 60" using assms(4,5) by auto
  then have delay: "delay = 60 * (m + 1)" using assms(4) by (auto simp: m_def)
  from RunAfter_places [OF assms(3,1,5,6)] \<open>\<not> delay < 60\<close> obtain tw1 where
    t: "RunAfter delay cb tw = Inr ([], tw1)" "keeps tw tw1" "in_minutes (Once cb) m 0 tw1"
    using assms(4) by (auto simp: m_def)
  note inv = keeps_inv [OF t(2) assms(1)]
  have no: "\<not> (\<exists>r. run_timer ts tw1 = Inr r)"
    if "in_minutes (Once cb) k 0 tw1" "tw_inv tw1" "tw_lastTs tw1 \<noteq> 0" "spaced (tw_lastTs tw1) ts"
      "60 * (k + 1) \<le> length ts + tw_tick tw1 mod 60" for k tw1 ts
    using that
  proof (induction ts arbitrary: tw1 k)
    case Nil
    have "tw_tick tw1 mod 60 < 60" by simp
    with Nil(5) show ?case by simp
  next
    case (Cons x ts)
    show ?case
    proof
      assume "\<exists>r. run_timer (x # ts) tw1 = Inr r"
      then obtain e1 tw2 r where r: "OnTimer x tw1 = Inr (e1, tw2)" "run_timer ts tw2 = Inr r"
        by (auto simp: andthen_Inr split: prod.splits)
      with Cons.prems have tick: "tick_of x tw1 e1 tw2" by (simp add: tick_of_def)
      note st = tick_minutes [OF tick Cons.prems(1)] and n = tick_of_after [OF tick]
      have sp: "tw_lastTs tw2 \<noteq> 0" "spaced (tw_lastTs tw2) ts" using Cons.prems(4) n by auto
      show False
      proof (cases "(tw_tick tw1 + 1) mod 60 = 0")
        case False
        then have "(tw_tick tw1 + 1) mod 60 = tw_tick tw1 mod 60 + 1" by (simp add: mod_Suc split: if_splits)
        with Cons.prems(5) n have "60 * (k + 1) \<le> length ts + tw_tick tw2 mod 60" by simp
        with Cons.IH [of k tw2] st False n sp r(2) show False by auto
      next
        case True
        with st have k: "k \<noteq> 0" "in_minutes (Once cb) (k - 1) 0 tw2" by (auto split: if_splits)
        from True have "tw_tick tw1 mod 60 = 59" by (simp add: mod_Suc split: if_splits)
        with Cons.prems(5) k(1) True n have "60 * (k - 1 + 1) \<le> length ts + tw_tick tw2 mod 60" by simp
        with Cons.IH [of "k - 1" tw2] k(2) n sp r(2) show False by auto
      qed
    qed
  qed
  have "\<not> (\<exists>r. run_timer ts tw1 = Inr r)"
    using no [of m tw1 ts] t(3) inv assms(2,7,8) delay by simp
  with t(1) show ?thesis by (cases "run_timer ts tw1") auto
qed

theorem whole_minutes_fault_witness:
  "\<exists>tw1. RunAfter 60 7 started = Inr ([], tw1) \<and>
    (\<exists>e. run_timer (map (\<lambda>i. 6000 + 1000 * int i) [0..<60]) tw1 = Inl e)"
proof (rule whole_minutes_fault)
  show "spaced (tw_lastTs started) (map (\<lambda>i. 6000 + 1000 * int i) [0..<60])" by (simp add: started_ok upt_rec)
qed (simp_all add: started_ok)

lemma emplace_cascade:
  assumes "i < length w"
  shows "emplace i (Cascade s x) w = Inr (w[i := w ! i @ [Cascade s x]]) \<and> wheel_has x (w[i := w ! i @ [Cascade s x]])"
proof -
  have "w ! i @ [Cascade s x] \<in> set (w[i := w ! i @ [Cascade s x]])" using assms by (rule set_update_memI)
  then show ?thesis using assms by (force simp: emplace_def slot_add_def wheel_has_def list_ex_iff)
qed

lemma run_far:
  "run_timer ts tw = Inr (evs, tw') \<Longrightarrow> spaced (tw_lastTs tw) ts \<Longrightarrow> tw_lastTs tw \<noteq> 0 \<Longrightarrow> tw_inv tw \<Longrightarrow>
     \<not> wheel_has x (tw_second tw) \<Longrightarrow> \<not> wheel_has x (tw_minute tw) \<Longrightarrow>
     Fired x \<notin> set evs \<and> occ x (tw_hour tw') = occ x (tw_hour tw) \<and> occ x (tw_day tw') = occ x (tw_day tw)"
proof (induction ts arbitrary: tw evs)
  case (Cons t ts)
  then obtain e1 tw1 e2 where r: "OnTimer t tw = Inr (e1, tw1)" "run_timer ts tw1 = Inr (e2, tw')" "evs = e1 @ e2"
    by (auto simp: andthen_Inr)
  with Cons.prems have tick: "tick_of t tw e1 tw1" by (simp add: tick_of_def)
  have n: "spaced (tw_lastTs tw1) ts" "tw_lastTs tw1 \<noteq> 0" "tw_inv tw1"
    using tick_of_after [OF tick] Cons.prems(2) by auto
  note c = tick_coarse [OF tick Cons.prems(5,6)]
  with Cons.IH [OF r(2) n] r(3) show ?case by (auto simp: count_list_0_iff)
qed simp

text \<open>A timer of an hour or more, up to thirty days, never fires: whatever number of ticks the
  wheel has made, its callback has not run and the wheel still holds it. (The tests for the
  hour and for the day are in the else branch of the test for the minute.)\<close>

theorem long_timers_never_fire:
  assumes "tw_inv tw" "tw_lastTs tw \<noteq> 0" "nowhere (Once cb) tw" "3600 \<le> delay" "delay div 86400 \<le> 30"
  shows "\<exists>tw1. RunAfter delay cb tw = Inr ([], tw1) \<and>
    (\<forall>ts evs tw2. spaced (tw_lastTs tw) ts \<and> run_timer ts tw1 = Inr (evs, tw2) \<longrightarrow>
       Fired (Once cb) \<notin> set evs \<and> referenced (Once cb) tw2)"
proof -
  let ?x = "Once cb"
  let ?far = "\<lambda>tw. \<not> wheel_has ?x (tw_second tw) \<and> \<not> wheel_has ?x (tw_minute tw)
      \<and> (wheel_has ?x (tw_hour tw) \<or> wheel_has ?x (tw_day tw))"
  note no = nowhere_occ [OF assms(3,1)]
  have len: "length (tw_hour tw) = 24" "length (tw_day tw) = 30" using assms(1) by (simp_all add: tw_inv_def)
  obtain tw1 where ins: "InsertEntry delay ?x tw = Inr tw1" "?far tw1"
  proof (cases "delay < 86400")
    case True
    have i: "index32 (delay div 3600) < length (tw_hour tw)"
      using assms(4) True len by (auto simp: index32_def less_mult_imp_div_less)
    have "InsertEntry delay ?x tw = InsertHourEntry delay ?x tw"
      using True assms(4) by (simp add: InsertEntry_def kTimingMinute_def kTimingHour_def kTimingDay_def)
    with emplace_cascade [OF i, of "delay mod 3600" ?x] no(3,4) that show ?thesis
      by (auto simp: InsertHourEntry_def kTimingHour_def Let_def)
  next
    case False
    have i: "index32 (delay div 86400) < length (tw_day tw)"
      using False assms(5) len by (auto simp: index32_def)
    have "InsertEntry delay ?x tw = InsertDayEntry delay ?x tw"
      using False assms(4,5) by (simp add: InsertEntry_def kTimingMinute_def kTimingHour_def kTimingDay_def)
    with emplace_cascade [OF i, of "delay mod 86400" ?x] no(3,4) that show ?thesis
      by (auto simp: InsertDayEntry_def kTimingDay_def Let_def)
  qed
  have ref: "referenced ?x tw1" using ins(2) by (auto simp: referenced_def)
  note inv = keeps_inv [OF InsertEntry_keeps [OF ins(1)] assms(1)]
  have "RunAfter delay cb tw = Inr ([], tw1)" using ins(1) ref by (simp add: RunAfter_def release_def)
  moreover have "Fired ?x \<notin> set evs \<and> referenced ?x tw2"
    if "spaced (tw_lastTs tw) ts" "run_timer ts tw1 = Inr (evs, tw2)" for ts evs tw2
    using run_far [OF that(2), of ?x] that(1) inv assms(2) ins(2) by (auto simp: referenced_def wheel_has_occ)
  ultimately show ?thesis by blast
qed

theorem long_timers_never_fire_witness:
  "\<exists>tw1. RunAfter 7201 7 started = Inr ([], tw1) \<and>
    (\<forall>ts evs tw2. spaced (tw_lastTs started) ts \<and> run_timer ts tw1 = Inr (evs, tw2) \<longrightarrow>
       Fired (Once 7) \<notin> set evs \<and> referenced (Once 7) tw2)"
  by (rule long_timers_never_fire) (simp_all add: started_ok)

lemma long_delay:
  assumes "30 < long div kTimingDay"
  shows "InsertEntry long x tw = Inr tw"
proof -
  have "2678400 \<le> long"
  proof (rule ccontr)
    assume "\<not> 2678400 \<le> long"
    then have "long div 86400 \<le> 2678399 div 86400" by (intro div_le_mono) simp
    with assms show False by (simp add: kTimingDay_def)
  qed
  then show ?thesis
    using assms by (simp add: InsertEntry_def kTimingMinute_def kTimingHour_def kTimingDay_def)
qed

text \<open>The delays the wheels cannot hold: a delay of zero is an access out of bounds; one of more
  than thirty days is dropped, so that the callback runs at once, inside \<open>RunAfter\<close>, and
  \<open>RunEvery\<close> with such an interval recurses without end.\<close>

theorem delay_extremes:
  assumes "tw_inv tw" "nowhere (Once cb) tw" "nowhere (Every cb long) tw" "30 < long div 86400"
  shows "RunAfter 0 cb tw = Inl Out_of_bounds \<and> RunAfter long cb tw = Inr ([Fired (Once cb)], tw) \<and>
    RunEvery long cb tw = Inl (Exception ''unbounded recursion'')"
proof -
  have "InsertEntry long x tw = Inr tw" for x using long_delay assms(4) by (simp add: kTimingDay_def)
  moreover have "RunAfter 0 cb tw = Inl Out_of_bounds"
    using assms(1) by (simp add: RunAfter_def InsertEntry_def InsertSecondEntry_def kTimingMinute_def index32_def
        emplace_def tw_inv_def)
  ultimately show ?thesis
    using assms(2-4) by (simp add: RunAfter_def RunEvery_def release_def nowhere_def fire_def kTimingDay_def)
qed

theorem delay_extremes_witness:
  "RunAfter 0 7 started = Inl Out_of_bounds \<and> RunAfter 3000000 7 started = Inr ([Fired (Once 7)], started) \<and>
    RunEvery 3000000 7 started = Inl (Exception ''unbounded recursion'')"
  by (rule delay_extremes) (simp_all add: started_ok)

text \<open>C31: idle timeouts below a minute: while the entry of a connection is in the wheel of seconds,
  inserting it again with a delay of less than 60 seconds that is due later, as every read and write
  does, moves its timeout to \<open>delay\<close> ticks after the last insertion; it fires once, then, and not
  before, in every run that does not fault. (From 60 seconds on the wheel of minutes is used, whose
  ticks \<open>RunAfter_fires\<close> gives.)\<close>

theorem idle_timeout_extends:
  assumes "tw_inv tw" "tw_lastTs tw \<noteq> 0" "in_seconds (Idle c) k tw" "k < delay" "delay < 60"
  shows "\<exists>tw1. InsertEntry delay (Idle c) tw = Inr tw1 \<and>
    (\<forall>ts evs tw2. spaced (tw_lastTs tw) ts \<and> run_timer ts tw1 = Inr (evs, tw2) \<longrightarrow>
       count_list evs (Fired (Idle c)) = (if delay \<le> length ts then 1 else 0))"
proof -
  let ?x = "Idle c"
  have len: "length (tw_second tw) = 60" using assms(1) by (simp add: tw_inv_def)
  have d: "delay - 1 < 60" "0 < delay" using assms(4,5) by auto
  obtain tw1 where ins: "InsertEntry delay ?x tw = Inr tw1"
    using assms(5) d len by (simp add: InsertEntry_def InsertSecondEntry_def kTimingMinute_def emplace_def index32_def)
  have "Direct ?x \<in> set (slot_add (Direct ?x) (tw_second tw ! (delay - 1)))" by (simp add: slot_add_def)
  then have "filter (\<lambda>e. obj_of e = ?x) (slot_add (Direct ?x) (tw_second tw ! (delay - 1))) \<noteq> []"
    by (force simp: filter_empty_conv)
  then have "in_seconds ?x (delay - 1) tw1"
    using InsertEntry_second(2) [OF ins assms(5) len] assms(3,4) d len
    by (auto simp: in_seconds_def loc_def wheel_has_occ nth_list_update)
  note inv = keeps_inv [OF InsertEntry_keeps [OF ins] assms(1)]
  have "due ?x tw1 (tw_tick tw + delay)"
    unfolding due_def using \<open>in_seconds ?x (delay - 1) tw1\<close> inv d by (intro disjI1 exI [of _ "delay - 1"]) simp
  moreover have "single ?x" by (simp add: single_def)
  ultimately have "count_list evs (Fired ?x) = (if delay \<le> length ts then 1 else 0)"
    if "spaced (tw_lastTs tw) ts" "run_timer ts tw1 = Inr (evs, tw2)" for ts evs tw2
    using run_due [OF that(2), of ?x "tw_tick tw + delay"] that(1) inv assms(2) d(2) by simp
  with ins show ?thesis by blast
qed

theorem idle_timeout_extends_witness:
  "\<exists>tw0 tw1. InsertEntry 10 (Idle 3) started = Inr tw0 \<and> InsertEntry 30 (Idle 3) tw0 = Inr tw1 \<and>
    (\<forall>ts evs tw2. spaced (tw_lastTs tw0) ts \<and> run_timer ts tw1 = Inr (evs, tw2) \<longrightarrow>
       count_list evs (Fired (Idle 3)) = (if 30 \<le> length ts then 1 else 0))"
proof -
  obtain tw0 where t: "InsertEntry 10 (Idle 3) started = Inr tw0" "keeps started tw0" "in_seconds (Idle 3) 9 tw0"
    using InsertEntry_places [of "Idle 3" started 10] started_ok by auto
  from keeps_inv [OF t(2) started_ok(1)] have "tw_inv tw0" "tw_lastTs tw0 \<noteq> 0" by (simp_all add: started_ok)
  from idle_timeout_extends [OF this t(3), of 30] t(1) show ?thesis by auto
qed

end
