(* ===== verification/Channel.thy ===== *)
theory Channel
  imports Prelude
begin

text \<open>
  \<open>src/network/net/Channel.{h,cpp}\<close>: the file descriptor an event loop watches, with the event
  mask it asks the kernel for and the mask the kernel reported last. Masks are 32 bit words
  with the bits of \<open>sys/epoll.h\<close>. \<open>HandleEvent\<close> calls one of the four virtual handlers; the
  model returns which. \<open>inEpoll_\<close> is never used by the code and has no field.
\<close>

unbundle bit_operations_syntax

section \<open>Event masks\<close>

definition EPOLLIN :: "32 word" where "EPOLLIN = 0x001"
definition EPOLLPRI :: "32 word" where "EPOLLPRI = 0x002"
definition EPOLLOUT :: "32 word" where "EPOLLOUT = 0x004"
definition EPOLLERR :: "32 word" where "EPOLLERR = 0x008"
definition EPOLLHUP :: "32 word" where "EPOLLHUP = 0x010"
definition EPOLLET :: "32 word" where "EPOLLET = 0x80000000"

definition kEventRead :: "32 word" where "kEventRead = EPOLLIN OR EPOLLPRI OR EPOLLET"
definition kEventWrite :: "32 word" where "kEventWrite = EPOLLOUT OR EPOLLET"

lemmas epoll_bits = EPOLLIN_def EPOLLPRI_def EPOLLOUT_def EPOLLERR_def EPOLLHUP_def EPOLLET_def
lemmas event_masks = kEventRead_def kEventWrite_def epoll_bits

text \<open>Bits of a mask: \<open>has m b\<close> is the test \<open>m & b\<close> of the code.\<close>

definition has :: "32 word \<Rightarrow> 32 word \<Rightarrow> bool" where
  "has m b \<longleftrightarrow> m AND b \<noteq> 0"

section \<open>The end of the process\<close>

text \<open>Where the code calls \<open>exit\<close>, and where \<open>AssertInLoopThread\<close> of a loop does: \<open>here\<close> says whether the
  thread is that of the loop.\<close>

definition exit_fault :: fault where "exit_fault = Exception ''exit''"

definition AssertInLoopThread :: "bool \<Rightarrow> unit result" where
  "AssertInLoopThread here = (if here then Inr () else Inl exit_fault)"

section \<open>Channels\<close>

record channel =
  ch_fd :: int
  ch_event :: "32 word"
  ch_revents :: "32 word"

definition new_Channel :: "int \<Rightarrow> channel" where
  "new_Channel fd = \<lparr>ch_fd = fd, ch_event = 0, ch_revents = 0\<rparr>"

text \<open>\<open>Close\<close>: the descriptor given to \<open>close(2)\<close>, if any. Descriptor 0 is never closed.\<close>

definition Channel_Close :: "channel \<Rightarrow> int option \<times> channel" where
  "Channel_Close ch = (if 0 < ch_fd ch then (Some (ch_fd ch), ch\<lparr>ch_fd := -1\<rparr>) else (None, ch))"

definition SetRevents :: "32 word \<Rightarrow> channel \<Rightarrow> channel" where
  "SetRevents ev ch = ch\<lparr>ch_revents := ev\<rparr>"

text \<open>The updates of \<open>event_\<close> in \<open>EventLoop::EnableChannelWriting\<close> and \<open>EnableChannelReading\<close>.\<close>

definition with_writing :: "bool \<Rightarrow> channel \<Rightarrow> channel" where
  "with_writing enable ch =
     ch\<lparr>ch_event := (if enable then ch_event ch OR kEventWrite else ch_event ch AND NOT kEventWrite)\<rparr>"

definition with_reading :: "bool \<Rightarrow> channel \<Rightarrow> channel" where
  "with_reading enable ch =
     ch\<lparr>ch_event := (if enable then ch_event ch OR kEventRead else ch_event ch AND NOT kEventRead)\<rparr>"

datatype channel_call = Call_OnError | Call_OnClose | Call_OnRead | Call_OnWrite

definition HandleEvent :: "channel \<Rightarrow> channel_call option" where
  "HandleEvent ch =
     (let ev = ch_revents ch
      in if has ev EPOLLERR then Some Call_OnError
         else if has ev EPOLLHUP \<and> \<not> has ev EPOLLIN then Some Call_OnClose
         else if has ev (EPOLLIN OR EPOLLPRI) then Some Call_OnRead
         else if has ev EPOLLOUT then Some Call_OnWrite
         else None)"

section \<open>Bit lemmas\<close>

lemma bit_one_bit: "n < 32 \<Longrightarrow> bit (push_bit n (1 :: 32 word)) i \<longleftrightarrow> i = n"
  by (auto simp only: bit_push_bit_iff bit_1_iff possible_bit_word) auto

lemma epoll_single:
  "EPOLLIN = push_bit 0 1" "EPOLLPRI = push_bit 1 1" "EPOLLOUT = push_bit 2 1"
  "EPOLLERR = push_bit 3 1" "EPOLLHUP = push_bit 4 1" "EPOLLET = push_bit 31 1"
  by (simp_all add: epoll_bits push_bit_eq_mult)

lemma bit_epoll:
  "bit EPOLLIN i \<longleftrightarrow> i = 0" "bit EPOLLPRI i \<longleftrightarrow> i = 1" "bit EPOLLOUT i \<longleftrightarrow> i = 2"
  "bit EPOLLERR i \<longleftrightarrow> i = 3" "bit EPOLLHUP i \<longleftrightarrow> i = 4" "bit EPOLLET i \<longleftrightarrow> i = 31"
  unfolding epoll_single by (rule bit_one_bit; simp)+

lemma has_iff: "has m b \<longleftrightarrow> (\<exists>i. bit m i \<and> bit b i)"
  using bit_imp_le_length [of m] by (auto simp: has_def bit_eq_iff bit_and_iff)

lemma has_single [simp]:
  "has m EPOLLIN \<longleftrightarrow> bit m 0" "has m EPOLLPRI \<longleftrightarrow> bit m 1" "has m EPOLLOUT \<longleftrightarrow> bit m 2"
  "has m EPOLLERR \<longleftrightarrow> bit m 3" "has m EPOLLHUP \<longleftrightarrow> bit m 4" "has m EPOLLET \<longleftrightarrow> bit m 31"
  by (simp_all add: has_iff bit_epoll)

lemma has_or [simp]: "has m (a OR b) \<longleftrightarrow> has m a \<or> has m b"
  by (auto simp: has_iff bit_or_iff)

lemma bit_kEventRead: "bit kEventRead i \<longleftrightarrow> i = 0 \<or> i = 1 \<or> i = 31"
  by (simp add: kEventRead_def bit_or_iff bit_epoll)

lemma bit_kEventWrite: "bit kEventWrite i \<longleftrightarrow> i = 2 \<or> i = 31"
  by (simp add: kEventWrite_def bit_or_iff bit_epoll)

lemma bit_with_writing:
  "i < 32 \<Longrightarrow> bit (ch_event (with_writing on ch)) i \<longleftrightarrow> (if i = 2 \<or> i = 31 then on else bit (ch_event ch) i)"
  by (auto simp: with_writing_def bit_or_iff bit_and_iff bit_not_iff bit_kEventWrite)

lemma bit_with_reading:
  "i < 32 \<Longrightarrow> bit (ch_event (with_reading on ch)) i \<longleftrightarrow>
     (if i = 0 \<or> i = 1 \<or> i = 31 then on else bit (ch_event ch) i)"
  by (auto simp: with_reading_def bit_or_iff bit_and_iff bit_not_iff bit_kEventRead)

lemma ch_fd_with [simp]: "ch_fd (with_writing on ch) = ch_fd ch" "ch_fd (with_reading on ch) = ch_fd ch"
  "ch_fd (SetRevents ev ch) = ch_fd ch" "ch_event (SetRevents ev ch) = ch_event ch"
  by (simp_all add: with_writing_def with_reading_def SetRevents_def)

section \<open>Dispatch\<close>

text \<open>Exactly one handler runs for a reported mask, by priority: an error first, then a hang-up
  without readable data, then reading, and writing only when none of these is reported. So a
  mask that reports a readable and writable descriptor at once calls \<open>OnRead\<close> only, and with
  edge triggering the report that it is writable is gone.\<close>

theorem HandleEvent_priority:
  "(HandleEvent ch = Some Call_OnError) = bit (ch_revents ch) 3 \<and>
   (HandleEvent ch = Some Call_OnClose) = (\<not> bit (ch_revents ch) 3 \<and> bit (ch_revents ch) 4 \<and> \<not> bit (ch_revents ch) 0) \<and>
   (HandleEvent ch = Some Call_OnRead) =
     (\<not> bit (ch_revents ch) 3 \<and> (bit (ch_revents ch) 0 \<or> bit (ch_revents ch) 1 \<and> \<not> bit (ch_revents ch) 4)) \<and>
   (HandleEvent ch = Some Call_OnWrite) =
     (bit (ch_revents ch) 2 \<and> \<not> bit (ch_revents ch) 0 \<and> \<not> bit (ch_revents ch) 1 \<and> \<not> bit (ch_revents ch) 3
       \<and> \<not> bit (ch_revents ch) 4)"
  by (auto simp: HandleEvent_def Let_def)

end
