(* ===== verification/TcpConnection.thy ===== *)
theory TcpConnection
  imports MsgBuffer Channel
begin

text \<open>
  \<open>src/network/net/TcpConnection.{h,cpp}\<close>: the buffered, edge-triggered TCP connection. Memory
  is a function from addresses to bytes, because a connection keeps pointers into buffers of its
  caller (\<open>iovecList_\<close>) and reads them when it writes. A \<open>size_t\<close> is a \<open>nat\<close> below \<open>2 ^ 64\<close>,
  an address wraps at \<open>2 ^ 64\<close>. The results of \<open>write\<close>, \<open>writev\<close> and \<open>readv\<close> come from oracle
  lists; an exhausted list stands for \<open>EAGAIN\<close>. What a connection does to the outside is a list
  of events. The callbacks \<open>closeCb_\<close> and \<open>writeCompleteCb_\<close> are called last in their
  functions and are events; \<open>messageCb_\<close> is called in a loop and is a function on the state of
  its owner and the connection. All functions but the destructor run in the loop's thread.
\<close>

section \<open>Memory\<close>

type_synonym memory = "nat \<Rightarrow> char"

definition two64 :: nat where "two64 = 18446744073709551616"

definition padd :: "nat \<Rightarrow> nat \<Rightarrow> nat" where
  "padd a n = (a + n) mod two64"

definition mem_bytes :: "memory \<Rightarrow> nat \<Rightarrow> nat \<Rightarrow> string" where
  "mem_bytes mem a n = map (\<lambda>i. mem (padd a i)) [0..<n]"

record iovec =
  iov_base :: nat
  iov_len :: nat

definition vec_bytes :: "memory \<Rightarrow> iovec \<Rightarrow> string" where
  "vec_bytes mem v = mem_bytes mem (iov_base v) (iov_len v)"

definition vecs_bytes :: "memory \<Rightarrow> iovec list \<Rightarrow> string" where
  "vecs_bytes mem vs = concat (map (vec_bytes mem) vs)"

section \<open>State\<close>

record tcp_conn =
  tc_chan :: channel
  tc_isClosed :: bool
  tc_msgBuffer :: msg_buffer
  tc_iovecList :: "iovec list"
  tc_maxIdleTime :: int
  tc_timeoutEntry :: bool         \<comment> \<open>the entry \<open>timeoutEntry_\<close> points to is alive\<close>
  tc_closeCb :: bool              \<comment> \<open>\<open>closeCb_\<close> is set\<close>
  tc_writeCompleteCb :: bool      \<comment> \<open>\<open>writeCompleteCb_\<close> is set\<close>

definition new_TcpConnection :: "int \<Rightarrow> tcp_conn" where
  "new_TcpConnection fd =
     \<lparr>tc_chan = new_Channel fd, tc_isClosed = False, tc_msgBuffer = new_MsgBuffer kBufferDefaultLength,
      tc_iovecList = [], tc_maxIdleTime = 30, tc_timeoutEntry = False, tc_closeCb = False,
      tc_writeCompleteCb = False\<rparr>"

datatype tc_event =
    Wrote string                 \<comment> \<open>bytes the kernel has taken\<close>
  | Interest "32 word"           \<comment> \<open>\<open>EnableWriting\<close>: the mask handed to the loop\<close>
  | Close_cb                     \<comment> \<open>\<open>closeCb_\<close>\<close>
  | Write_complete_cb            \<comment> \<open>\<open>writeCompleteCb_\<close>\<close>
  | Closed_fd int                \<comment> \<open>\<open>close(2)\<close>\<close>
  | Insert_entry int             \<comment> \<open>the idle entry is inserted again\<close>

definition EINTR :: int where "EINTR = 4"
definition EBADF :: int where "EBADF = 9"
definition EAGAIN :: int where "EAGAIN = 11"
definition EINVAL :: int where "EINVAL = 22"

text \<open>\<open>EWOULDBLOCK\<close> is \<open>EAGAIN\<close>.\<close>

definition transient :: "int \<Rightarrow> bool" where
  "transient err \<longleftrightarrow> err = EINTR \<or> err = EAGAIN"

section \<open>Closing and timeouts\<close>

definition SetCloseCallback :: "tcp_conn \<Rightarrow> tcp_conn" where
  "SetCloseCallback c = c\<lparr>tc_closeCb := True\<rparr>"

definition SetWriteCompleteCallback :: "tcp_conn \<Rightarrow> tcp_conn" where
  "SetWriteCompleteCallback c = c\<lparr>tc_writeCompleteCb := True\<rparr>"

definition OnClose :: "tcp_conn \<Rightarrow> tc_event list \<times> tcp_conn" where
  "OnClose c =
     (if tc_isClosed c then ([], c)
      else
        (let (fd, ch) = Channel_Close (tc_chan c)
         in ((if tc_closeCb c then [Close_cb] else []) @ (case fd of None \<Rightarrow> [] | Some d \<Rightarrow> [Closed_fd d]),
             c\<lparr>tc_isClosed := True, tc_chan := ch\<rparr>)))"

definition TcpConnection_ForceClose :: "tcp_conn \<Rightarrow> tc_event list \<times> tcp_conn" where
  "TcpConnection_ForceClose c = OnClose c"

definition OnError :: "tcp_conn \<Rightarrow> tc_event list \<times> tcp_conn" where
  "OnError c = OnClose c"

definition OnTimeout :: "tcp_conn \<Rightarrow> tc_event list \<times> tcp_conn" where
  "OnTimeout c = OnClose c"

text \<open>
  \<open>OnClose\<close> is what the function does in the thread of the loop; in any other thread it ends the
  process. The destructor runs in the thread that drops the last reference. It calls \<open>OnClose\<close>,
  which asks a dying object for a shared pointer to itself when it still has a close callback to call.
\<close>

definition TcpConnection_OnClose :: "bool \<Rightarrow> tcp_conn \<Rightarrow> (tc_event list \<times> tcp_conn) result" where
  "TcpConnection_OnClose here c = bindR (AssertInLoopThread here) (\<lambda>_. Inr (OnClose c))"

definition destroy_TcpConnection :: "bool \<Rightarrow> tcp_conn \<Rightarrow> (tc_event list \<times> tcp_conn) result" where
  "destroy_TcpConnection here c =
     (if here \<and> \<not> tc_isClosed c \<and> tc_closeCb c then Inl (Exception ''bad_weak_ptr'') else TcpConnection_OnClose here c)"

definition EnableCheckIdleTimeout :: "int \<Rightarrow> tcp_conn \<Rightarrow> tc_event list \<times> tcp_conn" where
  "EnableCheckIdleTimeout maxTime c =
     ([Insert_entry maxTime], c\<lparr>tc_maxIdleTime := maxTime, tc_timeoutEntry := True\<rparr>)"

definition ExtendLife :: "tcp_conn \<Rightarrow> tc_event list" where
  "ExtendLife c = (if tc_timeoutEntry c then [Insert_entry (tc_maxIdleTime c)] else [])"

definition EnableWriting :: "bool \<Rightarrow> tcp_conn \<Rightarrow> tc_event list \<times> tcp_conn" where
  "EnableWriting enable c =
     (let ch = with_writing enable (tc_chan c) in ([Interest (ch_event ch)], c\<lparr>tc_chan := ch\<rparr>))"

definition write_complete :: "tcp_conn \<Rightarrow> tc_event list" where
  "write_complete c = (if tc_writeCompleteCb c then [Write_complete_cb] else [])"

section \<open>Sending\<close>

text \<open>The value of \<open>write (fd_, buf, size)\<close>; the kernel takes at most \<open>size\<close> bytes.\<close>

definition write_ret :: "int + nat \<Rightarrow> nat \<Rightarrow> int" where
  "write_ret w sz = (case w of Inl err \<Rightarrow> -1 | Inr n \<Rightarrow> int (min n sz))"

definition taken :: "memory \<Rightarrow> nat \<Rightarrow> int \<Rightarrow> tc_event list" where
  "taken mem buf ret = (if 0 \<le> ret then [Wrote (mem_bytes mem buf (nat ret))] else [])"

text \<open>
  \<open>SendInLoop (const char *, size_t)\<close>. The result of \<open>write\<close> goes into the \<open>size_t\<close> variable
  \<open>len\<close>, so \<open>len < 0\<close> is false and its branch is dead.
\<close>

definition push_vec :: "nat \<Rightarrow> nat \<Rightarrow> tcp_conn \<Rightarrow> tc_event list \<times> tcp_conn" where
  "push_vec base len c =
     EnableWriting True (c\<lparr>tc_iovecList := tc_iovecList c @ [\<lparr>iov_base = base, iov_len = len\<rparr>]\<rparr>)"

definition SendInLoop :: "memory \<Rightarrow> nat \<Rightarrow> nat \<Rightarrow> int + nat \<Rightarrow> tcp_conn \<Rightarrow> tc_event list \<times> tcp_conn" where
  "SendInLoop mem buf sz w c =
     (if tc_isClosed c then ([], c)
      else if tc_iovecList c = [] then
        (let ret = write_ret w sz; len = nat (ret mod int two64); rest = usub sz len
         in if rest = 0 then (taken mem buf ret @ write_complete c, c)
            else (let (evs, c') = push_vec (padd buf len) rest c in (taken mem buf ret @ evs, c')))
      else if 0 < sz then push_vec buf sz c
      else ([], c))"

text \<open>\<open>SendInLoop (std::list<BufferNodePtr> &)\<close>: the nodes are addresses with sizes.\<close>

definition SendInLoop_list :: "(nat \<times> nat) list \<Rightarrow> tcp_conn \<Rightarrow> tc_event list \<times> tcp_conn" where
  "SendInLoop_list nodes c =
     (if tc_isClosed c then ([], c)
      else
        (let c' = c\<lparr>tc_iovecList := tc_iovecList c @ map (\<lambda>(a, s). \<lparr>iov_base = a, iov_len = s\<rparr>) nodes\<rparr>
         in if tc_iovecList c' = [] then ([], c') else EnableWriting True c'))"

section \<open>Writing\<close>

text \<open>
  \<open>writev\<close> on the whole list: more than \<open>IOV_MAX\<close> vectors are refused, an empty amount of data
  is written at once, otherwise the oracle says how much is taken.
\<close>

definition kIovMax :: nat where "kIovMax = 1024"

definition total_len :: "iovec list \<Rightarrow> nat" where
  "total_len vs = sum_list (map iov_len vs)"

definition sys_writev :: "(int + nat) list \<Rightarrow> iovec list \<Rightarrow> (int + nat) \<times> (int + nat) list" where
  "sys_writev ws vs =
     (if kIovMax < length vs then (Inl EINVAL, ws)
      else if total_len vs = 0 then (Inr 0, ws)
      else
        (case ws of
           [] \<Rightarrow> (Inl EAGAIN, [])
         | Inl err # ws' \<Rightarrow> (Inl err, ws')
         | Inr n # ws' \<Rightarrow> (Inr (min n (total_len vs)), ws')))"

text \<open>The loop \<open>while (ret > 0)\<close>.\<close>

fun consume :: "nat \<Rightarrow> iovec list \<Rightarrow> iovec list result" where
  "consume ret vs =
     (if ret = 0 then Inr vs
      else
        (case vs of
           [] \<Rightarrow> Inl Out_of_bounds
         | v # vs' \<Rightarrow>
             if iov_len v > ret
             then Inr (v\<lparr>iov_base := padd (iov_base v) ret, iov_len := iov_len v - ret\<rparr> # vs')
             else consume (ret - iov_len v) vs'))"

declare consume.simps [simp del]

definition write_done :: "tcp_conn \<Rightarrow> tc_event list \<times> tcp_conn" where
  "write_done c = (let (evs, c') = EnableWriting False c in (evs @ write_complete c, c'))"

type_synonym write_result = "(tc_event list \<times> tcp_conn \<times> (int + nat) list) result"

text \<open>The loop \<open>while (true)\<close> of \<open>OnWrite\<close>.\<close>

partial_function (option) write_loop :: "memory \<Rightarrow> (int + nat) list \<Rightarrow> tcp_conn \<Rightarrow> write_result option" where
  "write_loop mem ws c =
     (case sys_writev ws (tc_iovecList c) of
        (Inl err, ws') \<Rightarrow>
          (if transient err then Some (Inr ([], c, ws'))
           else (let (evs, c') = OnClose c in Some (Inr (evs, c', ws'))))
      | (Inr n, ws') \<Rightarrow>
          (case consume n (tc_iovecList c) of
             Inl e \<Rightarrow> Some (Inl e)
           | Inr vs \<Rightarrow>
               (let c1 = c\<lparr>tc_iovecList := vs\<rparr>; out = Wrote (take n (vecs_bytes mem (tc_iovecList c)))
                in if vs = [] then
                     (let (evs, c') = write_done c1 in Some (Inr (out # evs, c', ws')))
                   else
                     Option.bind (write_loop mem ws' c1)
                       (\<lambda>r. Some (bindR r (\<lambda>(evs, c', ws''). Inr (out # evs, c', ws'')))))))"

definition OnWrite :: "memory \<Rightarrow> (int + nat) list \<Rightarrow> tcp_conn \<Rightarrow> write_result option" where
  "OnWrite mem ws c =
     (if tc_isClosed c then Some (Inr ([], c, ws))
      else if tc_iovecList c \<noteq> [] then
        Option.bind (write_loop mem ws c)
          (\<lambda>r. Some (bindR r (\<lambda>(evs, c', ws'). Inr (ExtendLife c @ evs, c', ws'))))
      else (let (evs, c') = write_done c in Some (Inr (ExtendLife c @ evs, c', ws))))"

section \<open>Reading\<close>

text \<open>
  The loop of \<open>OnRead\<close>: \<open>rds\<close> are the results of \<open>readv\<close> (\<open>Inr []\<close> is the end of the stream);
  on a closed descriptor \<open>readv\<close> fails with \<open>EBADF\<close>. \<open>cb\<close> is \<open>messageCb_\<close>, which may close the
  connection or not return (\<open>None\<close>).
\<close>

type_synonym 'u read_result = "(tc_event list \<times> 'u \<times> tcp_conn) result option"
type_synonym 'u message_cb = "('u \<times> tcp_conn \<Rightarrow> 'u read_result) option"

text \<open>Run \<open>g\<close> after a step and put the events together.\<close>

definition then_read :: "'u read_result \<Rightarrow> ('u \<Rightarrow> tcp_conn \<Rightarrow> 'u read_result) \<Rightarrow> 'u read_result" where
  "then_read r g =
     (case r of
        None \<Rightarrow> None
      | Some (Inl e) \<Rightarrow> Some (Inl e)
      | Some (Inr (evs, u, c)) \<Rightarrow>
          map_option (\<lambda>r'. bindR r' (\<lambda>(evs', u', c'). Inr (evs @ evs', u', c'))) (g u c))"

definition read_failed :: "int \<Rightarrow> 'u \<Rightarrow> tcp_conn \<Rightarrow> 'u read_result" where
  "read_failed err u c =
     Some (Inr (if transient err then ([], u, c) else (let (evs, c') = OnClose c in (evs, u, c'))))"

definition call_message :: "'u message_cb \<Rightarrow> 'u \<Rightarrow> tcp_conn \<Rightarrow> 'u read_result" where
  "call_message cb u c = (case cb of None \<Rightarrow> Some (Inr ([], u, c)) | Some f \<Rightarrow> f (u, c))"

fun read_loop :: "'u message_cb \<Rightarrow> (int + string) list \<Rightarrow> 'u \<Rightarrow> tcp_conn \<Rightarrow> 'u read_result" where
  "read_loop cb [] u c = read_failed (if ch_fd (tc_chan c) < 0 then EBADF else EAGAIN) u c"
| "read_loop cb (rd # rds) u c =
     (if ch_fd (tc_chan c) < 0 then read_failed EBADF u c
      else
        (case ReadFd rd (tc_msgBuffer c) of
           Inl e \<Rightarrow> Some (Inl e)
         | Inr (ret, err, b) \<Rightarrow>
             if 0 < ret then then_read (call_message cb u (c\<lparr>tc_msgBuffer := b\<rparr>)) (read_loop cb rds)
             else if ret = 0 then (let (evs, c') = OnClose (c\<lparr>tc_msgBuffer := b\<rparr>) in Some (Inr (evs, u, c')))
             else read_failed (case err of None \<Rightarrow> 0 | Some e \<Rightarrow> e) u (c\<lparr>tc_msgBuffer := b\<rparr>)))"

definition OnRead :: "'u message_cb \<Rightarrow> (int + string) list \<Rightarrow> 'u \<Rightarrow> tcp_conn \<Rightarrow> 'u read_result" where
  "OnRead cb rds u c =
     (if tc_isClosed c then Some (Inr ([], u, c))
      else then_read (Some (Inr (ExtendLife c, u, c))) (read_loop cb rds))"

section \<open>Memory and vectors\<close>

lemma padd_padd: "padd (padd a k) i = padd a (k + i)"
  by (simp add: padd_def mod_add_left_eq add.assoc)

lemma padd_0: "a < two64 \<Longrightarrow> padd a 0 = a"
  by (simp add: padd_def)

lemma length_mem_bytes [simp]: "length (mem_bytes mem a n) = n"
  by (simp add: mem_bytes_def)

lemma mem_bytes_0 [simp]: "mem_bytes mem a 0 = []"
  by (simp add: mem_bytes_def)

lemma drop_mem_bytes: "k \<le> n \<Longrightarrow> drop k (mem_bytes mem a n) = mem_bytes mem (padd a k) (n - k)"
proof (rule nth_equalityI)
  fix i assume k: "k \<le> n" and "i < length (drop k (mem_bytes mem a n))"
  then have "k + i < n" by simp
  then show "drop k (mem_bytes mem a n) ! i = mem_bytes mem (padd a k) (n - k) ! i"
    using k by (simp add: mem_bytes_def padd_padd nth_upt)
qed simp

lemma take_mem_bytes: "k \<le> n \<Longrightarrow> take k (mem_bytes mem a n) = mem_bytes mem a k"
  by (rule nth_equalityI) (simp_all add: mem_bytes_def)

lemma mem_bytes_split: "k \<le> n \<Longrightarrow> mem_bytes mem a k @ mem_bytes mem (padd a k) (n - k) = mem_bytes mem a n"
  by (metis append_take_drop_id drop_mem_bytes take_mem_bytes)

lemma vecs_bytes_simps [simp]:
  "vecs_bytes mem [] = []" "vecs_bytes mem (v # vs) = vec_bytes mem v @ vecs_bytes mem vs"
  "vecs_bytes mem (vs @ us) = vecs_bytes mem vs @ vecs_bytes mem us"
  by (simp_all add: vecs_bytes_def)

lemma total_len_simps [simp]:
  "total_len [] = 0" "total_len (v # vs) = iov_len v + total_len vs" "total_len (vs @ us) = total_len vs + total_len us"
  by (simp_all add: total_len_def)

lemma length_vec_bytes [simp]: "length (vec_bytes mem v) = iov_len v"
  by (simp add: vec_bytes_def)

lemma length_vecs_bytes [simp]: "length (vecs_bytes mem vs) = total_len vs"
  by (induction vs) simp_all

definition nonempty_vecs :: "iovec list \<Rightarrow> bool" where
  "nonempty_vecs vs \<longleftrightarrow> list_all (\<lambda>v. 0 < iov_len v) vs"

lemma nonempty_vecs_simps [simp]:
  "nonempty_vecs []" "nonempty_vecs (v # vs) \<longleftrightarrow> 0 < iov_len v \<and> nonempty_vecs vs"
  "nonempty_vecs (vs @ us) \<longleftrightarrow> nonempty_vecs vs \<and> nonempty_vecs us"
  by (simp_all add: nonempty_vecs_def)

lemma nonempty_total: "nonempty_vecs vs \<Longrightarrow> total_len vs = 0 \<longleftrightarrow> vs = []"
  by (cases vs) auto

lemma consume_0 [simp]: "consume 0 vs = Inr vs"
  by (simp add: consume.simps)

lemma consume_ok:
  "n \<le> total_len vs \<Longrightarrow> \<exists>vs'. consume n vs = Inr vs' \<and> vecs_bytes mem vs' = drop n (vecs_bytes mem vs)
     \<and> total_len vs' = total_len vs - n \<and> (nonempty_vecs vs \<longrightarrow> nonempty_vecs vs')"
proof (induction n vs rule: consume.induct)
  case (1 ret vs)
  show ?case
  proof (cases "ret = 0")
    case True
    then show ?thesis by simp
  next
    case False
    with 1(2) obtain v vs' where vs: "vs = v # vs'" by (cases vs) auto
    show ?thesis
    proof (cases "iov_len v > ret")
      case True
      have "vec_bytes mem (v\<lparr>iov_base := padd (iov_base v) ret, iov_len := iov_len v - ret\<rparr>) = drop ret (vec_bytes mem v)"
        using True by (simp add: vec_bytes_def drop_mem_bytes)
      then show ?thesis using False True by (simp add: vs consume.simps [of ret "v # vs'"])
    next
      case le: False
      have "consume ret vs = consume (ret - iov_len v) vs'" using False le by (simp add: vs consume.simps [of ret "v # vs'"])
      moreover have "ret - iov_len v \<le> total_len vs'" using 1(2) by (simp add: vs)
      ultimately show ?thesis using 1(1) [OF False vs le] le 1(2) by (auto simp: vs)
    qed
  qed
qed

section \<open>The written stream\<close>

text \<open>What an event list has put on the wire, and what is still to be written.\<close>

fun wrote :: "tc_event list \<Rightarrow> string" where
  "wrote [] = []"
| "wrote (Wrote s # evs) = s @ wrote evs"
| "wrote (_ # evs) = wrote evs"

definition pending :: "memory \<Rightarrow> tcp_conn \<Rightarrow> string" where
  "pending mem c = vecs_bytes mem (tc_iovecList c)"

lemma wrote_append [simp]: "wrote (es @ fs) = wrote es @ wrote fs"
  by (induction es rule: wrote.induct) simp_all

lemma OnClose_wrote [simp]: "wrote (fst (OnClose c)) = []" "tc_iovecList (snd (OnClose c)) = tc_iovecList c"
  "tc_isClosed (snd (OnClose c))" "tc_msgBuffer (snd (OnClose c)) = tc_msgBuffer c"
  by (auto simp: OnClose_def Channel_Close_def split: prod.split option.split)

lemma EnableWriting_fields [simp]: "fst (EnableWriting b c) = [Interest (ch_event (with_writing b (tc_chan c)))]"
  "tc_iovecList (snd (EnableWriting b c)) = tc_iovecList c" "tc_isClosed (snd (EnableWriting b c)) = tc_isClosed c"
  "tc_chan (snd (EnableWriting b c)) = with_writing b (tc_chan c)"
  "tc_closeCb (snd (EnableWriting b c)) = tc_closeCb c" "tc_maxIdleTime (snd (EnableWriting b c)) = tc_maxIdleTime c"
  by (simp_all add: EnableWriting_def Let_def)

lemma write_complete_wrote [simp]: "wrote (write_complete c) = []" "wrote (ExtendLife c) = []"
  by (simp_all add: write_complete_def ExtendLife_def)

lemma write_done_fields [simp]: "wrote (fst (write_done c)) = []" "tc_iovecList (snd (write_done c)) = tc_iovecList c"
  "tc_isClosed (snd (write_done c)) = tc_isClosed c" "tc_closeCb (snd (write_done c)) = tc_closeCb c"
  "tc_chan (snd (write_done c)) = with_writing False (tc_chan c)"
  by (auto simp: write_done_def EnableWriting_def Let_def split: prod.split)

lemma push_vec_fields [simp]: "wrote (fst (push_vec a n c)) = []"
  "tc_iovecList (snd (push_vec a n c)) = tc_iovecList c @ [\<lparr>iov_base = a, iov_len = n\<rparr>]"
  "tc_isClosed (snd (push_vec a n c)) = tc_isClosed c" "tc_chan (snd (push_vec a n c)) = with_writing True (tc_chan c)"
  "tc_closeCb (snd (push_vec a n c)) = tc_closeCb c"
  by (simp_all add: push_vec_def)

text \<open>
  The invariant of a connection: no queued vector is empty, and while data is queued the
  connection asks to be told when it can write.
\<close>

definition tc_inv :: "tcp_conn \<Rightarrow> bool" where
  "tc_inv c \<longleftrightarrow> nonempty_vecs (tc_iovecList c) \<and>
     (tc_isClosed c \<or> tc_iovecList c = [] \<or> bit (ch_event (tc_chan c)) 2)"

lemma bit_write_on [simp]: "bit (ch_event (with_writing b ch)) 2 = b"
  by (simp add: bit_with_writing)

lemma write_loop_ok:
  assumes "nonempty_vecs (tc_iovecList c)" and "tc_iovecList c \<noteq> []" and "tc_inv c"
  shows "\<exists>evs c' ws'. write_loop mem ws c = Some (Inr (evs, c', ws')) \<and> wrote evs @ pending mem c' = pending mem c \<and> tc_inv c'
    \<and> (tc_isClosed c \<longrightarrow> tc_isClosed c')"
  using assms
proof (induction ws arbitrary: c)
  case Nil
  have "total_len (tc_iovecList c) \<noteq> 0" using Nil nonempty_total by blast
  then show ?case
    using Nil by (subst write_loop.simps) (auto simp: sys_writev_def transient_def EINVAL_def EINTR_def EAGAIN_def pending_def
        tc_inv_def OnClose_def Channel_Close_def Let_def split: prod.split)
next
  case (Cons w ws)
  have t0: "total_len (tc_iovecList c) \<noteq> 0" using Cons nonempty_total by blast
  have close: "\<exists>evs c'. OnClose c = (evs, c') \<and> wrote evs @ pending mem c' = pending mem c \<and> tc_inv c' \<and> tc_isClosed c'"
    using Cons.prems OnClose_wrote [of c] by (cases "OnClose c") (auto simp: pending_def tc_inv_def)
  show ?case
  proof (cases "kIovMax < length (tc_iovecList c)")
    case True
    then show ?thesis using close
      by (subst write_loop.simps) (auto simp: sys_writev_def transient_def EINVAL_def EINTR_def EAGAIN_def)
  next
    case small: False
    show ?thesis
    proof (cases w)
      case (Inl err)
      then show ?thesis using close small t0 Cons.prems by (subst write_loop.simps) (auto simp: sys_writev_def)
    next
      case (Inr n)
      let ?n = "min n (total_len (tc_iovecList c))"
      obtain vs where vs: "consume ?n (tc_iovecList c) = Inr vs" "vecs_bytes mem vs = drop ?n (vecs_bytes mem (tc_iovecList c))"
        "nonempty_vecs vs" using consume_ok [of ?n "tc_iovecList c" mem] Cons.prems by auto
      let ?c = "c\<lparr>tc_iovecList := vs\<rparr>"
      have split: "take ?n (vecs_bytes mem (tc_iovecList c)) @ vecs_bytes mem vs = vecs_bytes mem (tc_iovecList c)"
        using vs(2) by simp
      have sys: "sys_writev (w # ws) (tc_iovecList c) = (Inr ?n, ws)" using small t0 Inr by (simp add: sys_writev_def)
      show ?thesis
      proof (cases "vs = []")
        case True
        obtain evs c' where wd: "write_done ?c = (evs, c')" by (cases "write_done ?c") auto
        then have "wrote evs = []" "tc_iovecList c' = []" "tc_isClosed c' = tc_isClosed c"
          using write_done_fields [of ?c] True by simp_all
        then show ?thesis using vs split True wd
          by (subst write_loop.simps) (simp add: sys Let_def pending_def tc_inv_def)
      next
        case False
        have "tc_inv ?c" using Cons.prems vs(3) by (auto simp: tc_inv_def)
        from Cons.IH [of ?c] this vs False obtain evs c' ws' where
          ih: "write_loop mem ws ?c = Some (Inr (evs, c', ws'))" "wrote evs @ pending mem c' = pending mem ?c" "tc_inv c'"
            "tc_isClosed c \<longrightarrow> tc_isClosed c'" by auto
        then show ?thesis using vs(1) split False by (subst write_loop.simps) (simp add: sys Let_def pending_def)
      qed
    qed
  qed
qed

section \<open>Histories of sending\<close>

text \<open>
  The calls that send, write or close, in any order; \<open>Op_Send\<close> carries the result of its
  \<open>write\<close> and \<open>Op_OnWrite\<close> those of its \<open>writev\<close> calls.
\<close>

datatype tc_op =
    Op_Send nat nat "int + nat"
  | Op_SendList "(nat \<times> nat) list"
  | Op_OnWrite "(int + nat) list"
  | Op_Close

type_synonym op_result = "(tc_event list \<times> tcp_conn) result option"

fun run_op :: "memory \<Rightarrow> tc_op \<Rightarrow> tcp_conn \<Rightarrow> op_result" where
  "run_op mem (Op_Send buf n w) c = Some (Inr (SendInLoop mem buf n w c))"
| "run_op mem (Op_SendList nodes) c = Some (Inr (SendInLoop_list nodes c))"
| "run_op mem (Op_OnWrite ws) c = map_option (\<lambda>r. bindR r (\<lambda>(evs, c', ws'). Inr (evs, c'))) (OnWrite mem ws c)"
| "run_op mem Op_Close c = Some (Inr (OnClose c))"

fun run_ops :: "memory \<Rightarrow> tc_op list \<Rightarrow> tcp_conn \<Rightarrow> op_result" where
  "run_ops mem [] c = Some (Inr ([], c))"
| "run_ops mem (x # ops) c =
     (case run_op mem x c of
        None \<Rightarrow> None
      | Some (Inl e) \<Rightarrow> Some (Inl e)
      | Some (Inr (evs, c')) \<Rightarrow> map_option (\<lambda>r. bindR r (\<lambda>(evs', c''). Inr (evs @ evs', c''))) (run_ops mem ops c'))"

text \<open>The bytes a call offers; what an open connection takes of them, which after the failure of a
  direct \<open>write\<close> are one more, from one address earlier; and calls without empty nodes.\<close>

fun offered :: "memory \<Rightarrow> tc_op \<Rightarrow> string" where
  "offered mem (Op_Send buf n w) = mem_bytes mem buf n"
| "offered mem (Op_SendList nodes) = concat (map (\<lambda>(a, s). mem_bytes mem a s) nodes)"
| "offered mem (Op_OnWrite ws) = []"
| "offered mem Op_Close = []"

definition shifted :: "memory \<Rightarrow> nat \<Rightarrow> nat \<Rightarrow> string" where
  "shifted mem buf n = mem_bytes mem (padd buf (two64 - 1)) (n + 1)"

fun op_takes :: "memory \<Rightarrow> tcp_conn \<Rightarrow> tc_op \<Rightarrow> string" where
  "op_takes mem c (Op_Send buf n w) =
     (if tc_isClosed c then [] else if tc_iovecList c = [] \<and> isl w then shifted mem buf n else mem_bytes mem buf n)"
| "op_takes mem c x = (if tc_isClosed c then [] else offered mem x)"

fun op_ok :: "tc_op \<Rightarrow> bool" where
  "op_ok (Op_Send buf n w) \<longleftrightarrow> n + 1 < two64"
| "op_ok (Op_SendList nodes) \<longleftrightarrow> list_all (\<lambda>(a, s). 0 < s) nodes"
| "op_ok (Op_OnWrite ws) \<longleftrightarrow> True"
| "op_ok Op_Close \<longleftrightarrow> True"

text \<open>What one call does to the stream.\<close>

definition op_spec :: "memory \<Rightarrow> tcp_conn \<Rightarrow> string \<Rightarrow> tc_event list \<Rightarrow> tcp_conn \<Rightarrow> bool" where
  "op_spec mem c d evs c' \<longleftrightarrow>
     tc_inv c' \<and> (tc_isClosed c \<longrightarrow> tc_isClosed c') \<and>
     wrote evs @ pending mem c' = pending mem c @ d"

lemma SendInLoop_spec:
  assumes inv: "tc_inv c" and n: "n < two64" and w: "\<not> isl w"
  shows "op_spec mem c (if tc_isClosed c then [] else mem_bytes mem buf n) (fst (SendInLoop mem buf n w c)) (snd (SendInLoop mem buf n w c))"
proof (cases "tc_isClosed c \<or> tc_iovecList c \<noteq> []")
  case True
  then show ?thesis using inv by (auto simp: SendInLoop_def op_spec_def tc_inv_def pending_def vec_bytes_def)
next
  case False
  obtain m where m: "w = Inr m" using w by (cases w) auto
  define k where "k = min m n"
  have k: "k \<le> n" and ret: "write_ret w n = int k" by (simp_all add: k_def m write_ret_def)
  have len: "nat (int k mod int two64) = k" using n k by (simp add: nat_mod_distrib)
  obtain evs c' where p: "push_vec (padd buf k) (n - k) c = (evs, c')" by (cases "push_vec (padd buf k) (n - k) c")
  have f: "wrote evs = []" "tc_iovecList c' = tc_iovecList c @ [\<lparr>iov_base = padd buf k, iov_len = n - k\<rparr>]"
    "tc_isClosed c' = tc_isClosed c" "tc_chan c' = with_writing True (tc_chan c)"
    using push_vec_fields [of "padd buf k" "n - k" c] by (simp_all add: p)
  show ?thesis
  proof (cases "n = k")
    case True
    then show ?thesis using False inv unfolding SendInLoop_def ret len Let_def
      by (simp add: op_spec_def taken_def pending_def tc_inv_def)
  next
    case rest: False
    then have "\<not> n \<le> k" using k by simp
    then show ?thesis using rest False inv unfolding SendInLoop_def ret len Let_def
      by (simp add: op_spec_def taken_def pending_def tc_inv_def f p vec_bytes_def mem_bytes_split k)
  qed
qed

text \<open>A direct \<open>write\<close> that fails: -1 becomes the largest \<open>size_t\<close>.\<close>

lemma failed_write:
  assumes "\<not> tc_isClosed c" and "tc_iovecList c = []" and "n + 1 < two64"
  shows "SendInLoop mem buf n (Inl err) c = push_vec (padd buf (two64 - 1)) (n + 1) c"
proof -
  have len: "nat (write_ret (Inl err) n mod int two64) = two64 - 1" by (simp add: write_ret_def two64_def)
  have rest: "usub n (two64 - 1) = n + 1" using assms(3) by (simp add: usub_def two64_def)
  show ?thesis using assms(1,2) unfolding SendInLoop_def len rest Let_def by (simp add: taken_def write_ret_def)
qed

lemma failed_SendInLoop_spec:
  assumes "tc_inv c" and "\<not> tc_isClosed c" and "tc_iovecList c = []" and "n + 1 < two64"
  shows "op_spec mem c (shifted mem buf n) (fst (SendInLoop mem buf n (Inl err) c)) (snd (SendInLoop mem buf n (Inl err) c))"
  using assms(1-3) unfolding failed_write [OF assms(2-4)]
  by (simp add: op_spec_def tc_inv_def pending_def shifted_def vec_bytes_def)

lemma SendInLoop_list_spec:
  assumes inv: "tc_inv c" and pos: "list_all (\<lambda>(a, s). 0 < s) nodes"
  shows "op_spec mem c (if tc_isClosed c then [] else concat (map (\<lambda>(a, s). mem_bytes mem a s) nodes)) (fst (SendInLoop_list nodes c)) (snd (SendInLoop_list nodes c))"
proof -
  let ?vs = "map (\<lambda>(a, s). \<lparr>iov_base = a, iov_len = s\<rparr>) nodes"
  have b: "vecs_bytes mem ?vs = concat (map (\<lambda>(a, s). mem_bytes mem a s) nodes)"
    by (induction nodes) (auto simp: vec_bytes_def)
  have "nonempty_vecs ?vs" using pos by (induction nodes) auto
  then show ?thesis using inv b
    by (auto simp: SendInLoop_list_def op_spec_def Let_def pending_def tc_inv_def)
qed

lemma OnWrite_spec:
  assumes inv: "tc_inv c"
  shows "\<exists>evs c' ws'. OnWrite mem ws c = Some (Inr (evs, c', ws')) \<and> op_spec mem c [] evs c'"
proof (cases "tc_isClosed c \<or> tc_iovecList c = []")
  case True
  obtain evs c' where wd: "write_done c = (evs, c')" by (cases "write_done c")
  then have "wrote evs = []" "tc_iovecList c' = tc_iovecList c" "tc_isClosed c' = tc_isClosed c"
    using write_done_fields [of c] by simp_all
  then show ?thesis using True inv by (auto simp: OnWrite_def wd op_spec_def tc_inv_def pending_def)
next
  case False
  then have "nonempty_vecs (tc_iovecList c)" using inv by (simp add: tc_inv_def)
  then obtain evs c' ws' where "write_loop mem ws c = Some (Inr (evs, c', ws'))"
    "wrote evs @ pending mem c' = pending mem c" "tc_inv c'"
    using write_loop_ok [of c mem ws] inv False by blast
  then show ?thesis using False by (simp add: OnWrite_def op_spec_def)
qed

lemma run_op_spec:
  "tc_inv c \<Longrightarrow> op_ok x \<Longrightarrow> \<exists>evs c'. run_op mem x c = Some (Inr (evs, c')) \<and> op_spec mem c (op_takes mem c x) evs c'"
proof (induction x)
  case (Op_Send buf n w)
  obtain evs c' where r: "SendInLoop mem buf n w c = (evs, c')" by fastforce
  have "op_spec mem c (op_takes mem c (Op_Send buf n w)) evs c'"
  proof (cases w)
    case (Inr k)
    then show ?thesis using SendInLoop_spec [of c n w mem buf] Op_Send r by (cases "tc_isClosed c") simp_all
  next
    case (Inl err)
    show ?thesis
    proof (cases "tc_isClosed c \<or> tc_iovecList c \<noteq> []")
      case True
      then have "SendInLoop mem buf n (Inr 0) c = (evs, c')" using r by (cases "tc_isClosed c") (simp_all add: SendInLoop_def)
      then show ?thesis using SendInLoop_spec [of c n "Inr 0" mem buf] Op_Send True by auto
    next
      case False
      then show ?thesis using failed_SendInLoop_spec [of c n mem buf err] Op_Send r Inl by simp
    qed
  qed
  then show ?case using r by simp
next
  case (Op_SendList nodes)
  then show ?case using SendInLoop_list_spec [of c nodes mem] by (cases "SendInLoop_list nodes c"; cases "tc_isClosed c") simp_all
next
  case (Op_OnWrite ws)
  then show ?case using OnWrite_spec [of c mem ws] by auto
next
  case Op_Close
  then show ?case using OnClose_wrote [of c] by (cases "OnClose c") (simp add: op_spec_def tc_inv_def pending_def)
qed

lemma closed_run_op: "tc_isClosed c \<Longrightarrow> run_op mem x c = Some (Inr ([], c))"
  by (cases x) (simp_all add: SendInLoop_def SendInLoop_list_def OnWrite_def OnClose_def)

lemma closed_run_ops: "tc_isClosed c \<Longrightarrow> run_ops mem ops c = Some (Inr ([], c))"
  by (induction ops) (simp_all add: closed_run_op)

section \<open>Callers that share memory\<close>

text \<open>
  A posted function holds the address of the bytes to send, or a reference to the list of nodes, and
  not their contents. The memory and the list objects of the program may be written at any time
  (\<open>Store\<close>); a call by reference reads the list \<open>l\<close> when it runs, as \<open>mk\<close> of its contents.
\<close>

datatype ('x, 'n) shared_call = Call 'x | Call_list nat | Store memory "nat \<Rightarrow> 'n list"

type_synonym ('n, 'c) shared = "memory \<times> (nat \<Rightarrow> 'n list) \<times> 'c"
type_synonym ('x, 'c, 'e) shared_op = "memory \<Rightarrow> 'x \<Rightarrow> 'c \<Rightarrow> ('e list \<times> 'c) result option"

definition in_memory :: "memory \<Rightarrow> (nat \<Rightarrow> 'n list) \<Rightarrow> ('e list \<times> 'c) result option \<Rightarrow> ('e list \<times> ('n, 'c) shared) result option" where
  "in_memory m ls r = map_option (\<lambda>r. bindR r (\<lambda>(evs, c'). Inr (evs, m, ls, c'))) r"

fun shared_run :: "('x, 'c, 'e) shared_op \<Rightarrow> ('n list \<Rightarrow> 'x) \<Rightarrow> ('x, 'n) shared_call \<Rightarrow> ('n, 'c) shared
    \<Rightarrow> ('e list \<times> ('n, 'c) shared) result option" where
  "shared_run run mk (Call x) (m, ls, c) = in_memory m ls (run m x c)"
| "shared_run run mk (Call_list l) (m, ls, c) = in_memory m ls (run m (mk (ls l)) c)"
| "shared_run run mk (Store m' ls') (m, ls, c) = Some (Inr ([], m', ls', c))"

fun shared_runs :: "('x, 'c, 'e) shared_op \<Rightarrow> ('n list \<Rightarrow> 'x) \<Rightarrow> ('x, 'n) shared_call list \<Rightarrow> ('n, 'c) shared
    \<Rightarrow> ('e list \<times> ('n, 'c) shared) result option" where
  "shared_runs run mk [] w = Some (Inr ([], w))"
| "shared_runs run mk (x # xs) w =
     (case shared_run run mk x w of
        None \<Rightarrow> None
      | Some (Inl e) \<Rightarrow> Some (Inl e)
      | Some (Inr (evs, w')) \<Rightarrow> map_option (\<lambda>r. bindR r (\<lambda>(evs', w''). Inr (evs @ evs', w''))) (shared_runs run mk xs w'))"

text \<open>Along a run: what \<open>f\<close> gives for each call in the state it meets, and whether each meets \<open>P\<close>.\<close>

fun along_run :: "('x, 'c, 'e) shared_op \<Rightarrow> ('n list \<Rightarrow> 'x) \<Rightarrow> (('x, 'n) shared_call \<Rightarrow> ('n, 'c) shared \<Rightarrow> 'd list) \<Rightarrow>
    ('x, 'n) shared_call list \<Rightarrow> ('n, 'c) shared \<Rightarrow> 'd list" where
  "along_run run mk f [] w = []"
| "along_run run mk f (x # xs) w =
     f x w @ (case shared_run run mk x w of Some (Inr (evs, w')) \<Rightarrow> along_run run mk f xs w' | _ \<Rightarrow> [])"

fun all_run :: "('x, 'c, 'e) shared_op \<Rightarrow> ('n list \<Rightarrow> 'x) \<Rightarrow> (('x, 'n) shared_call \<Rightarrow> ('n, 'c) shared \<Rightarrow> bool) \<Rightarrow>
    ('x, 'n) shared_call list \<Rightarrow> ('n, 'c) shared \<Rightarrow> bool" where
  "all_run run mk P [] w \<longleftrightarrow> True"
| "all_run run mk P (x # xs) w \<longleftrightarrow>
     P x w \<and> (case shared_run run mk x w of Some (Inr (evs, w')) \<Rightarrow> all_run run mk P xs w' | _ \<Rightarrow> True)"

text \<open>
  The contract of a queue whose contents stay in the caller's memory: a call keeps the invariant \<open>I\<close>,
  and what it sends out (\<open>out\<close>) with what is then left (\<open>left\<close>) is what was left before and what the
  call takes.
\<close>

locale shared_queue =
  fixes run :: "('x, 'c, 'e) shared_op" and mk :: "'n list \<Rightarrow> 'x" and I :: "'c \<Rightarrow> bool"
    and P :: "('x, 'n) shared_call \<Rightarrow> ('n, 'c) shared \<Rightarrow> bool" and f :: "('x, 'n) shared_call \<Rightarrow> ('n, 'c) shared \<Rightarrow> 'd list"
    and out :: "'e list \<Rightarrow> 'd list" and left :: "memory \<Rightarrow> 'c \<Rightarrow> 'd list"
  assumes call: "I c \<Longrightarrow> P x (m, ls, c) \<Longrightarrow> \<exists>evs m' ls' c'. shared_run run mk x (m, ls, c) = Some (Inr (evs, m', ls', c')) \<and> I c' \<and>
      out evs @ left m' c' = left m c @ f x (m, ls, c)"
    and out_empty: "out [] = []"
    and out_append: "out (es @ fs) = out es @ out fs"
begin

lemma runs:
  "I c \<Longrightarrow> all_run run mk P xs (m, ls, c) \<Longrightarrow> \<exists>evs m' ls' c'. shared_runs run mk xs (m, ls, c) = Some (Inr (evs, m', ls', c')) \<and> I c' \<and>
     out evs @ left m' c' = left m c @ along_run run mk f xs (m, ls, c)"
proof (induction xs arbitrary: m ls c)
  case Nil
  then show ?case by (simp add: out_empty)
next
  case (Cons x xs)
  obtain evs m1 ls1 c1 where 1: "shared_run run mk x (m, ls, c) = Some (Inr (evs, m1, ls1, c1))" "I c1"
    "out evs @ left m1 c1 = left m c @ f x (m, ls, c)"
    using call [OF Cons.prems(1), of x m ls] Cons.prems(2) by (meson all_run.simps(2))
  have "all_run run mk P xs (m1, ls1, c1)" using Cons.prems(2) 1(1) by simp
  from Cons.IH [OF 1(2) this] obtain evs' m2 ls2 c2 where 2: "shared_runs run mk xs (m1, ls1, c1) = Some (Inr (evs', m2, ls2, c2))"
    "I c2" "out evs' @ left m2 c2 = left m1 c1 @ along_run run mk f xs (m1, ls1, c1)" by blast
  have "out (evs @ evs') @ left m2 c2 = (out evs @ left m1 c1) @ along_run run mk f xs (m1, ls1, c1)"
    using 2(3) by (simp add: out_append)
  then show ?case using 1 2(1,2) by simp
qed

end

text \<open>The calls on a connection: what each takes, and the calls that send no empty node and leave the
  bytes that are still queued as they are.\<close>

type_synonym conn_call = "(tc_op, nat \<times> nat) shared_call"
type_synonym conn_world = "(nat \<times> nat, tcp_conn) shared"

fun call_takes :: "conn_call \<Rightarrow> conn_world \<Rightarrow> string" where
  "call_takes (Call x) (m, ls, c) = op_takes m c x"
| "call_takes (Call_list l) (m, ls, c) = op_takes m c (Op_SendList (ls l))"
| "call_takes (Store m' ls') (m, ls, c) = []"

fun send_ok :: "conn_call \<Rightarrow> conn_world \<Rightarrow> bool" where
  "send_ok (Call x) (m, ls, c) \<longleftrightarrow> op_ok x"
| "send_ok (Call_list l) (m, ls, c) \<longleftrightarrow> op_ok (Op_SendList (ls l))"
| "send_ok (Store m' ls') (m, ls, c) \<longleftrightarrow> pending m' c = pending m c"

definition conn_runs :: "conn_call list \<Rightarrow> conn_world \<Rightarrow> (tc_event list \<times> conn_world) result option" where
  "conn_runs = shared_runs run_op Op_SendList"

definition taken_along :: "conn_call list \<Rightarrow> conn_world \<Rightarrow> string" where
  "taken_along = along_run run_op Op_SendList call_takes"

definition sends_ok :: "conn_call list \<Rightarrow> conn_world \<Rightarrow> bool" where
  "sends_ok = all_run run_op Op_SendList send_ok"

interpretation conn_queue: shared_queue run_op Op_SendList tc_inv send_ok call_takes wrote pending
proof
  fix c x m ls
  assume inv: "tc_inv c" and ok: "send_ok x (m, ls, c)"
  have op: "\<exists>evs c'. in_memory m ls (run_op m y c) = Some (Inr (evs, m, ls, c')) \<and> tc_inv c' \<and>
      wrote evs @ pending m c' = pending m c @ op_takes m c y" if "op_ok y" for y
    using run_op_spec [OF inv that, of m] by (auto simp: in_memory_def op_spec_def)
  show "\<exists>evs m' ls' c'. shared_run run_op Op_SendList x (m, ls, c) = Some (Inr (evs, m', ls', c')) \<and> tc_inv c' \<and>
    wrote evs @ pending m' c' = pending m c @ call_takes x (m, ls, c)"
  proof (cases x)
    case (Call y)
    then show ?thesis using op [of y] ok by auto
  next
    case (Call_list l)
    then show ?thesis using op [of "Op_SendList (ls l)"] ok unfolding Call_list shared_run.simps call_takes.simps send_ok.simps by blast
  next
    case (Store m' ls')
    then show ?thesis using inv ok by simp
  qed
qed simp_all

lemma conn_runs_spec:
  "tc_inv c \<Longrightarrow> sends_ok xs (m, ls, c) \<Longrightarrow> \<exists>evs m' ls' c'. conn_runs xs (m, ls, c) = Some (Inr (evs, m', ls', c')) \<and> tc_inv c' \<and>
     wrote evs @ pending m' c' = pending m c @ taken_along xs (m, ls, c)"
  unfolding conn_runs_def sends_ok_def taken_along_def by (rule conn_queue.runs)

section \<open>Properties\<close>

text \<open>C3: a connection is a queue of bytes. Over any sequence of sends of buffers and of lists (also lists
  held by reference), write events with any results, close requests and writes to the caller's
  memory and lists that leave the queued bytes as they are: every call returns, and what went out
  and what is still queued are, in order, what was queued before and what each call took. An open
  connection takes all bytes of a call as they are when it runs, except that the failure of a direct
  \<open>write\<close> makes it take one more, from the address before; a closed one takes nothing. While data is
  queued an open connection is watched for writing. No list has an empty node.\<close>

theorem sends_in_order:
  assumes "tc_inv c" and "sends_ok xs (m, ls, c)"
  shows "\<exists>evs m' ls' c'. conn_runs xs (m, ls, c) = Some (Inr (evs, m', ls', c')) \<and>
    wrote evs @ pending m' c' = pending m c @ taken_along xs (m, ls, c) \<and>
    (if tc_isClosed c' \<or> pending m' c' = [] then True else bit (ch_event (tc_chan c')) 2)"
proof -
  obtain evs m' ls' c' where r: "conn_runs xs (m, ls, c) = Some (Inr (evs, m', ls', c'))" "tc_inv c'"
    "wrote evs @ pending m' c' = pending m c @ taken_along xs (m, ls, c)"
    using conn_runs_spec [OF assms] by blast
  have "if tc_isClosed c' \<or> pending m' c' = [] then True else bit (ch_event (tc_chan c')) 2"
    using r(2) by (auto simp: tc_inv_def pending_def)
  with r show ?thesis by blast
qed

lemma tc_inv_new: "tc_inv (new_TcpConnection fd)"
  by (simp add: tc_inv_def new_TcpConnection_def)

text \<open>Memory with the text \<open>s\<close> at address 100.\<close>

definition memory_of :: "string \<Rightarrow> memory" where
  "memory_of s a = (if 100 \<le> a \<and> a < 100 + length s then s ! (a - 100) else CHR ''?'')"

lemma memory_of_hello: "mem_bytes (memory_of ''hello'') 100 5 = ''hello''" "mem_bytes (memory_of ''hello'') 100 2 = ''he''"
  "mem_bytes (memory_of ''hello'') 103 2 = ''lo''" "mem_bytes (memory_of ''HELlo'') 103 2 = ''lo''"
  "mem_bytes (memory_of ''HELlo'') 100 2 = ''HE''"
  by (simp_all add: mem_bytes_def padd_def two64_def memory_of_def upt_conv_Cons)

text \<open>Three of five bytes go out, the caller writes over these three and sends a list by reference.\<close>

definition sample_sends :: "conn_call list" where
  "sample_sends = [Call (Op_Send 100 5 (Inr 3)), Store (memory_of ''HELlo'') (\<lambda>_. [(100, 2)]), Call_list 7]"

lemma sample_sends_run:
  "sends_ok sample_sends (memory_of ''hello'', \<lambda>_. [], new_TcpConnection 5) \<and>
    taken_along sample_sends (memory_of ''hello'', \<lambda>_. [], new_TcpConnection 5) = ''helloHE''"
proof -
  have len: "nat (write_ret (Inr 3) 5 mod int two64) = 3" by (simp add: write_ret_def two64_def)
  have usub: "usub 5 3 = 2" by (simp add: usub_def)
  have a: "padd 100 3 = 103" by (simp add: padd_def two64_def)
  obtain evs c where p: "push_vec 103 2 (new_TcpConnection 5) = (evs, c)" by fastforce
  then have c: "tc_iovecList c = [\<lparr>iov_base = 103, iov_len = 2\<rparr>]" "\<not> tc_isClosed c"
    using push_vec_fields [of 103 2 "new_TcpConnection 5"] by (simp_all add: new_TcpConnection_def)
  have s: "SendInLoop (memory_of ''hello'') 100 5 (Inr 3) (new_TcpConnection 5)
      = (taken (memory_of ''hello'') 100 (write_ret (Inr 3) 5) @ evs, c)"
    unfolding SendInLoop_def len usub a Let_def p by (simp add: new_TcpConnection_def)
  obtain evs2 c2 where s2: "SendInLoop_list [(100, 2)] c = (evs2, c2)" by fastforce
  show ?thesis
    using c s s2 by (simp add: sends_ok_def taken_along_def sample_sends_def in_memory_def pending_def vec_bytes_def memory_of_hello two64_def)
      (simp add: new_TcpConnection_def)
qed

theorem sends_in_order_witness:
  "\<exists>evs m' ls' c'. conn_runs sample_sends (memory_of ''hello'', \<lambda>_. [], new_TcpConnection 5) = Some (Inr (evs, m', ls', c')) \<and>
    wrote evs @ pending m' c' = ''helloHE''"
proof -
  have "pending (memory_of ''hello'') (new_TcpConnection 5) = []" by (simp add: pending_def new_TcpConnection_def)
  then show ?thesis
    using sends_in_order [OF tc_inv_new [of 5] conjunct1 [OF sample_sends_run]] unfolding conjunct2 [OF sample_sends_run] by auto
qed

text \<open>C37: when the \<open>write\<close> of a direct send fails, for whatever reason, the failure is not
  noticed: the value -1 becomes the largest \<open>size_t\<close>, the connection stays open, and what is
  queued is one byte longer and starts one byte before the caller's buffer.\<close>

theorem failed_write_shifts:
  assumes "\<not> tc_isClosed c" and "tc_iovecList c = []" and "0 < buf" and "buf + n < two64" and "n + 1 < two64"
  shows "\<exists>evs c'. SendInLoop mem buf n (Inl err) c = (evs, c') \<and> \<not> tc_isClosed c' \<and>
    wrote evs = [] \<and> pending mem c' = mem (buf - 1) # mem_bytes mem buf n"
proof -
  have a: "padd buf (two64 - 1) = buf - 1"
  proof -
    have "buf + (two64 - 1) = (buf - 1) + two64" using assms(3) by (simp add: two64_def)
    then have "padd buf (two64 - 1) = ((buf - 1) + two64) mod two64" by (simp only: padd_def)
    also have "\<dots> = buf - 1" using assms(3,4) by (simp only: mod_add_self2) simp
    finally show ?thesis .
  qed
  have "padd (buf - 1) 1 = buf" "padd (buf - 1) 0 = buf - 1" using assms(3,4) by (simp_all add: padd_def)
  moreover have "mem_bytes mem (buf - 1) 1 = [mem (padd (buf - 1) 0)]" by (simp add: mem_bytes_def)
  ultimately have "mem_bytes mem (buf - 1) (n + 1) = mem (buf - 1) # mem_bytes mem buf n"
    using mem_bytes_split [of 1 "n + 1" mem "buf - 1"] by simp
  moreover obtain evs c' where p: "push_vec (buf - 1) (n + 1) c = (evs, c')" by fastforce
  moreover have "SendInLoop mem buf n (Inl err) c = (evs, c')" using failed_write [OF assms(1,2,5), of mem buf err] unfolding a p .
  ultimately show ?thesis using assms(1,2) push_vec_fields [of "buf - 1" "n + 1" c] by (simp add: pending_def vec_bytes_def)
qed

theorem failed_write_shifts_witness:
  "\<exists>evs c'. SendInLoop (memory_of ''hello'') 101 4 (Inl EAGAIN) (new_TcpConnection 5) = (evs, c') \<and> \<not> tc_isClosed c' \<and>
    wrote evs = [] \<and> pending (memory_of ''hello'') c' = ''hello''"
proof -
  have eq: "memory_of ''hello'' (101 - 1) # mem_bytes (memory_of ''hello'') 101 4 = ''hello''"
    by (simp add: mem_bytes_def padd_def two64_def memory_of_def upt_conv_Cons)
  have a: "\<not> tc_isClosed (new_TcpConnection 5)" "tc_iovecList (new_TcpConnection 5) = []"
    "(0::nat) < 101" "101 + 4 < two64" "4 + 1 < two64" by (simp_all add: new_TcpConnection_def two64_def)
  show ?thesis using failed_write_shifts [OF a, of "memory_of ''hello''" EAGAIN] unfolding eq .
qed

lemma write_loop_idle: "tc_iovecList c \<noteq> [] \<and> total_len (tc_iovecList c) = 0 \<and> length (tc_iovecList c) \<le> kIovMax \<Longrightarrow>
  write_loop mem ws c = None"
proof -
  have "write_loop mem ws c = Some r \<Longrightarrow>
      \<not> (tc_iovecList c \<noteq> [] \<and> total_len (tc_iovecList c) = 0 \<and> length (tc_iovecList c) \<le> kIovMax)" for r
  proof (rule write_loop.raw_induct [where P = "\<lambda>mem ws c r.
      \<not> (tc_iovecList c \<noteq> [] \<and> total_len (tc_iovecList c) = 0 \<and> length (tc_iovecList c) \<le> kIovMax)"])
    fix loop :: "memory \<Rightarrow> (int + nat) list \<Rightarrow> tcp_conn \<Rightarrow> write_result option" and mem ws c r
    assume IH: "\<And>mem ws c r. loop mem ws c = Some r \<Longrightarrow>
        \<not> (tc_iovecList c \<noteq> [] \<and> total_len (tc_iovecList c) = 0 \<and> length (tc_iovecList c) \<le> kIovMax)"
      and r: "(case sys_writev ws (tc_iovecList c) of
        (Inl err, ws') \<Rightarrow>
          (if transient err then Some (Inr ([], c, ws'))
           else (let (evs, c') = OnClose c in Some (Inr (evs, c', ws'))))
      | (Inr n, ws') \<Rightarrow>
          (case consume n (tc_iovecList c) of
             Inl e \<Rightarrow> Some (Inl e)
           | Inr vs \<Rightarrow>
               (let c1 = c\<lparr>tc_iovecList := vs\<rparr>; out = Wrote (take n (vecs_bytes mem (tc_iovecList c)))
                in if vs = [] then
                     (let (evs, c') = write_done c1 in Some (Inr (out # evs, c', ws')))
                   else
                     Option.bind (loop mem ws' c1)
                       (\<lambda>r. Some (bindR r (\<lambda>(evs, c', ws''). Inr (out # evs, c', ws'')))))))
        = Some r"
    show "\<not> (tc_iovecList c \<noteq> [] \<and> total_len (tc_iovecList c) = 0 \<and> length (tc_iovecList c) \<le> kIovMax)"
    proof
      assume z: "tc_iovecList c \<noteq> [] \<and> total_len (tc_iovecList c) = 0 \<and> length (tc_iovecList c) \<le> kIovMax"
      then have "sys_writev ws (tc_iovecList c) = (Inr 0, ws)" by (simp add: sys_writev_def)
      with r z obtain r' where "loop mem ws c = Some r'" by (auto simp: Let_def bind_eq_Some_conv)
      with IH [OF this] z show False by blast
    qed
  qed
  then show "tc_iovecList c \<noteq> [] \<and> total_len (tc_iovecList c) = 0 \<and> length (tc_iovecList c) \<le> kIovMax \<Longrightarrow> write_loop mem ws c = None"
    by (cases "write_loop mem ws c") blast+
qed

lemma consume_all: "0 < n \<Longrightarrow> iov_len v = 0 \<Longrightarrow> iov_len u = n \<Longrightarrow> consume n [u, v] = Inr [v]"
  by (simp add: consume.simps [of n])

text \<open>An empty node queued last makes \<open>OnWrite\<close> run for ever once the kernel has taken all
  bytes: the list never becomes empty and \<open>writev\<close> of nothing succeeds.\<close>

theorem empty_node_hangs:
  assumes "\<not> tc_isClosed c" and "tc_iovecList c = []" and "0 < n" and "n \<le> k"
  shows "OnWrite mem (Inr k # ws) (snd (SendInLoop_list [(a, n), (b, 0)] c)) = None"
proof -
  let ?vs = "[\<lparr>iov_base = a, iov_len = n\<rparr>, \<lparr>iov_base = b, iov_len = 0\<rparr>]"
  obtain c' where c': "snd (SendInLoop_list [(a, n), (b, 0)] c) = c'" "tc_iovecList c' = ?vs" "\<not> tc_isClosed c'"
    using assms(1,2) by (auto simp: SendInLoop_list_def)
  have sys: "sys_writev (Inr k # ws) ?vs = (Inr n, ws)" using assms(3,4) by (simp add: sys_writev_def kIovMax_def)
  have con: "consume n ?vs = Inr [\<lparr>iov_base = b, iov_len = 0\<rparr>]" using assms(3) by (simp add: consume_all)
  have "write_loop mem ws (c'\<lparr>tc_iovecList := [\<lparr>iov_base = b, iov_len = 0\<rparr>]\<rparr>) = None"
    by (rule write_loop_idle) (simp add: kIovMax_def)
  then have "write_loop mem (Inr k # ws) c' = None"
    by (subst write_loop.simps) (simp add: c'(2) sys con Let_def)
  then show ?thesis using c' by (simp add: OnWrite_def)
qed

theorem empty_node_hangs_witness:
  "OnWrite (\<lambda>_. CHR ''a'') [Inr 10] (snd (SendInLoop_list [(100, 5), (200, 0)] (new_TcpConnection 5))) = None"
  by (rule empty_node_hangs) (simp_all add: new_TcpConnection_def)

section \<open>Closing happens once\<close>

text \<open>
  What a call emits around a close: either the connection stays open and nothing is closed, or
  the last two events are the close callback and the close of the descriptor. The channel of
  the connection is the old one with the emitted changes.
\<close>

fun quiet_event :: "tc_event \<Rightarrow> bool" where
  "quiet_event Close_cb \<longleftrightarrow> False"
| "quiet_event (Closed_fd fd) \<longleftrightarrow> False"
| "quiet_event _ \<longleftrightarrow> True"

fun chan_event :: "tc_event \<Rightarrow> channel \<Rightarrow> channel" where
  "chan_event (Interest m) ch = ch\<lparr>ch_event := m\<rparr>"
| "chan_event (Closed_fd fd) ch = ch\<lparr>ch_fd := -1\<rparr>"
| "chan_event _ ch = ch"

definition quiet_run :: "tc_event list \<Rightarrow> bool" where
  "quiet_run evs \<longleftrightarrow> list_all quiet_event evs"

fun idle_event :: "int \<Rightarrow> tc_event \<Rightarrow> bool" where
  "idle_event n (Insert_entry m) \<longleftrightarrow> m = n"
| "idle_event n _ \<longleftrightarrow> True"

definition close_spec :: "tcp_conn \<Rightarrow> tc_event list \<Rightarrow> tcp_conn \<Rightarrow> bool" where
  "close_spec c evs c' \<longleftrightarrow> tc_closeCb c' = tc_closeCb c \<and> fold chan_event evs (tc_chan c) = tc_chan c' \<and>
     tc_maxIdleTime c' = tc_maxIdleTime c \<and> list_all (idle_event (tc_maxIdleTime c)) evs \<and>
     (if tc_isClosed c' then \<exists>pre. evs = pre @ [Close_cb, Closed_fd (ch_fd (tc_chan c))] \<and> quiet_run pre else quiet_run evs)"

text \<open>A connection as a server makes it.\<close>

definition live :: "tcp_conn \<Rightarrow> bool" where
  "live c \<longleftrightarrow> \<not> tc_isClosed c \<and> tc_closeCb c \<and> 0 < ch_fd (tc_chan c)"

lemma quiet_simps [simp]: "quiet_run []" "quiet_run (e # es) \<longleftrightarrow> quiet_event e \<and> quiet_run es" "quiet_run (es @ fs) \<longleftrightarrow> quiet_run es \<and> quiet_run fs"
  by (simp_all add: quiet_run_def)

lemma quiet_fd: "quiet_run evs \<Longrightarrow> ch_fd (fold chan_event evs ch) = ch_fd ch"
proof (induction evs arbitrary: ch)
  case (Cons e evs)
  then show ?case by (cases e) simp_all
qed simp

lemma close_spec_refl: "\<not> tc_isClosed c \<Longrightarrow> close_spec c [] c"
  by (simp add: close_spec_def)

lemma close_spec_live: "close_spec c evs c' \<Longrightarrow> \<not> tc_isClosed c' \<Longrightarrow> live c \<Longrightarrow> live c'"
  using quiet_fd [of evs "tc_chan c"] by (simp add: close_spec_def live_def)

lemma close_spec_trans:
  assumes "close_spec c evs c1" and "\<not> tc_isClosed c1" and "close_spec c1 evs' c2"
  shows "close_spec c (evs @ evs') c2"
proof -
  have fd: "ch_fd (tc_chan c1) = ch_fd (tc_chan c)"
    using assms(1,2) quiet_fd [of evs "tc_chan c"] by (simp add: close_spec_def)
  have q: "quiet_run evs" using assms(1,2) by (simp add: close_spec_def)
  have f: "tc_closeCb c2 = tc_closeCb c \<and> fold chan_event (evs @ evs') (tc_chan c) = tc_chan c2 \<and>
      tc_maxIdleTime c2 = tc_maxIdleTime c \<and> list_all (idle_event (tc_maxIdleTime c)) (evs @ evs')"
    using assms by (simp add: close_spec_def)
  show ?thesis
  proof (cases "tc_isClosed c2")
    case True
    then obtain pre where "evs' = pre @ [Close_cb, Closed_fd (ch_fd (tc_chan c))]" "quiet_run pre"
      using assms(3) fd by (auto simp: close_spec_def)
    then have "evs @ evs' = (evs @ pre) @ [Close_cb, Closed_fd (ch_fd (tc_chan c))]" "quiet_run (evs @ pre)" using q by simp_all
    then show ?thesis using True f unfolding close_spec_def by metis
  next
    case False
    then show ?thesis using q f assms(3) by (simp add: close_spec_def)
  qed
qed

lemma close_spec_quiet:
  "quiet_run evs \<Longrightarrow> fold chan_event evs (tc_chan c) = tc_chan c' \<Longrightarrow> tc_closeCb c' = tc_closeCb c \<Longrightarrow> \<not> tc_isClosed c' \<Longrightarrow>
     tc_maxIdleTime c' = tc_maxIdleTime c \<Longrightarrow> list_all (idle_event (tc_maxIdleTime c)) evs \<Longrightarrow> close_spec c evs c'"
  by (simp add: close_spec_def)

lemma OnClose_close_spec: "live c \<Longrightarrow> close_spec c (fst (OnClose c)) (snd (OnClose c))"
  by (auto simp: OnClose_def Channel_Close_def close_spec_def live_def intro!: exI [where x = "[]"])

lemma close_spec_same_chan:
  "close_spec c1 evs c' \<Longrightarrow> tc_chan c1 = tc_chan c \<Longrightarrow> tc_closeCb c1 = tc_closeCb c \<Longrightarrow> tc_maxIdleTime c1 = tc_maxIdleTime c \<Longrightarrow>
     close_spec c evs c'"
  unfolding close_spec_def by metis

lemma write_events_quiet [simp]: "quiet_run (write_complete c)" "quiet_run (ExtendLife c)" "quiet_run (taken mem buf ret)"
  "fold chan_event (write_complete c) ch = ch" "fold chan_event (ExtendLife c) ch = ch" "fold chan_event (taken mem buf ret) ch = ch"
  by (simp_all add: write_complete_def ExtendLife_def taken_def)

lemma write_events_idle [simp]: "list_all (idle_event m) (write_complete c)" "list_all (idle_event m) (taken mem buf ret)"
  "list_all (idle_event (tc_maxIdleTime c)) (ExtendLife c)"
  by (simp_all add: write_complete_def ExtendLife_def taken_def)

lemma EnableWriting_chan: "fold chan_event (fst (EnableWriting b c)) (tc_chan c) = with_writing b (tc_chan c)"
  by (simp add: with_writing_def)

lemma write_done_close_spec: "\<not> tc_isClosed c \<Longrightarrow> close_spec c (fst (write_done c)) (snd (write_done c))"
  using EnableWriting_chan [of False c]
  by (intro close_spec_quiet) (auto simp: write_done_def EnableWriting_def Let_def with_writing_def)

lemma push_vec_close_spec: "\<not> tc_isClosed c \<Longrightarrow> close_spec c (fst (push_vec a n c)) (snd (push_vec a n c))"
  by (intro close_spec_quiet) (simp_all add: push_vec_def with_writing_def)

lemma ExtendLife_spec: "\<not> tc_isClosed c \<Longrightarrow> close_spec c (ExtendLife c) c"
  by (intro close_spec_quiet) simp_all

lemma write_loop_close_spec:
  assumes "write_loop mem ws c = Some (Inr (evs, c', ws'))" and "live c"
  shows "close_spec c evs c'"
proof -
  have "case r of Inl e \<Rightarrow> True | Inr (evs, c', ws') \<Rightarrow> live c \<longrightarrow> close_spec c evs c'"
    if "write_loop mem ws c = Some r" for r
  proof (rule write_loop.raw_induct [OF _ that, where P = "\<lambda>mem ws c r.
      case r of Inl e \<Rightarrow> True | Inr (evs, c', ws') \<Rightarrow> live c \<longrightarrow> close_spec c evs c'"])
    fix loop :: "memory \<Rightarrow> (int + nat) list \<Rightarrow> tcp_conn \<Rightarrow> write_result option" and mem ws c r
    assume IH: "\<And>mem ws c r. loop mem ws c = Some r \<Longrightarrow>
        case r of Inl e \<Rightarrow> True | Inr (evs, c', ws') \<Rightarrow> live c \<longrightarrow> close_spec c evs c'"
      and r: "(case sys_writev ws (tc_iovecList c) of
        (Inl err, ws') \<Rightarrow>
          (if transient err then Some (Inr ([], c, ws'))
           else (let (evs, c') = OnClose c in Some (Inr (evs, c', ws'))))
      | (Inr n, ws') \<Rightarrow>
          (case consume n (tc_iovecList c) of
             Inl e \<Rightarrow> Some (Inl e)
           | Inr vs \<Rightarrow>
               (let c1 = c\<lparr>tc_iovecList := vs\<rparr>; out = Wrote (take n (vecs_bytes mem (tc_iovecList c)))
                in if vs = [] then
                     (let (evs, c') = write_done c1 in Some (Inr (out # evs, c', ws')))
                   else
                     Option.bind (loop mem ws' c1)
                       (\<lambda>r. Some (bindR r (\<lambda>(evs, c', ws''). Inr (out # evs, c', ws'')))))))
        = Some r"
    show "case r of Inl e \<Rightarrow> True | Inr (evs, c', ws') \<Rightarrow> live c \<longrightarrow> close_spec c evs c'"
    proof (cases r)
      case (Inr x)
      obtain evs c' ws' where x: "x = (evs, c', ws')" by (cases x)
      have "close_spec c evs c'" if op: "live c"
      proof (cases "sys_writev ws (tc_iovecList c)")
        case (Pair res ws1)
        have op_c: "\<not> tc_isClosed c" using op by (simp add: live_def)
        show ?thesis
        proof (cases res)
          case (Inl err)
          then show ?thesis using r op_c OnClose_close_spec [OF op]
            by (auto simp: Pair \<open>r = Inr x\<close> x close_spec_refl split: if_splits prod.splits)
        next
          case (Inr n)
          obtain vs where vs: "consume n (tc_iovecList c) = Inr vs"
            using r \<open>r = Inr x\<close> by (cases "consume n (tc_iovecList c)") (auto simp: Pair Inr)
          let ?c = "c\<lparr>tc_iovecList := vs\<rparr>" and ?out = "Wrote (take n (vecs_bytes mem (tc_iovecList c)))"
          have out: "close_spec c [?out] ?c" using op_c by (intro close_spec_quiet) simp_all
          show ?thesis
          proof (cases "vs = []")
            case True
            then have e: "evs = [?out] @ fst (write_done ?c)" "c' = snd (write_done ?c)"
              using r \<open>r = Inr x\<close> by (auto simp: Pair Inr x vs split: prod.splits)
            show ?thesis unfolding e by (rule close_spec_trans [OF out _ write_done_close_spec]) (use op_c in simp_all)
          next
            case False
            then obtain r1 where r1: "loop mem ws1 ?c = Some r1" "Some (bindR r1 (\<lambda>(evs, c', ws''). Inr (?out # evs, c', ws''))) = Some r"
              using r by (auto simp: Pair Inr vs Let_def bind_eq_Some_conv)
            then obtain evs1 where e: "r1 = Inr (evs1, c', ws')" "evs = [?out] @ evs1"
              using \<open>r = Inr x\<close> by (auto simp: x bindR_eq_Inr_iff)
            have "close_spec ?c evs1 c'" using IH [OF r1(1)] op by (simp add: e live_def)
            then show ?thesis unfolding e by (intro close_spec_trans [OF out]) (use op_c in simp_all)
          qed
        qed
      qed
      then show ?thesis by (simp add: Inr x)
    qed simp
  qed
  from this [OF assms(1)] assms(2) show ?thesis by simp
qed

lemma OnWrite_close_spec:
  assumes "OnWrite mem ws c = Some (Inr (evs, c', ws'))" and "live c"
  shows "close_spec c evs c'"
proof -
  have op_c: "\<not> tc_isClosed c" using assms(2) by (simp add: live_def)
  show ?thesis
  proof (cases "tc_iovecList c = []")
    case True
    then have "evs = ExtendLife c @ fst (write_done c)" "c' = snd (write_done c)"
      using assms(1) op_c by (auto simp: OnWrite_def split: prod.splits)
    then show ?thesis using close_spec_trans [OF ExtendLife_spec op_c write_done_close_spec] op_c by simp
  next
    case False
    then obtain evs1 ws1 where w: "write_loop mem ws c = Some (Inr (evs1, c', ws1))" "evs = ExtendLife c @ evs1"
      using assms(1) op_c by (auto simp: OnWrite_def bind_eq_Some_conv bindR_eq_Inr_iff)
    then show ?thesis using close_spec_trans [OF ExtendLife_spec op_c write_loop_close_spec [OF w(1) assms(2)]] op_c by simp
  qed
qed

lemma SendInLoop_close_spec:
  assumes "live c"
  shows "close_spec c (fst (SendInLoop mem buf n w c)) (snd (SendInLoop mem buf n w c))"
proof -
  have op_c: "\<not> tc_isClosed c" using assms by (simp add: live_def)
  have t: "close_spec c (taken mem buf ret) c" for ret using op_c by (intro close_spec_quiet) simp_all
  show ?thesis
    using op_c push_vec_close_spec [OF op_c] close_spec_trans [OF t op_c push_vec_close_spec [OF op_c]]
    by (auto simp: SendInLoop_def Let_def close_spec_refl split_beta intro!: close_spec_quiet)
qed

lemma SendInLoop_list_close_spec:
  "live c \<Longrightarrow> close_spec c (fst (SendInLoop_list nodes c)) (snd (SendInLoop_list nodes c))"
  by (auto simp: SendInLoop_list_def live_def Let_def with_writing_def intro!: close_spec_quiet)

lemma run_op_close_spec:
  assumes "run_op mem x c = Some (Inr (evs, c'))" and op: "live c"
  shows "close_spec c evs c'"
  using assms OnClose_close_spec [OF op] SendInLoop_close_spec [OF op] SendInLoop_list_close_spec [OF op]
    OnWrite_close_spec [OF _ op]
  by (cases x) (auto simp: bindR_eq_Inr_iff split_beta, (metis fst_conv snd_conv)+)

lemma run_ops_close_spec:
  assumes "run_ops mem ops c = Some (Inr (evs, c'))" and "live c"
  shows "close_spec c evs c'"
  using assms
proof (induction ops arbitrary: c evs)
  case Nil
  then show ?case by (auto simp: live_def intro: close_spec_refl)
next
  case (Cons x ops)
  then obtain evs1 c1 evs2 where s: "run_op mem x c = Some (Inr (evs1, c1))" "run_ops mem ops c1 = Some (Inr (evs2, c'))"
    "evs = evs1 @ evs2" by (auto simp: bindR_eq_Inr_iff split: option.splits sum.splits)
  note sp = run_op_close_spec [OF s(1) Cons.prems(2)]
  show ?case
  proof (cases "tc_isClosed c1")
    case True
    then show ?thesis using sp s closed_run_ops [OF True, of mem ops] by simp
  next
    case False
    then show ?thesis using close_spec_trans [OF sp False Cons.IH [OF s(2)]] close_spec_live [OF sp False Cons.prems(2)] s(3) by simp
  qed
qed

text \<open>C8: over every history of sends, write events (with any results, failures included) and close
  requests, the close callback of a connection runs at most once, exactly when the connection
  ends up closed; it is followed by the close of the descriptor and by nothing else: nothing is
  written and no callback is called on a closed connection.\<close>

theorem closed_once:
  assumes "run_ops mem ops c = Some (Inr (evs, c'))" and "\<not> tc_isClosed c" and "tc_closeCb c" and "0 < ch_fd (tc_chan c)"
  shows "if tc_isClosed c'
    then \<exists>pre. evs = pre @ [Close_cb, Closed_fd (ch_fd (tc_chan c))] \<and> Close_cb \<notin> set pre \<and> (\<forall>fd. Closed_fd fd \<notin> set pre)
    else Close_cb \<notin> set evs \<and> (\<forall>fd. Closed_fd fd \<notin> set evs)"
proof -
  have q: "quiet_run es \<Longrightarrow> Close_cb \<notin> set es \<and> (\<forall>fd. Closed_fd fd \<notin> set es)" for es
    by (auto simp: quiet_run_def list_all_iff dest: bspec)
  have "close_spec c evs c'" using run_ops_close_spec [OF assms(1)] assms(2-4) by (simp add: live_def)
  then show ?thesis using q by (auto simp: close_spec_def split: if_splits)
qed

theorem closed_once_witness:
  "\<exists>evs c'. run_ops (memory_of ''hello'') [Op_Close, Op_Send 100 5 (Inr 5)] (SetCloseCallback (new_TcpConnection 5)) = Some (Inr (evs, c')) \<and>
     tc_isClosed c' = True \<and> (\<exists>pre. evs = pre @ [Close_cb, Closed_fd 5] \<and> Close_cb \<notin> set pre)"
proof -
  let ?c = "SetCloseCallback (new_TcpConnection 5)"
  obtain evs c1 where o: "OnClose ?c = (evs, c1)" "tc_isClosed c1" using OnClose_wrote(3) [of ?c] by (cases "OnClose ?c") auto
  have r: "run_ops (memory_of ''hello'') [Op_Close, Op_Send 100 5 (Inr 5)] ?c = Some (Inr (evs, c1))"
    using o by (simp add: SendInLoop_def)
  have c: "\<not> tc_isClosed ?c" "tc_closeCb ?c" "0 < ch_fd (tc_chan ?c)" "ch_fd (tc_chan ?c) = 5"
    by (simp_all add: SetCloseCallback_def new_TcpConnection_def new_Channel_def)
  show ?thesis using closed_once [OF r c(1-3)] r o(2) unfolding c(4) by auto
qed

section \<open>Pointers into the caller's buffer\<close>

text \<open>What is queued is a pointer: when only \<open>k\<close> of \<open>n\<close> bytes were taken and the caller has
  changed its buffer (memory \<open>mem'\<close>) before the connection can write again, the wire gets the
  first \<open>k\<close> bytes of the old contents followed by the rest of the new ones.\<close>

theorem queued_bytes_alias:
  assumes "\<not> tc_isClosed c" and "tc_iovecList c = []" and "k < n" and "n < two64" and "n \<le> m"
    and "SendInLoop mem buf n (Inr k) c = (evs, c1)"
  shows "\<exists>evs' c2. OnWrite mem' [Inr m] c1 = Some (Inr (evs', c2, [])) \<and> tc_iovecList c2 = [] \<and>
    wrote (evs @ evs') = take k (mem_bytes mem buf n) @ drop k (mem_bytes mem' buf n)"
proof -
  have k: "write_ret (Inr k) n = int k" "nat (int k mod int two64) = k"
    using assms(3,4) by (simp_all add: write_ret_def nat_mod_distrib)
  let ?v = "\<lparr>iov_base = padd buf k, iov_len = n - k\<rparr>"
  obtain es c' where p: "push_vec (padd buf k) (n - k) c = (es, c')" by (cases "push_vec (padd buf k) (n - k) c")
  have f: "wrote es = []" "tc_iovecList c' = [?v]" "\<not> tc_isClosed c'"
    using push_vec_fields [of "padd buf k" "n - k" c] assms(1,2) by (simp_all add: p)
  have c1: "c1 = c'" "evs = Wrote (mem_bytes mem buf k) # es"
    using assms(1-3,6) unfolding SendInLoop_def k Let_def by (simp_all add: p taken_def)
  have sys: "sys_writev [Inr m] [?v] = (Inr (n - k), [])" using assms(3,5) by (simp add: sys_writev_def kIovMax_def)
  have con: "consume (n - k) [?v] = Inr []" using assms(3) by (simp add: consume.simps [of "n - k"])
  obtain es' c2 where wd: "write_done (c'\<lparr>tc_iovecList := []\<rparr>) = (es', c2)" by (cases "write_done (c'\<lparr>tc_iovecList := []\<rparr>)")
  have g: "wrote es' = []" "tc_iovecList c2 = []" using write_done_fields [of "c'\<lparr>tc_iovecList := []\<rparr>"] by (simp_all add: wd)
  have "write_loop mem' [Inr m] c' = Some (Inr (Wrote (vec_bytes mem' ?v) # es', c2, []))"
    by (subst write_loop.simps) (simp add: f(2) sys con wd)
  then have "OnWrite mem' [Inr m] c1 = Some (Inr (ExtendLife c' @ Wrote (vec_bytes mem' ?v) # es', c2, []))"
    using f by (simp add: OnWrite_def c1)
  moreover have "vec_bytes mem' ?v = drop k (mem_bytes mem' buf n)" using assms(3) by (simp add: vec_bytes_def drop_mem_bytes)
  ultimately show ?thesis using g f assms(3) by (simp add: c1 take_mem_bytes)
qed

theorem queued_bytes_alias_witness:
  "\<exists>evs c1 evs' c2. SendInLoop (memory_of ''hello'') 100 5 (Inr 2) (new_TcpConnection 5) = (evs, c1) \<and>
     OnWrite (memory_of ''HELLO'') [Inr 9] c1 = Some (Inr (evs', c2, [])) \<and> wrote (evs @ evs') = ''heLLO''"
proof -
  obtain evs c1 where s: "SendInLoop (memory_of ''hello'') 100 5 (Inr 2) (new_TcpConnection 5) = (evs, c1)"
    by (cases "SendInLoop (memory_of ''hello'') 100 5 (Inr 2) (new_TcpConnection 5)")
  have b: "mem_bytes (memory_of ''HELLO'') 100 5 = ''HELLO''"
    by (simp add: mem_bytes_def padd_def two64_def memory_of_def upt_conv_Cons)
  have "take 2 (mem_bytes (memory_of ''hello'') 100 5) @ drop 2 (mem_bytes (memory_of ''HELLO'') 100 5) = ''heLLO''"
    by (simp add: b memory_of_hello)
  moreover have "\<not> tc_isClosed (new_TcpConnection 5)" "tc_iovecList (new_TcpConnection 5) = []"
    "(2::nat) < 5" "5 < two64" "(5::nat) \<le> 9" by (simp_all add: new_TcpConnection_def two64_def)
  ultimately show ?thesis using queued_bytes_alias [OF _ _ _ _ _ s, of 9 "memory_of ''HELLO''"] s by metis
qed

section \<open>The read loop\<close>

text \<open>A message callback that looks at the readable bytes and consumes some of them: \<open>f\<close> gives its new
  state and how many it retrieves. \<open>feed\<close> is what one piece of data should do to the state and the
  bytes that are left.\<close>

definition consumer :: "('u \<Rightarrow> string \<Rightarrow> 'u \<times> nat) \<Rightarrow> 'u message_cb" where
  "consumer f = Some (\<lambda>(u, c). case f u (bytes (tc_msgBuffer c)) of
     (u', n) \<Rightarrow> Some (Inr ([], u', c\<lparr>tc_msgBuffer := Retrieve n (tc_msgBuffer c)\<rparr>)))"

definition feed :: "('u \<Rightarrow> string \<Rightarrow> 'u \<times> nat) \<Rightarrow> 'u \<times> string \<Rightarrow> string \<Rightarrow> 'u \<times> string" where
  "feed f s d = (case f (fst s) (snd s @ d) of (u', n) \<Rightarrow> (u', drop n (snd s @ d)))"

fun ends_stream :: "int + string \<Rightarrow> bool" where
  "ends_stream (Inl err) \<longleftrightarrow> \<not> transient err"
| "ends_stream (Inr d) \<longleftrightarrow> d = []"

lemma OnClose_events_buffer: "fst (OnClose (c\<lparr>tc_msgBuffer := b\<rparr>)) = fst (OnClose c)"
  by (simp add: OnClose_def Let_def split: prod.split)

lemma read_end:
  assumes "0 \<le> ch_fd (tc_chan c)" and "case r of Inl err \<Rightarrow> True | Inr d \<Rightarrow> d = []" and "mb_inv (tc_msgBuffer c)"
  shows "\<exists>c'. read_loop cb [r] u c = Some (Inr (if ends_stream r then fst (OnClose c) else [], u, c')) \<and>
    bytes (tc_msgBuffer c') = bytes (tc_msgBuffer c) \<and> tc_isClosed c' = (tc_isClosed c \<or> ends_stream r)"
proof (cases r)
  case (Inl err)
  obtain evs c' where o: "OnClose c = (evs, c')" by fastforce
  then have "tc_isClosed c'" "tc_msgBuffer c' = tc_msgBuffer c" using OnClose_wrote [of c] by simp_all
  then show ?thesis using assms(1) o by (cases "transient err") (simp_all add: Inl ReadFd_def read_failed_def)
next
  case (Inr d)
  then have d: "d = []" using assms(2) by simp
  obtain b' where b: "ReadFd (Inr []) (tc_msgBuffer c) = Inr (0, None, b')" "bytes b' = bytes (tc_msgBuffer c)"
    using ReadFd_ok [OF assms(3), of "[]"] by auto
  obtain evs c' where o: "OnClose (c\<lparr>tc_msgBuffer := b'\<rparr>) = (evs, c')" by fastforce
  then have "tc_isClosed c'" "tc_msgBuffer c' = b'" "evs = fst (OnClose c)"
    using OnClose_wrote [of "c\<lparr>tc_msgBuffer := b'\<rparr>"] OnClose_events_buffer [where c = c and b = b'] by simp_all
  then show ?thesis using assms(1) o b by (simp add: Inr d)
qed

lemma read_loop_feeds:
  assumes "case r of Inl err \<Rightarrow> True | Inr d \<Rightarrow> d = []"
  shows "0 \<le> ch_fd (tc_chan c) \<Longrightarrow> mb_inv (tc_msgBuffer c) \<Longrightarrow> list_all (\<lambda>d. d \<noteq> [] \<and> length d \<le> 8192) ds \<Longrightarrow>
    \<exists>c'. read_loop (consumer f) (map Inr ds @ [r]) u c
        = Some (Inr (if ends_stream r then fst (OnClose c) else [], fst (foldl (feed f) (u, bytes (tc_msgBuffer c)) ds), c'))
      \<and> bytes (tc_msgBuffer c') = snd (foldl (feed f) (u, bytes (tc_msgBuffer c)) ds) \<and> tc_isClosed c' = (tc_isClosed c \<or> ends_stream r)"
proof (induction ds arbitrary: u c)
  case Nil
  then show ?case using read_end [OF _ assms, of c "consumer f" u] by simp
next
  case (Cons d ds)
  have "length d \<le> readv_room (tc_msgBuffer c)" using Cons.prems(3) by (auto simp: readv_room_def)
  then obtain b where b: "ReadFd (Inr d) (tc_msgBuffer c) = Inr (int (length d), None, b)" "mb_inv b"
    "bytes b = bytes (tc_msgBuffer c) @ d" using ReadFd_ok [OF Cons.prems(2)] by blast
  obtain u1 n where f: "f u (bytes b) = (u1, n)" by fastforce
  let ?c = "c\<lparr>tc_msgBuffer := Retrieve n b\<rparr>"
  have r: "mb_inv (Retrieve n b)" "bytes (Retrieve n b) = drop n (bytes b)" using mbq.ret_inv [OF b(2)] mbq.ret_cont [OF b(2)] by simp_all
  have fed: "feed f (u, bytes (tc_msgBuffer c)) d = (u1, bytes (tc_msgBuffer ?c))" using f b(3) r(2) by (simp add: feed_def)
  have "call_message (consumer f) u (c\<lparr>tc_msgBuffer := b\<rparr>) = Some (Inr ([], u1, ?c))"
    by (simp add: call_message_def consumer_def f)
  moreover obtain c' where "read_loop (consumer f) (map Inr ds @ [r]) u1 ?c
      = Some (Inr (if ends_stream r then fst (OnClose c) else [], fst (foldl (feed f) (u1, bytes (tc_msgBuffer ?c)) ds), c'))"
    "bytes (tc_msgBuffer c') = snd (foldl (feed f) (u1, bytes (tc_msgBuffer ?c)) ds)" "tc_isClosed c' = (tc_isClosed c \<or> ends_stream r)"
    using Cons.IH [of ?c u1] Cons.prems r(1) unfolding OnClose_events_buffer [of "Retrieve n b" c] by auto
  ultimately show ?case using Cons.prems b by (simp add: then_read_def fed)
qed

text \<open>C14: \<open>OnRead\<close> drains the socket, in pieces of at most 8192 bytes, which the buffer always has room
  for, with any message callback that takes what it likes from the buffer and leaves the connection
  alone: each piece \<open>readv\<close> returns is appended to what is left, and the message callback is called on
  the result, once for each piece and in order, whatever it consumes; its final state and the bytes
  that remain are those of feeding it the pieces one after the other. When the stream ends or
  \<open>readv\<close> fails hard the connection is closed, with the events of \<open>OnClose\<close>, and when the socket is
  just empty it stays open and nothing else happens.\<close>

theorem OnRead_drains:
  assumes "\<not> tc_isClosed c" and "0 \<le> ch_fd (tc_chan c)" and "mb_inv (tc_msgBuffer c)"
    and "list_all (\<lambda>d. d \<noteq> [] \<and> length d \<le> 8192) ds" and "case r of Inl err \<Rightarrow> True | Inr d \<Rightarrow> d = []"
  shows "\<exists>c'. OnRead (consumer f) (map Inr ds @ [r]) u c =
      Some (Inr (ExtendLife c @ (if ends_stream r then fst (OnClose c) else []),
        fst (foldl (feed f) (u, bytes (tc_msgBuffer c)) ds), c')) \<and>
    bytes (tc_msgBuffer c') = snd (foldl (feed f) (u, bytes (tc_msgBuffer c)) ds) \<and> tc_isClosed c' = ends_stream r"
  using read_loop_feeds [OF assms(5,2,3,4), of f u] assms(1) by (auto simp: OnRead_def then_read_def)

text \<open>A callback that notes what it sees and takes one byte.\<close>

definition one_by_one :: "string list \<Rightarrow> string \<Rightarrow> string list \<times> nat" where
  "one_by_one u s = (u @ [s], 1)"

theorem OnRead_drains_witness:
  "\<exists>evs c'. OnRead (consumer one_by_one) (map Inr [''ab'', ''c''] @ [Inr []]) [] (new_TcpConnection 5)
      = Some (Inr (evs, [''ab'', ''bc''], c')) \<and>
    bytes (tc_msgBuffer c') = ''c'' \<and> tc_isClosed c'"
proof -
  let ?c = "new_TcpConnection 5" and ?r = "Inr [] :: int + string"
  have c: "\<not> tc_isClosed ?c" "0 \<le> ch_fd (tc_chan ?c)" "mb_inv (tc_msgBuffer ?c)"
    by (simp_all add: new_TcpConnection_def new_Channel_def mb_inv_new kBufferDefaultLength_def kBufferOffset_def)
  have d: "list_all (\<lambda>d. d \<noteq> [] \<and> length d \<le> 8192) [''ab'', ''c'']" "case ?r of Inl err \<Rightarrow> True | Inr d \<Rightarrow> d = []" by simp_all
  have "foldl (feed one_by_one) ([], bytes (tc_msgBuffer ?c)) [''ab'', ''c''] = ([''ab'', ''bc''], ''c'')"
    by (simp add: feed_def one_by_one_def new_TcpConnection_def)
  then show ?thesis using OnRead_drains [OF c d, of one_by_one "[]"] by auto
qed

section \<open>Handlers of received data\<close>

text \<open>
  What \<open>OnRead\<close> needs of the message callback it is given: on a live connection the callback
  acts on it through its operations, so that a close is reported once and as the last thing.
\<close>

locale message_handler =
  fixes cb :: "'u message_cb"
  assumes acts: "call_message cb u c = Some (Inr (evs, u', c')) \<Longrightarrow> live c \<Longrightarrow> close_spec c evs c'"
begin

lemma failed_spec:
  assumes "read_failed err u c = Some (Inr (evs, u', c'))" and "live c"
  shows "close_spec c evs c'"
  using assms OnClose_close_spec [OF assms(2)]
  by (auto simp: read_failed_def live_def close_spec_refl split: if_splits prod.splits)

lemma closed_stops: "tc_isClosed c \<Longrightarrow> ch_fd (tc_chan c) < 0 \<Longrightarrow> read_loop cb rds u c = Some (Inr ([], u, c))"
  by (cases rds) (simp_all add: read_failed_def OnClose_def)

lemma loop_spec:
  "read_loop cb rds u c = Some (Inr (evs, u', c')) \<Longrightarrow> live c \<Longrightarrow> close_spec c evs c'"
proof (induction rds arbitrary: u c evs)
  case Nil
  then show ?case using failed_spec [of _ u c evs u' c'] by simp
next
  case (Cons rd rds)
  have pos: "\<not> ch_fd (tc_chan c) < 0" using Cons.prems(2) by (simp add: live_def)
  then obtain ret err b where rd: "ReadFd rd (tc_msgBuffer c) = Inr (ret, err, b)"
    using Cons.prems(1) by (auto split: sum.splits)
  let ?c = "c\<lparr>tc_msgBuffer := b\<rparr>"
  have lc: "live ?c" using Cons.prems(2) by (simp add: live_def)
  have same: "close_spec ?c es d \<Longrightarrow> close_spec c es d" for es d
    by (rule close_spec_same_chan [of ?c]) simp_all
  consider "0 < ret" | "ret = 0" | "ret < 0" by linarith
  then show ?case
  proof cases
    case 1
    then have "then_read (call_message cb u ?c) (read_loop cb rds) = Some (Inr (evs, u', c'))"
      using Cons.prems(1) rd pos by simp
    then obtain es1 u1 c1 es2 where s: "call_message cb u ?c = Some (Inr (es1, u1, c1))"
      "read_loop cb rds u1 c1 = Some (Inr (es2, u', c'))" "evs = es1 @ es2"
      by (auto simp: then_read_def bindR_eq_Inr_iff split: option.splits sum.splits)
    note sp = same [OF acts [OF s(1) lc]]
    show ?thesis
    proof (cases "tc_isClosed c1")
      case True
      then obtain pre where "es1 = pre @ [Close_cb, Closed_fd (ch_fd (tc_chan c))]" "tc_chan c1 = fold chan_event es1 (tc_chan c)"
        using sp by (auto simp: close_spec_def)
      then have "ch_fd (tc_chan c1) = -1" by simp
      then show ?thesis using s sp closed_stops [OF True] by simp
    next
      case False
      then show ?thesis
        using close_spec_trans [OF sp False Cons.IH [OF s(2)]] close_spec_live [OF sp False Cons.prems(2)] s(3) by simp
    qed
  next
    case 2
    then have "evs = fst (OnClose ?c)" "c' = snd (OnClose ?c)" using Cons.prems(1) rd pos by (auto split: prod.splits)
    then show ?thesis using same [OF OnClose_close_spec [OF lc]] by simp
  next
    case 3
    then have "read_failed (case err of None \<Rightarrow> 0 | Some e \<Rightarrow> e) u ?c = Some (Inr (evs, u', c'))"
      using Cons.prems(1) rd pos by simp
    then show ?thesis by (rule same [OF failed_spec [OF _ lc]])
  qed
qed

lemma OnRead_spec:
  assumes "OnRead cb rds u c = Some (Inr (evs, u', c'))" and "live c"
  shows "close_spec c evs c'"
proof -
  have op_c: "\<not> tc_isClosed c" using assms(2) by (simp add: live_def)
  then obtain es where "read_loop cb rds u c = Some (Inr (es, u', c'))" "evs = ExtendLife c @ es"
    using assms(1) by (auto simp: OnRead_def then_read_def bindR_eq_Inr_iff)
  then show ?thesis using close_spec_trans [OF ExtendLife_spec op_c loop_spec] op_c assms(2) by simp
qed

end

text \<open>
  A callback that decides from the readable bytes what to consume and which operations to call;
  \<open>act\<close> is arbitrary.
\<close>

definition api_handler :: "memory \<Rightarrow> ('u \<Rightarrow> string \<Rightarrow> 'u \<times> nat \<times> tc_op list) \<Rightarrow> 'u message_cb" where
  "api_handler mem act =
     Some (\<lambda>(u, c).
       (case act u (bytes (tc_msgBuffer c)) of
          (u', n, ops) \<Rightarrow>
            map_option (\<lambda>r. bindR r (\<lambda>(evs, c'). Inr (evs, u', c')))
              (run_ops mem ops (c\<lparr>tc_msgBuffer := Retrieve n (tc_msgBuffer c)\<rparr>))))"

interpretation api: message_handler "api_handler mem act"
proof
  fix u c evs u' c'
  assume r: "call_message (api_handler mem act) u c = Some (Inr (evs, u', c'))" and l: "live c"
  obtain u1 n ops where a: "act u (bytes (tc_msgBuffer c)) = (u1, n, ops)" by (metis prod_cases3)
  let ?c = "c\<lparr>tc_msgBuffer := Retrieve n (tc_msgBuffer c)\<rparr>"
  have "run_ops mem ops ?c = Some (Inr (evs, c'))"
    using r by (auto simp: call_message_def api_handler_def a bindR_eq_Inr_iff)
  then have "close_spec ?c evs c'" using run_ops_close_spec l by (simp add: live_def)
  then show "close_spec c evs c'" by (rule close_spec_same_chan [of ?c]) simp_all
qed

end
