(* ===== verification/InetAddress.thy ===== *)
theory InetAddress
  imports Numbers
begin

text \<open>
  \<open>src/network/base/InetAddress.{h,cpp}\<close> and the address conversions of \<open>Socket.cpp\<close>.
  \<open>inet_pton\<close> and \<open>inet_ntop\<close> for IPv4 are written out (four decimal octets without leading
  zeros), and \<open>inet_pton\<close> for IPv6 as Linux reads it; functions that take \<open>pton6\<close> or \<open>ntop6\<close> hold for
  any such conversion. A port is kept as text and read with \<open>atoi\<close>.
\<close>

section \<open>Text of IPv4 addresses\<close>

text \<open>A C string ends at the first zero byte.\<close>

definition c_str :: "string \<Rightarrow> string" where
  "c_str s = takeWhile (\<lambda>c. byte c \<noteq> 0) s"

fun dot_parts :: "string \<Rightarrow> string list" where
  "dot_parts [] = [[]]"
| "dot_parts (c # cs) =
     (if c = CHR ''.'' then [] # dot_parts cs
      else (case dot_parts cs of [] \<Rightarrow> [[c]] | p # ps \<Rightarrow> (c # p) # ps))"

definition octet :: "string \<Rightarrow> nat option" where
  "octet s =
     (if s \<noteq> [] \<and> list_all c_isdigit s \<and> (length s = 1 \<or> hd s \<noteq> CHR ''0'') \<and> digits_val 10 s \<le> 255
      then Some (digits_val 10 s) else None)"

definition quad :: "nat \<Rightarrow> nat \<Rightarrow> nat \<Rightarrow> nat \<Rightarrow> nat" where
  "quad a b c d = ((a * 256 + b) * 256 + c) * 256 + d"

definition inet_pton4 :: "string \<Rightarrow> nat option" where
  "inet_pton4 s =
     (case map octet (dot_parts (c_str s)) of
        [Some a, Some b, Some c, Some d] \<Rightarrow> Some (quad a b c d)
      | _ \<Rightarrow> None)"

definition inet_ntop4 :: "nat \<Rightarrow> string" where
  "inet_ntop4 n =
     to_string (n div 16777216 mod 256) @ ''.'' @ to_string (n div 65536 mod 256) @ ''.'' @
     to_string (n div 256 mod 256) @ ''.'' @ to_string (n mod 256)"

text \<open>An IPv6 address is groups of hexadecimal digits between colons, of which the last may be an IPv4
  address; \<open>::\<close> stands once for at least one group of zeros.\<close>

fun colon_parts :: "string \<Rightarrow> string list" where
  "colon_parts [] = [[]]"
| "colon_parts (c # cs) =
     (if c = CHR '':'' then [] # colon_parts cs
      else (case colon_parts cs of [] \<Rightarrow> [[c]] | p # ps \<Rightarrow> (c # p) # ps))"

definition hex_group :: "string \<Rightarrow> nat list option" where
  "hex_group p =
     (if p \<noteq> [] \<and> length p \<le> 4 \<and> list_all (is_digit_of 16) p
      then (let n = digits_val 16 p in Some [n div 256, n mod 256]) else None)"

definition last_group :: "string \<Rightarrow> nat list option" where
  "last_group p =
     (if List.member p (CHR ''.'')
      then map_option (\<lambda>n. [n div 16777216 mod 256, n div 65536 mod 256, n div 256 mod 256, n mod 256]) (inet_pton4 p)
      else hex_group p)"

fun group_bytes :: "bool \<Rightarrow> string list \<Rightarrow> nat list option" where
  "group_bytes ends [] = Some []"
| "group_bytes ends [p] = (if ends then last_group p else hex_group p)"
| "group_bytes ends (p # ps) = Option.bind (hex_group p) (\<lambda>b. map_option ((@) b) (group_bytes ends ps))"

definition side_bytes :: "bool \<Rightarrow> string \<Rightarrow> nat list option" where
  "side_bytes ends s = (if s = [] then Some [] else group_bytes ends (colon_parts s))"

definition inet_pton6 :: "string \<Rightarrow> nat list option" where
  "inet_pton6 t =
     (let s = c_str t
      in (case find_sub ''::'' s of
            None \<Rightarrow> Option.bind (group_bytes True (colon_parts s)) (\<lambda>bs. if length bs = 16 then Some bs else None)
          | Some i \<Rightarrow>
              Option.bind (side_bytes False (take i s)) (\<lambda>as.
              Option.bind (side_bytes True (drop (i + 2) s)) (\<lambda>bs.
                if length as + length bs < 16 then Some (as @ replicate (16 - length as - length bs) 0 @ bs) else None))))"

section \<open>Addresses\<close>

record inet_address =
  in_addr :: string
  in_port :: string
  in_isIpv6 :: bool

definition new_InetAddress :: inet_address where
  "new_InetAddress = \<lparr>in_addr = [], in_port = [], in_isIpv6 = False\<rparr>"

text \<open>\<open>GetIpAndPort\<close> writes \<open>ip\<close>, and \<open>port\<close> only when there is a colon.\<close>

definition GetIpAndPort :: "string \<Rightarrow> inet_address \<Rightarrow> inet_address" where
  "GetIpAndPort host a =
     (case find_index (\<lambda>c. c = CHR '':'') host of
        Some pos \<Rightarrow> a\<lparr>in_addr := take pos host, in_port := drop (pos + 1) host\<rparr>
      | None \<Rightarrow> a\<lparr>in_addr := host\<rparr>)"

definition InetAddress_port :: "string \<Rightarrow> nat \<Rightarrow> bool \<Rightarrow> inet_address" where
  "InetAddress_port ip port isIpv6 = \<lparr>in_addr = ip, in_port = to_string port, in_isIpv6 = isIpv6\<rparr>"

definition InetAddress_host :: "string \<Rightarrow> bool \<Rightarrow> inet_address" where
  "InetAddress_host host isIpv6 = (GetIpAndPort host new_InetAddress)\<lparr>in_isIpv6 := isIpv6\<rparr>"

definition SetHost :: "string \<Rightarrow> inet_address \<Rightarrow> inet_address" where
  "SetHost host a = GetIpAndPort host a"

definition SetAddr :: "string \<Rightarrow> inet_address \<Rightarrow> inet_address" where
  "SetAddr addr a = a\<lparr>in_addr := addr\<rparr>"

definition SetPort :: "nat \<Rightarrow> inet_address \<Rightarrow> inet_address" where
  "SetPort port a = a\<lparr>in_port := to_string port\<rparr>"

definition SetIsIPV6 :: "bool \<Rightarrow> inet_address \<Rightarrow> inet_address" where
  "SetIsIPV6 v6 a = a\<lparr>in_isIpv6 := v6\<rparr>"

definition ToIpPort :: "inet_address \<Rightarrow> string" where
  "ToIpPort a = in_addr a @ '':'' @ in_port a"

definition to_uint16 :: "int \<Rightarrow> nat" where
  "to_uint16 k = nat (k mod 65536)"

definition port_of :: "inet_address \<Rightarrow> nat" where
  "port_of a = to_uint16 (atoi (in_port a))"

text \<open>The address stays zero when the text is not an IPv4 address.\<close>

definition IPv4_text :: "string \<Rightarrow> nat" where
  "IPv4_text ip = (case inet_pton4 ip of Some n \<Rightarrow> n | None \<Rightarrow> 0)"

definition IPv4 :: "inet_address \<Rightarrow> nat" where
  "IPv4 a = IPv4_text (in_addr a)"

definition INADDR_LOOPBACK :: nat where "INADDR_LOOPBACK = 0x7f000001"

definition private_ranges :: "(string \<times> string) list" where
  "private_ranges = [(''10.0.0.0'', ''10.255.255.255''), (''172.16.0.0'', ''172.31.255.255''), (''192.168.0.0'', ''192.168.255.255'')]"

definition in_range :: "nat \<Rightarrow> string \<times> string \<Rightarrow> bool" where
  "in_range ip r \<longleftrightarrow> ip \<ge> IPv4_text (fst r) \<and> ip \<le> IPv4_text (snd r)"

definition IsWanIp :: "inet_address \<Rightarrow> bool" where
  "IsWanIp a \<longleftrightarrow> \<not> list_ex (in_range (IPv4 a)) private_ranges \<and> IPv4 a \<noteq> INADDR_LOOPBACK"

definition IsLanIp :: "inet_address \<Rightarrow> bool" where
  "IsLanIp a \<longleftrightarrow> list_ex (in_range (IPv4 a)) private_ranges"

definition IsLoopbackIp :: "inet_address \<Rightarrow> bool" where
  "IsLoopbackIp a \<longleftrightarrow> in_addr a = ''127.0.0.1''"

section \<open>Socket addresses\<close>

text \<open>
  A socket address in host byte order; \<open>Unix\<close> stands for any family the code does not handle.
  \<open>GetSockAddr\<close> leaves a zero address when the text does not parse. \<open>pton6\<close>, \<open>ntop6\<close> convert
  the sixteen bytes of an IPv6 address.
\<close>

datatype sock_addr = Sockaddr_in nat nat | Sockaddr_in6 nat "nat list" | Sockaddr_other

definition GetSockAddr :: "(string \<Rightarrow> nat list option) \<Rightarrow> inet_address \<Rightarrow> sock_addr" where
  "GetSockAddr pton6 a =
     (if in_isIpv6 a
      then Sockaddr_in6 (port_of a) (case pton6 (c_str (in_addr a)) of Some bs \<Rightarrow> bs | None \<Rightarrow> replicate 16 0)
      else Sockaddr_in (port_of a) (IPv4 a))"

text \<open>The conversion shared by \<open>Accept\<close>, \<open>GetLocalAddr\<close> and \<open>GetPeerAddr\<close>.\<close>

definition peer_address :: "(nat list \<Rightarrow> string) \<Rightarrow> sock_addr \<Rightarrow> inet_address \<Rightarrow> inet_address" where
  "peer_address ntop6 sa a =
     (case sa of
        Sockaddr_in port ip \<Rightarrow> SetPort port (SetAddr (inet_ntop4 ip) a)
      | Sockaddr_in6 port bs \<Rightarrow> SetIsIPV6 True (SetPort port (SetAddr (ntop6 bs) a))
      | Sockaddr_other \<Rightarrow> a)"

text \<open>\<open>Accept\<close> fills in the peer only for a descriptor above zero.\<close>

definition Socket_Accept :: "(nat list \<Rightarrow> string) \<Rightarrow> int \<times> sock_addr \<Rightarrow> inet_address \<Rightarrow> int \<times> inet_address" where
  "Socket_Accept ntop6 r a = (fst r, if fst r > 0 then peer_address ntop6 (snd r) a else a)"

section \<open>Printing and parsing quads\<close>

lemma octet_to_string: "n < 256 \<Longrightarrow> octet (to_string n) = Some n"
proof -
  assume n: "n < 256"
  have v: "digits_val 10 (to_string n) = n" by (simp add: to_string_def digits_val_digits_of)
  have "length (to_string n) = 1 \<or> hd (to_string n) \<noteq> CHR ''0''"
  proof (cases "n < 10")
    case True
    then show ?thesis by (simp add: to_string_def digits_of_small)
  next
    case False
    have z: "digit_char m \<noteq> CHR ''0''" if "0 < m" "m < 10" for m
    proof
      assume e: "digit_char m = CHR ''0''"
      have "digit_val (digit_char m) = m" using that by simp
      moreover have "digit_val (CHR ''0'') = 0" by code_simp
      ultimately show False using that e by simp
    qed
    have step: "to_string n = to_string (n div 10) @ [digit_char (n mod 10)]"
      using False by (simp add: to_string_def digits_of_step)
    have hd: "hd (to_string m) = digit_char m" if "m < 10" for m using that by (simp add: to_string_def digits_of_small)
    show ?thesis
    proof (cases "n < 100")
      case True
      then have "hd (to_string n) = digit_char (n div 10)" using step hd [of "n div 10"] False by simp
      then show ?thesis using z [of "n div 10"] True False by (simp add: div_greater_zero_iff)
    next
      case big: False
      have "to_string (n div 10) = to_string (n div 10 div 10) @ [digit_char (n div 10 mod 10)]"
        using big by (simp add: to_string_def digits_of_step)
      moreover have "n div 10 div 10 < 10" "0 < n div 10 div 10" using n big by simp_all
      ultimately have "hd (to_string n) = digit_char (n div 10 div 10)" using step hd [of "n div 10 div 10"] by simp
      then show ?thesis using z [of "n div 10 div 10"] \<open>n div 10 div 10 < 10\<close> \<open>0 < n div 10 div 10\<close> by simp
    qed
  qed
  moreover have "list_all c_isdigit (to_string n)" using set_to_string by (simp add: list_all_iff)
  ultimately show ?thesis using n v by (simp add: octet_def)
qed

lemma digit_not: "c_isdigit c \<Longrightarrow> c \<noteq> CHR ''.'' \<and> byte c \<noteq> 0 \<and> c \<noteq> CHR '':''"
proof -
  assume d: "c_isdigit c"
  have "\<not> c_isdigit (CHR ''.'')" "\<not> c_isdigit (CHR '':'')" by code_simp+
  then show ?thesis using d by (auto simp: c_isdigit_def)
qed

lemma dot_parts_plain: "\<forall>c\<in>set p. c \<noteq> CHR ''.'' \<Longrightarrow> dot_parts p = [p]"
  by (induction p) simp_all

lemma dot_parts_step: "\<forall>c\<in>set p. c \<noteq> CHR ''.'' \<Longrightarrow> dot_parts (p @ CHR ''.'' # s) = p # dot_parts s"
  by (induction p) simp_all

definition quad_text :: "nat \<Rightarrow> nat \<Rightarrow> nat \<Rightarrow> nat \<Rightarrow> string" where
  "quad_text a b c d = to_string a @ ''.'' @ to_string b @ ''.'' @ to_string c @ ''.'' @ to_string d"

lemma quad_text_chars: "x \<in> set (quad_text a b c d) \<Longrightarrow> c_isdigit x \<or> x = CHR ''.''"
  using set_to_string by (auto simp: quad_text_def)

lemma c_str_quad: "c_str (quad_text a b c d) = quad_text a b c d"
proof -
  have "byte (CHR ''.'') \<noteq> 0" by code_simp
  then have "\<forall>x\<in>set (quad_text a b c d). byte x \<noteq> 0" using quad_text_chars digit_not by blast
  then show ?thesis by (simp add: c_str_def)
qed

lemma pton_quad:
  "a < 256 \<Longrightarrow> b < 256 \<Longrightarrow> c < 256 \<Longrightarrow> d < 256 \<Longrightarrow> inet_pton4 (quad_text a b c d) = Some (quad a b c d)"
proof -
  assume l: "a < 256" "b < 256" "c < 256" "d < 256"
  have nodot: "\<forall>x\<in>set (to_string n). x \<noteq> CHR ''.''" for n using set_to_string digit_not by blast
  have "dot_parts (quad_text a b c d) = [to_string a, to_string b, to_string c, to_string d]"
    by (simp add: quad_text_def dot_parts_step [OF nodot] dot_parts_plain [OF nodot])
  then show ?thesis using l by (simp add: inet_pton4_def c_str_quad octet_to_string)
qed

lemma ntop_quad: "a < 256 \<Longrightarrow> b < 256 \<Longrightarrow> c < 256 \<Longrightarrow> d < 256 \<Longrightarrow> inet_ntop4 (quad a b c d) = quad_text a b c d"
proof -
  assume l: "a < 256" "b < 256" "c < 256" "d < 256"
  have gen: "(x * 256 + y) div 256 = x" "(x * 256 + y) mod 256 = y" if "y < 256" for x y :: nat using that by simp_all
  have 1: "quad a b c d mod 256 = d" "quad a b c d div 256 = (a * 256 + b) * 256 + c"
    unfolding quad_def using gen l(4) by blast+
  have 2: "quad a b c d div 65536 = a * 256 + b"
  proof -
    have "quad a b c d div 65536 = quad a b c d div 256 div 256" by (simp add: div_mult2_eq [symmetric])
    also have "\<dots> = a * 256 + b" unfolding 1(2) using gen l(3) by blast
    finally show ?thesis .
  qed
  have 3: "quad a b c d div 16777216 = a"
  proof -
    have "quad a b c d div 16777216 = quad a b c d div 65536 div 256" by (simp add: div_mult2_eq [symmetric])
    also have "\<dots> = a" unfolding 2 using gen l(2) by blast
    finally show ?thesis .
  qed
  have 4: "((a * 256 + b) * 256 + c) mod 256 = c" "(a * 256 + b) mod 256 = b" "a mod 256 = a" using gen l by (blast, blast, simp)
  show ?thesis unfolding inet_ntop4_def quad_text_def 1 2 3 4 by (rule refl)
qed

section \<open>Properties\<close>

lemma digit_le: "y < 256 \<Longrightarrow> y' < 256 \<Longrightarrow> x * 256 + y \<le> x' * 256 + y' \<longleftrightarrow> x < x' \<or> x = x' \<and> y \<le> (y' :: nat)"
  by (cases x x' rule: linorder_cases) auto

lemma quad_le_iff:
  assumes "b < 256" "c < 256" "d < 256" "b' < 256" "c' < 256" "d' < 256"
  shows "quad a b c d \<le> quad a' b' c' d' \<longleftrightarrow>
    a < a' \<or> a = a' \<and> (b < b' \<or> b = b' \<and> (c < c' \<or> c = c' \<and> d \<le> d'))"
proof -
  have lt: "x < x' \<longleftrightarrow> \<not> x' \<le> x" for x x' :: nat by linarith
  have eq: "x = x' \<longleftrightarrow> x \<le> x' \<and> x' \<le> x" for x x' :: nat by linarith
  show ?thesis
    unfolding quad_def digit_le [OF assms(3,6)] lt [of "(a * 256 + b) * 256 + c"] eq [of "(a * 256 + b) * 256 + c"]
      digit_le [OF assms(2,5)] digit_le [OF assms(5,2)]
      lt [of "a * 256 + b"] eq [of "a * 256 + b"] lt [of "a' * 256 + b'"] eq [of "a' * 256 + b'"]
      digit_le [OF assms(1,4)] digit_le [OF assms(4,1)] by linarith
qed

lemma quad_inj:
  assumes "b < 256" "c < 256" "d < 256" "b' < 256" "c' < 256" "d' < 256"
  shows "quad a b c d = quad a' b' c' d' \<longleftrightarrow> a = a' \<and> b = b' \<and> c = c' \<and> d = d'"
proof -
  have "quad a b c d = quad a' b' c' d' \<longleftrightarrow> quad a b c d \<le> quad a' b' c' d' \<and> quad a' b' c' d' \<le> quad a b c d" by linarith
  also have "\<dots> \<longleftrightarrow> a = a' \<and> b = b' \<and> c = c' \<and> d = d'"
    unfolding quad_le_iff [OF assms] quad_le_iff [OF assms(4-6,1-3)] by linarith
  finally show ?thesis .
qed

lemma range_texts:
  "''10.0.0.0'' = quad_text 10 0 0 0" "''10.255.255.255'' = quad_text 10 255 255 255"
  "''172.16.0.0'' = quad_text 172 16 0 0" "''172.31.255.255'' = quad_text 172 31 255 255"
  "''192.168.0.0'' = quad_text 192 168 0 0" "''192.168.255.255'' = quad_text 192 168 255 255"
  by code_simp+

lemma range_ends:
  "IPv4_text ''10.0.0.0'' = quad 10 0 0 0" "IPv4_text ''10.255.255.255'' = quad 10 255 255 255"
  "IPv4_text ''172.16.0.0'' = quad 172 16 0 0" "IPv4_text ''172.31.255.255'' = quad 172 31 255 255"
  "IPv4_text ''192.168.0.0'' = quad 192 168 0 0" "IPv4_text ''192.168.255.255'' = quad 192 168 255 255"
  unfolding range_texts IPv4_text_def by (simp_all add: pton_quad)

text \<open>For an address written as four octets, \<open>IsLanIp\<close> holds exactly for the three private
  ranges, \<open>IsWanIp\<close> for all others but 127.0.0.1, and \<open>IsLoopbackIp\<close> for that one; a text that
  is not an IPv4 address counts as a WAN address.\<close>

theorem ip_classes:
  assumes "a < 256" and "b < 256" and "c < 256" and "d < 256" and "in_addr x = quad_text a b c d"
    and "inet_pton4 (in_addr y) = None"
  shows "IsLanIp x = (a = 10 \<or> a = 172 \<and> 16 \<le> b \<and> b \<le> 31 \<or> a = 192 \<and> b = 168) \<and>
    IsWanIp x = (\<not> IsLanIp x \<and> (a, b, c, d) \<noteq> (127, 0, 0, 1)) \<and>
    IsLoopbackIp x = ((a, b, c, d) = (127, 0, 0, 1)) \<and> IsWanIp y \<and> \<not> IsLanIp y"
proof -
  have v: "IPv4 x = quad a b c d" using pton_quad [OF assms(1-4)] by (simp add: IPv4_def IPv4_text_def assms(5))
  have r: "in_range (IPv4 x) (''10.0.0.0'', ''10.255.255.255'') \<longleftrightarrow> a = 10"
    "in_range (IPv4 x) (''172.16.0.0'', ''172.31.255.255'') \<longleftrightarrow> a = 172 \<and> 16 \<le> b \<and> b \<le> 31"
    "in_range (IPv4 x) (''192.168.0.0'', ''192.168.255.255'') \<longleftrightarrow> a = 192 \<and> b = 168"
    unfolding in_range_def v fst_conv snd_conv range_ends using assms(1-4) by (simp_all add: quad_le_iff) linarith+
  have lan: "IsLanIp x = (a = 10 \<or> a = 172 \<and> 16 \<le> b \<and> b \<le> 31 \<or> a = 192 \<and> b = 168)"
    by (simp add: IsLanIp_def private_ranges_def r)
  have "INADDR_LOOPBACK = quad 127 0 0 1" by (simp add: INADDR_LOOPBACK_def quad_def)
  then have lo: "IPv4 x = INADDR_LOOPBACK \<longleftrightarrow> (a, b, c, d) = (127, 0, 0, 1)" 
    using quad_inj [of b c d 0 0 1 a 127] assms(2-4) by (simp add: v)
  have wan: "IsWanIp x = (\<not> IsLanIp x \<and> (a, b, c, d) \<noteq> (127, 0, 0, 1))" by (simp add: IsWanIp_def IsLanIp_def lo)
  have "quad_text 127 0 0 1 = ''127.0.0.1''" by code_simp
  then have loop: "IsLoopbackIp x = ((a, b, c, d) = (127, 0, 0, 1))"
    using pton_quad [OF assms(1-4)] pton_quad [of 127 0 0 1] quad_inj [of b c d 0 0 1 a 127] assms(2-5)
    by (auto simp: IsLoopbackIp_def)
  have z: "IPv4 y = 0" using assms(6) by (simp add: IPv4_def IPv4_text_def)
  have "\<not> list_ex (in_range 0) private_ranges"
    unfolding private_ranges_def in_range_def by (simp add: range_ends quad_def)
  then have "IsWanIp y" "\<not> IsLanIp y" by (simp_all add: IsWanIp_def IsLanIp_def z INADDR_LOOPBACK_def)
  then show ?thesis using lan wan loop by blast
qed

theorem ip_classes_witness:
  "IsLanIp (InetAddress_host ''172.20.1.9:80'' False) = True \<and> IsWanIp (InetAddress_host ''localhost'' False) = True"
proof -
  let ?x = "InetAddress_host ''172.20.1.9:80'' False" and ?y = "InetAddress_host ''localhost'' False"
  have x: "in_addr ?x = quad_text 172 20 1 9" by code_simp
  have y: "inet_pton4 (in_addr ?y) = None" by code_simp
  show ?thesis using ip_classes [OF _ _ _ _ x y] by simp
qed

text \<open>An address printed as host and port is read back: the text before the first colon is the
  host and the number after it the port, whichever way the address was made; and the address a
  socket reports for an IPv4 peer is the one that was put into a socket address.\<close>

theorem address_roundtrip:
  assumes "CHR '':'' \<notin> set ip" and "port < 65536" and "a < 256" and "b < 256" and "c < 256" and "d < 256"
  shows "in_addr (InetAddress_host (ToIpPort (InetAddress_port ip port v6)) v6) = ip \<and>
    port_of (InetAddress_host (ToIpPort (InetAddress_port ip port v6)) v6) = port \<and>
    port_of (InetAddress_port ip port v6) = port \<and>
    GetSockAddr pton6 (peer_address ntop6 (Sockaddr_in port (quad a b c d)) new_InetAddress) = Sockaddr_in port (quad a b c d)"
proof -
  have p: "port_of x = port" if "in_port x = to_string port" for x
    using assms(2) that by (simp add: port_of_def atoi_to_string to_uint16_def)
  have "find_index (\<lambda>c. c = CHR '':'') (ip @ '':'' @ to_string port) = Some (length ip)"
    using assms(1) find_index_hit [of ip "\<lambda>c. c = CHR '':''" "CHR '':''" "to_string port"] by auto
  then have h: "GetIpAndPort (ToIpPort (InetAddress_port ip port v6)) new_InetAddress =
      \<lparr>in_addr = ip, in_port = to_string port, in_isIpv6 = False\<rparr>"
    by (simp add: GetIpAndPort_def ToIpPort_def InetAddress_port_def new_InetAddress_def)
  have "GetSockAddr pton6 (peer_address ntop6 (Sockaddr_in port (quad a b c d)) new_InetAddress) = Sockaddr_in port (quad a b c d)"
    using assms(3-6) p by (simp add: peer_address_def SetPort_def SetAddr_def new_InetAddress_def GetSockAddr_def IPv4_def
        IPv4_text_def ntop_quad pton_quad)
  then show ?thesis using h p by (simp add: InetAddress_host_def InetAddress_port_def)
qed

theorem address_roundtrip_witness:
  "in_addr (InetAddress_host (ToIpPort (InetAddress_port ''10.0.0.7'' 8080 False)) False) = ''10.0.0.7'' \<and>
    port_of (InetAddress_port ''10.0.0.7'' 8080 False) = 8080"
  using address_roundtrip [of "''10.0.0.7''" 8080 10 0 0 7 False] by simp

end
