(* ===== verification/Socket.thy ===== *)
theory Socket
  imports InetAddress "HOL-Library.AList"
begin

text \<open>
  \<open>src/network/base/Socket.{h,cpp}\<close>: thin wrappers of the socket calls. The kernel's sockets are a
  table from descriptors to what the calls set; \<open>bind\<close> refuses an address that another socket of
  the same kind holds, unless both allow the port to be reused, as Linux documents it (port 0 is
  never refused), and an address of the wrong family. What a call writes into a structure when it
  fails is \<open>junk\<close>, the uninitialised local variable of the code.
\<close>

section \<open>Sockets of the kernel\<close>

record ksocket =
  ks_v6 :: bool
  ks_dgram :: bool
  ks_nonblock :: bool
  ks_cloexec :: bool
  ks_nodelay :: bool
  ks_reuseaddr :: bool
  ks_reuseport :: bool
  ks_keepalive :: bool
  ks_local :: "sock_addr option"
  ks_peer :: "sock_addr option"
  ks_listening :: bool

type_synonym sock_table = "(int \<times> ksocket) list"

definition new_ksocket :: "bool \<Rightarrow> bool \<Rightarrow> ksocket" where
  "new_ksocket v6 dgram =
     \<lparr>ks_v6 = v6, ks_dgram = dgram, ks_nonblock = True, ks_cloexec = True, ks_nodelay = False, ks_reuseaddr = False,
      ks_reuseport = False, ks_keepalive = False, ks_local = None, ks_peer = None, ks_listening = False\<rparr>"

definition set_socket :: "int \<Rightarrow> (ksocket \<Rightarrow> ksocket) \<Rightarrow> sock_table \<Rightarrow> sock_table" where
  "set_socket fd f t = (case map_of t fd of None \<Rightarrow> t | Some k \<Rightarrow> AList.update fd (f k) t)"

definition sock_port :: "sock_addr \<Rightarrow> nat" where
  "sock_port sa = (case sa of Sockaddr_in port ip \<Rightarrow> port | Sockaddr_in6 port bs \<Rightarrow> port | Sockaddr_other \<Rightarrow> 0)"

definition same_family :: "ksocket \<Rightarrow> sock_addr \<Rightarrow> bool" where
  "same_family k sa = (case sa of Sockaddr_in port ip \<Rightarrow> \<not> ks_v6 k | Sockaddr_in6 port bs \<Rightarrow> ks_v6 k | Sockaddr_other \<Rightarrow> False)"

definition in_conflict :: "ksocket \<Rightarrow> sock_addr \<Rightarrow> ksocket \<Rightarrow> bool" where
  "in_conflict k sa k' \<longleftrightarrow> ks_local k' = Some sa \<and> ks_dgram k' = ks_dgram k \<and> sock_port sa \<noteq> 0 \<and>
     \<not> (ks_reuseport k \<and> ks_reuseport k')"

definition sys_bind :: "int \<Rightarrow> sock_addr \<Rightarrow> sock_table \<Rightarrow> int \<times> sock_table" where
  "sys_bind fd sa t =
     (case map_of t fd of
        None \<Rightarrow> (-1, t)
      | Some k \<Rightarrow>
          if ks_local k \<noteq> None \<or> \<not> same_family k sa \<or> list_ex (\<lambda>(fd', k'). fd' \<noteq> fd \<and> in_conflict k sa k') t then (-1, t)
          else (0, set_socket fd (\<lambda>k. k\<lparr>ks_local := Some sa\<rparr>) t))"

section \<open>The wrappers\<close>

text \<open>\<open>fd\<close> is the result of \<open>socket\<close>.\<close>

definition CreateNonblockingTcpSocket :: "int \<Rightarrow> bool \<Rightarrow> sock_table \<Rightarrow> int \<times> sock_table" where
  "CreateNonblockingTcpSocket fd v6 t = (fd, if fd < 0 then t else AList.update fd (new_ksocket v6 False) t)"

definition CreateNonblockingUdpSocket :: "int \<Rightarrow> bool \<Rightarrow> sock_table \<Rightarrow> int \<times> sock_table" where
  "CreateNonblockingUdpSocket fd v6 t = (fd, if fd < 0 then t else AList.update fd (new_ksocket v6 True) t)"

definition BindAddress :: "(string \<Rightarrow> nat list option) \<Rightarrow> inet_address \<Rightarrow> int \<Rightarrow> sock_table \<Rightarrow> int \<times> sock_table" where
  "BindAddress pton6 localaddr fd t = sys_bind fd (GetSockAddr pton6 localaddr) t"

definition Socket_Listen :: "int \<Rightarrow> sock_table \<Rightarrow> int \<times> sock_table" where
  "Socket_Listen fd t =
     (case map_of t fd of
        None \<Rightarrow> (-1, t)
      | Some k \<Rightarrow> if ks_dgram k then (-1, t) else (0, set_socket fd (\<lambda>k. k\<lparr>ks_listening := True\<rparr>) t))"

text \<open>\<open>r\<close> is the result of \<open>connect\<close>: nothing, or an error number.\<close>

definition Socket_Connect :: "(string \<Rightarrow> nat list option) \<Rightarrow> inet_address \<Rightarrow> int option \<Rightarrow> int \<Rightarrow> sock_table \<Rightarrow> int \<times> sock_table" where
  "Socket_Connect pton6 addr r fd t =
     (case r of
        None \<Rightarrow> (0, set_socket fd (\<lambda>k. k\<lparr>ks_peer := Some (GetSockAddr pton6 addr)\<rparr>) t)
      | Some err \<Rightarrow> (-1, t))"

definition sys_getsockname :: "sock_addr \<Rightarrow> int \<Rightarrow> sock_table \<Rightarrow> sock_addr" where
  "sys_getsockname junk fd t =
     (case map_of t fd of
        None \<Rightarrow> junk
      | Some k \<Rightarrow>
          (case ks_local k of
             Some sa \<Rightarrow> sa
           | None \<Rightarrow> if ks_v6 k then Sockaddr_in6 0 (replicate 16 0) else Sockaddr_in 0 0))"

definition sys_getpeername :: "sock_addr \<Rightarrow> int \<Rightarrow> sock_table \<Rightarrow> sock_addr" where
  "sys_getpeername junk fd t = (case Option.bind (map_of t fd) ks_peer of None \<Rightarrow> junk | Some sa \<Rightarrow> sa)"

definition GetLocalAddr :: "(nat list \<Rightarrow> string) \<Rightarrow> sock_addr \<Rightarrow> int \<Rightarrow> sock_table \<Rightarrow> inet_address" where
  "GetLocalAddr ntop6 junk fd t = peer_address ntop6 (sys_getsockname junk fd t) new_InetAddress"

definition GetPeerAddr :: "(nat list \<Rightarrow> string) \<Rightarrow> sock_addr \<Rightarrow> int \<Rightarrow> sock_table \<Rightarrow> inet_address" where
  "GetPeerAddr ntop6 junk fd t = peer_address ntop6 (sys_getpeername junk fd t) new_InetAddress"

definition SetTcpNoDelay :: "bool \<Rightarrow> int \<Rightarrow> sock_table \<Rightarrow> sock_table" where
  "SetTcpNoDelay on fd t = set_socket fd (\<lambda>k. if ks_dgram k then k else k\<lparr>ks_nodelay := on\<rparr>) t"

definition SetReuseAddr :: "bool \<Rightarrow> int \<Rightarrow> sock_table \<Rightarrow> sock_table" where
  "SetReuseAddr on fd t = set_socket fd (\<lambda>k. k\<lparr>ks_reuseaddr := on\<rparr>) t"

definition SetReusePort :: "bool \<Rightarrow> int \<Rightarrow> sock_table \<Rightarrow> sock_table" where
  "SetReusePort on fd t = set_socket fd (\<lambda>k. k\<lparr>ks_reuseport := on\<rparr>) t"

definition SetKeepAlive :: "bool \<Rightarrow> int \<Rightarrow> sock_table \<Rightarrow> sock_table" where
  "SetKeepAlive on fd t = set_socket fd (\<lambda>k. k\<lparr>ks_keepalive := on\<rparr>) t"

definition SetNonBlocking :: "bool \<Rightarrow> int \<Rightarrow> sock_table \<Rightarrow> sock_table" where
  "SetNonBlocking on fd t = set_socket fd (\<lambda>k. k\<lparr>ks_nonblock := on\<rparr>) t"

section \<open>The sockets of the servers\<close>

text \<open>What \<open>Acceptor::Open\<close> does to its socket once it has it; the results of \<open>bind\<close> and \<open>listen\<close> are
  ignored.\<close>

definition listener_setup :: "(string \<Rightarrow> nat list option) \<Rightarrow> inet_address \<Rightarrow> int \<Rightarrow> sock_table \<Rightarrow> sock_table" where
  "listener_setup pton6 addr fd t =
     (let t1 = SetReusePort True fd (SetReuseAddr True fd t)
      in snd (Socket_Listen fd (snd (BindAddress pton6 addr fd t1))))"

definition listener_socket :: "(string \<Rightarrow> nat list option) \<Rightarrow> inet_address \<Rightarrow> int \<Rightarrow> sock_table \<Rightarrow> sock_table" where
  "listener_socket pton6 addr fd t = listener_setup pton6 addr fd (snd (CreateNonblockingTcpSocket fd (in_isIpv6 addr) t))"

fun listener_sockets :: "(string \<Rightarrow> nat list option) \<Rightarrow> inet_address \<Rightarrow> int list \<Rightarrow> sock_table \<Rightarrow> sock_table" where
  "listener_sockets pton6 addr [] t = t"
| "listener_sockets pton6 addr (fd # fds) t = listener_sockets pton6 addr fds (listener_socket pton6 addr fd t)"

text \<open>And \<open>UdpServer::Open\<close>.\<close>

definition udp_server_socket :: "(string \<Rightarrow> nat list option) \<Rightarrow> inet_address \<Rightarrow> int \<Rightarrow> sock_table \<Rightarrow> sock_table" where
  "udp_server_socket pton6 addr fd t = snd (BindAddress pton6 addr fd (snd (CreateNonblockingUdpSocket fd False t)))"

lemma set_socket_map: "map_of (set_socket fd f t) x = (if x = fd then map_option f (map_of t fd) else map_of t x)"
  by (auto simp: set_socket_def update_conv' split: option.split)

lemma created_map: "0 \<le> fd \<Longrightarrow> map_of (snd (CreateNonblockingTcpSocket fd v6 t)) x = (if x = fd then Some (new_ksocket v6 False) else map_of t x)"
  by (simp add: CreateNonblockingTcpSocket_def update_conv')

lemma get_family: "same_family k (GetSockAddr pton6 addr) = (ks_v6 k = in_isIpv6 addr)"
  by (simp add: same_family_def GetSockAddr_def)

text \<open>A table without duplicate descriptors can be read through its map.\<close>

lemma distinct_set_socket: "distinct (map fst t) \<Longrightarrow> distinct (map fst (set_socket fd f t))"
  by (simp add: set_socket_def distinct_update split: option.split)

lemma list_ex_map_of:
  "distinct (map fst t) \<Longrightarrow> list_ex (\<lambda>(fd', k'). P fd' k') t = (\<exists>fd' k'. map_of t fd' = Some k' \<and> P fd' k')"
  by (auto simp: list_ex_iff)

definition may_share :: "sock_addr \<Rightarrow> sock_table \<Rightarrow> bool" where
  "may_share sa t \<longleftrightarrow> (\<forall>fd k. map_of t fd = Some k \<longrightarrow> ks_local k = Some sa \<longrightarrow> ks_dgram k \<or> ks_reuseport k)"

definition listener :: "bool \<Rightarrow> sock_addr \<Rightarrow> ksocket" where
  "listener v6 sa = (new_ksocket v6 False)\<lparr>ks_reuseaddr := True, ks_reuseport := True, ks_local := Some sa, ks_listening := True\<rparr>"

lemma listener_opens:
  assumes d: "distinct (map fst t)" and fd: "0 \<le> fd" and sh: "may_share (GetSockAddr pton6 addr) t"
  shows "map_of (listener_socket pton6 addr fd t) =
      (map_of t)(fd \<mapsto> listener (in_isIpv6 addr) (GetSockAddr pton6 addr)) \<and> distinct (map fst (listener_socket pton6 addr fd t))"
proof -
  let ?sa = "GetSockAddr pton6 addr"
  let ?k = "(new_ksocket (in_isIpv6 addr) False)\<lparr>ks_reuseaddr := True, ks_reuseport := True\<rparr>"
  let ?t = "SetReusePort True fd (SetReuseAddr True fd (snd (CreateNonblockingTcpSocket fd (in_isIpv6 addr) t)))"
  have t: "map_of ?t x = (if x = fd then Some ?k else map_of t x)" for x
    by (simp add: SetReusePort_def SetReuseAddr_def set_socket_map created_map [OF fd])
  have dt: "distinct (map fst ?t)"
    using d by (simp add: SetReusePort_def SetReuseAddr_def CreateNonblockingTcpSocket_def distinct_set_socket distinct_update)
  have "\<not> list_ex (\<lambda>(fd', k'). fd' \<noteq> fd \<and> in_conflict ?k ?sa k') ?t"
    unfolding list_ex_map_of [OF dt] using sh t by (auto simp: may_share_def in_conflict_def new_ksocket_def split: if_splits)
  moreover have "ks_local ?k = None" "same_family ?k ?sa" by (simp_all add: get_family new_ksocket_def)
  ultimately have b: "snd (BindAddress pton6 addr fd ?t) = set_socket fd (\<lambda>k. k\<lparr>ks_local := Some ?sa\<rparr>) ?t"
    using t by (simp add: BindAddress_def sys_bind_def)
  have l: "listener_socket pton6 addr fd t =
      set_socket fd (\<lambda>k. k\<lparr>ks_listening := True\<rparr>) (set_socket fd (\<lambda>k. k\<lparr>ks_local := Some ?sa\<rparr>) ?t)"
    unfolding listener_socket_def listener_setup_def Let_def b Socket_Listen_def by (simp add: set_socket_map t new_ksocket_def)
  show ?thesis unfolding l using dt
    by (auto simp: set_socket_map t listener_def distinct_set_socket)
qed

text \<open>A socket that is closed leaves the table.\<close>

lemma closed_socket:
  assumes "distinct (map fst t)" and "may_share sa t"
  shows "distinct (map fst (AList.delete fd t))" "may_share sa (AList.delete fd t)"
proof -
  show "distinct (map fst (AList.delete fd t))" using assms(1) by (rule distinct_delete)
  show "may_share sa (AList.delete fd t)" using assms(2) by (auto simp: may_share_def delete_conv' split: if_splits)
qed

section \<open>Properties\<close>

text \<open>Servers of several loops listen on one address: whatever else is open, as long as no stream
  socket holds the address without sharing it, every acceptor gets a socket that is bound to its
  address and listens, and the socket reports that address as its own.\<close>

theorem listeners_share_port:
  assumes "distinct (map fst t)" and "list_all (\<lambda>fd. 0 \<le> fd) fds" and "may_share (GetSockAddr pton6 addr) t" and "fd \<in> set fds"
  shows "map_of (listener_sockets pton6 addr fds t) fd = Some (listener (in_isIpv6 addr) (GetSockAddr pton6 addr)) \<and>
    GetLocalAddr ntop6 junk fd (listener_sockets pton6 addr fds t) = peer_address ntop6 (GetSockAddr pton6 addr) new_InetAddress"
proof -
  have gen: "distinct (map fst t) \<Longrightarrow> list_all (\<lambda>fd. 0 \<le> fd) fds \<Longrightarrow> may_share (GetSockAddr pton6 addr) t \<Longrightarrow>
      map_of (listener_sockets pton6 addr fds t) x =
        (if x \<in> set fds then Some (listener (in_isIpv6 addr) (GetSockAddr pton6 addr)) else map_of t x)" for x
  proof (induction fds arbitrary: t)
    case (Cons fd fds)
    note o = listener_opens [of t fd pton6 addr]
    have "may_share (GetSockAddr pton6 addr) (listener_socket pton6 addr fd t)"
      using o Cons.prems by (auto simp: may_share_def listener_def)
    then show ?case using Cons.IH [of "listener_socket pton6 addr fd t"] o Cons.prems by simp
  qed simp
  have "map_of (listener_sockets pton6 addr fds t) fd = Some (listener (in_isIpv6 addr) (GetSockAddr pton6 addr))"
    using gen [OF assms(1-3), of fd] assms(4) by simp
  then show ?thesis by (simp add: GetLocalAddr_def sys_getsockname_def listener_def)
qed

lemma zero_address: "''0.0.0.0'' = quad_text 0 0 0 0"
  by code_simp

theorem listeners_share_port_witness:
  "map_of (listener_sockets (\<lambda>_. None) (InetAddress_port ''0.0.0.0'' 8080 False) [4, 9] []) 9 = Some (listener False (Sockaddr_in 8080 0)) \<and>
    GetLocalAddr (\<lambda>_. []) Sockaddr_other 9 (listener_sockets (\<lambda>_. None) (InetAddress_port ''0.0.0.0'' 8080 False) [4, 9] [])
      = InetAddress_port ''0.0.0.0'' 8080 False"
proof -
  let ?a = "InetAddress_port ''0.0.0.0'' 8080 False"
  have a: "GetSockAddr (\<lambda>_. None) ?a = Sockaddr_in 8080 0" "in_isIpv6 ?a = False"
    "peer_address (\<lambda>_. []) (Sockaddr_in 8080 0) new_InetAddress = ?a"
    using pton_quad [of 0 0 0 0] ntop_quad [of 0 0 0 0] atoi_to_string [of 8080]
    by (simp_all add: zero_address GetSockAddr_def InetAddress_port_def port_of_def to_uint16_def IPv4_def IPv4_text_def
        peer_address_def SetPort_def SetAddr_def new_InetAddress_def quad_def)
  show ?thesis using listeners_share_port [of "[]" "[4, 9]" "\<lambda>_. None" ?a 9 "\<lambda>_. []" Sockaddr_other]
    by (simp add: a may_share_def)
qed

text \<open>The datagram socket of a \<open>UdpServer\<close> does not share its port: the second server on an address
  is left with a socket that is not bound.\<close>

lemma second_udp_unbound:
  assumes "0 \<le> fd" and "fd \<noteq> fd'" and "map_of t fd' = Some k" and "ks_dgram k" and "ks_local k = Some (GetSockAddr pton6 addr)"
    and "sock_port (GetSockAddr pton6 addr) \<noteq> 0"
  shows "\<exists>u. map_of (udp_server_socket pton6 addr fd t) fd = Some u \<and> ks_local u = None"
proof -
  let ?t = "AList.update fd (new_ksocket False True) t"
  have m: "map_of ?t fd = Some (new_ksocket False True)" "map_of ?t fd' = Some k" using assms(2,3) by (simp_all add: update_conv')
  have "(fd', k) \<in> set ?t" using m(2) by (rule map_of_SomeD)
  then have "list_ex (\<lambda>(x, k'). x \<noteq> fd \<and> in_conflict (new_ksocket False True) (GetSockAddr pton6 addr) k') ?t"
    using assms(2,4-6) by (auto simp: list_ex_iff in_conflict_def new_ksocket_def)
  then show ?thesis using m(1) assms(1)
    by (simp add: udp_server_socket_def CreateNonblockingUdpSocket_def BindAddress_def sys_bind_def new_ksocket_def)
qed

end
