(* ===== verification/Epoller.thy ===== *)
theory Epoller
  imports Channel Socket
begin

text \<open>
  \<open>src/network/net/Epoller.{h,cpp}\<close>, with the operations of \<open>EventLoop.cpp\<close> that change a
  channel and its registration. Channels are shared objects: a channel is named by a number and
  looked up in a store. The kernel keeps the set of open descriptors and the interest list of
  the epoll instance, and the table of sockets that \<open>Socket\<close> describes; \<open>epoll_ctl\<close> fails as documented (\<open>EBADF\<close>, \<open>EEXIST\<close>, \<open>ENOENT\<close>; a kernel that
  has no room for a registration, \<open>ENOMEM\<close> and \<open>ENOSPC\<close>, is not modelled), and
  closing a descriptor takes it out of the interest list. Where the code calls \<open>exit\<close> the
  model has a fault.
\<close>

section \<open>State\<close>

record epoll_state =
  ep_channels :: "int \<Rightarrow> nat option"         \<comment> \<open>\<open>channels_\<close>\<close>
  ep_nevents :: nat                           \<comment> \<open>\<open>events_.size ()\<close>\<close>
  ep_store :: "nat \<Rightarrow> channel"               \<comment> \<open>the channel objects\<close>
  k_open :: "int \<Rightarrow> bool"                    \<comment> \<open>open descriptors\<close>
  k_interest :: "int \<Rightarrow> 32 word option"      \<comment> \<open>the interest list of the epoll instance\<close>
  k_socks :: sock_table                       \<comment> \<open>the sockets\<close>
  k_room :: bool                              \<comment> \<open>there is memory, and a watch of the user, for one more registration\<close>

definition new_Epoller :: "nat \<Rightarrow> epoll_state" where
  "new_Epoller maxEvent =
     \<lparr>ep_channels = (\<lambda>_. None), ep_nevents = maxEvent, ep_store = (\<lambda>_. new_Channel (-1)),
      k_open = (\<lambda>_. False), k_interest = (\<lambda>_. None), k_socks = [], k_room = True\<rparr>"

definition chan_fd :: "nat \<Rightarrow> epoll_state \<Rightarrow> int" where
  "chan_fd c ep = ch_fd (ep_store ep c)"

definition update_chan :: "nat \<Rightarrow> (channel \<Rightarrow> channel) \<Rightarrow> epoll_state \<Rightarrow> epoll_state" where
  "update_chan c f ep = ep\<lparr>ep_store := (ep_store ep)(c := f (ep_store ep c))\<rparr>"

section \<open>System calls\<close>

text \<open>\<open>epoll_ctl\<close> fails for a descriptor that is not open (\<open>EBADF\<close>), that is watched already (\<open>EEXIST\<close>) or
  is not (\<open>ENOENT\<close>), and \<open>EPOLL_CTL_ADD\<close> when the kernel has no room (\<open>ENOMEM\<close>, \<open>ENOSPC\<close>).\<close>

definition epoll_ctl_add :: "int \<Rightarrow> 32 word \<Rightarrow> epoll_state \<Rightarrow> epoll_state option" where
  "epoll_ctl_add fd ev ep =
     (if k_open ep fd \<and> k_interest ep fd = None \<and> k_room ep then Some (ep\<lparr>k_interest := (k_interest ep)(fd \<mapsto> ev)\<rparr>) else None)"

definition epoll_ctl_mod :: "int \<Rightarrow> 32 word \<Rightarrow> epoll_state \<Rightarrow> epoll_state option" where
  "epoll_ctl_mod fd ev ep =
     (if k_open ep fd \<and> k_interest ep fd \<noteq> None then Some (ep\<lparr>k_interest := (k_interest ep)(fd \<mapsto> ev)\<rparr>) else None)"

definition epoll_ctl_del :: "int \<Rightarrow> epoll_state \<Rightarrow> epoll_state option" where
  "epoll_ctl_del fd ep =
     (if k_open ep fd \<and> k_interest ep fd \<noteq> None then Some (ep\<lparr>k_interest := (k_interest ep)(fd := None)\<rparr>) else None)"

definition sys_close :: "int \<Rightarrow> epoll_state \<Rightarrow> epoll_state" where
  "sys_close fd ep =
     ep\<lparr>k_open := (k_open ep)(fd := False), k_interest := (k_interest ep)(fd := None), k_socks := AList.delete fd (k_socks ep)\<rparr>"

text \<open>A descriptor the kernel hands out (\<open>socket\<close>, \<open>accept4\<close>), wrapped in the channel \<open>c\<close>.\<close>

definition open_channel :: "int \<Rightarrow> nat \<Rightarrow> epoll_state \<Rightarrow> epoll_state" where
  "open_channel fd c ep = ep\<lparr>k_open := (k_open ep)(fd := True), ep_store := (ep_store ep)(c := new_Channel fd)\<rparr>"

definition or_exit :: "epoll_state option \<Rightarrow> epoll_state result" where
  "or_exit r = (case r of None \<Rightarrow> Inl exit_fault | Some ep \<Rightarrow> Inr ep)"

section \<open>Operations of the poller\<close>

definition Epoller_AddChannel :: "nat \<Rightarrow> epoll_state \<Rightarrow> epoll_state result" where
  "Epoller_AddChannel c ep =
     (let fd = chan_fd c ep
      in if ep_channels ep fd \<noteq> None then Inr ep
         else or_exit (epoll_ctl_add fd (ch_event (ep_store ep c)) (ep\<lparr>ep_channels := (ep_channels ep)(fd \<mapsto> c)\<rparr>)))"

definition Epoller_RemoveChannel :: "nat \<Rightarrow> epoll_state \<Rightarrow> epoll_state result" where
  "Epoller_RemoveChannel c ep =
     (let fd = chan_fd c ep
      in if ep_channels ep fd = None then Inr ep
         else or_exit (epoll_ctl_del fd (ep\<lparr>ep_channels := (ep_channels ep)(fd := None)\<rparr>)))"

definition Epoller_UpdateChannel :: "nat \<Rightarrow> epoll_state \<Rightarrow> epoll_state result" where
  "Epoller_UpdateChannel c ep =
     (let fd = chan_fd c ep
      in if ep_channels ep fd = None then Inr ep
         else or_exit (epoll_ctl_mod fd (ch_event (ep_store ep c)) ep))"

text \<open>
  \<open>Poll\<close>: the argument is the error number of \<open>epoll_wait\<close>, of whatever kind, or what it reports, at
  most \<open>events_.size ()\<close> entries. The channels found are returned with their \<open>revents_\<close> set.
\<close>

fun poll_events :: "(int \<times> 32 word) list \<Rightarrow> epoll_state \<Rightarrow> nat list \<times> epoll_state" where
  "poll_events [] ep = ([], ep)"
| "poll_events ((fd, ev) # ready) ep =
     (if fd < 0 then poll_events ready ep
      else
        (case ep_channels ep fd of
           None \<Rightarrow> poll_events ready ep
         | Some c \<Rightarrow>
             (let (cs, ep') = poll_events ready (update_chan c (SetRevents ev) ep) in (c # cs, ep'))))"

definition poll_ready :: "(int \<times> 32 word) list \<Rightarrow> epoll_state \<Rightarrow> nat list \<times> epoll_state" where
  "poll_ready ready ep =
     (let (cs, ep') = poll_events ready ep
      in (cs, if length ready = ep_nevents ep then ep'\<lparr>ep_nevents := ep_nevents ep * 2\<rparr> else ep'))"

definition Poll :: "int + (int \<times> 32 word) list \<Rightarrow> epoll_state \<Rightarrow> (nat list \<times> epoll_state) result" where
  "Poll w ep = (case w of Inl err \<Rightarrow> Inl exit_fault | Inr ready \<Rightarrow> Inr (poll_ready ready ep))"

section \<open>Operations of the loop on channels\<close>

definition AddChannel :: "nat \<Rightarrow> epoll_state \<Rightarrow> epoll_state result" where
  "AddChannel c ep = Epoller_AddChannel c (update_chan c (with_reading True) ep)"

definition DelChannel :: "nat \<Rightarrow> epoll_state \<Rightarrow> epoll_state result" where
  "DelChannel c ep = Epoller_RemoveChannel c ep"

definition EnableChannelWriting :: "nat \<Rightarrow> bool \<Rightarrow> epoll_state \<Rightarrow> epoll_state result" where
  "EnableChannelWriting c enable ep = Epoller_UpdateChannel c (update_chan c (with_writing enable) ep)"

definition EnableChannelReading :: "nat \<Rightarrow> bool \<Rightarrow> epoll_state \<Rightarrow> epoll_state result" where
  "EnableChannelReading c enable ep = Epoller_UpdateChannel c (update_chan c (with_reading enable) ep)"

text \<open>\<open>Channel::Close\<close> of a channel object.\<close>

definition close_channel :: "nat \<Rightarrow> epoll_state \<Rightarrow> epoll_state" where
  "close_channel c ep =
     (let (fd, ch) = Channel_Close (ep_store ep c); ep' = update_chan c (\<lambda>_. ch) ep
      in (case fd of None \<Rightarrow> ep' | Some d \<Rightarrow> sys_close d ep'))"

lemmas epoller_defs = Epoller_AddChannel_def Epoller_RemoveChannel_def Epoller_UpdateChannel_def
  epoll_ctl_add_def epoll_ctl_mod_def epoll_ctl_del_def or_exit_def
lemmas loop_channel_defs = AddChannel_def DelChannel_def EnableChannelWriting_def EnableChannelReading_def

section \<open>Histories\<close>

text \<open>
  What the servers and clients of the library do with channels, in any order and number: take a
  new descriptor for a fresh channel object, register it, change its interest, take it out,
  and close it after it has been taken out. \<open>loop_reach\<close> are the states reached.
\<close>

inductive loop_step :: "epoll_state \<Rightarrow> epoll_state \<Rightarrow> bool" where
  opened: "0 < fd \<Longrightarrow> \<not> k_open ep fd \<Longrightarrow> chan_fd c ep = -1 \<Longrightarrow> loop_step ep (open_channel fd c ep)"
| add: "0 < chan_fd c ep \<Longrightarrow> ep_channels ep (chan_fd c ep) = None \<Longrightarrow> AddChannel c ep = Inr ep' \<Longrightarrow> loop_step ep ep'"
| writing: "0 < chan_fd c ep \<Longrightarrow> EnableChannelWriting c enable ep = Inr ep' \<Longrightarrow> loop_step ep ep'"
| reading: "0 < chan_fd c ep \<Longrightarrow> EnableChannelReading c enable ep = Inr ep' \<Longrightarrow> loop_step ep ep'"
| remove: "DelChannel c ep = Inr ep' \<Longrightarrow> loop_step ep ep'"
| close: "ep_channels ep (chan_fd c ep) = None \<Longrightarrow> loop_step ep (close_channel c ep)"
| poll: "Poll w ep = Inr (cs, ep') \<Longrightarrow> loop_step ep ep'"

inductive loop_reach :: "epoll_state \<Rightarrow> bool" where
  start: "loop_reach (new_Epoller n)"
| step: "loop_reach ep \<Longrightarrow> loop_step ep ep' \<Longrightarrow> loop_reach ep'"


section \<open>Registrations agree with the kernel\<close>

definition in_sync :: "epoll_state \<Rightarrow> bool" where
  "in_sync ep \<longleftrightarrow> k_room ep \<and>
     (\<forall>fd c. ep_channels ep fd = Some c \<longrightarrow>
        0 < fd \<and> chan_fd c ep = fd \<and> k_interest ep fd = Some (ch_event (ep_store ep c))) \<and>
     (\<forall>fd. ep_channels ep fd = None \<longrightarrow> k_interest ep fd = None) \<and>
     (\<forall>c. 0 < chan_fd c ep \<longrightarrow> k_open ep (chan_fd c ep)) \<and>
     (\<forall>c d. 0 < chan_fd c ep \<longrightarrow> chan_fd d ep = chan_fd c ep \<longrightarrow> d = c) \<and>
     (\<forall>c. 0 < chan_fd c ep \<or> chan_fd c ep = -1)"

lemma in_syncD:
  assumes "in_sync ep"
  shows "ep_channels ep fd = Some c \<Longrightarrow> 0 < fd \<and> chan_fd c ep = fd \<and> k_interest ep fd = Some (ch_event (ep_store ep c))"
    and "ep_channels ep fd = None \<Longrightarrow> k_interest ep fd = None"
    and "0 < chan_fd c ep \<Longrightarrow> k_open ep (chan_fd c ep)"
    and "0 < chan_fd c ep \<Longrightarrow> chan_fd d ep = chan_fd c ep \<Longrightarrow> d = c"
    and "0 < chan_fd c ep \<or> chan_fd c ep = -1"
    and "k_room ep"
  using assms unfolding in_sync_def by blast+

lemma in_syncI:
  assumes "\<And>fd c. ep_channels ep fd = Some c \<Longrightarrow>
      0 < fd \<and> chan_fd c ep = fd \<and> k_interest ep fd = Some (ch_event (ep_store ep c))"
    and "\<And>fd. ep_channels ep fd = None \<Longrightarrow> k_interest ep fd = None"
    and "\<And>c. 0 < chan_fd c ep \<Longrightarrow> k_open ep (chan_fd c ep)"
    and "\<And>c d. 0 < chan_fd c ep \<Longrightarrow> chan_fd d ep = chan_fd c ep \<Longrightarrow> d = c"
    and "\<And>c. 0 < chan_fd c ep \<or> chan_fd c ep = -1"
    and "k_room ep"
  shows "in_sync ep"
  using assms unfolding in_sync_def by blast

lemma chan_fd_update [simp]: "(\<And>ch. ch_fd (f ch) = ch_fd ch) \<Longrightarrow> chan_fd d (update_chan c f ep) = chan_fd d ep"
  by (simp add: chan_fd_def update_chan_def)

lemma update_chan_simps [simp]:
  "ep_channels (update_chan c f ep) = ep_channels ep" "k_open (update_chan c f ep) = k_open ep"
  "k_interest (update_chan c f ep) = k_interest ep" "ep_nevents (update_chan c f ep) = ep_nevents ep"
  "k_socks (update_chan c f ep) = k_socks ep" "k_room (update_chan c f ep) = k_room ep"
  "ep_store (update_chan c f ep) c = f (ep_store ep c)"
  "d \<noteq> c \<Longrightarrow> ep_store (update_chan c f ep) d = ep_store ep d"
  by (simp_all add: update_chan_def)

lemma chan_fd_fields [simp]:
  "chan_fd c (ep\<lparr>k_interest := m\<rparr>) = chan_fd c ep" "chan_fd c (ep\<lparr>ep_channels := t\<rparr>) = chan_fd c ep"
  "chan_fd c (ep\<lparr>ep_nevents := n\<rparr>) = chan_fd c ep" "chan_fd c (ep\<lparr>k_open := g\<rparr>) = chan_fd c ep"
  "chan_fd c (ep\<lparr>k_socks := ts\<rparr>) = chan_fd c ep"
  by (simp_all add: chan_fd_def)

lemma in_sync_socks [simp]: "in_sync (ep\<lparr>k_socks := t\<rparr>) = in_sync ep"
  by (simp add: in_sync_def)

text \<open>The code's operations on a registered or unregistered channel, evaluated.\<close>

lemma enable_eval:
  assumes s: "in_sync ep" and fd: "0 < chan_fd c ep" and f: "\<And>ch. ch_fd (f ch) = ch_fd ch"
  shows "Epoller_UpdateChannel c (update_chan c f ep) =
    Inr (if ep_channels ep (chan_fd c ep) = None then update_chan c f ep
         else (update_chan c f ep)\<lparr>k_interest := (k_interest ep)(chan_fd c ep \<mapsto> ch_event (f (ep_store ep c)))\<rparr>)"
proof (cases "ep_channels ep (chan_fd c ep)")
  case None
  then show ?thesis using f by (simp add: Epoller_UpdateChannel_def)
next
  case (Some d)
  then have "k_interest ep (chan_fd c ep) \<noteq> None" using in_syncD(1) [OF s Some] by simp
  then show ?thesis using Some f in_syncD(3) [OF s fd]
    by (simp add: Epoller_UpdateChannel_def epoll_ctl_mod_def or_exit_def)
qed

lemma enable_in_sync:
  assumes s: "in_sync ep" and fd: "0 < chan_fd c ep" and f: "\<And>ch. ch_fd (f ch) = ch_fd ch"
    and r: "Epoller_UpdateChannel c (update_chan c f ep) = Inr ep'"
  shows "in_sync ep'"
proof (cases "ep_channels ep (chan_fd c ep)")
  case None
  then have ep': "ep' = update_chan c f ep" using r enable_eval [OF s fd f] by simp
  have "d \<noteq> c" if "ep_channels ep x = Some d" for x d using in_syncD(1) [OF s that] None that by auto
  then show ?thesis using s f unfolding in_sync_def ep' by simp
next
  case (Some d)
  have d: "d = c" using in_syncD(1) [OF s Some] in_syncD(4) [OF s fd] by simp
  have ep': "ep' = (update_chan c f ep)\<lparr>k_interest := (k_interest ep)(chan_fd c ep \<mapsto> ch_event (f (ep_store ep c)))\<rparr>"
    using r Some enable_eval [OF s fd f] by simp
  have other: "e \<noteq> c" if "ep_channels ep x = Some e" "x \<noteq> chan_fd c ep" for x e
    using in_syncD(1) [OF s that(1)] that(2) by auto
  have "0 < x \<and> chan_fd e ep' = x \<and> k_interest ep' x = Some (ch_event (ep_store ep' e))" if "ep_channels ep' x = Some e" for x e
    using that in_syncD(1) [OF s, of x e] other [of x e] Some d f
    by (cases "x = chan_fd c ep") (simp_all add: ep')
  moreover have "k_interest ep' x = None" if "ep_channels ep' x = None" for x
    using that in_syncD(2) [OF s, of x] Some by (auto simp: ep')
  moreover have "chan_fd e ep' = chan_fd e ep" "k_open ep' = k_open ep" "k_room ep' = k_room ep" for e using f by (simp_all add: ep')
  ultimately show ?thesis by (intro in_syncI) (use in_syncD(3-6) [OF s] in metis)+
qed

lemma add_eval:
  assumes s: "in_sync ep" and fd: "0 < chan_fd c ep" and fresh: "ep_channels ep (chan_fd c ep) = None"
  shows "AddChannel c ep = Inr ((update_chan c (with_reading True) ep)
     \<lparr>ep_channels := (ep_channels ep)(chan_fd c ep \<mapsto> c),
      k_interest := (k_interest ep)(chan_fd c ep \<mapsto> ch_event (with_reading True (ep_store ep c)))\<rparr>)"
  using fresh in_syncD(2) [OF s fresh] in_syncD(3) [OF s fd] in_syncD(6) [OF s]
  by (simp add: AddChannel_def Epoller_AddChannel_def epoll_ctl_add_def or_exit_def Let_def)

lemma add_in_sync:
  assumes s: "in_sync ep" and fd: "0 < chan_fd c ep" and fresh: "ep_channels ep (chan_fd c ep) = None"
    and r: "AddChannel c ep = Inr ep'"
  shows "in_sync ep'"
proof -
  let ?ep = "(update_chan c (with_reading True) ep)
     \<lparr>ep_channels := (ep_channels ep)(chan_fd c ep \<mapsto> c),
      k_interest := (k_interest ep)(chan_fd c ep \<mapsto> ch_event (with_reading True (ep_store ep c)))\<rparr>"
  have ep': "ep' = ?ep" using r add_eval [OF s fd fresh] by simp
  have other: "d \<noteq> c" if "ep_channels ep x = Some d" for x d using in_syncD(1) [OF s that] fresh that by auto
  have "0 < x \<and> chan_fd d ?ep = x \<and> k_interest ?ep x = Some (ch_event (ep_store ?ep d))" if "ep_channels ?ep x = Some d" for x d
    using that fd in_syncD(1) [OF s, of x d] other [of x d] by (cases "x = chan_fd c ep") simp_all
  moreover have "k_interest ?ep x = None" if "ep_channels ?ep x = None" for x
    using that in_syncD(2) [OF s, of x] by (auto split: if_splits)
  moreover have "chan_fd e ?ep = chan_fd e ep" "k_open ?ep = k_open ep" "k_room ?ep = k_room ep" for e by simp_all
  ultimately show ?thesis unfolding ep' by (intro in_syncI) (use in_syncD(3-6) [OF s] in metis)+
qed

lemma del_eval:
  assumes s: "in_sync ep"
  shows "DelChannel c ep = Inr (if ep_channels ep (chan_fd c ep) = None then ep
     else ep\<lparr>ep_channels := (ep_channels ep)(chan_fd c ep := None), k_interest := (k_interest ep)(chan_fd c ep := None)\<rparr>)"
proof (cases "ep_channels ep (chan_fd c ep)")
  case None
  then show ?thesis by (simp add: DelChannel_def Epoller_RemoveChannel_def)
next
  case (Some d)
  then have "k_interest ep (chan_fd c ep) \<noteq> None" "k_open ep (chan_fd c ep)"
    using in_syncD(1) [OF s Some] in_syncD(3) [OF s, of d] by auto
  then show ?thesis using Some
    by (simp add: DelChannel_def Epoller_RemoveChannel_def epoll_ctl_del_def or_exit_def Let_def)
qed

lemma del_in_sync: "in_sync ep \<Longrightarrow> DelChannel c ep = Inr ep' \<Longrightarrow> in_sync ep'"
  using del_eval [of ep c] unfolding in_sync_def by (auto split: if_splits)

lemma close_in_sync:
  assumes s: "in_sync ep" and gone: "ep_channels ep (chan_fd c ep) = None"
  shows "in_sync (close_channel c ep)"
proof (cases "0 < chan_fd c ep")
  case False
  then have "close_channel c ep = ep"
    by (simp add: close_channel_def Channel_Close_def chan_fd_def update_chan_def)
  then show ?thesis using s by simp
next
  case True
  let ?fd = "chan_fd c ep"
  have ep': "close_channel c ep = sys_close ?fd (update_chan c (\<lambda>_. (ep_store ep c)\<lparr>ch_fd := -1\<rparr>) ep)" (is "_ = ?ep")
    using True by (simp add: close_channel_def Channel_Close_def chan_fd_def)
  have cf: "chan_fd d ?ep = (if d = c then -1 else chan_fd d ep)" for d
    by (simp add: chan_fd_def sys_close_def update_chan_def)
  have other: "d \<noteq> c \<and> x \<noteq> ?fd" if "ep_channels ep x = Some d" for x d using in_syncD(1) [OF s that] gone that by auto
  have "0 < x \<and> chan_fd d ?ep = x \<and> k_interest ?ep x = Some (ch_event (ep_store ?ep d))" if "ep_channels ?ep x = Some d" for x d
    using that in_syncD(1) [OF s, of x d] other [of x d] by (simp add: cf) (simp add: sys_close_def)
  moreover have "k_interest ?ep x = None" if "ep_channels ?ep x = None" for x
    using that in_syncD(2) [OF s, of x] by (simp add: sys_close_def)
  moreover have "k_open ?ep (chan_fd d ?ep)" if "0 < chan_fd d ?ep" for d
    using that in_syncD(3,4) [OF s, of d] True in_syncD(4) [OF s True, of d]
    by (auto simp: cf split: if_splits) (auto simp: sys_close_def)
  moreover have "e = d" if "0 < chan_fd d ?ep" "chan_fd e ?ep = chan_fd d ?ep" for d e
    using that in_syncD(4) [OF s, of d e] by (auto simp: cf split: if_splits)
  moreover have "0 < chan_fd d ?ep \<or> chan_fd d ?ep = -1" for d
    using in_syncD(5) [OF s] by (simp add: cf)
  moreover have "k_room ?ep" using in_syncD(6) [OF s] by (simp add: sys_close_def)
  ultimately show ?thesis unfolding ep' by (intro in_syncI) blast+
qed

lemma set_revents_in_sync: "in_sync ep \<Longrightarrow> in_sync (update_chan c (SetRevents ev) ep)"
proof -
  assume s: "in_sync ep"
  let ?ep = "update_chan c (SetRevents ev) ep"
  have "chan_fd e ?ep = chan_fd e ep" "ch_event (ep_store ?ep e) = ch_event (ep_store ep e)" for e
    by simp (cases "e = c"; simp)
  then show ?thesis by (intro in_syncI) (use in_syncD [OF s] in \<open>simp_all only: update_chan_simps\<close>)
qed

lemma poll_in_sync: "in_sync ep \<Longrightarrow> in_sync (snd (poll_ready ready ep))"
proof -
  have "in_sync (snd (poll_events ready ep))" if "in_sync ep" for ep
    using that by (induction ready ep rule: poll_events.induct)
      (simp_all add: set_revents_in_sync split: option.split prod.split, metis snd_conv)
  moreover have "in_sync ep \<Longrightarrow> in_sync (ep\<lparr>ep_nevents := n\<rparr>)" for ep n by (simp add: in_sync_def)
  ultimately show "in_sync ep \<Longrightarrow> in_sync (snd (poll_ready ready ep))"
    by (simp add: poll_ready_def split: prod.split) (metis snd_conv)
qed

section \<open>What a poll reports\<close>

lemma poll_events_append:
  "poll_events (xs @ ys) ep = (let (cs, ep1) = poll_events xs ep; (ds, ep2) = poll_events ys ep1 in (cs @ ds, ep2))"
  by (induction xs ep rule: poll_events.induct) (simp_all split: option.split prod.split)

lemma poll_events_channels: "ep_channels (snd (poll_events es ep)) = ep_channels ep"
  by (induction es ep rule: poll_events.induct) (simp_all add: split_beta Let_def split: option.split)

lemma poll_events_fd: "chan_fd c (snd (poll_events es ep)) = chan_fd c ep"
  by (induction es ep rule: poll_events.induct) (simp_all add: split_beta Let_def split: option.split)

lemma poll_events_in: "c \<in> set (fst (poll_events es ep)) \<Longrightarrow> \<exists>fd\<in>fst ` set es. ep_channels ep fd = Some c"
  by (induction es ep rule: poll_events.induct) (auto simp: split_beta Let_def split: if_splits option.splits)

lemma poll_events_store: "c \<notin> set (fst (poll_events es ep)) \<Longrightarrow> ep_store (snd (poll_events es ep)) c = ep_store ep c"
  by (induction es ep rule: poll_events.induct) (auto simp: split_beta Let_def split: if_splits option.splits)

lemma Poll_events: "fst (poll_ready es ep) = fst (poll_events es ep)" "ep_store (snd (poll_ready es ep)) = ep_store (snd (poll_events es ep))"
  "ep_channels (snd (poll_ready es ep)) = ep_channels (snd (poll_events es ep))"
  by (simp_all add: poll_ready_def split: prod.split)

lemma mask_kept: "ch_event (ep_store (snd (poll_events es ep)) c) = ch_event (ep_store ep c)"
proof -
  have u: "ch_event (ep_store (update_chan d (SetRevents ev) ep) c) = ch_event (ep_store ep c)" for d ev ep
    by (cases "c = d") simp_all
  show ?thesis by (induction es ep rule: poll_events.induct) (simp_all add: split_beta Let_def u split: option.split)
qed


text \<open>A new descriptor for a channel that has none; the other fields of the channel may be anything.\<close>

lemma adopt_in_sync:
  assumes s: "in_sync ep" and fd: "0 < fd" "\<not> k_open ep fd" and c: "chan_fd c ep = -1" and ch: "ch_fd ch = fd"
  shows "in_sync (ep\<lparr>k_open := (k_open ep)(fd := True), ep_store := (ep_store ep)(c := ch)\<rparr>)"
proof -
  let ?ep = "ep\<lparr>k_open := (k_open ep)(fd := True), ep_store := (ep_store ep)(c := ch)\<rparr>"
  have cf: "chan_fd d ?ep = (if d = c then fd else chan_fd d ep)" for d
    by (simp add: chan_fd_def ch)
  have unused: "chan_fd d ep \<noteq> fd" for d using in_syncD(3) [OF s, of d] fd by metis
  have other: "d \<noteq> c" if "ep_channels ep x = Some d" for x d using in_syncD(1) [OF s that] c by auto
  have same: "ep_channels ?ep = ep_channels ep" "k_interest ?ep = k_interest ep" "k_open ?ep = (k_open ep)(fd := True)"
    "\<And>d. d \<noteq> c \<Longrightarrow> ep_store ?ep d = ep_store ep d" by simp_all
  show ?thesis
  proof (rule in_syncI, unfold cf same)
    show "0 < x \<and> (if d = c then fd else chan_fd d ep) = x \<and> k_interest ep x = Some (ch_event (ep_store ?ep d))"
      if "ep_channels ep x = Some d" for x d using in_syncD(1) [OF s that] other [OF that] same(4) by simp
    show "k_interest ep x = None" if "ep_channels ep x = None" for x using that in_syncD(2) [OF s] by simp
    show "((k_open ep)(fd := True)) (if d = c then fd else chan_fd d ep)" if "0 < (if d = c then fd else chan_fd d ep)" for d
      using that in_syncD(3) [OF s, of d] by (cases "d = c") simp_all
    show "e = d" if "0 < (if d = c then fd else chan_fd d ep)"
      "(if e = c then fd else chan_fd e ep) = (if d = c then fd else chan_fd d ep)" for d e
      using that in_syncD(4) [OF s, of d e] unused by (metis)
    show "0 < (if d = c then fd else chan_fd d ep) \<or> (if d = c then fd else chan_fd d ep) = -1" for d
      using in_syncD(5) [OF s, of d] fd by simp
    show "k_room ?ep" using in_syncD(6) [OF s] by simp
  qed
qed

lemma open_in_sync:
  "in_sync ep \<Longrightarrow> 0 < fd \<Longrightarrow> \<not> k_open ep fd \<Longrightarrow> chan_fd c ep = -1 \<Longrightarrow> in_sync (open_channel fd c ep)"
  unfolding open_channel_def by (rule adopt_in_sync) (simp_all add: new_Channel_def)

text \<open>A new descriptor for a fresh channel object, which is then added to the loop.\<close>

lemma register_ok:
  assumes s: "in_sync ep" and fd: "0 < fd" "\<not> k_open ep fd" and c: "chan_fd c ep = -1"
  obtains ep' where "AddChannel c (open_channel fd c ep) = Inr ep'" "in_sync ep'"
    "\<And>d. chan_fd d ep' = (if d = c then fd else chan_fd d ep)" "ep_channels ep' = (ep_channels ep)(fd \<mapsto> c)"
    "\<And>d. d \<noteq> c \<Longrightarrow> ep_store ep' d = ep_store ep d" "bit (ch_event (ep_store ep' c)) 0" "k_open ep' = (k_open ep)(fd := True)"
proof -
  let ?ep0 = "open_channel fd c ep"
  have s0: "in_sync ?ep0" by (rule open_in_sync [OF s fd c])
  have cf0: "chan_fd d ?ep0 = (if d = c then fd else chan_fd d ep)" for d
    by (simp add: chan_fd_def open_channel_def new_Channel_def)
  have "ep_channels ep fd = None"
    using in_syncD(1) [OF s, of fd] in_syncD(3) [OF s] fd by (cases "ep_channels ep fd") auto
  then have pos: "0 < chan_fd c ?ep0" "ep_channels ?ep0 (chan_fd c ?ep0) = None" using fd cf0 by (simp_all add: open_channel_def)
  obtain ep' where a: "AddChannel c ?ep0 = Inr ep'" using add_eval [OF s0 pos] by simp
  show thesis
  proof (rule that [OF a add_in_sync [OF s0 pos a]])
    show "chan_fd d ep' = (if d = c then fd else chan_fd d ep)" for d using a add_eval [OF s0 pos] cf0 by auto
    show "ep_channels ep' = (ep_channels ep)(fd \<mapsto> c)" "d \<noteq> c \<Longrightarrow> ep_store ep' d = ep_store ep d"
      "bit (ch_event (ep_store ep' c)) 0" "k_open ep' = (k_open ep)(fd := True)" for d
      using a add_eval [OF s0 pos] cf0 [of c] by (auto simp: open_channel_def bit_with_reading)
  qed
qed

lemma new_in_sync: "in_sync (new_Epoller n)"
  by (rule in_syncI) (simp_all add: new_Epoller_def chan_fd_def new_Channel_def)

lemma step_in_sync: "loop_step ep ep' \<Longrightarrow> in_sync ep \<Longrightarrow> in_sync ep'"
proof (induction rule: loop_step.induct)
  case (writing c ep enable ep')
  then show ?case using enable_in_sync [of ep c "with_writing enable" ep'] by (simp add: EnableChannelWriting_def)
next
  case (reading c ep enable ep')
  then show ?case using enable_in_sync [of ep c "with_reading enable" ep'] by (simp add: EnableChannelReading_def)
next
  case (poll w ep cs ep')
  then show ?case using poll_in_sync [of ep] by (auto simp: Poll_def split: sum.splits) (metis snd_conv)
qed (blast intro: open_in_sync add_in_sync del_in_sync close_in_sync)+

lemma reach_in_sync: "loop_reach ep \<Longrightarrow> in_sync ep"
  by (induction rule: loop_reach.induct) (simp_all add: new_in_sync step_in_sync)

section \<open>Properties\<close>

text \<open>C9: in every history of opening, registering, enabling, polling, removing and then closing
  channels (none is closed while it is registered, and the kernel has room for registrations), the
  poller's table and the kernel's interest list agree: a registered descriptor is watched with
  exactly the mask of its channel and nothing else is watched; so adding, removing and updating an
  open channel never make the process exit, and polling does exactly when \<open>epoll_wait\<close> itself fails.
  Should the kernel have no room, adding a channel makes it exit, unless it is registered already.\<close>

theorem epoll_agrees:
  assumes "loop_reach ep"
  shows "(ep_channels ep fd = Some c \<longrightarrow>
            chan_fd c ep = fd \<and> k_interest ep fd = Some (ch_event (ep_store ep c))) \<and>
    (ep_channels ep fd = None \<longrightarrow> k_interest ep fd = None) \<and>
    (0 < chan_fd d ep \<longrightarrow>
       isl (AddChannel d ep) = False \<and> isl (DelChannel d ep) = False \<and>
       isl (EnableChannelWriting d b ep) = False \<and> isl (EnableChannelReading d b ep) = False) \<and>
    isl (Poll w ep) = isl w \<and>
    isl (AddChannel d (ep\<lparr>k_room := False\<rparr>)) = (ep_channels ep (chan_fd d ep) = None)"
proof (intro conjI impI)
  note s = reach_in_sync [OF assms]
  show "chan_fd c ep = fd" "k_interest ep fd = Some (ch_event (ep_store ep c))" if "ep_channels ep fd = Some c"
    using in_syncD(1) [OF s that] by simp_all
  show "k_interest ep fd = None" if "ep_channels ep fd = None" using in_syncD(2) [OF s that] .
  show "isl (Poll w ep) = isl w" by (cases w) (simp_all add: Poll_def)
  show "isl (AddChannel d (ep\<lparr>k_room := False\<rparr>)) = (ep_channels ep (chan_fd d ep) = None)"
    by (simp add: AddChannel_def Epoller_AddChannel_def epoll_ctl_add_def or_exit_def update_chan_def chan_fd_def Let_def)
  show "isl (DelChannel d ep) = False" by (simp add: del_eval [OF s])
  assume fd: "0 < chan_fd d ep"
  show "isl (EnableChannelWriting d b ep) = False" "isl (EnableChannelReading d b ep) = False"
    by (simp_all add: EnableChannelWriting_def EnableChannelReading_def enable_eval [OF s fd])
  show "isl (AddChannel d ep) = False"
    by (cases "ep_channels ep (chan_fd d ep)")
      (simp add: add_eval [OF s fd], simp add: AddChannel_def Epoller_AddChannel_def)
qed

text \<open>A loop with one registered channel, on descriptor 5.\<close>

definition one_channel :: epoll_state where
  "one_channel = (open_channel 5 0 (new_Epoller 1024))
     \<lparr>ep_store := ((\<lambda>_. new_Channel (-1)) (0 := with_reading True (new_Channel 5))),
      ep_channels := [5 \<mapsto> 0], k_interest := [5 \<mapsto> ch_event (with_reading True (new_Channel 5))]\<rparr>"

lemma one_channel_reach: "loop_reach one_channel"
proof -
  let ?e = "open_channel 5 0 (new_Epoller 1024)"
  have "loop_step (new_Epoller 1024) ?e"
    by (rule loop_step.opened) (simp_all add: new_Epoller_def chan_fd_def new_Channel_def)
  then have e: "loop_reach ?e" by (rule loop_reach.step [OF loop_reach.start])
  have fd: "chan_fd 0 ?e = 5" "ep_channels ?e = (\<lambda>_. None)"
    by (simp_all add: open_channel_def chan_fd_def new_Channel_def new_Epoller_def)
  have "AddChannel 0 ?e = Inr one_channel"
    using add_eval [OF reach_in_sync [OF e], of 0] fd
    by (simp add: one_channel_def update_chan_def open_channel_def new_Epoller_def)
  then show ?thesis using loop_reach.step [OF e loop_step.add [of 0]] fd by simp
qed

theorem epoll_agrees_witness:
  "chan_fd 0 one_channel = 5 \<and> k_interest one_channel 5 = Some kEventRead
     \<and> isl (EnableChannelWriting 0 True one_channel) = False"
  using epoll_agrees [OF one_channel_reach, of 5 0 0 True "Inr []"]
  by (simp add: one_channel_def chan_fd_def with_reading_def new_Channel_def)

text \<open>Switching writing on and off again drops edge triggering: \<open>kEventWrite\<close> contains
  \<open>EPOLLET\<close>, which \<open>EnableChannelWriting (false)\<close> clears together with \<open>EPOLLOUT\<close>, so that a
  registered channel is from then on watched level-triggered for reading.\<close>

theorem writing_off_drops_edge:
  assumes "loop_reach ep" and "0 < chan_fd c ep" and "ep_channels ep (chan_fd c ep) = None"
  shows "\<exists>ep1 ep2 ep3 m. AddChannel c ep = Inr ep1 \<and> EnableChannelWriting c True ep1 = Inr ep2 \<and>
    EnableChannelWriting c False ep2 = Inr ep3 \<and> k_interest ep3 (chan_fd c ep) = Some m \<and>
    bit m 0 = True \<and> bit m 2 = False \<and> bit m 31 = False"
proof -
  note s = reach_in_sync [OF assms(1)]
  let ?fd = "chan_fd c ep"
  obtain ep1 where a: "AddChannel c ep = Inr ep1" using add_eval [OF s assms(2,3)] by blast
  then have s1: "in_sync ep1" and fd1: "chan_fd c ep1 = ?fd" and c1: "ep_channels ep1 ?fd = Some c"
    and e1: "ch_event (ep_store ep1 c) = ch_event (with_reading True (ep_store ep c))"
    using add_in_sync [OF s assms(2,3)] add_eval [OF s assms(2,3)] by auto
  obtain ep2 where b: "EnableChannelWriting c True ep1 = Inr ep2"
    using enable_eval [OF s1, of c "with_writing True"] fd1 assms(2) by (simp add: EnableChannelWriting_def)
  then have s2: "in_sync ep2" and fd2: "chan_fd c ep2 = ?fd" and c2: "ep_channels ep2 ?fd = Some c"
    and e2: "ch_event (ep_store ep2 c) = ch_event (with_writing True (ep_store ep1 c))"
    using enable_in_sync [OF s1, of c "with_writing True" ep2] enable_eval [OF s1, of c "with_writing True"] fd1 assms(2) c1
    by (auto simp: EnableChannelWriting_def)
  have d: "EnableChannelWriting c False ep2 = Inr ((update_chan c (with_writing False) ep2)
      \<lparr>k_interest := (k_interest ep2)(?fd \<mapsto> ch_event (with_writing False (ep_store ep2 c)))\<rparr>)"
    using enable_eval [OF s2, of c "with_writing False"] fd2 assms(2) c2 by (simp add: EnableChannelWriting_def)
  have "bit (ch_event (with_writing False (ep_store ep2 c))) 0" by (simp add: bit_with_writing e2 e1 bit_with_reading)
  then show ?thesis using a b d by (simp add: bit_with_writing)
qed

text \<open>The descriptor of a new connection, not yet registered.\<close>

lemma fresh_reach: "loop_reach (open_channel 5 0 (new_Epoller 1024))"
  by (rule loop_reach.step [OF loop_reach.start loop_step.opened])
    (simp_all add: new_Epoller_def chan_fd_def new_Channel_def)

theorem writing_off_drops_edge_witness:
  "\<exists>ep1 ep2 ep3 m. AddChannel 0 (open_channel 5 0 (new_Epoller 1024)) = Inr ep1 \<and>
    EnableChannelWriting 0 True ep1 = Inr ep2 \<and> EnableChannelWriting 0 False ep2 = Inr ep3 \<and>
    k_interest ep3 5 = Some m \<and> bit m 0 = True \<and> bit m 2 = False \<and> bit m 31 = False"
proof -
  have fd: "chan_fd 0 (open_channel 5 0 (new_Epoller 1024)) = 5"
    by (simp add: open_channel_def chan_fd_def new_Channel_def)
  show ?thesis using writing_off_drops_edge [OF fresh_reach, of 0] unfolding fd
    by (simp add: open_channel_def new_Epoller_def)
qed

text \<open>An entry of the table whose descriptor the kernel no longer watches.\<close>

lemma stale_entry:
  assumes "ep_channels ep fd = Some c" and "k_interest ep fd = None" and "0 < fd" and "d \<noteq> c"
  shows "\<exists>ep'. AddChannel d (open_channel fd d ep) = Inr ep' \<and> k_interest ep' fd = None \<and>
    fst (poll_ready [(fd, EPOLLIN)] ep') = [c] \<and> EnableChannelWriting d b ep' = Inl exit_fault"
proof -
  let ?e = "open_channel fd d ep"
  have e: "ep_channels ?e = ep_channels ep" "k_interest ?e fd = None" "chan_fd d ?e = fd"
    using assms(2) by (simp_all add: open_channel_def chan_fd_def new_Channel_def)
  have a: "AddChannel d ?e = Inr (update_chan d (with_reading True) ?e)"
    using assms(1) e by (simp add: AddChannel_def Epoller_AddChannel_def)
  have w: "EnableChannelWriting d b (update_chan d (with_reading True) ?e) = Inl exit_fault"
    using assms(1) e by (simp add: EnableChannelWriting_def Epoller_UpdateChannel_def epoll_ctl_mod_def or_exit_def)
  have p: "fst (poll_ready [(fd, EPOLLIN)] (update_chan d (with_reading True) ?e)) = [c]"
    using assms(1,3) e by (simp add: poll_ready_def)
  show ?thesis using a w p e by auto
qed

lemma close_registered:
  assumes "in_sync ep" and "ep_channels ep fd = Some c"
  shows "ep_channels (close_channel c ep) fd = Some c" "k_interest (close_channel c ep) fd = None" "0 < fd"
  using in_syncD(1) [OF assms] assms(2)
  by (simp_all add: close_channel_def Channel_Close_def chan_fd_def sys_close_def Let_def split: prod.split)

text \<open>A channel that is closed while it is still registered leaves its entry in the poller's
  table. The next channel the kernel gives the same descriptor to is then not registered
  (\<open>AddChannel\<close> returns early), is not watched, and the first change of its interest makes
  the process exit.\<close>

theorem stale_registration:
  assumes "loop_reach ep" and "ep_channels ep fd = Some c" and "chan_fd d ep = -1" and "d \<noteq> c"
  shows "\<exists>ep'. AddChannel d (open_channel fd d (close_channel c ep)) = Inr ep' \<and>
    k_interest ep' fd = None \<and> fst (poll_ready [(fd, EPOLLIN)] ep') = [c] \<and>
    EnableChannelWriting d b ep' = Inl exit_fault"
  using close_registered [OF reach_in_sync [OF assms(1)] assms(2)] assms(4) by (intro stale_entry)

theorem stale_registration_witness:
  "\<exists>ep'. AddChannel 1 (open_channel 5 1 (close_channel 0 one_channel)) = Inr ep' \<and>
    k_interest ep' 5 = None \<and> fst (poll_ready [(5, EPOLLIN)] ep') = [0] \<and> EnableChannelWriting 1 True ep' = Inl exit_fault"
  by (rule stale_registration [OF one_channel_reach]) (simp_all add: one_channel_def chan_fd_def new_Channel_def)

end
