(* ===== verification/Acceptor.thy ===== *)
theory Acceptor
  imports TcpConnection InetAddress Epoller
begin

text \<open>
  \<open>src/network/net/Acceptor.{h,cpp}\<close>: the listening socket of a server, on the poller of its loop.
  The results of \<open>socket\<close> and \<open>accept4\<close> are arguments; the socket options, \<open>bind\<close> and \<open>listen\<close> act on
  the table of sockets, and their results are not checked by the code. \<open>Start\<close> runs in the thread of
  the loop.
\<close>

section \<open>State and operations\<close>

record acceptor =
  ac_id :: nat                \<comment> \<open>the number of the channel object\<close>
  ac_socketOpt :: bool        \<comment> \<open>\<open>socketOpt_\<close> is not null\<close>
  ac_acceptCb :: bool
  ac_addr :: inet_address

type_synonym accept_state = "acceptor \<times> epoll_state"

definition new_Acceptor :: "nat \<Rightarrow> inet_address \<Rightarrow> acceptor" where
  "new_Acceptor c addr = \<lparr>ac_id = c, ac_socketOpt = False, ac_acceptCb = False, ac_addr = addr\<rparr>"

definition SetAcceptCallback :: "acceptor \<Rightarrow> acceptor" where
  "SetAcceptCallback a = a\<lparr>ac_acceptCb := True\<rparr>"

text \<open>The channel object keeps its mask when it gets another descriptor, that of a new socket.\<close>

definition set_channel_fd :: "int \<Rightarrow> nat \<Rightarrow> epoll_state \<Rightarrow> epoll_state" where
  "set_channel_fd fd c ep =
     ep\<lparr>k_open := (k_open ep)(fd := True), ep_store := (ep_store ep)(c := (ep_store ep c)\<lparr>ch_fd := fd\<rparr>)\<rparr>"

definition open_socket :: "int \<Rightarrow> bool \<Rightarrow> nat \<Rightarrow> epoll_state \<Rightarrow> epoll_state" where
  "open_socket fd v6 c ep =
     (set_channel_fd fd c ep)\<lparr>k_socks := snd (CreateNonblockingTcpSocket fd v6 (k_socks ep))\<rparr>"

definition Acceptor_Open :: "int \<Rightarrow> accept_state \<Rightarrow> accept_state result" where
  "Acceptor_Open fd st =
     (case st of (a, ep) \<Rightarrow>
        (let ep1 = close_channel (ac_id a) ep
         in if fd < 0 then Inl exit_fault
            else bindR (AddChannel (ac_id a) (open_socket fd (in_isIpv6 (ac_addr a)) (ac_id a) ep1)) (\<lambda>ep2.
                   Inr (a\<lparr>ac_socketOpt := True\<rparr>, ep2\<lparr>k_socks := listener_setup inet_pton6 (ac_addr a) fd (k_socks ep2)\<rparr>))))"

definition Acceptor_Start :: "int \<Rightarrow> accept_state \<Rightarrow> accept_state result" where
  "Acceptor_Start fd st = Acceptor_Open fd st"

definition Acceptor_Stop :: "accept_state \<Rightarrow> accept_state result" where
  "Acceptor_Stop st = (case st of (a, ep) \<Rightarrow> bindR (DelChannel (ac_id a) ep) (\<lambda>ep'. Inr (a, ep')))"

definition Acceptor_OnClose :: "int \<Rightarrow> accept_state \<Rightarrow> accept_state result" where
  "Acceptor_OnClose fd st = bindR (Acceptor_Stop st) (Acceptor_Open fd)"

definition Acceptor_OnError :: "int \<Rightarrow> accept_state \<Rightarrow> accept_state result" where
  "Acceptor_OnError fd st = Acceptor_OnClose fd st"

text \<open>
  The loop of \<open>OnRead\<close>: \<open>accept4\<close> gives a connection or an error number; when the list has ended no
  connection is left. \<open>acceptCb_\<close> is a function on the poller and the state \<open>'w\<close> of its owner. The
  loop ends with \<open>OnClose\<close> when the error is not one that passes.
\<close>

type_synonym 'w accept_cb = "int \<times> inet_address \<Rightarrow> epoll_state \<times> 'w \<Rightarrow> (epoll_state \<times> 'w) result"

fun accept_loop :: "(nat list \<Rightarrow> string) \<Rightarrow> 'w accept_cb option \<Rightarrow> (int + int \<times> sock_addr) list \<Rightarrow>
    epoll_state \<times> 'w \<Rightarrow> ((epoll_state \<times> 'w) \<times> bool) result" where
  "accept_loop ntop6 cb [] s = Inr (s, False)"
| "accept_loop ntop6 cb (Inl err # rs) s = Inr (s, \<not> transient err)"
| "accept_loop ntop6 cb (Inr r # rs) s =
     bindR (case cb of None \<Rightarrow> Inr s | Some f \<Rightarrow> f (Socket_Accept ntop6 r new_InetAddress) s) (accept_loop ntop6 cb rs)"

definition Acceptor_OnRead :: "(nat list \<Rightarrow> string) \<Rightarrow> 'w accept_cb \<Rightarrow> (int + int \<times> sock_addr) list \<Rightarrow> int \<Rightarrow>
    acceptor \<times> epoll_state \<times> 'w \<Rightarrow> (acceptor \<times> epoll_state \<times> 'w) result" where
  "Acceptor_OnRead ntop6 cb rs fd st =
     (case st of (a, ep, w) \<Rightarrow>
        if \<not> ac_socketOpt a then Inr st
        else bindR (accept_loop ntop6 (if ac_acceptCb a then Some cb else None) rs (ep, w)) (\<lambda>((ep1, w1), bad).
               if bad then bindR (Acceptor_OnClose fd (a, ep1)) (\<lambda>(a', ep2). Inr (a', ep2, w1)) else Inr (a, ep1, w1)))"

section \<open>Opening\<close>

definition listening :: "accept_state \<Rightarrow> int \<Rightarrow> bool" where
  "listening st fd \<longleftrightarrow> (case st of (a, ep) \<Rightarrow> in_sync ep \<and> ac_socketOpt a \<and> chan_fd (ac_id a) ep = fd \<and> ep_channels ep fd = Some (ac_id a) \<and>
     (\<exists>m. k_interest ep fd = Some m \<and> bit m 0))"

text \<open>The address to which the acceptor binds; the socket it should have, which is bound to the address,
  listens and shares its port; and a table in which no other socket keeps the address to itself.\<close>

definition bind_address :: "acceptor \<Rightarrow> sock_addr" where
  "bind_address a = GetSockAddr inet_pton6 (ac_addr a)"

definition accepting :: "accept_state \<Rightarrow> int \<Rightarrow> bool" where
  "accepting st fd \<longleftrightarrow> listening st fd \<and>
     map_of (k_socks (snd st)) fd = Some (listener (in_isIpv6 (ac_addr (fst st))) (bind_address (fst st)))"

definition shareable :: "sock_addr \<Rightarrow> sock_table \<Rightarrow> bool" where
  "shareable sa t \<longleftrightarrow> distinct (map fst t) \<and> may_share sa t"

lemma close_channel_socks:
  "k_socks (close_channel c ep) = (if chan_fd c ep > 0 then AList.delete (chan_fd c ep) (k_socks ep) else k_socks ep)"
  by (simp add: close_channel_def Channel_Close_def sys_close_def update_chan_def chan_fd_def split: prod.split)

lemma open_ok:
  assumes s: "in_sync ep" and gone: "ep_channels ep (chan_fd (ac_id a) ep) = None"
    and fd: "0 < fd" "k_open ep fd \<longrightarrow> chan_fd (ac_id a) ep = fd"
  shows "\<exists>a' ep'. Acceptor_Open fd (a, ep) = Inr (a', ep') \<and> listening (a', ep') fd \<and> ac_id a' = ac_id a \<and> ac_acceptCb a' = ac_acceptCb a \<and>
    (\<forall>x. x \<noteq> fd \<longrightarrow> ep_channels ep' x = ep_channels ep x) \<and> (\<forall>d. d \<noteq> ac_id a \<longrightarrow> ep_store ep' d = ep_store ep d) \<and>
    (\<forall>x. k_open ep' x \<longrightarrow> k_open ep x \<or> x = fd) \<and> ac_addr a' = ac_addr a \<and>
    k_socks ep' = listener_socket inet_pton6 (ac_addr a) fd (k_socks (close_channel (ac_id a) ep))"
proof -
  let ?c = "ac_id a" and ?ep1 = "close_channel (ac_id a) ep"
  let ?ep2 = "open_socket fd (in_isIpv6 (ac_addr a)) ?c ?ep1"
  have s1: "in_sync ?ep1" by (rule close_in_sync [OF s gone])
  have c1: "chan_fd ?c ?ep1 = -1" "\<not> k_open ?ep1 fd" "ep_channels ?ep1 = ep_channels ep"
    using in_syncD(5) [OF s, of ?c] fd
    by (auto simp: close_channel_def Channel_Close_def chan_fd_def update_chan_def sys_close_def split: prod.splits)
  have "in_sync (set_channel_fd fd ?c ?ep1)" unfolding set_channel_fd_def using s1 fd(1) c1(2,1) by (rule adopt_in_sync) simp
  then have s2: "in_sync ?ep2" by (simp add: open_socket_def)
  have f2: "chan_fd ?c ?ep2 = fd" by (simp add: open_socket_def set_channel_fd_def chan_fd_def)
  have none: "ep_channels ?ep2 fd = None"
    using in_syncD(1) [OF s1, of fd] in_syncD(3) [OF s1] c1(2) fd(1)
    by (cases "ep_channels ?ep1 fd") (auto simp: open_socket_def set_channel_fd_def)
  define ep3 where "ep3 = (update_chan ?c (with_reading True) ?ep2)
     \<lparr>ep_channels := (ep_channels ?ep2)(fd \<mapsto> ?c), k_interest := (k_interest ?ep2)(fd \<mapsto> ch_event (with_reading True (ep_store ?ep2 ?c)))\<rparr>"
  have add: "AddChannel ?c ?ep2 = Inr ep3"
    using add_eval [OF s2, of ?c] f2 fd(1) none by (simp add: ep3_def)
  have sync: "in_sync ep3" by (rule add_in_sync [OF s2 _ _ add]) (simp_all add: f2 fd(1) none)
  have f3: "chan_fd ?c ep3 = fd" "ep_channels ep3 fd = Some ?c" "\<exists>m. k_interest ep3 fd = Some m \<and> bit m 0"
    using f2 by (simp_all add: ep3_def bit_with_reading)
  have ch: "x \<noteq> fd \<Longrightarrow> ep_channels ep3 x = ep_channels ep x" for x
    using c1(3) by (simp add: ep3_def open_socket_def set_channel_fd_def)
  have st: "d \<noteq> ?c \<Longrightarrow> ep_store ep3 d = ep_store ep d" for d
    by (auto simp: ep3_def open_socket_def set_channel_fd_def close_channel_def Channel_Close_def sys_close_def Let_def split: prod.splits)
  have op: "k_open ep3 x \<Longrightarrow> k_open ep x \<or> x = fd" for x
    by (auto simp: ep3_def open_socket_def set_channel_fd_def close_channel_def Channel_Close_def sys_close_def Let_def split: prod.splits if_splits)
  have so: "k_socks ep3 = snd (CreateNonblockingTcpSocket fd (in_isIpv6 (ac_addr a)) (k_socks ?ep1))"
    by (simp add: ep3_def open_socket_def update_chan_def)
  have "Acceptor_Open fd (a, ep) = Inr (a\<lparr>ac_socketOpt := True\<rparr>, ep3\<lparr>k_socks := listener_setup inet_pton6 (ac_addr a) fd (k_socks ep3)\<rparr>)"
    using fd(1) by (simp add: Acceptor_Open_def Let_def add)
  then show ?thesis using sync f3 ch st op by (auto simp: listening_def so listener_socket_def)
qed

lemma open_accepts:
  assumes "Acceptor_Open fd (a, ep) = Inr (a', ep')" and "listening (a', ep') fd" and "ac_addr a' = ac_addr a" and "0 < fd"
    and k: "k_socks ep' = listener_socket inet_pton6 (ac_addr a) fd (k_socks (close_channel (ac_id a) ep))"
    and sh: "shareable (bind_address a) (k_socks ep)"
  shows "accepting (a', ep') fd \<and> map_of (k_socks ep') = (map_of (k_socks (close_channel (ac_id a) ep)))
      (fd \<mapsto> listener (in_isIpv6 (ac_addr a)) (bind_address a)) \<and> distinct (map fst (k_socks ep'))"
proof -
  have "distinct (map fst (k_socks (close_channel (ac_id a) ep)))" "may_share (bind_address a) (k_socks (close_channel (ac_id a) ep))"
    using sh closed_socket [of "k_socks ep" "bind_address a" "chan_fd (ac_id a) ep"]
    by (simp_all add: close_channel_socks shareable_def)
  from listener_opens [OF this(1) _ this(2) [unfolded bind_address_def], of fd] k assms(2-4)
  show ?thesis by (simp add: accepting_def bind_address_def)
qed

lemma reopen_ok:
  assumes "listening (a, ep) fd" and "0 < fd'" and "k_open ep fd' \<longrightarrow> fd' = fd"
  shows "\<exists>a' ep'. Acceptor_OnClose fd' (a, ep) = Inr (a', ep') \<and> listening (a', ep') fd' \<and> ac_id a' = ac_id a \<and> ac_acceptCb a' = ac_acceptCb a \<and>
    (fd' \<noteq> fd \<longrightarrow> ep_channels ep' fd = None) \<and> (\<forall>x. x \<noteq> fd \<and> x \<noteq> fd' \<longrightarrow> ep_channels ep' x = ep_channels ep x) \<and>
    (\<forall>d. d \<noteq> ac_id a \<longrightarrow> ep_store ep' d = ep_store ep d) \<and> ac_addr a' = ac_addr a \<and>
    (shareable (bind_address a) (k_socks ep) \<longrightarrow> accepting (a', ep') fd')"
proof -
  have l: "in_sync ep" "chan_fd (ac_id a) ep = fd" "ep_channels ep fd = Some (ac_id a)" using assms(1) by (simp_all add: listening_def)
  obtain ep1 where d: "DelChannel (ac_id a) ep = Inr ep1" "ep_channels ep1 = (ep_channels ep)(fd := None)" "chan_fd (ac_id a) ep1 = fd"
    "k_open ep1 = k_open ep" "ep_store ep1 = ep_store ep" "k_socks ep1 = k_socks ep"
    using del_eval [OF l(1), of "ac_id a"] l(2,3) by simp
  have "in_sync ep1" by (rule del_in_sync [OF l(1) d(1)])
  from open_ok [OF this, of a fd'] d assms(2,3) obtain a' ep' where o: "Acceptor_Open fd' (a, ep1) = Inr (a', ep')" "listening (a', ep') fd'"
    "ac_id a' = ac_id a" "ac_acceptCb a' = ac_acceptCb a" "\<forall>x. x \<noteq> fd' \<longrightarrow> ep_channels ep' x = ep_channels ep1 x"
    "\<forall>x. x \<noteq> ac_id a \<longrightarrow> ep_store ep' x = ep_store ep1 x" "ac_addr a' = ac_addr a"
    "k_socks ep' = listener_socket inet_pton6 (ac_addr a) fd' (k_socks (close_channel (ac_id a) ep1))" by auto
  then show ?thesis using d open_accepts [OF o(1,2,7) assms(2) o(8)] by (simp add: Acceptor_OnClose_def Acceptor_Stop_def)
qed

text \<open>The callback for each of a list of connections, in order.\<close>

fun each_call :: "'w accept_cb \<Rightarrow> (int \<times> inet_address) list \<Rightarrow> epoll_state \<times> 'w \<Rightarrow> (epoll_state \<times> 'w) result" where
  "each_call cb [] s = Inr s"
| "each_call cb (x # xs) s = bindR (cb x s) (each_call cb xs)"

lemma accept_loop_all:
  "accept_loop ntop6 (Some cb) (map Inr conns @ Inl err # rs) s =
     bindR (each_call cb (map (\<lambda>r. Socket_Accept ntop6 r new_InetAddress) conns) s) (\<lambda>s'. Inr (s', \<not> transient err))"
  by (induction conns arbitrary: s) (simp_all add: bindR_assoc cong: bindR_cong)

text \<open>C25: a read event of the listening socket hands every connection that \<open>accept4\<close> gives to the accept
  callback, once and in order, until \<open>accept4\<close> fails. When nothing is left (or the call was
  interrupted) everything stays as it is. After any other error the rest is left for the next event
  and the acceptor has a new socket, bound to its address and listening, with a descriptor that is
  registered and watched for reading, and the old descriptor is out of the poller. All that is asked
  of the callback is to return with the acceptor still accepting, and of the kernel that no stream
  socket holds the address without sharing its port.\<close>

theorem accepts_all_and_recovers:
  assumes "each_call cb (map (\<lambda>r. Socket_Accept ntop6 r new_InetAddress) conns) (ep, w) = Inr (ep1, w1)"
    and "accepting (a, ep1) fd" and "ac_acceptCb a" and "0 < fd'" and "k_open ep1 fd' \<longrightarrow> fd' = fd"
    and "shareable (bind_address a) (k_socks ep1)"
  shows "\<exists>a' ep'. Acceptor_OnRead ntop6 cb (map Inr conns @ Inl err # rs) fd' (a, ep, w) = Inr (a', ep', w1) \<and>
    (if transient err then (a', ep') = (a, ep1)
     else accepting (a', ep') fd' \<and> ac_addr a' = ac_addr a \<and> ac_acceptCb a' \<and> (if fd' = fd then True else ep_channels ep' fd = None))"
proof -
  have l: "listening (a, ep1) fd" using assms(2) by (simp add: accepting_def)
  then have "ac_socketOpt a" by (simp add: listening_def)
  moreover obtain a' ep' where "Acceptor_OnClose fd' (a, ep1) = Inr (a', ep')" "accepting (a', ep') fd'" "ac_acceptCb a' = ac_acceptCb a"
    "fd' \<noteq> fd \<longrightarrow> ep_channels ep' fd = None" "ac_addr a' = ac_addr a" using reopen_ok [OF l assms(4,5)] assms(6) by blast
  ultimately show ?thesis using assms(1,3) by (cases "transient err") (simp_all add: Acceptor_OnRead_def accept_loop_all)
qed

text \<open>Starting an acceptor that is listening, without stopping it: the table keeps the old entry, so
  when the kernel gives out the same descriptor again nothing is watched.\<close>

lemma start_twice_deaf:
  assumes "listening (a, ep) fd"
  shows "\<exists>a' ep'. Acceptor_Start fd (a, ep) = Inr (a', ep') \<and> ep_channels ep' fd = Some (ac_id a) \<and> k_interest ep' fd = None"
proof -
  have l: "in_sync ep" "chan_fd (ac_id a) ep = fd" "ep_channels ep fd = Some (ac_id a)" using assms(1) by (simp_all add: listening_def)
  note c = close_registered [OF l(1,3)]
  let ?e = "open_socket fd (in_isIpv6 (ac_addr a)) (ac_id a) (close_channel (ac_id a) ep)"
  have e: "ep_channels ?e fd = Some (ac_id a)" "k_interest ?e fd = None" "chan_fd (ac_id a) ?e = fd"
    using c by (simp_all add: open_socket_def set_channel_fd_def chan_fd_def)
  then have "AddChannel (ac_id a) ?e = Inr (update_chan (ac_id a) (with_reading True) ?e)"
    by (simp add: AddChannel_def Epoller_AddChannel_def)
  moreover have "\<not> fd < 0" using c(3) by simp
  ultimately show ?thesis using e by (simp add: Acceptor_Start_def Acceptor_Open_def Let_def)
qed

lemma first_open: "\<exists>a' ep'. Acceptor_Start 5 (SetAcceptCallback (new_Acceptor 0 addr), new_Epoller 8) = Inr (a', ep') \<and>
    accepting (a', ep') 5 \<and> ac_acceptCb a' \<and> shareable (bind_address a') (k_socks ep')"
proof -
  have "chan_fd 0 (new_Epoller 8) = -1" "ep_channels (new_Epoller 8) = (\<lambda>_. None)" "\<not> k_open (new_Epoller 8) 5"
    by (simp_all add: new_Epoller_def chan_fd_def new_Channel_def)
  then obtain a' ep' where o: "Acceptor_Open 5 (SetAcceptCallback (new_Acceptor 0 addr), new_Epoller 8) = Inr (a', ep')" "listening (a', ep') 5"
    "ac_acceptCb a'" "ac_addr a' = addr" "k_socks ep' = listener_socket inet_pton6 addr 5 []"
    using open_ok [OF new_in_sync [of 8], of "SetAcceptCallback (new_Acceptor 0 addr)" 5]
    by (auto simp: close_channel_socks SetAcceptCallback_def new_Acceptor_def) (auto simp: new_Epoller_def)
  have t: "map_of (k_socks ep') = [5 \<mapsto> listener (in_isIpv6 addr) (GetSockAddr inet_pton6 addr)]" "distinct (map fst (k_socks ep'))"
    using listener_opens [of "[]" 5 inet_pton6 addr] o(5) by (simp_all add: may_share_def)
  then have "accepting (a', ep') 5" "shareable (bind_address a') (k_socks ep')"
    using o(2,4) by (auto simp: accepting_def shareable_def may_share_def bind_address_def listener_def)
  then show ?thesis using o(1,3) by (auto simp: Acceptor_Start_def)
qed

text \<open>A callback that keeps a list of what it was given; the third call of \<open>accept4\<close> fails.\<close>

definition keep_call :: "(int \<times> inet_address) list accept_cb" where
  "keep_call x s = Inr (fst s, snd s @ [x])"

theorem accepts_all_and_recovers_witness:
  "\<exists>a ep a' ep'. Acceptor_Start 5 (SetAcceptCallback (new_Acceptor 0 new_InetAddress), new_Epoller 8) = Inr (a, ep) \<and>
    Acceptor_OnRead (\<lambda>_. []) keep_call (map Inr [(6, Sockaddr_in 80 1), (9, Sockaddr_other)] @ [Inl 24]) 5 (a, ep, [])
      = Inr (a', ep', map (\<lambda>r. Socket_Accept (\<lambda>_. []) r new_InetAddress) [(6, Sockaddr_in 80 1), (9, Sockaddr_other)]) \<and>
    accepting (a', ep') 5"
proof -
  obtain a ep where o: "Acceptor_Start 5 (SetAcceptCallback (new_Acceptor 0 new_InetAddress), new_Epoller 8) = Inr (a, ep)"
    "accepting (a, ep) 5" "ac_acceptCb a" "shareable (bind_address a) (k_socks ep)" using first_open by blast
  let ?conns = "[(6, Sockaddr_in 80 1), (9, Sockaddr_other)]"
  have e: "each_call keep_call (map (\<lambda>r. Socket_Accept (\<lambda>_. []) r new_InetAddress) ?conns) (ep, [])
      = Inr (ep, map (\<lambda>r. Socket_Accept (\<lambda>_. []) r new_InetAddress) ?conns)" by (simp add: keep_call_def)
  have "\<not> transient 24" by (simp add: transient_def EINTR_def EAGAIN_def)
  then obtain a' ep' where "Acceptor_OnRead (\<lambda>_. []) keep_call (map Inr ?conns @ Inl 24 # []) 5 (a, ep, [])
      = Inr (a', ep', map (\<lambda>r. Socket_Accept (\<lambda>_. []) r new_InetAddress) ?conns)" "accepting (a', ep') 5"
    using accepts_all_and_recovers [OF e o(2,3) _ _ o(4), of 5 24 "[]"] by (auto split: if_splits)
  then show ?thesis using o(1) by blast
qed

end
