(* ===== verification/TcpServer.thy ===== *)
theory TcpServer
  imports Acceptor TimingWheel
begin

text \<open>
  \<open>src/network/TcpServer.{h,cpp}\<close>: one server in one event loop. It composes the parts: what a
  connection emits is applied to the poller (\<open>EnableWriting\<close>, \<open>DelChannel\<close>, \<open>close\<close>), to the
  timing wheel (idle entries) and to the server's set of connections (\<open>OnConnectionClose\<close> is the
  close callback of every connection). A connection object is named by a number and stays in
  \<open>sv_objs\<close>, as it may be referenced from elsewhere after it was closed. \<open>sv_ctx\<close> is the
  context attached to a connection (\<open>Connection::SetContext\<close>), which the message callback uses.
  The channel in \<open>tc_chan\<close> of a connection is the object of the same name in the poller's store;
  object 0 is the channel of the server's acceptor. The table of sockets holds those that are made by
  \<open>socket\<close>; the sockets of connections, which share the port of the listening one, are not in it.
\<close>

section \<open>State\<close>

record 'u tcp_server =
  sv_objs :: "nat \<Rightarrow> tcp_conn"
  sv_ctx :: "nat \<Rightarrow> 'u"
  sv_connections :: "nat list"
  sv_ep :: epoll_state
  sv_wheel :: timing_wheel
  sv_next :: nat
  sv_writeCompleteCb :: bool
  sv_acceptor :: acceptor

definition new_TcpServer :: "bool \<Rightarrow> inet_address \<Rightarrow> 'u \<Rightarrow> 'u tcp_server" where
  "new_TcpServer wc addr u =
     \<lparr>sv_objs = (\<lambda>_. new_TcpConnection (-1)), sv_ctx = (\<lambda>_. u), sv_connections = [], sv_ep = new_Epoller 1024,
      sv_wheel = new_TimingWheel, sv_next = 1, sv_writeCompleteCb = wc, sv_acceptor = new_Acceptor 0 addr\<rparr>"

section \<open>Effects of a connection\<close>

definition OnConnectionClose :: "nat \<Rightarrow> 'u tcp_server \<Rightarrow> 'u tcp_server result" where
  "OnConnectionClose c sv =
     bindR (DelChannel c (sv_ep sv)) (\<lambda>ep. Inr (sv\<lparr>sv_connections := removeAll c (sv_connections sv), sv_ep := ep\<rparr>))"

definition apply_event :: "nat \<Rightarrow> tc_event \<Rightarrow> 'u tcp_server \<Rightarrow> 'u tcp_server result" where
  "apply_event c ev sv =
     (case ev of
        Wrote s \<Rightarrow> Inr sv
      | Write_complete_cb \<Rightarrow> Inr sv
      | Interest m \<Rightarrow>
          bindR (Epoller_UpdateChannel c (update_chan c (\<lambda>ch. ch\<lparr>ch_event := m\<rparr>) (sv_ep sv))) (\<lambda>ep. Inr (sv\<lparr>sv_ep := ep\<rparr>))
      | Insert_entry n \<Rightarrow> bindR (InsertEntry (to_uint32 n) (Idle c) (sv_wheel sv)) (\<lambda>tw. Inr (sv\<lparr>sv_wheel := tw\<rparr>))
      | Close_cb \<Rightarrow> OnConnectionClose c sv
      | Closed_fd fd \<Rightarrow> Inr (sv\<lparr>sv_ep := sys_close fd (update_chan c (\<lambda>ch. ch\<lparr>ch_fd := -1\<rparr>) (sv_ep sv))\<rparr>))"

fun apply_events :: "nat \<Rightarrow> tc_event list \<Rightarrow> 'u tcp_server \<Rightarrow> 'u tcp_server result" where
  "apply_events c [] sv = Inr sv"
| "apply_events c (ev # evs) sv = bindR (apply_event c ev sv) (apply_events c evs)"

definition commit :: "nat \<Rightarrow> tc_event list \<times> tcp_conn \<Rightarrow> 'u tcp_server \<Rightarrow> 'u tcp_server result" where
  "commit c r sv = apply_events c (fst r) (sv\<lparr>sv_objs := (sv_objs sv)(c := snd r)\<rparr>)"

section \<open>Accepting\<close>

text \<open>\<open>OnAccet\<close>, called by the acceptor with a descriptor; \<open>u\<close> is the context of the new
  connection, which \<open>newConnectionCb_\<close> attaches.\<close>

definition OnAccet :: "int \<Rightarrow> 'u \<Rightarrow> 'u tcp_server \<Rightarrow> 'u tcp_server result" where
  "OnAccet fd u sv =
     (let c = sv_next sv;
          con = SetCloseCallback (new_TcpConnection fd);
          con1 = (if sv_writeCompleteCb sv then SetWriteCompleteCallback con else con)
      in bindR (AddChannel c (open_channel fd c (sv_ep sv)))
           (\<lambda>ep. commit c (EnableCheckIdleTimeout 30 (con1\<lparr>tc_chan := ep_store ep c\<rparr>))
              (sv\<lparr>sv_connections := c # sv_connections sv, sv_ep := ep, sv_next := c + 1,
                  sv_ctx := (sv_ctx sv)(c := u)\<rparr>)))"

section \<open>Listening\<close>

definition set_acceptor :: "accept_state \<Rightarrow> 'u tcp_server \<Rightarrow> 'u tcp_server" where
  "set_acceptor st sv = sv\<lparr>sv_acceptor := fst st, sv_ep := snd st\<rparr>"

definition TcpServer_Start :: "int \<Rightarrow> 'u tcp_server \<Rightarrow> 'u tcp_server result" where
  "TcpServer_Start fd sv =
     bindR (Acceptor_Start fd (SetAcceptCallback (sv_acceptor sv), sv_ep sv)) (\<lambda>st. Inr (set_acceptor st sv))"

definition TcpServer_Stop :: "'u tcp_server \<Rightarrow> 'u tcp_server result" where
  "TcpServer_Stop sv = bindR (Acceptor_Stop (sv_acceptor sv, sv_ep sv)) (\<lambda>st. Inr (set_acceptor st sv))"

text \<open>The acceptor's callback; \<open>mk\<close> makes the context of a new connection.\<close>

definition accept_call :: "(int \<times> inet_address \<Rightarrow> 'u) \<Rightarrow> 'u tcp_server accept_cb" where
  "accept_call mk x s = (case s of (ep, sv) \<Rightarrow> bindR (OnAccet (fst x) (mk x) (sv\<lparr>sv_ep := ep\<rparr>)) (\<lambda>sv'. Inr (sv_ep sv', sv')))"

definition server_incoming :: "(nat list \<Rightarrow> string) \<Rightarrow> (int + int \<times> sock_addr) list \<Rightarrow> int \<Rightarrow> (int \<times> inet_address \<Rightarrow> 'u) \<Rightarrow>
    'u tcp_server \<Rightarrow> 'u tcp_server result" where
  "server_incoming ntop6 rs fd mk sv =
     bindR (Acceptor_OnRead ntop6 (accept_call mk) rs fd (sv_acceptor sv, sv_ep sv, sv))
       (\<lambda>(a, ep, sv'). Inr (set_acceptor (a, ep) sv'))"

section \<open>Events of the loop\<close>

datatype 'u server_input =
    Start int
  | Stop
  | Incoming "nat list \<Rightarrow> string" "(int + int \<times> sock_addr) list" int "int \<times> inet_address \<Rightarrow> 'u"
  | Listen_error int
  | Readable nat "(int + string) list"
  | Writable nat memory "(int + nat) list"
  | Failed nat
  | Hangup nat
  | Api nat memory "tc_op list"
  | Tick int
  | Polled "(int \<times> 32 word) list"

definition conn_exists :: "nat \<Rightarrow> 'u tcp_server \<Rightarrow> bool" where
  "conn_exists c sv \<longleftrightarrow> 0 < c \<and> c < sv_next sv"

text \<open>The destructor of an idle entry closes its connection if \<open>conn.lock ()\<close> finds one.\<close>

fun fire_timeouts :: "timer_event list \<Rightarrow> 'u tcp_server \<Rightarrow> 'u tcp_server result" where
  "fire_timeouts [] sv = Inr sv"
| "fire_timeouts (Fired (Idle c) # evs) sv = 
     bindR (if conn_exists c sv then commit c (OnTimeout (sv_objs sv c)) sv else Inr sv) (fire_timeouts evs)"
| "fire_timeouts (_ # evs) sv = fire_timeouts evs sv"

fun server_call :: "'u message_cb \<Rightarrow> 'u server_input \<Rightarrow> 'u tcp_server \<Rightarrow> 'u tcp_server result option" where
  "server_call cb (Start fd) sv = Some (TcpServer_Start fd sv)"
| "server_call cb Stop sv = Some (TcpServer_Stop sv)"
| "server_call cb (Incoming ntop6 rs fd mk) sv = Some (server_incoming ntop6 rs fd mk sv)"
| "server_call cb (Listen_error fd) sv =
     Some (bindR (Acceptor_OnError fd (sv_acceptor sv, sv_ep sv)) (\<lambda>st. Inr (set_acceptor st sv)))"
| "server_call cb (Readable c rds) sv =
     map_option (\<lambda>r. bindR r (\<lambda>(evs, u, con). commit c (evs, con) (sv\<lparr>sv_ctx := (sv_ctx sv)(c := u)\<rparr>)))
       (OnRead cb rds (sv_ctx sv c) (sv_objs sv c))"
| "server_call cb (Writable c mem ws) sv =
     map_option (\<lambda>r. bindR r (\<lambda>(evs, con, ws'). commit c (evs, con) sv)) (OnWrite mem ws (sv_objs sv c))"
| "server_call cb (Failed c) sv = Some (commit c (OnError (sv_objs sv c)) sv)"
| "server_call cb (Hangup c) sv = Some (commit c (OnClose (sv_objs sv c)) sv)"
| "server_call cb (Api c mem ops) sv =
     map_option (\<lambda>r. bindR r (\<lambda>(evs, con). commit c (evs, con) sv)) (run_ops mem ops (sv_objs sv c))"
| "server_call cb (Tick now) sv =
     Some (bindR (OnTimer now (sv_wheel sv)) (\<lambda>(evs, tw). fire_timeouts evs (sv\<lparr>sv_wheel := tw\<rparr>)))"
| "server_call cb (Polled ready) sv = Some (Inr (sv\<lparr>sv_ep := snd (poll_ready ready (sv_ep sv))\<rparr>))"

text \<open>
  The kernel hands out descriptors that are not open, its events name channels that are watched,
  and calls name connections that exist. A server that listens is not started again
  (\<open>start_twice_deaf\<close> says what would happen). The acceptor closes its descriptor before it takes a
  new one, so it may get the same.
\<close>

definition listening_on :: "'u tcp_server \<Rightarrow> bool" where
  "listening_on sv \<longleftrightarrow> ep_channels (sv_ep sv) (chan_fd 0 (sv_ep sv)) = Some 0"

definition free_fd :: "int \<Rightarrow> 'u tcp_server \<Rightarrow> bool" where
  "free_fd fd sv \<longleftrightarrow> 0 < fd \<and> (k_open (sv_ep sv) fd \<longrightarrow> fd = chan_fd 0 (sv_ep sv))"

fun new_fds :: "(int + int \<times> sock_addr) list \<Rightarrow> int list" where
  "new_fds [] = []"
| "new_fds (Inl err # rs) = []"
| "new_fds (Inr r # rs) = fst r # new_fds rs"

fun call_ok :: "'u server_input \<Rightarrow> 'u tcp_server \<Rightarrow> bool" where
  "call_ok (Start fd) sv \<longleftrightarrow> \<not> listening_on sv \<and> free_fd fd sv"
| "call_ok Stop sv \<longleftrightarrow> True"
| "call_ok (Incoming ntop6 rs fd mk) sv \<longleftrightarrow> listening_on sv \<and> free_fd fd sv \<and> fd \<notin> set (new_fds rs) \<and> distinct (new_fds rs) \<and>
     list_all (\<lambda>x. 0 < x \<and> \<not> k_open (sv_ep sv) x) (new_fds rs)"
| "call_ok (Listen_error fd) sv \<longleftrightarrow> listening_on sv \<and> free_fd fd sv"
| "call_ok (Readable c rds) sv \<longleftrightarrow> conn_exists c sv"
| "call_ok (Writable c mem ws) sv \<longleftrightarrow> conn_exists c sv"
| "call_ok (Failed c) sv \<longleftrightarrow> conn_exists c sv"
| "call_ok (Hangup c) sv \<longleftrightarrow> conn_exists c sv"
| "call_ok (Api c mem ops) sv \<longleftrightarrow> conn_exists c sv"
| "call_ok (Tick now) sv \<longleftrightarrow> True"
| "call_ok (Polled ready) sv \<longleftrightarrow> True"

fun listens :: "'u server_input \<Rightarrow> bool \<Rightarrow> bool" where
  "listens (Start fd) b = True"
| "listens Stop b = False"
| "listens _ b = b"

text \<open>The flag says whether the server was started and not stopped since.\<close>

inductive server_reach :: "'u message_cb \<Rightarrow> bool \<Rightarrow> 'u tcp_server \<Rightarrow> bool" for cb where
  start: "server_reach cb False (new_TcpServer wc addr u)"
| step: "server_reach cb b sv \<Longrightarrow> call_ok x sv \<Longrightarrow> server_call cb x sv = Some (Inr sv') \<Longrightarrow> server_reach cb (listens x b) sv'"

section \<open>The idle wheel\<close>

definition idle_slot :: "wheel_entry list \<Rightarrow> bool" where
  "idle_slot es \<longleftrightarrow> list_all (\<lambda>e. case e of Direct (Idle c) \<Rightarrow> True | _ \<Rightarrow> False) es"

definition wheel_ok :: "timing_wheel \<Rightarrow> bool" where
  "wheel_ok tw \<longleftrightarrow> length (tw_second tw) = 60 \<and> list_all idle_slot (tw_second tw)
     \<and> length (tw_minute tw) = 60 \<and> list_all (\<lambda>s. s = []) (tw_minute tw)"

lemma wheel_ok_new: "wheel_ok new_TimingWheel"
  by (simp add: wheel_ok_def new_TimingWheel_def idle_slot_def list_all_iff)

lemma idle_slot_add: "idle_slot es \<Longrightarrow> idle_slot (slot_add (Direct (Idle c)) es)"
  by (simp add: idle_slot_def slot_add_def)

lemma insert_idle:
  assumes "wheel_ok tw"
  shows "\<exists>tw'. InsertEntry (to_uint32 30) (Idle c) tw = Inr tw' \<and> wheel_ok tw'"
proof -
  have u: "to_uint32 30 = 30" by (simp add: to_uint32_def)
  have "list_all idle_slot ((tw_second tw)[29 := slot_add (Direct (Idle c)) (tw_second tw ! 29)])"
    using assms idle_slot_add [of "tw_second tw ! 29" c]
    by (auto simp: wheel_ok_def list_all_iff dest!: set_update_subset_insert [THEN subsetD])
  then show ?thesis using assms
    by (simp add: u InsertEntry_def kTimingMinute_def InsertSecondEntry_def index32_def emplace_def wheel_ok_def)
qed

lemma destroy_idle: "idle_slot es \<Longrightarrow> \<exists>evs. destroy es tw = Inr (evs, tw) \<and> (\<forall>e\<in>set evs. \<exists>c. e = Fired (Idle c))"
proof (induction es)
  case (Cons e es)
  then obtain c where e: "e = Direct (Idle c)" by (auto simp: idle_slot_def split: wheel_entry.splits timer_obj.splits)
  obtain evs where "destroy es tw = Inr (evs, tw)" "\<forall>e\<in>set evs. \<exists>c. e = Fired (Idle c)"
    using Cons by (auto simp: idle_slot_def)
  then show ?case by (auto simp: e release_def fire_def andthen_def)
qed simp

lemma wheel_ok_rotate: "wheel_ok tw \<Longrightarrow> wheel_ok (tw\<lparr>tw_second := rotate_wheel (tw_second tw)\<rparr>)"
  "wheel_ok tw \<Longrightarrow> wheel_ok (tw\<lparr>tw_minute := rotate_wheel (tw_minute tw)\<rparr>)"
  by (auto simp: wheel_ok_def rotate_wheel_def list_all_iff idle_slot_def dest: list.set_sel(2) [rotated])

lemma tick_idle:
  assumes "wheel_ok tw"
  shows "\<exists>evs tw'. OnTimer now tw = Inr (evs, tw') \<and> wheel_ok tw' \<and> (\<forall>e\<in>set evs. \<exists>c. e = Fired (Idle c))"
proof -
  have sec: "\<exists>evs tw'. pop_second tw = Inr (evs, tw') \<and> wheel_ok tw' \<and> (\<forall>e\<in>set evs. \<exists>c. e = Fired (Idle c))"
    if w: "wheel_ok tw" for tw
  proof -
    have "idle_slot (hd (tw_second tw))" using w by (cases "tw_second tw") (auto simp: wheel_ok_def)
    then show ?thesis using destroy_idle wheel_ok_rotate(1) [OF w] unfolding pop_second_def by blast
  qed
  have minute: "\<exists>tw'. pop_coarse tw = Inr ([], tw') \<and> wheel_ok tw'" if w: "wheel_ok tw" for tw
  proof -
    have "hd (tw_minute tw) = []" using w by (cases "tw_minute tw") (auto simp: wheel_ok_def)
    then show ?thesis using wheel_ok_rotate(2) [OF w] w by (simp add: pop_coarse_eq pop_minute_def)
  qed
  have fields: "wheel_ok (tw\<lparr>tw_lastTs := t\<rparr>)" "wheel_ok (tw\<lparr>tw_lastTs := t, tw_tick := k\<rparr>)" if "wheel_ok tw" for tw t k
    using that by (simp_all add: wheel_ok_def)
  show ?thesis
  proof (cases "now - tw_lastTs (if tw_lastTs tw = 0 then tw\<lparr>tw_lastTs := now\<rparr> else tw) < 1000")
    case True
    then show ?thesis using assms fields by (simp add: OnTimer_def Let_def)
  next
    case False
    let ?tw = "if tw_lastTs tw = 0 then tw\<lparr>tw_lastTs := now\<rparr> else tw"
    have "wheel_ok (?tw\<lparr>tw_lastTs := now, tw_tick := tw_tick ?tw + 1\<rparr>)" using assms fields by simp
    from sec [OF this] obtain evs tw1 where s: "pop_second (?tw\<lparr>tw_lastTs := now, tw_tick := tw_tick ?tw + 1\<rparr>) = Inr (evs, tw1)"
      "wheel_ok tw1" "\<forall>e\<in>set evs. \<exists>c. e = Fired (Idle c)" by blast
    obtain tw2 where "pop_coarse tw1 = Inr ([], tw2)" "wheel_ok tw2" using minute [OF s(2)] by blast
    then show ?thesis using s(1,3) False unfolding OnTimer_def Let_def by (simp add: andthen_def)
  qed
qed

section \<open>The server invariant\<close>

text \<open>
  \<open>sv_core\<close>: the set of connections is the set of open channels, and each is registered. The
  invariant adds that the objects agree with it.
\<close>

definition sv_core :: "'u tcp_server \<Rightarrow> bool" where
  "sv_core sv \<longleftrightarrow> in_sync (sv_ep sv) \<and> wheel_ok (sv_wheel sv) \<and>
     (\<forall>c. c \<in> set (sv_connections sv) \<longleftrightarrow> c \<noteq> 0 \<and> 0 < chan_fd c (sv_ep sv)) \<and>
     (\<forall>c\<in>set (sv_connections sv). ep_channels (sv_ep sv) (chan_fd c (sv_ep sv)) = Some c)"

definition same_chan :: "channel \<Rightarrow> channel \<Rightarrow> bool" where
  "same_chan a b \<longleftrightarrow> ch_fd a = ch_fd b \<and> ch_event a = ch_event b"

definition conn_ok :: "'u tcp_server \<Rightarrow> nat \<Rightarrow> bool" where
  "conn_ok sv c \<longleftrightarrow>
     (if c \<in> set (sv_connections sv)
      then conn_exists c sv \<and> live (sv_objs sv c) \<and> tc_maxIdleTime (sv_objs sv c) = 30
        \<and> same_chan (tc_chan (sv_objs sv c)) (ep_store (sv_ep sv) c)
      else conn_exists c sv \<longrightarrow> tc_isClosed (sv_objs sv c))"

text \<open>While it is registered, the acceptor has its socket and callback and is watched for reading.\<close>

definition acceptor_ok :: "'u tcp_server \<Rightarrow> bool" where
  "acceptor_ok sv \<longleftrightarrow> 0 < sv_next sv \<and> ac_id (sv_acceptor sv) = 0 \<and>
     (listening_on sv \<longrightarrow> ac_socketOpt (sv_acceptor sv) \<and> ac_acceptCb (sv_acceptor sv) \<and> bit (ch_event (ep_store (sv_ep sv) 0)) 0)"

definition sv_inv :: "'u tcp_server \<Rightarrow> bool" where
  "sv_inv sv \<longleftrightarrow> sv_core sv \<and> acceptor_ok sv \<and> (\<forall>c. conn_ok sv c)"

text \<open>What a group of effects of connection \<open>c\<close> leaves alone.\<close>

definition frame_ok :: "nat \<Rightarrow> 'u tcp_server \<Rightarrow> 'u tcp_server \<Rightarrow> bool" where
  "frame_ok c sv sv' \<longleftrightarrow> sv_objs sv' = sv_objs sv \<and> sv_next sv' = sv_next sv \<and> sv_ctx sv' = sv_ctx sv \<and>
     sv_writeCompleteCb sv' = sv_writeCompleteCb sv \<and> sv_acceptor sv' = sv_acceptor sv \<and> listening_on sv' = listening_on sv \<and>
     (\<forall>d. d \<noteq> c \<longrightarrow> ep_store (sv_ep sv') d = ep_store (sv_ep sv) d)"

lemma listening_fields [simp]:
  "listening_on (sv\<lparr>sv_objs := f\<rparr>) = listening_on sv" "listening_on (sv\<lparr>sv_ctx := g\<rparr>) = listening_on sv"
  "listening_on (sv\<lparr>sv_wheel := tw\<rparr>) = listening_on sv" "listening_on (sv\<lparr>sv_connections := cs\<rparr>) = listening_on sv"
  "listening_on (sv\<lparr>sv_next := n\<rparr>) = listening_on sv"
  by (simp_all add: listening_on_def)

lemma exists_fields [simp]:
  "conn_exists c (sv\<lparr>sv_objs := f\<rparr>) = conn_exists c sv" "conn_exists c (sv\<lparr>sv_ctx := g\<rparr>) = conn_exists c sv"
  "conn_exists c (sv\<lparr>sv_wheel := tw\<rparr>) = conn_exists c sv" "conn_exists c (sv\<lparr>sv_connections := cs\<rparr>) = conn_exists c sv"
  "conn_exists c (sv\<lparr>sv_ep := ep\<rparr>) = conn_exists c sv" "conn_exists c (sv\<lparr>sv_acceptor := a\<rparr>) = conn_exists c sv"
  by (simp_all add: conn_exists_def)

lemma acceptor_fields [simp]:
  "acceptor_ok (sv\<lparr>sv_objs := f\<rparr>) = acceptor_ok sv" "acceptor_ok (sv\<lparr>sv_ctx := g\<rparr>) = acceptor_ok sv"
  "acceptor_ok (sv\<lparr>sv_wheel := tw\<rparr>) = acceptor_ok sv" "acceptor_ok (sv\<lparr>sv_connections := cs\<rparr>) = acceptor_ok sv"
  by (simp_all add: acceptor_ok_def)

lemma frame_refl [simp]: "frame_ok c sv sv"
  by (simp add: frame_ok_def)

lemma frame_trans: "frame_ok c a b \<Longrightarrow> frame_ok c b d \<Longrightarrow> frame_ok c a d"
  by (simp add: frame_ok_def)

lemma frame_exists: "frame_ok c sv sv' \<Longrightarrow> conn_exists d sv' = conn_exists d sv"
  by (simp add: frame_ok_def conn_exists_def)

lemma frame_acceptor: "frame_ok c sv sv' \<Longrightarrow> c \<noteq> 0 \<Longrightarrow> acceptor_ok sv' = acceptor_ok sv"
  by (simp add: frame_ok_def acceptor_ok_def)

lemma core_fd: "sv_core sv \<Longrightarrow> c \<in> set (sv_connections sv) \<Longrightarrow> 0 < chan_fd c (sv_ep sv)"
  by (simp add: sv_core_def)

lemma apply_interest:
  assumes "sv_core sv" and "c \<in> set (sv_connections sv)"
  shows "\<exists>sv'. apply_event c (Interest m) sv = Inr sv' \<and> sv_core sv' \<and> frame_ok c sv sv' \<and>
    sv_connections sv' = sv_connections sv \<and> ep_store (sv_ep sv') c = (ep_store (sv_ep sv) c)\<lparr>ch_event := m\<rparr>"
proof -
  let ?f = "\<lambda>ch. ch\<lparr>ch_event := m\<rparr>"
  have s: "in_sync (sv_ep sv)" and fd: "0 < chan_fd c (sv_ep sv)" and reg: "ep_channels (sv_ep sv) (chan_fd c (sv_ep sv)) = Some c"
    using assms by (simp_all add: sv_core_def)
  let ?ep = "(update_chan c ?f (sv_ep sv))\<lparr>k_interest := (k_interest (sv_ep sv))(chan_fd c (sv_ep sv) \<mapsto> m)\<rparr>"
  have e: "Epoller_UpdateChannel c (update_chan c ?f (sv_ep sv)) = Inr ?ep"
    using enable_eval [OF s fd, of ?f] reg by simp
  have "in_sync ?ep" using enable_in_sync [OF s fd _ e] by simp
  then have "sv_core (sv\<lparr>sv_ep := ?ep\<rparr>)" using assms(1) by (simp add: sv_core_def)
  then show ?thesis by (simp add: apply_event_def e frame_ok_def listening_on_def)
qed

lemma apply_quiet_event:
  assumes "sv_core sv" and "c \<in> set (sv_connections sv)" and "quiet_event ev" and "idle_event 30 ev"
  shows "\<exists>sv'. apply_event c ev sv = Inr sv' \<and> sv_core sv' \<and> frame_ok c sv sv' \<and>
    sv_connections sv' = sv_connections sv \<and> ep_store (sv_ep sv') c = chan_event ev (ep_store (sv_ep sv) c)"
proof (cases ev)
  case (Interest m)
  then show ?thesis using apply_interest [OF assms(1,2), of m] by simp
next
  case (Insert_entry n)
  then obtain tw where "InsertEntry (to_uint32 n) (Idle c) (sv_wheel sv) = Inr tw" "wheel_ok tw"
    using insert_idle [of "sv_wheel sv" c] assms by (auto simp: sv_core_def)
  then show ?thesis using assms(1) Insert_entry by (simp add: apply_event_def sv_core_def frame_ok_def)
qed (use assms in \<open>simp_all add: apply_event_def\<close>)

lemma apply_quiet:
  "sv_core sv \<Longrightarrow> c \<in> set (sv_connections sv) \<Longrightarrow> quiet_run evs \<Longrightarrow> list_all (idle_event 30) evs \<Longrightarrow>
    \<exists>sv'. apply_events c evs sv = Inr sv' \<and> sv_core sv' \<and> frame_ok c sv sv' \<and>
      sv_connections sv' = sv_connections sv \<and> ep_store (sv_ep sv') c = fold chan_event evs (ep_store (sv_ep sv) c)"
proof (induction evs arbitrary: sv)
  case (Cons ev evs)
  then have q: "quiet_event ev" "idle_event 30 ev" "quiet_run evs" "list_all (idle_event 30) evs" by simp_all
  obtain sv1 where 1: "apply_event c ev sv = Inr sv1" "sv_core sv1" "frame_ok c sv sv1" "sv_connections sv1 = sv_connections sv"
    "ep_store (sv_ep sv1) c = chan_event ev (ep_store (sv_ep sv) c)"
    using apply_quiet_event [OF Cons.prems(1,2) q(1,2)] by blast
  then have "c \<in> set (sv_connections sv1)" using Cons.prems(2) by simp
  from Cons.IH [OF 1(2) this q(3,4)] obtain sv2 where "apply_events c evs sv1 = Inr sv2" "sv_core sv2" "frame_ok c sv1 sv2"
    "sv_connections sv2 = sv_connections sv1" "ep_store (sv_ep sv2) c = fold chan_event evs (ep_store (sv_ep sv1) c)" by blast
  then show ?case using 1 frame_trans by auto
qed simp

lemma close_channel_eq:
  "0 < chan_fd c ep \<Longrightarrow> sys_close (chan_fd c ep) (update_chan c (\<lambda>ch. ch\<lparr>ch_fd := -1\<rparr>) ep) = close_channel c ep"
  by (simp add: close_channel_def Channel_Close_def chan_fd_def update_chan_def)

lemma chan_fd_close: "chan_fd d (close_channel c ep) = (if d = c \<and> 0 < chan_fd c ep then -1 else chan_fd d ep)"
  by (auto simp: close_channel_def Channel_Close_def chan_fd_def sys_close_def Let_def update_chan_def)

lemma close_channels_same [simp]: "ep_channels (close_channel c ep) = ep_channels ep"
  "d \<noteq> c \<Longrightarrow> ep_store (close_channel c ep) d = ep_store ep d"
  by (auto simp: close_channel_def Channel_Close_def sys_close_def Let_def split: prod.split)

lemma apply_close:
  assumes "sv_core sv" and "c \<in> set (sv_connections sv)" and "fd = chan_fd c (sv_ep sv)"
  shows "\<exists>sv'. apply_events c [Close_cb, Closed_fd fd] sv = Inr sv' \<and> sv_core sv' \<and> frame_ok c sv sv' \<and>
    sv_connections sv' = removeAll c (sv_connections sv)"
proof -
  have s: "in_sync (sv_ep sv)" and fd: "0 < chan_fd c (sv_ep sv)" and reg: "ep_channels (sv_ep sv) (chan_fd c (sv_ep sv)) = Some c"
    using assms by (simp_all add: sv_core_def)
  obtain ep1 where d: "DelChannel c (sv_ep sv) = Inr ep1" using del_eval [OF s] by blast
  have ep1: "in_sync ep1" "chan_fd e ep1 = chan_fd e (sv_ep sv)" "ep_channels ep1 = (ep_channels (sv_ep sv))(fd := None)"
    "ep_store ep1 = ep_store (sv_ep sv)" for e
    using del_in_sync [OF s d] d reg assms(3) by (auto simp: del_eval [OF s])
  let ?ep = "close_channel c ep1"
  have e: "apply_events c [Close_cb, Closed_fd fd] sv =
      Inr (sv\<lparr>sv_connections := removeAll c (sv_connections sv), sv_ep := ?ep\<rparr>)" (is "_ = Inr ?sv")
    using d fd ep1(2) assms(3) close_channel_eq [of c ep1] by (simp add: apply_event_def OnConnectionClose_def)
  have i: "in_sync ?ep" using close_in_sync [OF ep1(1), of c] ep1 assms(3) by simp
  have cf: "chan_fd x ?ep = (if x = c then -1 else chan_fd x (sv_ep sv))" for x using fd ep1(2) by (simp add: chan_fd_close)
  have "ep_channels ?ep (chan_fd x ?ep) = Some x" if "x \<in> set (sv_connections sv)" "x \<noteq> c" for x
  proof -
    have "ep_channels (sv_ep sv) (chan_fd x (sv_ep sv)) = Some x" using assms(1) that(1) by (simp add: sv_core_def)
    moreover have "chan_fd x (sv_ep sv) \<noteq> fd" using in_syncD(4) [OF s fd, of x] that(2) assms(3) by metis
    ultimately show ?thesis using that(2) by (simp add: cf ep1(3))
  qed
  then have "sv_core ?sv" using assms(1) i by (auto simp: sv_core_def cf)
  moreover have "listening_on ?sv = listening_on sv"
  proof -
    have c: "c \<noteq> 0" "chan_fd 0 (sv_ep sv) \<noteq> fd"
      using assms in_syncD(4) [OF s fd, of 0] by (auto simp: sv_core_def)
    show ?thesis unfolding listening_on_def using c by (simp add: cf ep1(3))
  qed
  then have "frame_ok c sv ?sv" by (simp add: frame_ok_def ep1(4))
  ultimately show ?thesis using e by simp
qed

lemma apply_events_append: "apply_events c (es @ fs) (sv :: 'u tcp_server) = bindR (apply_events c es sv) (apply_events c fs)"
proof (induction es arbitrary: sv)
  case (Cons e es)
  have "apply_events c (es @ fs) = (\<lambda>sv :: 'u tcp_server. bindR (apply_events c es sv) (apply_events c fs))" by (rule ext) (rule Cons)
  then show ?case by (simp add: bindR_assoc)
qed simp

lemma inv_frame:
  assumes "sv_inv sv" and "sv_core sv'" and "frame_ok c (sv\<lparr>sv_objs := (sv_objs sv)(c := con)\<rparr>) sv'"
    and "\<And>d. d \<noteq> c \<Longrightarrow> d \<in> set (sv_connections sv') \<longleftrightarrow> d \<in> set (sv_connections sv)" and "conn_ok sv' c" and "c \<noteq> 0"
  shows "sv_inv sv'"
proof -
  have "conn_ok sv' d" if "d \<noteq> c" for d
    using assms(1,3) assms(4) [OF that] that frame_exists [OF assms(3), of d]
    unfolding sv_inv_def conn_ok_def frame_ok_def by (simp split: if_splits)
  moreover have "acceptor_ok sv'" using frame_acceptor [OF assms(3,6)] assms(1) by (simp add: sv_inv_def)
  ultimately show ?thesis using assms(2,5) unfolding sv_inv_def by metis
qed

lemma core_objs [simp]: "sv_core (sv\<lparr>sv_objs := f\<rparr>) = sv_core sv" "sv_core (sv\<lparr>sv_ctx := g\<rparr>) = sv_core sv"
  by (simp_all add: sv_core_def)

lemma inv_ctx [simp]: "sv_inv (sv\<lparr>sv_ctx := g\<rparr>) = sv_inv sv"
  by (simp add: sv_inv_def conn_ok_def)

lemma same_chan_fold: "same_chan a b \<Longrightarrow> same_chan (fold chan_event evs a) (fold chan_event evs b)"
proof (induction evs arbitrary: a b)
  case (Cons ev evs)
  have "same_chan (chan_event ev a) (chan_event ev b)" using Cons.prems by (cases ev) (simp_all add: same_chan_def)
  then show ?case using Cons.IH by simp
qed simp

text \<open>Applying what an operation of a live connection emitted keeps the invariant.\<close>

lemma commit_ok:
  assumes inv: "sv_inv sv" and c: "c \<in> set (sv_connections sv)" and sp: "close_spec (sv_objs sv c) evs con"
  shows "\<exists>sv'. commit c (evs, con) sv = Inr sv' \<and> sv_inv sv' \<and> listening_on sv' = listening_on sv"
proof -
  let ?sv = "sv\<lparr>sv_objs := (sv_objs sv)(c := con)\<rparr>" and ?con = "sv_objs sv c"
  have c0: "c \<noteq> 0" using inv c by (simp add: sv_inv_def sv_core_def)
  have core: "sv_core ?sv" and cok: "conn_exists c sv" "live ?con" "tc_maxIdleTime ?con = 30"
    "same_chan (tc_chan ?con) (ep_store (sv_ep sv) c)"
    using inv c unfolding sv_inv_def conn_ok_def by simp_all
  have fdeq: "ch_fd (tc_chan ?con) = chan_fd c (sv_ep sv)" using cok(4) by (simp add: same_chan_def chan_fd_def)
  have idle: "list_all (idle_event 30) evs" and idl: "tc_maxIdleTime con = 30" using sp cok(3) by (simp_all add: close_spec_def)
  show ?thesis
  proof (cases "tc_isClosed con")
    case False
    then have "quiet_run evs" using sp by (simp add: close_spec_def)
    from apply_quiet [OF core _ this idle, of c] c obtain sv' where a: "apply_events c evs ?sv = Inr sv'" "sv_core sv'"
      "frame_ok c ?sv sv'" "sv_connections sv' = sv_connections sv"
      "ep_store (sv_ep sv') c = fold chan_event evs (ep_store (sv_ep sv) c)" by auto
    have "same_chan (tc_chan con) (ep_store (sv_ep sv') c)"
      using same_chan_fold [OF cok(4), of evs] sp a(5) by (simp add: close_spec_def)
    then have "conn_ok sv' c"
      using a(4) c cok(1) idl close_spec_live [OF sp False cok(2)] frame_exists [OF a(3), of c] a(3)
      by (simp add: conn_ok_def) (simp add: frame_ok_def)
    then have "sv_inv sv'" using a(4) c0 by (intro inv_frame [OF inv a(2,3)]) simp_all
    then show ?thesis using a by (simp add: commit_def frame_ok_def)
  next
    case True
    then obtain pre where e: "evs = pre @ [Close_cb, Closed_fd (ch_fd (tc_chan ?con))]" "quiet_run pre"
      using sp by (auto simp: close_spec_def)
    have "list_all (idle_event 30) pre" using idle e(1) by simp
    from apply_quiet [OF core _ e(2) this, of c] c obtain sv1 where a: "apply_events c pre ?sv = Inr sv1" "sv_core sv1"
      "frame_ok c ?sv sv1" "sv_connections sv1 = sv_connections sv"
      "ep_store (sv_ep sv1) c = fold chan_event pre (ep_store (sv_ep sv) c)" by auto
    have "ch_fd (tc_chan ?con) = chan_fd c (sv_ep sv1)"
      using quiet_fd [OF e(2), of "ep_store (sv_ep sv) c"] a(5) fdeq by (simp add: chan_fd_def)
    from apply_close [OF a(2) _ this] c a(4) obtain sv2 where b: "apply_events c [Close_cb, Closed_fd (ch_fd (tc_chan ?con))] sv1 = Inr sv2"
      "sv_core sv2" "frame_ok c sv1 sv2" "sv_connections sv2 = removeAll c (sv_connections sv1)" by auto
    have fr: "frame_ok c ?sv sv2" using frame_trans [OF a(3) b(3)] .
    have "conn_ok sv2 c" using fr b(4) True by (simp add: conn_ok_def frame_ok_def)
    then have "sv_inv sv2" using a(4) b(4) c0 by (intro inv_frame [OF inv b(2) fr]) simp_all
    moreover have "apply_events c evs ?sv = Inr sv2" using a(1) b(1) by (simp only: e(1) apply_events_append bindR.simps)
    ultimately show ?thesis using fr by (simp add: commit_def frame_ok_def)
  qed
qed

text \<open>The same for any connection: what happens on a closed one changes nothing.\<close>

lemma commit_any:
  assumes inv: "sv_inv sv" and c: "conn_exists c sv"
    and live: "live (sv_objs sv c) \<Longrightarrow> close_spec (sv_objs sv c) evs con"
    and closed: "tc_isClosed (sv_objs sv c) \<Longrightarrow> evs = [] \<and> con = sv_objs sv c"
  shows "\<exists>sv'. commit c (evs, con) sv = Inr sv' \<and> sv_inv sv' \<and> listening_on sv' = listening_on sv"
proof (cases "c \<in> set (sv_connections sv)")
  case True
  then have "live (sv_objs sv c)" using inv unfolding sv_inv_def conn_ok_def by metis
  then show ?thesis using commit_ok [OF inv True live] by blast
next
  case False
  then have "tc_isClosed (sv_objs sv c)" using inv c unfolding sv_inv_def conn_ok_def by metis
  then show ?thesis using closed inv by (simp add: commit_def)
qed

lemma commit_close:
  "sv_inv sv \<Longrightarrow> conn_exists c sv \<Longrightarrow> \<exists>sv'. commit c (OnClose (sv_objs sv c)) sv = Inr sv' \<and> sv_inv sv' \<and> listening_on sv' = listening_on sv"
  using commit_any [of sv c "fst (OnClose (sv_objs sv c))" "snd (OnClose (sv_objs sv c))"] OnClose_close_spec [of "sv_objs sv c"]
  by (simp add: OnClose_def)

lemma new_server_inv: "sv_inv (new_TcpServer wc addr u)"
proof -
  have "chan_fd c (new_Epoller 1024) = -1" for c by (simp add: chan_fd_def new_Epoller_def new_Channel_def)
  then show ?thesis
    by (simp add: sv_inv_def sv_core_def conn_ok_def acceptor_ok_def listening_on_def conn_exists_def new_Acceptor_def new_TcpServer_def
        new_in_sync wheel_ok_new) (simp add: new_Epoller_def)
qed

lemma accept_ok:
  assumes inv: "sv_inv sv" and fd: "0 < fd" "\<not> k_open (sv_ep sv) fd"
  shows "\<exists>sv'. OnAccet fd u sv = Inr sv' \<and> sv_inv sv' \<and> sv_acceptor sv' = sv_acceptor sv \<and> listening_on sv' = listening_on sv \<and>
    chan_fd 0 (sv_ep sv') = chan_fd 0 (sv_ep sv) \<and> k_open (sv_ep sv') = (k_open (sv_ep sv))(fd := True) \<and>
    sv_connections sv' = sv_next sv # sv_connections sv"
proof -
  let ?c = "sv_next sv"
  have core: "sv_core sv" and s: "in_sync (sv_ep sv)" using inv by (simp_all add: sv_inv_def sv_core_def)
  have "\<not> conn_exists ?c sv" by (simp add: conn_exists_def)
  then have fresh: "?c \<notin> set (sv_connections sv)" using inv unfolding sv_inv_def conn_ok_def by metis
  have c0: "0 < ?c" using inv by (simp add: sv_inv_def acceptor_ok_def)
  then have cfd: "chan_fd ?c (sv_ep sv) = -1" using fresh core in_syncD(5) [OF s, of ?c] by (auto simp: sv_core_def)
  have clash: "chan_fd d (sv_ep sv) \<noteq> fd" for d using in_syncD(3) [OF s, of d] fd by metis
  obtain ep where add: "AddChannel ?c (open_channel fd ?c (sv_ep sv)) = Inr ep" "in_sync ep"
    and ep: "\<And>d. chan_fd d ep = (if d = ?c then fd else chan_fd d (sv_ep sv))" "ep_channels ep = (ep_channels (sv_ep sv))(fd \<mapsto> ?c)"
    "\<And>d. d \<noteq> ?c \<Longrightarrow> ep_store ep d = ep_store (sv_ep sv) d" "k_open ep = (k_open (sv_ep sv))(fd := True)"
    using register_ok [OF s fd cfd] by metis
  let ?con0 = "if sv_writeCompleteCb sv then SetWriteCompleteCallback (SetCloseCallback (new_TcpConnection fd))
    else SetCloseCallback (new_TcpConnection fd)"
  let ?con = "?con0\<lparr>tc_chan := ep_store ep ?c\<rparr>"
  let ?sv1 = "sv\<lparr>sv_connections := ?c # sv_connections sv, sv_ep := ep, sv_next := ?c + 1, sv_ctx := (sv_ctx sv)(?c := u),
    sv_objs := (sv_objs sv)(?c := ?con)\<rparr>"
  have core1: "sv_core ?sv1"
    using core add(2) fd clash c0 unfolding sv_core_def by (auto simp: ep(1,2) cfd)
  have lv: "live ?con" using ep(1) [of ?c] fd
    by (simp add: live_def SetCloseCallback_def SetWriteCompleteCallback_def new_TcpConnection_def chan_fd_def)
  have on: "listening_on ?sv1 = listening_on sv" using clash c0 by (simp add: listening_on_def ep(1,2))
  have acc: "acceptor_ok ?sv1" using inv on c0 by (simp add: sv_inv_def acceptor_ok_def ep(3))
  have "conn_ok ?sv1 d" for d
  proof (cases "d = ?c")
    case True
    then show ?thesis using lv c0
      by (simp add: conn_ok_def conn_exists_def same_chan_def SetCloseCallback_def SetWriteCompleteCallback_def new_TcpConnection_def)
  next
    case False
    then have "conn_ok sv d" "conn_exists d ?sv1 = conn_exists d sv" using inv by (auto simp: sv_inv_def conn_exists_def)
    then show ?thesis using False by (auto simp: conn_ok_def ep(3) split: if_splits)
  qed
  then have inv1: "sv_inv ?sv1" using core1 acc by (simp add: sv_inv_def)
  have "close_spec ?con (fst (EnableCheckIdleTimeout 30 ?con)) (snd (EnableCheckIdleTimeout 30 ?con))"
    using lv by (intro close_spec_quiet)
      (simp_all add: EnableCheckIdleTimeout_def live_def SetCloseCallback_def SetWriteCompleteCallback_def new_TcpConnection_def)
  then obtain sv' where c: "commit ?c (EnableCheckIdleTimeout 30 ?con) ?sv1 = Inr sv'" "sv_inv sv'"
    using commit_ok [OF inv1, of ?c "fst (EnableCheckIdleTimeout 30 ?con)" "snd (EnableCheckIdleTimeout 30 ?con)"] by auto
  then have "sv_ep sv' = ep" "sv_acceptor sv' = sv_acceptor sv" "sv_connections sv' = ?c # sv_connections sv"
    by (auto simp: commit_def EnableCheckIdleTimeout_def apply_event_def bindR_eq_Inr_iff)
  then show ?thesis using c on ep c0 by (simp add: OnAccet_def Let_def add(1) commit_def listening_on_def)
qed

section \<open>The acceptor of a server\<close>

lemma set_acceptor_inv:
  assumes inv: "sv_inv sv" and s: "in_sync ep" and a: "ac_id a = 0" and st: "\<And>d. d \<noteq> 0 \<Longrightarrow> ep_store ep d = ep_store (sv_ep sv) d"
    and reg: "\<And>c. c \<in> set (sv_connections sv) \<Longrightarrow> ep_channels ep (chan_fd c (sv_ep sv)) = Some c"
    and on: "ep_channels ep (chan_fd 0 ep) = Some 0 \<Longrightarrow> ac_socketOpt a \<and> ac_acceptCb a \<and> bit (ch_event (ep_store ep 0)) 0"
  shows "sv_inv (set_acceptor (a, ep) sv)"
proof -
  have cf: "d \<noteq> 0 \<Longrightarrow> chan_fd d ep = chan_fd d (sv_ep sv)" for d using st by (simp add: chan_fd_def)
  have core: "sv_core sv" using inv by (simp add: sv_inv_def)
  then have "sv_core (set_acceptor (a, ep) sv)" using s cf reg by (auto simp: sv_core_def set_acceptor_def)
  moreover have "acceptor_ok (set_acceptor (a, ep) sv)"
    using inv a on by (simp add: sv_inv_def acceptor_ok_def set_acceptor_def listening_on_def)
  moreover have "conn_ok (set_acceptor (a, ep) sv) c" for c
  proof -
    have "c \<in> set (sv_connections sv) \<Longrightarrow> c \<noteq> 0" using core by (simp add: sv_core_def)
    then show ?thesis using inv st [of c] by (auto simp: sv_inv_def conn_ok_def set_acceptor_def)
  qed
  ultimately show ?thesis by (simp add: sv_inv_def)
qed

lemma other_fds:
  assumes "sv_inv sv" and "c \<in> set (sv_connections sv)"
  shows "chan_fd c (sv_ep sv) \<noteq> chan_fd 0 (sv_ep sv)" and "free_fd fd sv \<Longrightarrow> chan_fd c (sv_ep sv) \<noteq> fd"
    and "ep_channels (sv_ep sv) (chan_fd c (sv_ep sv)) = Some c"
proof -
  have s: "in_sync (sv_ep sv)" and c: "c \<noteq> 0" "0 < chan_fd c (sv_ep sv)"
    and r: "ep_channels (sv_ep sv) (chan_fd c (sv_ep sv)) = Some c" using assms by (simp_all add: sv_inv_def sv_core_def)
  show n: "chan_fd c (sv_ep sv) \<noteq> chan_fd 0 (sv_ep sv)" using in_syncD(4) [OF s c(2), of 0] c(1) by metis
  show "free_fd fd sv \<Longrightarrow> chan_fd c (sv_ep sv) \<noteq> fd" using in_syncD(3) [OF s c(2)] n by (auto simp: free_fd_def)
  show "ep_channels (sv_ep sv) (chan_fd c (sv_ep sv)) = Some c" by (rule r)
qed

text \<open>An acceptor that listens again, with everything else as it was.\<close>

lemma reopened_inv:
  assumes inv: "sv_inv sv" and l: "listening (a, ep) fd" and a: "ac_id a = 0" "ac_acceptCb a" and fd: "free_fd fd sv"
    and ch: "\<And>x. x \<noteq> chan_fd 0 (sv_ep sv) \<Longrightarrow> x \<noteq> fd \<Longrightarrow> ep_channels ep x = ep_channels (sv_ep sv) x"
    and st: "\<And>d. d \<noteq> 0 \<Longrightarrow> ep_store ep d = ep_store (sv_ep sv) d"
  shows "sv_inv (set_acceptor (a, ep) sv) \<and> listening_on (set_acceptor (a, ep) sv)"
proof -
  have l': "in_sync ep" "ac_socketOpt a" "chan_fd 0 ep = fd" "ep_channels ep fd = Some 0" "\<exists>m. k_interest ep fd = Some m \<and> bit m 0"
    using l a by (simp_all add: listening_def)
  have "ep_channels ep (chan_fd c (sv_ep sv)) = Some c" if "c \<in> set (sv_connections sv)" for c
    using other_fds [OF inv that] fd ch by simp
  then have "sv_inv (set_acceptor (a, ep) sv)"
    using set_acceptor_inv [OF inv l'(1) a(1) st] l' a(2) in_syncD(1) [OF l'(1), of fd 0] by auto
  then show ?thesis using l' by (simp add: listening_on_def set_acceptor_def)
qed

lemma start_ok:
  assumes inv: "sv_inv sv" and off: "\<not> listening_on sv" and fd: "free_fd fd sv"
  shows "\<exists>sv'. TcpServer_Start fd sv = Inr sv' \<and> sv_inv sv' \<and> listening_on sv'"
proof -
  let ?a = "SetAcceptCallback (sv_acceptor sv)"
  have s: "in_sync (sv_ep sv)" and a: "ac_id ?a = 0" "ac_acceptCb ?a"
    using inv by (simp_all add: sv_inv_def sv_core_def acceptor_ok_def SetAcceptCallback_def)
  have "ep_channels (sv_ep sv) (chan_fd 0 (sv_ep sv)) = None"
  proof (rule ccontr)
    assume "ep_channels (sv_ep sv) (chan_fd 0 (sv_ep sv)) \<noteq> None"
    then obtain d where d: "ep_channels (sv_ep sv) (chan_fd 0 (sv_ep sv)) = Some d" by auto
    then have "d = 0" using in_syncD(1) [OF s d] in_syncD(4) [OF s, of 0 d] by simp
    then show False using off d by (simp add: listening_on_def)
  qed
  then obtain a' ep' where o: "Acceptor_Open fd (?a, sv_ep sv) = Inr (a', ep')" "listening (a', ep') fd" "ac_id a' = 0" "ac_acceptCb a'"
    "\<forall>x. x \<noteq> fd \<longrightarrow> ep_channels ep' x = ep_channels (sv_ep sv) x" "\<forall>d. d \<noteq> 0 \<longrightarrow> ep_store ep' d = ep_store (sv_ep sv) d"
    using open_ok [OF s, of ?a fd] a fd by (auto simp: free_fd_def)
  have "sv_inv (set_acceptor (a', ep') sv) \<and> listening_on (set_acceptor (a', ep') sv)"
    by (rule reopened_inv [OF inv o(2-4) fd]) (use o(5,6) in auto)
  then show ?thesis using o(1) by (simp add: TcpServer_Start_def Acceptor_Start_def)
qed

lemma stop_ok:
  assumes inv: "sv_inv sv"
  shows "\<exists>sv'. TcpServer_Stop sv = Inr sv' \<and> sv_inv sv' \<and> \<not> listening_on sv'"
proof -
  have s: "in_sync (sv_ep sv)" and a: "ac_id (sv_acceptor sv) = 0" using inv by (simp_all add: sv_inv_def sv_core_def acceptor_ok_def)
  obtain ep where d: "DelChannel 0 (sv_ep sv) = Inr ep" using del_eval [OF s] by blast
  have ep: "in_sync ep" "ep_store ep = ep_store (sv_ep sv)" "ep_channels ep (chan_fd 0 ep) = None"
    "x \<noteq> chan_fd 0 (sv_ep sv) \<Longrightarrow> ep_channels ep x = ep_channels (sv_ep sv) x" for x
    using del_in_sync [OF s d] d by (auto simp: del_eval [OF s] split: if_splits)
  have "sv_inv (set_acceptor (sv_acceptor sv, ep) sv)"
    by (rule set_acceptor_inv [OF inv ep(1) a]) (use ep other_fds [OF inv] in auto)
  then show ?thesis using d a ep(3) by (simp add: TcpServer_Stop_def Acceptor_Stop_def listening_on_def set_acceptor_def)
qed

lemma listening_server: "sv_inv sv \<Longrightarrow> listening_on sv \<Longrightarrow> listening (sv_acceptor sv, sv_ep sv) (chan_fd 0 (sv_ep sv))"
  using in_syncD(1) [of "sv_ep sv" "chan_fd 0 (sv_ep sv)" 0]
  by (simp add: listening_def listening_on_def sv_inv_def sv_core_def acceptor_ok_def)

lemma recover_ok:
  assumes inv: "sv_inv sv" and on: "listening_on sv" and fd: "free_fd fd sv"
  shows "\<exists>a ep. Acceptor_OnClose fd (sv_acceptor sv, sv_ep sv) = Inr (a, ep) \<and>
    sv_inv (set_acceptor (a, ep) sv) \<and> listening_on (set_acceptor (a, ep) sv)"
proof -
  have a: "ac_id (sv_acceptor sv) = 0" "ac_acceptCb (sv_acceptor sv)" using inv on by (simp_all add: sv_inv_def acceptor_ok_def)
  obtain a' ep' where o: "Acceptor_OnClose fd (sv_acceptor sv, sv_ep sv) = Inr (a', ep')" "listening (a', ep') fd" "ac_id a' = 0" "ac_acceptCb a'"
    "\<forall>x. x \<noteq> chan_fd 0 (sv_ep sv) \<and> x \<noteq> fd \<longrightarrow> ep_channels ep' x = ep_channels (sv_ep sv) x"
    "\<forall>d. d \<noteq> 0 \<longrightarrow> ep_store ep' d = ep_store (sv_ep sv) d"
    using reopen_ok [OF listening_server [OF inv on], of fd] a fd by (auto simp: free_fd_def)
  have "sv_inv (set_acceptor (a', ep') sv) \<and> listening_on (set_acceptor (a', ep') sv)"
    by (rule reopened_inv [OF inv o(2-4) fd]) (use o(5,6) in auto)
  then show ?thesis using o(1) by blast
qed

lemma accept_loop_ok:
  assumes "sv_inv sv" and "list_all (\<lambda>x. 0 < x \<and> \<not> k_open (sv_ep sv) x) (new_fds rs)" and "distinct (new_fds rs)"
  shows "\<exists>sv' bad. accept_loop ntop6 (Some (accept_call mk)) rs (sv_ep sv, sv) = Inr ((sv_ep sv', sv'), bad) \<and> sv_inv sv' \<and>
    sv_acceptor sv' = sv_acceptor sv \<and> listening_on sv' = listening_on sv \<and> chan_fd 0 (sv_ep sv') = chan_fd 0 (sv_ep sv) \<and>
    (\<forall>x. k_open (sv_ep sv') x \<longrightarrow> k_open (sv_ep sv) x \<or> x \<in> set (new_fds rs))"
  using assms
proof (induction rs arbitrary: sv rule: new_fds.induct)
  case (3 r rs)
  have f: "0 < fst r" "\<not> k_open (sv_ep sv) (fst r)" using "3.prems" by simp_all
  have fst: "fst (Socket_Accept ntop6 r new_InetAddress) = fst r"
    by (cases r) (auto simp: Socket_Accept_def split: sock_addr.split)
  obtain sv1 where 1: "OnAccet (fst r) (mk (Socket_Accept ntop6 r new_InetAddress)) sv = Inr sv1" "sv_inv sv1"
    "sv_acceptor sv1 = sv_acceptor sv" "listening_on sv1 = listening_on sv" "chan_fd 0 (sv_ep sv1) = chan_fd 0 (sv_ep sv)"
    "k_open (sv_ep sv1) = (k_open (sv_ep sv))(fst r := True)" using accept_ok [OF "3.prems"(1) f] by blast
  have "list_all (\<lambda>x. 0 < x \<and> \<not> k_open (sv_ep sv1) x) (new_fds rs)" "distinct (new_fds rs)"
    using "3.prems"(2,3) 1(6) by (auto simp: list_all_iff)
  from "3.IH" [OF 1(2) this] obtain sv2 bad where "accept_loop ntop6 (Some (accept_call mk)) rs (sv_ep sv1, sv1) = Inr ((sv_ep sv2, sv2), bad)"
    "sv_inv sv2" "sv_acceptor sv2 = sv_acceptor sv1" "listening_on sv2 = listening_on sv1" "chan_fd 0 (sv_ep sv2) = chan_fd 0 (sv_ep sv1)"
    "\<forall>x. k_open (sv_ep sv2) x \<longrightarrow> k_open (sv_ep sv1) x \<or> x \<in> set (new_fds rs)" by blast
  moreover have "accept_call mk (Socket_Accept ntop6 r new_InetAddress) (sv_ep sv, sv) = Inr (sv_ep sv1, sv1)"
    using 1(1) by (simp add: accept_call_def fst)
  ultimately show ?case using 1(3-6) by (intro exI [of _ sv2]) (auto split: if_splits)
qed auto

lemma incoming_ok:
  assumes inv: "sv_inv sv" and ok: "call_ok (Incoming ntop6 rs fd mk) sv"
  shows "\<exists>sv'. server_incoming ntop6 rs fd mk sv = Inr sv' \<and> sv_inv sv' \<and> listening_on sv'"
proof -
  have on: "listening_on sv" and fd: "free_fd fd sv" "fd \<notin> set (new_fds rs)" using ok by simp_all
  have a: "ac_socketOpt (sv_acceptor sv)" "ac_acceptCb (sv_acceptor sv)" using inv on by (simp_all add: sv_inv_def acceptor_ok_def)
  obtain sv1 bad where 1: "accept_loop ntop6 (Some (accept_call mk)) rs (sv_ep sv, sv) = Inr ((sv_ep sv1, sv1), bad)" "sv_inv sv1"
    "sv_acceptor sv1 = sv_acceptor sv" "listening_on sv1" "chan_fd 0 (sv_ep sv1) = chan_fd 0 (sv_ep sv)"
    "\<forall>x. k_open (sv_ep sv1) x \<longrightarrow> k_open (sv_ep sv) x \<or> x \<in> set (new_fds rs)"
    using accept_loop_ok [OF inv, of rs ntop6 mk] ok by auto
  have r: "Acceptor_OnRead ntop6 (accept_call mk) rs fd (sv_acceptor sv, sv_ep sv, sv) =
      (if bad then bindR (Acceptor_OnClose fd (sv_acceptor sv1, sv_ep sv1)) (\<lambda>(a', ep2). Inr (a', ep2, sv1))
       else Inr (sv_acceptor sv1, sv_ep sv1, sv1))"
    using a by (simp add: Acceptor_OnRead_def 1(1,3))
  show ?thesis
  proof (cases bad)
    case False
    have "set_acceptor (sv_acceptor sv1, sv_ep sv1) sv1 = sv1" by (simp add: set_acceptor_def)
    then show ?thesis using r False 1(2,4) by (simp add: server_incoming_def)
  next
    case True
    have "free_fd fd sv1" using fd 1(5,6) by (auto simp: free_fd_def)
    from recover_ok [OF 1(2,4) this] show ?thesis using r True by (auto simp: server_incoming_def)
  qed
qed

lemma timeouts_ok:
  "sv_inv sv \<Longrightarrow> \<forall>e\<in>set evs. \<exists>c. e = Fired (Idle c) \<Longrightarrow> \<exists>sv'. fire_timeouts evs sv = Inr sv' \<and> sv_inv sv' \<and> listening_on sv' = listening_on sv"
proof (induction evs arbitrary: sv)
  case (Cons e evs)
  then obtain c where e: "e = Fired (Idle c)" by auto
  obtain sv1 where "(if conn_exists c sv then commit c (OnTimeout (sv_objs sv c)) sv else Inr sv) = Inr sv1" "sv_inv sv1"
    "listening_on sv1 = listening_on sv"
    using that commit_close [OF Cons.prems(1), of c] Cons.prems(1) by (cases "conn_exists c sv") (auto simp: OnTimeout_def)
  then show ?case using Cons.IH [of sv1] Cons.prems(2) by (simp add: e)
qed simp

lemma poll_inv:
  assumes "sv_inv sv"
  shows "sv_inv (sv\<lparr>sv_ep := snd (poll_ready ready (sv_ep sv))\<rparr>) \<and> listening_on (sv\<lparr>sv_ep := snd (poll_ready ready (sv_ep sv))\<rparr>) = listening_on sv"
proof -
  let ?ep = "snd (poll_ready ready (sv_ep sv))"
  have fd: "chan_fd c ?ep = chan_fd c (sv_ep sv)" and m: "ch_event (ep_store ?ep c) = ch_event (ep_store (sv_ep sv) c)" for c
    using poll_events_fd [of c ready "sv_ep sv"] mask_kept [of ready "sv_ep sv" c] by (simp_all add: chan_fd_def Poll_events)
  have ch: "ep_channels ?ep = ep_channels (sv_ep sv)" by (simp add: Poll_events poll_events_channels)
  have "same_chan a (ep_store ?ep c) = same_chan a (ep_store (sv_ep sv) c)" for a c
    using fd [of c] m [of c] by (simp add: same_chan_def chan_fd_def)
  then show ?thesis using assms poll_in_sync [of "sv_ep sv" ready]
    by (simp add: sv_inv_def sv_core_def acceptor_ok_def listening_on_def conn_ok_def fd m ch)
qed

context message_handler
begin

lemma readable_ok:
  assumes "sv_inv sv" and "conn_exists c sv" and "OnRead cb rds (sv_ctx sv c) (sv_objs sv c) = Some (Inr (evs, u, con))"
  shows "\<exists>sv'. commit c (evs, con) (sv\<lparr>sv_ctx := (sv_ctx sv)(c := u)\<rparr>) = Inr sv' \<and> sv_inv sv' \<and> listening_on sv' = listening_on sv"
proof -
  have "\<exists>sv'. commit c (evs, con) (sv\<lparr>sv_ctx := (sv_ctx sv)(c := u)\<rparr>) = Inr sv' \<and> sv_inv sv' \<and>
      listening_on sv' = listening_on (sv\<lparr>sv_ctx := (sv_ctx sv)(c := u)\<rparr>)"
    using assms OnRead_spec [OF assms(3)] by (intro commit_any) (simp_all add: OnRead_def)
  then show ?thesis by simp
qed

lemma writable_ok:
  assumes inv: "sv_inv sv" and c: "conn_exists c sv" and w: "OnWrite mem ws (sv_objs sv c) = Some (Inr (evs, con, ws'))"
  shows "\<exists>sv'. commit c (evs, con) sv = Inr sv' \<and> sv_inv sv' \<and> listening_on sv' = listening_on sv"
proof -
  have "tc_isClosed (sv_objs sv c) \<Longrightarrow> evs = [] \<and> con = sv_objs sv c" using w by (simp add: OnWrite_def)
  then show ?thesis using commit_any [OF inv c, of evs con] OnWrite_close_spec [OF w] by blast
qed

lemma api_ok:
  assumes inv: "sv_inv sv" and c: "conn_exists c sv" and a: "run_ops mem ops (sv_objs sv c) = Some (Inr (evs, con))"
  shows "\<exists>sv'. commit c (evs, con) sv = Inr sv' \<and> sv_inv sv' \<and> listening_on sv' = listening_on sv"
proof -
  have "tc_isClosed (sv_objs sv c) \<Longrightarrow> evs = [] \<and> con = sv_objs sv c" using a by (simp add: closed_run_ops)
  then show ?thesis using commit_any [OF inv c, of evs con] run_ops_close_spec [OF a] by blast
qed

lemma tick_ok:
  assumes "sv_inv sv"
  shows "\<exists>sv'. server_call cb (Tick now) sv = Some (Inr sv') \<and> sv_inv sv' \<and> listening_on sv' = listening_on sv"
proof -
  have w: "wheel_ok (sv_wheel sv)" using assms by (simp add: sv_inv_def sv_core_def)
  obtain evs tw where t: "OnTimer now (sv_wheel sv) = Inr (evs, tw)" "wheel_ok tw" "\<forall>e\<in>set evs. \<exists>c. e = Fired (Idle c)"
    using tick_idle [OF w] by blast
  have "sv_inv (sv\<lparr>sv_wheel := tw\<rparr>)" using assms t(2) by (simp add: sv_inv_def sv_core_def conn_ok_def)
  then show ?thesis using timeouts_ok [OF _ t(3), of "sv\<lparr>sv_wheel := tw\<rparr>"] t(1) by auto
qed

lemma call_keeps_inv:
  assumes inv: "sv_inv sv" and ok: "call_ok x sv" and r: "server_call cb x sv = Some (Inr sv')"
  shows "sv_inv sv' \<and> listening_on sv' = listens x (listening_on sv)"
proof (cases x)
  case (Start fd)
  then show ?thesis using start_ok [OF inv, of fd] ok r by auto
next
  case Stop
  then show ?thesis using stop_ok [OF inv] r by auto
next
  case (Incoming ntop6 rs fd mk)
  then have "call_ok (Incoming ntop6 rs fd mk) sv" using ok by simp
  from incoming_ok [OF inv this] show ?thesis using Incoming ok r by auto
next
  case (Listen_error fd)
  then show ?thesis using recover_ok [OF inv, of fd] ok r by (auto simp: Acceptor_OnError_def)
next
  case (Readable c rds)
  then obtain evs u con where o: "OnRead cb rds (sv_ctx sv c) (sv_objs sv c) = Some (Inr (evs, u, con))"
    "commit c (evs, con) (sv\<lparr>sv_ctx := (sv_ctx sv)(c := u)\<rparr>) = Inr sv'" using r by (auto simp: bindR_eq_Inr_iff)
  show ?thesis using readable_ok [OF inv _ o(1)] ok Readable o(2) by simp
next
  case (Writable c mem ws)
  then obtain evs con ws' where o: "OnWrite mem ws (sv_objs sv c) = Some (Inr (evs, con, ws'))" "commit c (evs, con) sv = Inr sv'"
    using r by (auto simp: bindR_eq_Inr_iff)
  show ?thesis using writable_ok [OF inv _ o(1)] ok Writable o(2) by simp
next
  case (Failed c)
  then show ?thesis using commit_close [OF inv, of c] ok r by (auto simp: OnError_def)
next
  case (Hangup c)
  then show ?thesis using commit_close [OF inv, of c] ok r by auto
next
  case (Api c mem ops)
  then obtain evs con where o: "run_ops mem ops (sv_objs sv c) = Some (Inr (evs, con))" "commit c (evs, con) sv = Inr sv'"
    using r by (auto simp: bindR_eq_Inr_iff)
  show ?thesis using api_ok [OF inv _ o(1)] ok Api o(2) by simp
next
  case (Tick now)
  then show ?thesis using tick_ok [OF inv, of now] r by auto
next
  case (Polled ready)
  then show ?thesis using poll_inv [OF inv, of ready] r by auto
qed

lemma reach_inv: "server_reach cb b sv \<Longrightarrow> sv_inv sv \<and> listening_on sv = b"
proof (induction rule: server_reach.induct)
  case (start wc addr u)
  have "sv_inv (new_TcpServer wc addr u)" by (rule new_server_inv)
  moreover have "\<not> listening_on (new_TcpServer wc addr u)"
    by (simp add: listening_on_def new_TcpServer_def) (simp add: new_Epoller_def)
  ultimately show ?case by simp
next
  case (step b sv x sv')
  then show ?case using call_keeps_inv [OF _ step.hyps(2,3)] by auto
qed

end

section \<open>Properties\<close>

text \<open>C1: whatever connections come, read, write, fail, hang up, are closed by their user or time
  out, whatever the listening socket reports, in any order and with any message handler that
  acts through the connection: the server's set is exactly its open connections, each of them is
  registered with the poller under its own descriptor and watched by the kernel with its own
  mask, a closed one has no descriptor left; the listening socket is registered and watched for
  reading exactly from \<open>Start\<close> to \<open>Stop\<close>; and nothing else is watched.\<close>

theorem server_safe:
  assumes "message_handler cb" and "server_reach cb b sv"
  shows "(c \<in> set (sv_connections sv)) = (conn_exists c sv \<and> \<not> tc_isClosed (sv_objs sv c)) \<and>
    (if c \<in> set (sv_connections sv)
     then ep_channels (sv_ep sv) (ch_fd (tc_chan (sv_objs sv c))) = Some c \<and>
       k_interest (sv_ep sv) (ch_fd (tc_chan (sv_objs sv c))) = Some (ch_event (tc_chan (sv_objs sv c)))
     else c = 0 \<or> chan_fd c (sv_ep sv) = -1) \<and>
    b = (\<exists>m. ep_channels (sv_ep sv) (chan_fd 0 (sv_ep sv)) = Some 0 \<and>
           k_interest (sv_ep sv) (chan_fd 0 (sv_ep sv)) = Some m \<and> bit m 0) \<and>
    (k_interest (sv_ep sv) fd = None) =
      ((\<forall>d. d \<in> set (sv_connections sv) \<longrightarrow> ch_fd (tc_chan (sv_objs sv d)) \<noteq> fd) \<and> (b \<longrightarrow> chan_fd 0 (sv_ep sv) \<noteq> fd))"
proof (intro conjI)
  have inv: "sv_inv sv" and b: "listening_on sv = b" using message_handler.reach_inv [OF assms] by simp_all
  then have core: "sv_core sv" and s: "in_sync (sv_ep sv)" and acc: "acceptor_ok sv" and ok: "conn_ok sv d" for d
    by (simp_all add: sv_inv_def sv_core_def)
  have fd: "ch_fd (tc_chan (sv_objs sv d)) = chan_fd d (sv_ep sv)" "ch_event (tc_chan (sv_objs sv d)) = ch_event (ep_store (sv_ep sv) d)"
    "ep_channels (sv_ep sv) (chan_fd d (sv_ep sv)) = Some d" if "d \<in> set (sv_connections sv)" for d
    using ok [of d] that core by (simp_all add: conn_ok_def same_chan_def chan_fd_def sv_core_def)
  show "(c \<in> set (sv_connections sv)) = (conn_exists c sv \<and> \<not> tc_isClosed (sv_objs sv c))"
    using ok [of c] by (auto simp: conn_ok_def live_def split: if_splits)
  show "if c \<in> set (sv_connections sv)
     then ep_channels (sv_ep sv) (ch_fd (tc_chan (sv_objs sv c))) = Some c \<and>
       k_interest (sv_ep sv) (ch_fd (tc_chan (sv_objs sv c))) = Some (ch_event (tc_chan (sv_objs sv c)))
     else c = 0 \<or> chan_fd c (sv_ep sv) = -1"
  proof (cases "c \<in> set (sv_connections sv)")
    case True
    then show ?thesis using fd [OF True] in_syncD(1) [OF s fd(3) [OF True]] by simp
  next
    case False
    then show ?thesis using core in_syncD(5) [OF s, of c] by (auto simp: sv_core_def)
  qed
  show "b = (\<exists>m. ep_channels (sv_ep sv) (chan_fd 0 (sv_ep sv)) = Some 0 \<and>
           k_interest (sv_ep sv) (chan_fd 0 (sv_ep sv)) = Some m \<and> bit m 0)"
    using b acc in_syncD(1) [OF s, of "chan_fd 0 (sv_ep sv)" 0] by (auto simp: acceptor_ok_def listening_on_def)
  show "(k_interest (sv_ep sv) fd = None) =
      ((\<forall>d. d \<in> set (sv_connections sv) \<longrightarrow> ch_fd (tc_chan (sv_objs sv d)) \<noteq> fd) \<and> (b \<longrightarrow> chan_fd 0 (sv_ep sv) \<noteq> fd))"
  proof (cases "ep_channels (sv_ep sv) fd")
    case None
    then show ?thesis using in_syncD(2) [OF s None] fd b by (auto simp: listening_on_def)
  next
    case (Some d)
    then have d: "chan_fd d (sv_ep sv) = fd" "0 < fd" "k_interest (sv_ep sv) fd \<noteq> None" using in_syncD(1) [OF s Some] by simp_all
    then have "d \<in> set (sv_connections sv) \<or> d = 0 \<and> b" using Some core b by (auto simp: sv_core_def listening_on_def)
    then show ?thesis using d fd by metis
  qed
qed

text \<open>A server that listens on descriptor 4 and has accepted one connection on descriptor 5, with a
  message handler that drops what it receives.\<close>

definition drop_all :: "unit message_cb" where
  "drop_all = api_handler (\<lambda>_. CHR ''x'') (\<lambda>u s. (u, length s, []))"

theorem server_safe_witness:
  "\<exists>sv. server_reach drop_all True sv \<and> 1 \<in> set (sv_connections sv) \<and> ep_channels (sv_ep sv) (ch_fd (tc_chan (sv_objs sv 1))) = Some 1 \<and>
    ep_channels (sv_ep sv) (chan_fd 0 (sv_ep sv)) = Some 0"
proof -
  let ?s0 = "new_TcpServer False new_InetAddress ()" and ?rs = "[Inr (5, Sockaddr_in 80 1)] :: (int + int \<times> sock_addr) list"
  have h: "message_handler drop_all" unfolding drop_all_def by (rule api.message_handler_axioms)
  have off: "\<not> listening_on ?s0" by (simp add: listening_on_def new_TcpServer_def) (simp add: new_Epoller_def)
  have k: "free_fd 4 ?s0" by (simp add: free_fd_def new_TcpServer_def new_Epoller_def)
  have ok0: "call_ok (Start 4) ?s0" using off k by simp
  obtain s1 where 1: "TcpServer_Start 4 ?s0 = Inr s1" "sv_inv s1" "listening_on s1" using start_ok [OF new_server_inv off k] by blast
  have "server_reach drop_all (listens (Start 4 :: unit server_input) False) s1"
    by (rule server_reach.step [OF server_reach.start ok0]) (simp add: 1(1))
  then have r1: "server_reach drop_all True s1" by simp
  have open1: "k_open (sv_ep s1) = (k_open (sv_ep ?s0))(4 := True)" "sv_next s1 = 1" "sv_connections s1 = []"
    using 1(1) by (auto simp: TcpServer_Start_def Acceptor_Start_def Acceptor_Open_def bindR_eq_Inr_iff AddChannel_def Epoller_AddChannel_def
        epoll_ctl_add_def or_exit_def open_socket_def set_channel_fd_def set_acceptor_def new_TcpServer_def close_channel_def Channel_Close_def new_Epoller_def
        new_Channel_def update_chan_def SetAcceptCallback_def new_Acceptor_def Let_def split: if_splits)
  have f5: "0 < (5::int)" "\<not> k_open (sv_ep s1) 5" using open1(1) by (simp_all add: new_TcpServer_def new_Epoller_def)
  have ok1: "call_ok (Incoming (\<lambda>_. []) ?rs 7 (\<lambda>_. ())) s1"
    using 1(3) f5 open1(1) by (simp add: free_fd_def new_TcpServer_def new_Epoller_def)
  obtain s2 where 2: "OnAccet 5 () s1 = Inr s2" "sv_acceptor s2 = sv_acceptor s1" "sv_connections s2 = [1]"
    using accept_ok [OF 1(2) f5] open1(2,3) by auto
  have a: "ac_socketOpt (sv_acceptor s1)" "ac_acceptCb (sv_acceptor s1)" using 1(2,3) by (simp_all add: sv_inv_def acceptor_ok_def)
  have "server_incoming (\<lambda>_. []) ?rs 7 (\<lambda>_. ()) s1 = Inr s2"
    using a 2(1,2) by (simp add: server_incoming_def Acceptor_OnRead_def accept_call_def Socket_Accept_def set_acceptor_def)
  then have "server_reach drop_all (listens (Incoming (\<lambda>_. []) ?rs 7 (\<lambda>_. ())) True) s2"
    by (intro server_reach.step [OF r1 ok1]) simp
  then have r2: "server_reach drop_all True s2" by simp
  show ?thesis using server_safe [OF h r2, of 1 0] r2 2(3) by auto
qed

end
