(* ===== verification/EventLoop.thy ===== *)
theory EventLoop
  imports Epoller TimingWheel
begin

text \<open>
  \<open>src/network/net/EventLoop.{h,cpp}\<close>, \<open>PipeEvent.cpp\<close> and \<open>EventLoopThreadPool.cpp\<close>: the round of
  the loop, the queue of functions other threads leave for it, and the pipe that wakes it. A
  function is a value of type \<open>'f\<close>, run by a parameter on the loop and the state \<open>'w\<close> of everything
  else. A pipe holds 65536 bytes; a write of eight bytes that does not fit fails, one that fits
  makes the edge-triggered poller report the pipe once more (\<open>pe_edge\<close>). A thread posts with
  \<open>RunInLoop\<close>, between two rounds or in the middle of one; the lock keeps posts out while the queue is
  run. The first post makes the pipe and registers it without a lock; that is one step here.
\<close>

section \<open>The pipe\<close>

record pipe_event =
  pe_id :: nat         \<comment> \<open>the number of its channel object\<close>
  pe_writefd :: int
  pe_bytes :: nat
  pe_edge :: bool      \<comment> \<open>written since it was last reported\<close>

definition kPipeSize :: nat where "kPipeSize = 65536"

text \<open>The two descriptors \<open>pipe2\<close> returned, or none, and the number of the new channel object.\<close>

type_synonym new_pipe = "(int \<times> int) option \<times> nat"

definition new_PipeEvent :: "new_pipe \<Rightarrow> epoll_state \<Rightarrow> (pipe_event \<times> epoll_state) result" where
  "new_PipeEvent np ep =
     (case np of
        (None, c) \<Rightarrow> Inl exit_fault
      | (Some (rd, wr), c) \<Rightarrow>
          (let ep1 = open_channel rd c ep
           in Inr (\<lparr>pe_id = c, pe_writefd = wr, pe_bytes = 0, pe_edge = False\<rparr>, ep1\<lparr>k_open := (k_open ep1)(wr := True)\<rparr>)))"

definition PipeEvent_Write :: "nat \<Rightarrow> pipe_event \<Rightarrow> pipe_event" where
  "PipeEvent_Write len p =
     (if 0 < pe_writefd p \<and> pe_bytes p + len \<le> kPipeSize then p\<lparr>pe_bytes := pe_bytes p + len, pe_edge := True\<rparr> else p)"

definition PipeEvent_OnRead :: "pipe_event \<Rightarrow> pipe_event" where
  "PipeEvent_OnRead p = p\<lparr>pe_bytes := pe_bytes p - min 8 (pe_bytes p)\<rparr>"

definition PipeEvent_OnClose :: "pipe_event \<times> epoll_state \<Rightarrow> pipe_event \<times> epoll_state" where
  "PipeEvent_OnClose s =
     (case s of (p, ep) \<Rightarrow> if 0 < pe_writefd p then (p\<lparr>pe_writefd := -1\<rparr>, sys_close (pe_writefd p) ep) else (p, ep))"

section \<open>The loop\<close>

record 'f event_loop =
  el_isLooping :: bool
  el_ep :: epoll_state
  el_fns :: "'f list"
  el_pipe :: "pipe_event option"
  el_wheel :: timing_wheel

type_synonym ('f, 'w) loop_state = "'f event_loop \<times> 'w"

text \<open>The constructor; \<open>existing\<close> says whether the thread has a loop already.\<close>

definition new_EventLoop :: "'f event_loop" where
  "new_EventLoop =
     \<lparr>el_isLooping = False, el_ep = new_Epoller 1024, el_fns = [], el_pipe = None, el_wheel = new_TimingWheel\<rparr>"

definition make_EventLoop :: "bool \<Rightarrow> 'f event_loop result" where
  "make_EventLoop existing = (if existing then Inl exit_fault else Inr new_EventLoop)"

definition WakeUp :: "new_pipe \<Rightarrow> 'f event_loop \<Rightarrow> 'f event_loop result" where
  "WakeUp np lp =
     (case el_pipe lp of
        Some p \<Rightarrow> Inr (lp\<lparr>el_pipe := Some (PipeEvent_Write 8 p)\<rparr>)
      | None \<Rightarrow>
          bindR (new_PipeEvent np (el_ep lp)) (\<lambda>(p, ep).
            bindR (AddChannel (pe_id p) ep) (\<lambda>ep'. Inr (lp\<lparr>el_ep := ep', el_pipe := Some (PipeEvent_Write 8 p)\<rparr>))))"

text \<open>\<open>RunInLoop\<close>: \<open>here\<close> is \<open>IsInLoopThread ()\<close>.\<close>

definition RunInLoop :: "('f \<Rightarrow> ('f, 'w) loop_state \<Rightarrow> ('f, 'w) loop_state result) \<Rightarrow> bool \<Rightarrow> 'f \<Rightarrow> new_pipe \<Rightarrow>
    ('f, 'w) loop_state \<Rightarrow> ('f, 'w) loop_state result" where
  "RunInLoop run here f np s =
     (case s of (lp, w) \<Rightarrow>
        if here then run f (lp, w)
        else bindR (WakeUp np (lp\<lparr>el_fns := el_fns lp @ [f]\<rparr>)) (\<lambda>lp'. Inr (lp', w)))"

text \<open>The loop of \<open>RunFuctions\<close>: the lock is held, so nothing is pushed meanwhile.\<close>

fun run_all :: "('f \<Rightarrow> ('f, 'w) loop_state \<Rightarrow> ('f, 'w) loop_state result) \<Rightarrow> 'f list \<Rightarrow>
    ('f, 'w) loop_state \<Rightarrow> ('f, 'w) loop_state result" where
  "run_all run [] s = Inr s"
| "run_all run (f # fns) s = bindR (run f s) (run_all run fns)"

definition RunFuctions :: "('f \<Rightarrow> ('f, 'w) loop_state \<Rightarrow> ('f, 'w) loop_state result) \<Rightarrow>
    ('f, 'w) loop_state \<Rightarrow> ('f, 'w) loop_state result" where
  "RunFuctions run s = bindR (run_all run (el_fns (fst s)) s) (\<lambda>(lp, w). Inr (lp\<lparr>el_fns := []\<rparr>, w))"

definition Quit :: "'f event_loop \<Rightarrow> 'f event_loop" where
  "Quit lp = lp\<lparr>el_isLooping := False\<rparr>"

text \<open>
  The virtual handlers: those of the pipe are the loop's own (\<open>OnWrite\<close> and \<open>OnError\<close> do nothing),
  \<open>handle\<close> stands for those of all other channels.
\<close>

type_synonym ('f, 'w) handlers = "channel_call \<Rightarrow> nat \<Rightarrow> ('f, 'w) loop_state \<Rightarrow> ('f, 'w) loop_state result"

definition pipe_call :: "channel_call \<Rightarrow> pipe_event \<Rightarrow> 'f event_loop \<Rightarrow> 'f event_loop" where
  "pipe_call call p lp =
     (case call of
        Call_OnRead \<Rightarrow> lp\<lparr>el_pipe := Some (PipeEvent_OnRead p)\<rparr>
      | Call_OnClose \<Rightarrow> (case PipeEvent_OnClose (p, el_ep lp) of (p', ep) \<Rightarrow> lp\<lparr>el_pipe := Some p', el_ep := ep\<rparr>)
      | _ \<Rightarrow> lp)"

definition dispatch :: "('f, 'w) handlers \<Rightarrow> ('f, 'w) handlers" where
  "dispatch handle call c s =
     (case s of (lp, w) \<Rightarrow>
        (case el_pipe lp of
           Some p \<Rightarrow> if pe_id p = c then Inr (pipe_call call p lp, w) else handle call c (lp, w)
         | None \<Rightarrow> handle call c (lp, w)))"

fun handle_all :: "('f, 'w) handlers \<Rightarrow> nat list \<Rightarrow> ('f, 'w) loop_state \<Rightarrow> ('f, 'w) loop_state result" where
  "handle_all handle [] s = Inr s"
| "handle_all handle (c # cs) s =
     bindR (case HandleEvent (ep_store (el_ep (fst s)) c) of None \<Rightarrow> Inr s | Some call \<Rightarrow> dispatch handle call c s)
       (handle_all handle cs)"

text \<open>One round of \<open>Loop\<close>: poll, handle what was reported, run the queue, advance the wheel.\<close>

definition loop_round :: "('f, 'w) handlers \<Rightarrow> ('f \<Rightarrow> ('f, 'w) loop_state \<Rightarrow> ('f, 'w) loop_state result) \<Rightarrow>
    int + (int \<times> 32 word) list \<Rightarrow> int \<Rightarrow> ('f, 'w) loop_state \<Rightarrow> (timer_event list \<times> ('f, 'w) loop_state) result" where
  "loop_round handle run polled now s =
     (case s of (lp, w) \<Rightarrow>
        bindR (Poll polled (el_ep lp)) (\<lambda>(cs, ep).
           bindR (handle_all handle cs (lp\<lparr>el_ep := ep\<rparr>, w)) (\<lambda>s1.
           bindR (RunFuctions run s1) (\<lambda>(lp2, w2).
           bindR (OnTimer now (el_wheel lp2)) (\<lambda>(evs, tw). Inr (evs, lp2\<lparr>el_wheel := tw\<rparr>, w2))))))"

lemma loop_round_Inr:
  "loop_round handle run (Inr ready) now s =
     (case s of (lp, w) \<Rightarrow>
        (case poll_ready ready (el_ep lp) of (cs, ep) \<Rightarrow>
           bindR (handle_all handle cs (lp\<lparr>el_ep := ep\<rparr>, w)) (\<lambda>s1.
           bindR (RunFuctions run s1) (\<lambda>(lp2, w2).
           bindR (OnTimer now (el_wheel lp2)) (\<lambda>(evs, tw). Inr (evs, lp2\<lparr>el_wheel := tw\<rparr>, w2))))))"
  by (simp add: loop_round_def Poll_def split: prod.split)

lemma loop_round_Inl: "loop_round handle run (Inl err) now s = Inl exit_fault"
  by (simp add: loop_round_def Poll_def split: prod.split)

text \<open>The end of a round, after the handlers.\<close>

definition round_end :: "('f \<Rightarrow> ('f, 'w) loop_state \<Rightarrow> ('f, 'w) loop_state result) \<Rightarrow> int \<Rightarrow> ('f, 'w) loop_state \<Rightarrow>
    (timer_event list \<times> ('f, 'w) loop_state) result" where
  "round_end run now s =
     bindR (RunFuctions run s) (\<lambda>(lp2, w2).
     bindR (OnTimer now (el_wheel lp2)) (\<lambda>(evs, tw). Inr (evs, lp2\<lparr>el_wheel := tw\<rparr>, w2)))"

lemma loop_round_parts:
  "loop_round handle run polled now (lp, w) =
     bindR (Poll polled (el_ep lp)) (\<lambda>(cs, ep). bindR (handle_all handle cs (lp\<lparr>el_ep := ep\<rparr>, w)) (round_end run now))"
  by (simp add: loop_round_def round_end_def [abs_def])

text \<open>\<open>Loop\<close> runs rounds until \<open>isLooping_\<close> is false after one; the list holds what the kernel and the
  clock gave, and when it has ended the loop is waiting in its poller.\<close>

fun loop_rounds :: "('f, 'w) handlers \<Rightarrow> ('f \<Rightarrow> ('f, 'w) loop_state \<Rightarrow> ('f, 'w) loop_state result) \<Rightarrow>
    ((int + (int \<times> 32 word) list) \<times> int) list \<Rightarrow> ('f, 'w) loop_state \<Rightarrow> (timer_event list \<times> ('f, 'w) loop_state) result" where
  "loop_rounds handle run [] s = Inr ([], s)"
| "loop_rounds handle run ((polled, now) # xs) s =
     (if \<not> el_isLooping (fst s) then Inr ([], s)
      else bindR (loop_round handle run polled now s) (\<lambda>(evs, s1).
             bindR (loop_rounds handle run xs s1) (\<lambda>(evs', s2). Inr (evs @ evs', s2))))"

definition Loop :: "('f, 'w) handlers \<Rightarrow> ('f \<Rightarrow> ('f, 'w) loop_state \<Rightarrow> ('f, 'w) loop_state result) \<Rightarrow>
    ((int + (int \<times> 32 word) list) \<times> int) list \<Rightarrow> ('f, 'w) loop_state \<Rightarrow> (timer_event list \<times> ('f, 'w) loop_state) result" where
  "Loop handle run xs s = (case s of (lp, w) \<Rightarrow> loop_rounds handle run xs (lp\<lparr>el_isLooping := True\<rparr>, w))"

section \<open>Timers of a loop\<close>

text \<open>
  The three functions that set timers act on the wheel at once in the loop's thread and post
  themselves otherwise. \<open>loop_fn\<close> are the functions they post; timers that fire at once go to the
  list of timer events.
\<close>

datatype loop_fn = Wheel_insert nat timer_obj | Wheel_after nat nat | Wheel_every nat nat

type_synonym timer_loop = "(loop_fn, timer_event list) loop_state"

fun wheel_fn :: "loop_fn \<Rightarrow> timing_wheel \<Rightarrow> timer_result" where
  "wheel_fn (Wheel_insert delay x) tw = bindR (InsertEntry delay x tw) (\<lambda>tw'. Inr ([], tw'))"
| "wheel_fn (Wheel_after delay cb) tw = RunAfter delay cb tw"
| "wheel_fn (Wheel_every interval cb) tw = RunEvery interval cb tw"

definition run_fn :: "loop_fn \<Rightarrow> timer_loop \<Rightarrow> timer_loop result" where
  "run_fn f s = (case s of (lp, es) \<Rightarrow> bindR (wheel_fn f (el_wheel lp)) (\<lambda>(evs, tw). Inr (lp\<lparr>el_wheel := tw\<rparr>, es @ evs)))"

definition EventLoop_InsertEntry :: "bool \<Rightarrow> nat \<Rightarrow> timer_obj \<Rightarrow> new_pipe \<Rightarrow> timer_loop \<Rightarrow> timer_loop result" where
  "EventLoop_InsertEntry here delay x np s = RunInLoop run_fn here (Wheel_insert delay x) np s"

definition EventLoop_RunAfter :: "bool \<Rightarrow> nat \<Rightarrow> nat \<Rightarrow> new_pipe \<Rightarrow> timer_loop \<Rightarrow> timer_loop result" where
  "EventLoop_RunAfter here delay cb np s = RunInLoop run_fn here (Wheel_after delay cb) np s"

definition EventLoop_RunEvery :: "bool \<Rightarrow> nat \<Rightarrow> nat \<Rightarrow> new_pipe \<Rightarrow> timer_loop \<Rightarrow> timer_loop result" where
  "EventLoop_RunEvery here interval cb np s = RunInLoop run_fn here (Wheel_every interval cb) np s"

section \<open>The pool of loops\<close>

record loop_pool =
  lp_size :: nat
  lp_loopIndex :: int

definition new_EventLoopThreadPool :: "int \<Rightarrow> loop_pool" where
  "new_EventLoopThreadPool threadNum = \<lparr>lp_size = nat (if threadNum \<le> 0 then 1 else threadNum), lp_loopIndex = 0\<rparr>"

text \<open>The CPU each thread is bound to.\<close>

definition bound_cpus :: "int \<Rightarrow> int \<Rightarrow> int \<Rightarrow> int list" where
  "bound_cpus threadNum start cpus =
     (if cpus > 0 then map (\<lambda>i. (start + int i) mod cpus) [0..<lp_size (new_EventLoopThreadPool threadNum)] else [])"

text \<open>\<open>index % threads_.size ()\<close> converts the \<open>int\<close> index to \<open>size_t\<close>.\<close>

definition GetNextLoop :: "loop_pool \<Rightarrow> nat \<times> loop_pool" where
  "GetNextLoop p =
     (nat (lp_loopIndex p mod 18446744073709551616) mod lp_size p, p\<lparr>lp_loopIndex := to_int32 (lp_loopIndex p + 1)\<rparr>)"

fun next_loops :: "nat \<Rightarrow> loop_pool \<Rightarrow> nat list \<times> loop_pool" where
  "next_loops 0 p = ([], p)"
| "next_loops (Suc n) p = (case GetNextLoop p of (i, p1) \<Rightarrow> (case next_loops n p1 of (js, p2) \<Rightarrow> (i # js, p2)))"

lemma pool_size: "0 < lp_size (new_EventLoopThreadPool n)"
  by (simp add: new_EventLoopThreadPool_def)

lemma next_loops_run:
  "lp_loopIndex p = int k \<Longrightarrow> k + n < 2147483648 \<Longrightarrow> 0 < lp_size p \<Longrightarrow>
     fst (next_loops n p) = map (\<lambda>i. (k + i) mod lp_size p) [0..<n]"
proof (induction n arbitrary: p k)
  case (Suc n)
  have k: "nat (int k mod 18446744073709551616) = k" using Suc.prems(2) by (simp add: nat_mod_distrib)
  have "to_int32 (int k + 1) = int (Suc k)" using Suc.prems(2) by (simp add: to_int32_id)
  then have "fst (next_loops n (p\<lparr>lp_loopIndex := to_int32 (int k + 1)\<rparr>)) = map (\<lambda>i. (Suc k + i) mod lp_size p) [0..<n]"
    using Suc.IH [of "p\<lparr>lp_loopIndex := to_int32 (int k + 1)\<rparr>" "Suc k"] Suc.prems by simp
  then obtain js p' where "next_loops n (p\<lparr>lp_loopIndex := to_int32 (int k + 1)\<rparr>) = (js, p')"
    "js = map (\<lambda>i. (Suc k + i) mod lp_size p) [0..<n]" by (cases "next_loops n (p\<lparr>lp_loopIndex := to_int32 (int k + 1)\<rparr>)") simp
  moreover have "map (\<lambda>i. (k + i) mod lp_size p) [0..<Suc n] = k mod lp_size p # map (\<lambda>i. (Suc k + i) mod lp_size p) [0..<n]"
    by (simp add: upt_conv_Cons map_Suc_upt [symmetric] del: upt_Suc)
  ultimately show ?case using Suc.prems(1) k by (simp add: GetNextLoop_def)
qed simp

section \<open>Handlers on channels\<close>

text \<open>
  What a handler of the library does to its channel: changes of its interest, and its end, which
  takes the channel out of the loop and closes it. \<open>ops\<close> chooses them from the state of the owner.
\<close>

datatype channel_op = Op_writing bool | Op_reading bool | Op_close

fun channel_op_run :: "nat \<Rightarrow> channel_op \<Rightarrow> epoll_state \<Rightarrow> epoll_state result" where
  "channel_op_run c (Op_writing b) ep = EnableChannelWriting c b ep"
| "channel_op_run c (Op_reading b) ep = EnableChannelReading c b ep"
| "channel_op_run c Op_close ep = bindR (DelChannel c ep) (\<lambda>ep'. Inr (close_channel c ep'))"

fun channel_ops_run :: "nat \<Rightarrow> channel_op list \<Rightarrow> epoll_state \<Rightarrow> epoll_state result" where
  "channel_ops_run c [] ep = Inr ep"
| "channel_ops_run c (x # xs) ep = bindR (channel_op_run c x ep) (channel_ops_run c xs)"

definition ops_handler :: "(channel_call \<Rightarrow> nat \<Rightarrow> 'w \<Rightarrow> 'w \<times> channel_op list) \<Rightarrow> ('f, 'w) handlers" where
  "ops_handler ops call c s =
     (case s of (lp, w) \<Rightarrow>
        (case ops call c w of (w', xs) \<Rightarrow> bindR (channel_ops_run c xs (el_ep lp)) (\<lambda>ep. Inr (lp\<lparr>el_ep := ep\<rparr>, w'))))"

section \<open>The contract of the loop's clients\<close>

text \<open>
  \<open>spares c\<close>: the table, the mask and the descriptor of channel \<open>c\<close> are as before, and the table is
  still in step with the kernel. Functions and handlers must spare the pipe and leave the queue
  alone (\<open>RunInLoop\<close> in the loop's own thread runs its function at once).
\<close>

definition spares :: "nat \<Rightarrow> epoll_state \<Rightarrow> epoll_state \<Rightarrow> bool" where
  "spares c ep ep' \<longleftrightarrow> (in_sync ep \<longrightarrow> in_sync ep') \<and>
     (in_sync ep \<and> ep_channels ep (chan_fd c ep) = Some c \<longrightarrow>
        ep_store ep' c = ep_store ep c \<and> ep_channels ep' (chan_fd c ep) = Some c)"

definition client_step :: "'f event_loop \<Rightarrow> 'f event_loop \<Rightarrow> bool" where
  "client_step lp lp' \<longleftrightarrow> el_fns lp' = el_fns lp \<and> el_pipe lp' = el_pipe lp \<and> (in_sync (el_ep lp) \<longrightarrow> in_sync (el_ep lp')) \<and>
     (\<forall>p. el_pipe lp = Some p \<longrightarrow> spares (pe_id p) (el_ep lp) (el_ep lp'))"

lemma spares_refl [simp]: "spares c ep ep"
  by (simp add: spares_def)

lemma spares_trans: "spares c ep ep1 \<Longrightarrow> spares c ep1 ep2 \<Longrightarrow> spares c ep ep2"
  unfolding spares_def chan_fd_def by auto

lemma client_step_refl [simp]: "client_step lp lp"
  by (simp add: client_step_def)

lemma client_step_wheel [simp]: "client_step lp (lp\<lparr>el_wheel := tw\<rparr>)"
  by (simp add: client_step_def)

lemma client_step_trans: "client_step a b \<Longrightarrow> client_step b c \<Longrightarrow> client_step a c"
  unfolding client_step_def by (auto intro: spares_trans)

locale loop_client =
  fixes run :: "'f \<Rightarrow> ('f, 'w) loop_state \<Rightarrow> ('f, 'w) loop_state result"
    and handle :: "('f, 'w) handlers"
  assumes run_step: "run f (lp, w) = Inr (lp', w') \<Longrightarrow> client_step lp lp'"
    and handle_step: "handle call c (lp, w) = Inr (lp', w') \<Longrightarrow> (\<And>p. el_pipe lp = Some p \<Longrightarrow> pe_id p \<noteq> c) \<Longrightarrow> client_step lp lp'"

lemma run_fn_step: "run_fn f (lp, w) = Inr (lp', w') \<Longrightarrow> client_step lp lp'"
  by (auto simp: run_fn_def bindR_eq_Inr_iff)


lemma unregistered:
  assumes "in_sync ep" and "\<not> 0 < chan_fd c ep"
  shows "chan_fd c ep = -1" and "ep_channels ep (chan_fd c ep) = None"
  using in_syncD(5) [OF assms(1), of c] in_syncD(1) [OF assms(1), of "chan_fd c ep"] assms(2)
  by (auto, metis not_None_eq)

lemma update_in_sync:
  assumes s: "in_sync ep" and none: "ep_channels ep (chan_fd c ep) = None" and f: "\<And>ch. ch_fd (f ch) = ch_fd ch"
  shows "in_sync (update_chan c f ep)"
proof -
  have "d \<noteq> c" if "ep_channels ep x = Some d" for x d using in_syncD(1) [OF s that] none that by auto
  then show ?thesis using s f unfolding in_sync_def by simp
qed

lemma enable_spares:
  assumes e: "Epoller_UpdateChannel c (update_chan c f ep) = Inr ep'" and f: "\<And>ch. ch_fd (f ch) = ch_fd ch" and d: "d \<noteq> c"
  shows "spares d ep ep'"
proof (cases "in_sync ep")
  case True
  have st: "ep_store ep' d = ep_store ep d" "ep_channels ep' = ep_channels ep"
    using e d by (auto simp: epoller_defs Let_def split: if_splits)
  have "in_sync ep'"
  proof (cases "0 < chan_fd c ep")
    case pos: True
    show ?thesis by (rule enable_in_sync [OF True pos f e])
  next
    case False
    then have "ep' = update_chan c f ep" using e f unregistered [OF True False] by (simp add: Epoller_UpdateChannel_def)
    then show ?thesis using update_in_sync [OF True unregistered(2) [OF True False] f] by simp
  qed
  then show ?thesis using st by (simp add: spares_def)
qed (simp add: spares_def)

lemma end_spares:
  assumes e: "DelChannel c ep = Inr ep1" and d: "d \<noteq> c"
  shows "spares d ep (close_channel c ep1)"
proof (cases "in_sync ep")
  case s: True
  have ep1: "in_sync ep1" "ep_channels ep1 (chan_fd c ep1) = None" "chan_fd x ep1 = chan_fd x ep" "ep_store ep1 = ep_store ep" for x
    using del_in_sync [OF s e] e by (auto simp: del_eval [OF s] split: if_splits)
  have "ep_store (close_channel c ep1) d = ep_store ep1 d" "ep_channels (close_channel c ep1) = ep_channels ep1"
    using d by (auto simp: close_channel_def Channel_Close_def sys_close_def Let_def split: prod.split)
  moreover have "ep_channels ep1 (chan_fd d ep) = Some d" if "ep_channels ep (chan_fd d ep) = Some d"
  proof -
    have "chan_fd d ep \<noteq> chan_fd c ep" using in_syncD(1) [OF s that] in_syncD(4) [OF s, of d c] d by auto
    then show ?thesis using that e by (auto simp: del_eval [OF s] split: if_splits)
  qed
  ultimately show ?thesis using close_in_sync [OF ep1(1,2)] ep1(4) by (simp add: spares_def)
qed (simp add: spares_def)

lemma channel_op_spares: "channel_op_run c x ep = Inr ep' \<Longrightarrow> d \<noteq> c \<Longrightarrow> spares d ep ep'"
  by (cases x) (auto simp: EnableChannelWriting_def EnableChannelReading_def bindR_eq_Inr_iff intro: enable_spares end_spares)

lemma channel_ops_spares: "channel_ops_run c xs ep = Inr ep' \<Longrightarrow> d \<noteq> c \<Longrightarrow> spares d ep ep'"
proof (induction xs arbitrary: ep)
  case (Cons x xs)
  then show ?case by (auto simp: bindR_eq_Inr_iff intro: spares_trans channel_op_spares)
qed simp

lemma channel_ops_in_sync: "channel_ops_run c xs ep = Inr ep' \<Longrightarrow> in_sync ep \<Longrightarrow> in_sync ep'"
  using channel_ops_spares [of c xs ep ep' "Suc c"] by (simp add: spares_def)

lemma ops_handler_step:
  "ops_handler ops call c (lp, w) = Inr (lp', w') \<Longrightarrow> (\<And>p. el_pipe lp = Some p \<Longrightarrow> pe_id p \<noteq> c) \<Longrightarrow> client_step lp lp'"
  by (auto simp: ops_handler_def bindR_eq_Inr_iff client_step_def intro: channel_ops_in_sync channel_ops_spares split: prod.splits)

interpretation timers: loop_client run_fn "ops_handler ops"
  by unfold_locales (auto intro: run_fn_step ops_handler_step)

section \<open>Functions of other threads\<close>

text \<open>
  The histories of a loop: functions posted by other threads, functions run in the loop's own
  thread, and rounds, during which other threads post as well (\<open>handling\<close>). The kernel reports the pipe, with \<open>EPOLLIN\<close>, once after every write, and
  any other descriptors with it. \<open>noting\<close> lets a run keep the list of the functions executed from
  the queue; the list in \<open>loop_hist\<close> is that of the functions posted, \<open>w0\<close> the state at the start.
\<close>

definition noting :: "('f \<Rightarrow> ('f, 'w) loop_state \<Rightarrow> ('f, 'w) loop_state result) \<Rightarrow>
    'f \<Rightarrow> ('f, 'w \<times> 'f list) loop_state \<Rightarrow> ('f, 'w \<times> 'f list) loop_state result" where
  "noting run f s = (case s of (lp, w, hist) \<Rightarrow> bindR (run f (lp, w)) (\<lambda>(lp', w'). Inr (lp', w', hist @ [f])))"

definition beside :: "('f, 'w) handlers \<Rightarrow> ('f, 'w \<times> 'f list) handlers" where
  "beside handle call c s = (case s of (lp, w, hist) \<Rightarrow> bindR (handle call c (lp, w)) (\<lambda>(lp', w'). Inr (lp', w', hist)))"

definition pipe_fd :: "pipe_event \<Rightarrow> 'f event_loop \<Rightarrow> int" where
  "pipe_fd p lp = chan_fd (pe_id p) (el_ep lp)"

definition pipe_ready :: "'f event_loop \<Rightarrow> (int \<times> 32 word) list" where
  "pipe_ready lp =
     (case el_pipe lp of
        Some p \<Rightarrow> (if pe_edge p then [(pipe_fd p lp, EPOLLIN)] else [])
      | None \<Rightarrow> [])"

definition pipe_taken :: "'f event_loop \<Rightarrow> 'f event_loop" where
  "pipe_taken lp = lp\<lparr>el_pipe := map_option (\<lambda>p. p\<lparr>pe_edge := False\<rparr>) (el_pipe lp)\<rparr>"

definition others :: "'f event_loop \<Rightarrow> (int \<times> 32 word) list \<Rightarrow> bool" where
  "others lp es \<longleftrightarrow> (\<forall>p. el_pipe lp = Some p \<longrightarrow> pipe_fd p lp \<notin> fst ` set es)"

definition fresh_pipe :: "new_pipe \<Rightarrow> epoll_state \<Rightarrow> bool" where
  "fresh_pipe np ep \<longleftrightarrow>
     (case np of
        (Some (rd, wr), c) \<Rightarrow> 0 < rd \<and> 0 < wr \<and> rd \<noteq> wr \<and> \<not> k_open ep rd \<and> \<not> k_open ep wr \<and> chan_fd c ep = -1
      | _ \<Rightarrow> False)"

text \<open>The handlers of a round, with the posts of other threads that come after the poll and before the
  queue is run, which the mutex then keeps out. The pipe that the first of all posts makes is a new
  channel object, not one that is still to be handled. A post during the poll is one before it, and
  one during the tick of the wheel is one after it.\<close>

inductive handling :: "('f \<Rightarrow> ('f, 'w) loop_state \<Rightarrow> ('f, 'w) loop_state result) \<Rightarrow> ('f, 'w) handlers \<Rightarrow>
    nat list \<Rightarrow> ('f, 'w) loop_state \<Rightarrow> 'f list \<Rightarrow> ('f, 'w) loop_state \<Rightarrow> bool" for run handle where
  none: "handling run handle [] s [] s"
| handler: "handle_all handle [c] s = Inr s1 \<Longrightarrow> handling run handle cs s1 fs s' \<Longrightarrow> handling run handle (c # cs) s fs s'"
| post: "fresh_pipe np (el_ep (fst s)) \<Longrightarrow> snd np \<notin> set cs \<Longrightarrow> RunInLoop run False f np s = Inr s1 \<Longrightarrow>
    handling run handle cs s1 fs s' \<Longrightarrow> handling run handle cs s (f # fs) s'"

inductive loop_hist :: "('f \<Rightarrow> ('f, 'w) loop_state \<Rightarrow> ('f, 'w) loop_state result) \<Rightarrow> ('f, 'w) handlers \<Rightarrow> 'w \<Rightarrow>
    'f list \<Rightarrow> ('f, 'w \<times> 'f list) loop_state \<Rightarrow> bool" for run handle w0 where
  start: "loop_hist run handle w0 [] (new_EventLoop, w0, [])"
| post: "loop_hist run handle w0 ps (lp, w, hist) \<Longrightarrow> fresh_pipe np (el_ep lp) \<Longrightarrow>
    RunInLoop run False f np (lp, w) = Inr (lp', w') \<Longrightarrow> loop_hist run handle w0 (ps @ [f]) (lp', w', hist)"
| own: "loop_hist run handle w0 ps (lp, w, hist) \<Longrightarrow>
    RunInLoop run True f np (lp, w) = Inr (lp', w') \<Longrightarrow> loop_hist run handle w0 ps (lp', w', hist)"
| round: "loop_hist run handle w0 ps (lp, w, hist) \<Longrightarrow> others lp (xs @ ys) \<Longrightarrow>
    Poll (Inr (xs @ pipe_ready lp @ ys)) (el_ep lp) = Inr (cs, ep) \<Longrightarrow>
    handling (noting run) (beside handle) cs ((pipe_taken lp)\<lparr>el_ep := ep\<rparr>, w, hist) fs s1 \<Longrightarrow>
    round_end (noting run) now s1 = Inr (evs, s') \<Longrightarrow> loop_hist run handle w0 (ps @ fs) s'"

section \<open>The loop's invariant\<close>

text \<open>The pipe is registered for reading, and it is about to be reported while a function waits.\<close>

definition pipe_watched :: "pipe_event \<Rightarrow> 'f event_loop \<Rightarrow> bool" where
  "pipe_watched p lp \<longleftrightarrow> ep_channels (el_ep lp) (pipe_fd p lp) = Some (pe_id p) \<and> bit (ch_event (ep_store (el_ep lp) (pe_id p))) 0"

definition pipe_count :: "pipe_event \<Rightarrow> bool" where
  "pipe_count p \<longleftrightarrow> 0 < pe_writefd p \<and> pe_bytes p mod 8 = 0 \<and> pe_bytes p \<le> kPipeSize \<and>
     (if pe_edge p then 8 \<le> pe_bytes p else pe_bytes p + 8 \<le> kPipeSize)"

definition loop_inv :: "'f event_loop \<Rightarrow> bool" where
  "loop_inv lp \<longleftrightarrow> in_sync (el_ep lp) \<and>
     (case el_pipe lp of
        None \<Rightarrow> el_fns lp = []
      | Some p \<Rightarrow> pipe_watched p lp \<and> pipe_count p \<and> (el_fns lp = [] \<or> pe_edge p))"

lemma pipe_count_write: "pipe_count p \<Longrightarrow> pipe_count (PipeEvent_Write 8 p) \<and> pe_edge (PipeEvent_Write 8 p)"
proof -
  assume p: "pipe_count p"
  have "(pe_bytes p + 8) mod 8 = pe_bytes p mod 8" by (rule mod_add_self2)
  then show ?thesis using p by (auto simp: pipe_count_def PipeEvent_Write_def split: if_splits)
qed

text \<open>While the pipe is still to be handled in a round.\<close>

definition pipe_due :: "pipe_event \<Rightarrow> bool" where
  "pipe_due p \<longleftrightarrow> 0 < pe_writefd p \<and> pe_bytes p mod 8 = 0 \<and> pe_bytes p \<le> kPipeSize \<and> (if pe_edge p then 16 else 8) \<le> pe_bytes p"

lemma pipe_due_write: "pipe_due p \<Longrightarrow> pipe_due (PipeEvent_Write 8 p)"
proof -
  have "(pe_bytes p + 8) mod 8 = pe_bytes p mod 8" by (rule mod_add_self2)
  then show "pipe_due p \<Longrightarrow> pipe_due (PipeEvent_Write 8 p)" by (auto simp: pipe_due_def PipeEvent_Write_def split: if_splits)
qed

lemma pipe_due_read: "pipe_due p \<Longrightarrow> pipe_count (PipeEvent_OnRead p)"
proof -
  assume p: "pipe_due p"
  then have "8 \<le> pe_bytes p" by (auto simp: pipe_due_def split: if_splits)
  then have "(pe_bytes p - 8) mod 8 = pe_bytes p mod 8" by (simp add: le_mod_geq)
  then show ?thesis using p \<open>8 \<le> pe_bytes p\<close> by (auto simp: pipe_due_def pipe_count_def PipeEvent_OnRead_def split: if_splits)
qed

lemma pipe_due_taken: "pipe_count p \<Longrightarrow> pe_edge p \<Longrightarrow> pipe_due (p\<lparr>pe_edge := False\<rparr>)"
  by (simp add: pipe_count_def pipe_due_def)

lemma loop_inv_client:
  assumes "loop_inv lp" and "client_step lp lp'"
  shows "loop_inv lp'"
proof (cases "el_pipe lp")
  case (Some p)
  then have "spares (pe_id p) (el_ep lp) (el_ep lp')" using assms(2) by (simp add: client_step_def)
  then show ?thesis using assms Some by (auto simp: loop_inv_def client_step_def spares_def pipe_watched_def pipe_fd_def chan_fd_def)
qed (use assms in \<open>auto simp: loop_inv_def client_step_def\<close>)

text \<open>The pipe is reported at one place, with \<open>EPOLLIN\<close>, and nowhere when it was not written.\<close>

lemma Poll_pipe:
  assumes s: "in_sync (el_ep lp)" and p: "el_pipe lp = Some p" "pipe_watched p lp" and o: "others lp (xs @ ys)"
    and r: "poll_ready (xs @ pipe_ready lp @ ys) (el_ep lp) = (cs, ep)"
  shows "in_sync ep \<and> ep_channels ep (pipe_fd p lp) = Some (pe_id p) \<and> chan_fd (pe_id p) ep = pipe_fd p lp \<and>
    bit (ch_event (ep_store ep (pe_id p))) 0 \<and>
    (if pe_edge p then (\<exists>cs1 cs2. cs = cs1 @ pe_id p # cs2 \<and> pe_id p \<notin> set cs1 \<and> pe_id p \<notin> set cs2 \<and>
        ch_revents (ep_store ep (pe_id p)) = EPOLLIN)
     else pe_id p \<notin> set cs)"
proof -
  let ?c = "pe_id p" and ?fd = "pipe_fd p lp" and ?es = "xs @ pipe_ready lp @ ys"
  have reg: "ep_channels (el_ep lp) ?fd = Some ?c" using p(2) by (simp add: pipe_watched_def)
  have pos: "0 < ?fd" using in_syncD(1) [OF s reg] by simp
  have keep: "in_sync ep" "ep_channels ep = ep_channels (el_ep lp)" "ep_store ep = ep_store (snd (poll_events ?es (el_ep lp)))"
    using poll_in_sync [OF s, of ?es] Poll_events [of ?es "el_ep lp"] poll_events_channels [of ?es "el_ep lp"] r by simp_all
  have cs: "cs = fst (poll_events ?es (el_ep lp))" using Poll_events(1) [of ?es "el_ep lp"] r by simp
  have not_other: "?c \<notin> set (fst (poll_events zs e))" if sub: "fst ` set zs \<subseteq> fst ` set (xs @ ys)" and ch: "ep_channels e = ep_channels (el_ep lp)" for zs e
  proof
    assume "?c \<in> set (fst (poll_events zs e))"
    then obtain fd where "fd \<in> fst ` set zs" "ep_channels (el_ep lp) fd = Some ?c" using poll_events_in [of ?c zs e] ch by auto
    then have "?fd \<in> fst ` set zs" using in_syncD(1) [OF s] by (auto simp: pipe_fd_def)
    then show False using o p(1) sub by (auto simp: others_def)
  qed
  have fd: "chan_fd ?c ep = ?fd" and m: "bit (ch_event (ep_store ep ?c)) 0"
    using poll_events_fd [of ?c ?es "el_ep lp"] mask_kept [of ?es "el_ep lp" ?c] keep(3) p(2)
    by (simp_all add: chan_fd_def pipe_fd_def pipe_watched_def)
  show ?thesis
  proof (cases "pe_edge p")
    case False
    then have "pipe_ready lp = []" using p(1) by (simp add: pipe_ready_def)
    then show ?thesis using not_other [of ?es "el_ep lp"] cs keep fd m reg False by simp
  next
    case True
    then have pr: "pipe_ready lp = [(?fd, EPOLLIN)]" using p(1) by (simp add: pipe_ready_def)
    obtain cs1 ep1 where 1: "poll_events xs (el_ep lp) = (cs1, ep1)" by (cases "poll_events xs (el_ep lp)")
    let ?ep = "update_chan ?c (SetRevents EPOLLIN) ep1"
    obtain cs2 ep2 where 2: "poll_events ys ?ep = (cs2, ep2)" by (cases "poll_events ys ?ep")
    have ch1: "ep_channels ep1 = ep_channels (el_ep lp)" using poll_events_channels [of xs "el_ep lp"] 1 by simp
    then have all: "poll_events ?es (el_ep lp) = (cs1 @ ?c # cs2, ep2)" using 1 2 reg pos by (simp add: pr poll_events_append)
    have "?c \<notin> set cs1" "?c \<notin> set cs2" using not_other [of xs "el_ep lp"] not_other [of ys ?ep] 1 2 ch1 by auto
    moreover have "ep_store ep2 ?c = ep_store ?ep ?c" using poll_events_store [of ?c ys ?ep] 2 calculation(2) by simp
    then have "ch_revents (ep_store ep ?c) = EPOLLIN" using keep(3) all by (simp add: SetRevents_def)
    ultimately show ?thesis using cs all keep fd m reg True by auto
  qed
qed

section \<open>Waking up\<close>

lemma in_sync_opened: "in_sync ep \<Longrightarrow> in_sync (ep\<lparr>k_open := (k_open ep)(fd := True)\<rparr>)"
  by (simp add: in_sync_def)

definition pipe_fds :: "new_pipe \<Rightarrow> int list" where
  "pipe_fds np = (case fst np of None \<Rightarrow> [] | Some (rd, wr) \<Rightarrow> [rd, wr])"

lemma new_pipe_watched:
  assumes s: "in_sync ep" and np: "fresh_pipe np ep"
  shows "\<exists>p ep1 ep2. new_PipeEvent np ep = Inr (p, ep1) \<and> AddChannel (pe_id p) ep1 = Inr ep2 \<and> in_sync ep2 \<and>
    ep_channels ep2 (chan_fd (pe_id p) ep2) = Some (pe_id p) \<and> bit (ch_event (ep_store ep2 (pe_id p))) 0 \<and>
    0 < pe_writefd p \<and> pe_bytes p = 0 \<and> pe_id p = snd np \<and> (\<forall>c. c \<noteq> snd np \<longrightarrow> chan_fd c ep2 = chan_fd c ep) \<and>
    (\<forall>x. k_open ep2 x \<longrightarrow> k_open ep x \<or> x \<in> set (pipe_fds np))"
proof -
  obtain rd wr c where n: "np = (Some (rd, wr), c)" and f: "0 < rd" "0 < wr" "rd \<noteq> wr" "\<not> k_open ep rd" "chan_fd c ep = -1"
    using np by (auto simp: fresh_pipe_def split: prod.splits option.splits)
  let ?ep = "ep\<lparr>k_open := (k_open ep)(wr := True)\<rparr>"
  have same: "(open_channel rd c ep)\<lparr>k_open := (k_open (open_channel rd c ep))(wr := True)\<rparr> = open_channel rd c ?ep"
    using f(3) by (simp add: open_channel_def fun_upd_twist)
  have free: "\<not> k_open ?ep rd" "chan_fd c ?ep = -1" using f by (simp_all add: chan_fd_def)
  obtain ep2 where a: "AddChannel c (open_channel rd c ?ep) = Inr ep2" "in_sync ep2"
    "\<And>d. chan_fd d ep2 = (if d = c then rd else chan_fd d ?ep)" "ep_channels ep2 = (ep_channels ?ep)(rd \<mapsto> c)"
    "bit (ch_event (ep_store ep2 c)) 0" "k_open ep2 = (k_open ?ep)(rd := True)"
    by (rule register_ok [OF in_sync_opened [OF s] f(1) free]) (rule that)
  have "chan_fd d ?ep = chan_fd d ep" for d by (simp add: chan_fd_def)
  then show ?thesis using f(2) a by (simp add: n new_PipeEvent_def Let_def same pipe_fds_def)
qed

lemma pipe_write_same: "pe_id (PipeEvent_Write n p) = pe_id p" "pipe_fd (PipeEvent_Write n p) lp = pipe_fd p lp"
  by (simp_all add: PipeEvent_Write_def pipe_fd_def)

lemma WakeUp_again:
  assumes inv: "loop_inv lp" and p: "el_pipe lp = Some p"
  shows "\<exists>lp'. WakeUp np (lp\<lparr>el_fns := fs\<rparr>) = Inr lp' \<and> el_fns lp' = fs \<and> loop_inv lp' \<and> el_ep lp' = el_ep lp \<and> el_pipe lp' \<noteq> None"
proof -
  have "in_sync (el_ep lp)" "pipe_watched p lp" "pipe_count p" using assms by (simp_all add: loop_inv_def)
  then have "loop_inv (lp\<lparr>el_fns := fs, el_pipe := Some (PipeEvent_Write 8 p)\<rparr>)"
    using pipe_count_write [of p] by (simp add: loop_inv_def pipe_watched_def pipe_write_same pipe_fd_def)
  then show ?thesis using p by (simp add: WakeUp_def)
qed

lemma WakeUp_first:
  assumes inv: "loop_inv lp" and np: "fresh_pipe np (el_ep lp)" and none: "el_pipe lp = None"
  shows "\<exists>lp'. WakeUp np (lp\<lparr>el_fns := fs\<rparr>) = Inr lp' \<and> el_fns lp' = fs \<and> loop_inv lp' \<and> el_pipe lp' \<noteq> None \<and>
    (\<forall>c. c \<noteq> snd np \<longrightarrow> chan_fd c (el_ep lp') = chan_fd c (el_ep lp)) \<and>
    (\<forall>x. k_open (el_ep lp') x \<longrightarrow> k_open (el_ep lp) x \<or> x \<in> set (pipe_fds np))"
proof -
  have s: "in_sync (el_ep lp)" using inv by (simp add: loop_inv_def)
  obtain p ep1 ep2 where n: "new_PipeEvent np (el_ep lp) = Inr (p, ep1)" "AddChannel (pe_id p) ep1 = Inr ep2" "in_sync ep2"
    "ep_channels ep2 (chan_fd (pe_id p) ep2) = Some (pe_id p)" "bit (ch_event (ep_store ep2 (pe_id p))) 0"
    "0 < pe_writefd p" "pe_bytes p = 0" "\<forall>c. c \<noteq> snd np \<longrightarrow> chan_fd c ep2 = chan_fd c (el_ep lp)"
    "\<forall>x. k_open ep2 x \<longrightarrow> k_open (el_ep lp) x \<or> x \<in> set (pipe_fds np)" using new_pipe_watched [OF s np] by blast
  then show ?thesis using none
    by (simp add: WakeUp_def loop_inv_def pipe_watched_def pipe_fd_def pipe_count_def PipeEvent_Write_def kPipeSize_def)
qed

lemma WakeUp_inv:
  assumes inv: "loop_inv lp" and np: "fresh_pipe np (el_ep lp)"
  shows "\<exists>lp'. WakeUp np (lp\<lparr>el_fns := fs\<rparr>) = Inr lp' \<and> el_fns lp' = fs \<and> loop_inv lp'"
proof (cases "el_pipe lp")
  case None
  then show ?thesis using WakeUp_first [OF assms, of fs] by blast
next
  case (Some p)
  then show ?thesis using WakeUp_again [OF inv, of p np fs] by blast
qed

lemma WakeUp_id: "WakeUp np lp = Inr lp' \<Longrightarrow> el_pipe lp = None \<Longrightarrow> \<exists>p. el_pipe lp' = Some p \<and> pe_id p = snd np"
  by (auto simp: WakeUp_def new_PipeEvent_def PipeEvent_Write_def bindR_eq_Inr_iff Let_def split: prod.splits option.splits)

section \<open>The invariant is kept\<close>

definition settled :: "'f event_loop \<Rightarrow> bool" where
  "settled lp \<longleftrightarrow> in_sync (el_ep lp) \<and>
     (case el_pipe lp of None \<Rightarrow> el_fns lp = [] | Some p \<Rightarrow> pipe_watched p lp \<and> pipe_count p)"

lemma settled_client: "settled lp \<Longrightarrow> client_step lp lp' \<Longrightarrow> settled lp'"
  by (cases "el_pipe lp") (auto simp: settled_def client_step_def spares_def pipe_watched_def pipe_fd_def chan_fd_def)

lemma loop_inv_settled: "loop_inv lp \<Longrightarrow> settled lp" "settled lp \<Longrightarrow> loop_inv (lp\<lparr>el_fns := []\<rparr>)"
  by (auto simp: loop_inv_def settled_def pipe_watched_def pipe_fd_def split: option.splits)

text \<open>While channels \<open>cs\<close> are still to be handled: the pipe is among them once, or not at all.\<close>

definition handling_inv :: "nat list \<Rightarrow> 'f event_loop \<Rightarrow> bool" where
  "handling_inv cs lp \<longleftrightarrow> in_sync (el_ep lp) \<and>
     (case el_pipe lp of
        None \<Rightarrow> el_fns lp = []
      | Some p \<Rightarrow> pipe_watched p lp \<and>
          (if pe_id p \<in> set cs
           then count_list cs (pe_id p) = 1 \<and> pipe_due p \<and> ch_revents (ep_store (el_ep lp) (pe_id p)) = EPOLLIN
           else pipe_count p))"

lemma handling_inv_Nil: "handling_inv [] lp = settled lp"
  by (cases "el_pipe lp") (simp_all add: handling_inv_def settled_def)

lemma handling_inv_client: "handling_inv cs lp \<Longrightarrow> client_step lp lp' \<Longrightarrow> handling_inv cs lp'"
  by (cases "el_pipe lp") (auto simp: handling_inv_def client_step_def spares_def pipe_watched_def pipe_fd_def chan_fd_def split: if_splits)

lemma polled_inv:
  assumes inv: "loop_inv lp" and o: "others lp (xs @ ys)" and r: "poll_ready (xs @ pipe_ready lp @ ys) (el_ep lp) = (cs, ep)"
  shows "handling_inv cs ((pipe_taken lp)\<lparr>el_ep := ep\<rparr>)"
proof (cases "el_pipe lp")
  case None
  then show ?thesis using poll_in_sync [of "el_ep lp" "xs @ pipe_ready lp @ ys"] inv r by (simp add: loop_inv_def handling_inv_def pipe_taken_def)
next
  case (Some p)
  have s: "in_sync (el_ep lp)" and w: "pipe_watched p lp" "pipe_count p" using inv Some by (simp_all add: loop_inv_def)
  note pp = Poll_pipe [OF s Some w(1) o r]
  have w': "pipe_watched (p\<lparr>pe_edge := False\<rparr>) ((pipe_taken lp)\<lparr>el_ep := ep\<rparr>)" using pp by (simp add: pipe_watched_def pipe_fd_def)
  show ?thesis
  proof (cases "pe_edge p")
    case True
    then obtain cs1 cs2 where "cs = cs1 @ pe_id p # cs2" "pe_id p \<notin> set cs1" "pe_id p \<notin> set cs2"
      "ch_revents (ep_store ep (pe_id p)) = EPOLLIN" using pp by auto
    then show ?thesis using pp w' pipe_due_taken [OF w(2) True] Some by (simp add: handling_inv_def pipe_taken_def count_list_0_iff)
  next
    case False
    then have "pe_id p \<notin> set cs" "pipe_count (p\<lparr>pe_edge := False\<rparr>)" using pp w(2) by (simp_all add: pipe_count_def)
    then show ?thesis using pp w' Some by (simp add: handling_inv_def pipe_taken_def)
  qed
qed

lemma post_handling:
  assumes inv: "handling_inv cs lp" and np: "fresh_pipe np (el_ep lp)" "snd np \<notin> set cs"
    and w: "WakeUp np (lp\<lparr>el_fns := el_fns lp @ [f]\<rparr>) = Inr lp'"
  shows "handling_inv cs lp' \<and> el_fns lp' = el_fns lp @ [f]"
proof (cases "el_pipe lp")
  case None
  then have "loop_inv lp" using inv by (simp add: handling_inv_def loop_inv_def)
  then have l: "loop_inv lp'" "el_fns lp' = el_fns lp @ [f]" using WakeUp_first [OF _ np(1) None, of "el_fns lp @ [f]"] w by auto
  obtain p where "el_pipe lp' = Some p" "pe_id p = snd np" using WakeUp_id [OF w] None by auto
  then show ?thesis using l np(2) by (simp add: loop_inv_def handling_inv_def)
next
  case (Some p)
  then have "lp' = lp\<lparr>el_fns := el_fns lp @ [f], el_pipe := Some (PipeEvent_Write 8 p)\<rparr>" using w by (simp add: WakeUp_def)
  then show ?thesis using inv Some pipe_due_write [of p] pipe_count_write [of p]
    by (simp add: handling_inv_def pipe_watched_def pipe_write_same pipe_fd_def split: if_splits)
qed

lemma handle_all_handling: "handle_all handle cs s = Inr s' \<Longrightarrow> handling run handle cs s [] s'"
proof (induction cs arbitrary: s)
  case (Cons c cs)
  then obtain s1 where "handle_all handle [c] s = Inr s1" "handle_all handle cs s1 = Inr s'" by (auto simp: bindR_eq_Inr_iff)
  then show ?case using Cons.IH handling.handler by blast
qed (simp add: handling.none)

context loop_client
begin

lemma noted: "loop_client (noting run) (beside handle)"
  by unfold_locales (auto simp: noting_def beside_def bindR_eq_Inr_iff intro: run_step handle_step)

lemma handle_others:
  "handle_all handle cs (lp, w) = Inr (lp', w') \<Longrightarrow> (\<And>p. el_pipe lp = Some p \<Longrightarrow> pe_id p \<notin> set cs) \<Longrightarrow> client_step lp lp'"
proof (induction cs arbitrary: lp w)
  case (Cons c cs)
  have own: "el_pipe lp = Some p \<Longrightarrow> pe_id p \<noteq> c" for p using Cons.prems(2) [of p] by auto
  obtain lp1 w1 where 1: "(case HandleEvent (ep_store (el_ep lp) c) of None \<Rightarrow> Inr (lp, w) | Some call \<Rightarrow> dispatch handle call c (lp, w)) = Inr (lp1, w1)"
    "handle_all handle cs (lp1, w1) = Inr (lp', w')"
    using Cons.prems(1) by (auto simp: bindR_eq_Inr_iff)
  have s: "client_step lp lp1"
  proof (cases "HandleEvent (ep_store (el_ep lp) c)")
    case (Some call)
    then have "handle call c (lp, w) = Inr (lp1, w1)"
      using 1(1) own by (auto simp: dispatch_def split: option.splits)
    then show ?thesis using handle_step own by blast
  qed (use 1(1) in simp)
  then have "el_pipe lp1 = el_pipe lp" by (simp add: client_step_def)
  then have "client_step lp1 lp'" using Cons.IH [OF 1(2)] Cons.prems(2) by auto
  then show ?case using client_step_trans [OF s] by blast
qed simp

lemma handle_client:
  assumes h: "handle_all handle [c] (lp, w) = Inr (lp', w')" and i: "handling_inv (c # cs) lp"
  shows "handling_inv cs lp' \<and> el_fns lp' = el_fns lp"
proof (cases "\<exists>p. el_pipe lp = Some p \<and> pe_id p = c")
  case False
  then have s: "client_step lp lp'" using handle_others [OF h] by auto
  have "handling_inv cs lp" using i False by (auto simp: handling_inv_def split: option.splits)
  then show ?thesis using handling_inv_client [OF _ s] s by (simp add: client_step_def)
next
  case True
  then obtain p where p: "el_pipe lp = Some p" "c = pe_id p" by auto
  then have w: "in_sync (el_ep lp)" "pipe_watched p lp" "count_list cs c = 0" "pipe_due p" "ch_revents (ep_store (el_ep lp) c) = EPOLLIN"
    using i by (simp_all add: handling_inv_def)
  then have "HandleEvent (ep_store (el_ep lp) c) = Some Call_OnRead" by (simp add: HandleEvent_def bit_epoll)
  then have "lp' = lp\<lparr>el_pipe := Some (PipeEvent_OnRead p)\<rparr>" using h p by (simp add: dispatch_def pipe_call_def)
  moreover have "c \<notin> set cs" using w(3) by (simp add: count_list_0_iff)
  ultimately show ?thesis using w pipe_due_read [OF w(4)] p
    by (simp add: handling_inv_def pipe_watched_def pipe_fd_def PipeEvent_OnRead_def)
qed

lemma handling_step:
  "handling run' handle cs s fs s' \<Longrightarrow> handling_inv cs (fst s) \<Longrightarrow> settled (fst s') \<and> el_fns (fst s') = el_fns (fst s) @ fs"
proof (induction rule: handling.induct)
  case (none s)
  then show ?case by (simp add: handling_inv_Nil)
next
  case (handler c s s1 cs fs s')
  then show ?case using handle_client [of c "fst s" "snd s" "fst s1" "snd s1" cs] by simp
next
  case (post np s cs f s1 fs s')
  obtain lp1 where w: "WakeUp np ((fst s)\<lparr>el_fns := el_fns (fst s) @ [f]\<rparr>) = Inr lp1" "fst s1 = lp1"
    using post.hyps(3) by (cases s) (auto simp: RunInLoop_def bindR_eq_Inr_iff)
  from post_handling [OF post.prems post.hyps(1,2) w(1)] show ?case using post.IH w(2) by simp
qed

lemma handled:
  assumes inv: "loop_inv lp" and o: "others lp (xs @ ys)" and r: "poll_ready (xs @ pipe_ready lp @ ys) (el_ep lp) = (cs, ep)"
    and h: "handling run' handle cs ((pipe_taken lp)\<lparr>el_ep := ep\<rparr>, w) fs (lp', w')"
  shows "settled lp' \<and> el_fns lp' = el_fns lp @ fs"
  using handling_step [OF h] polled_inv [OF inv o r] by (simp add: pipe_taken_def)

lemma run_all_step: "run_all run fs (lp, w) = Inr (lp', w') \<Longrightarrow> client_step lp lp'"
proof (induction fs arbitrary: lp w)
  case (Cons f fs)
  then show ?case by (auto simp: bindR_eq_Inr_iff dest!: run_step intro: client_step_trans)
qed simp

lemma end_inv:
  assumes "settled lp" and r: "round_end run now (lp, w) = Inr (evs, lp', w')"
  shows "loop_inv lp' \<and> el_fns lp' = []"
proof -
  obtain lp2 w2 tw where f: "run_all run (el_fns lp) (lp, w) = Inr (lp2, w2)" and l: "lp' = (lp2\<lparr>el_fns := []\<rparr>)\<lparr>el_wheel := tw\<rparr>"
    using r by (auto simp: round_end_def RunFuctions_def bindR_eq_Inr_iff split: prod.splits)
  have "settled lp2" using settled_client [OF assms(1) run_all_step [OF f]] .
  then have "loop_inv (lp2\<lparr>el_fns := []\<rparr>)" by (rule loop_inv_settled)
  then show ?thesis using loop_inv_client [of "lp2\<lparr>el_fns := []\<rparr>" lp'] l by simp
qed

end

lemma noting_Inr: "noting run f (lp, w, hist) = Inr s \<longleftrightarrow> (\<exists>lp' w'. run f (lp, w) = Inr (lp', w') \<and> s = (lp', w', hist @ [f]))"
  by (auto simp: noting_def bindR_eq_Inr_iff)

lemma run_all_noting:
  "run_all (noting run) fs (lp, w, hist) = Inr (lp', w', hist') \<Longrightarrow> hist' = hist @ fs"
  by (induction fs arbitrary: lp w hist) (fastforce simp: noting_Inr bindR_eq_Inr_iff)+

lemma handle_all_beside:
  "handle_all (beside handle) cs (lp, w, hist) = Inr (lp', w', hist') \<Longrightarrow> hist' = hist"
proof (induction cs arbitrary: lp w hist)
  case (Cons c cs)
  have d: "dispatch (beside handle) call c (lp, w, hist) = Inr (lp1, w1, h1) \<Longrightarrow> h1 = hist" for call lp1 w1 h1
    by (auto simp: dispatch_def beside_def bindR_eq_Inr_iff split: option.splits if_splits)
  from Cons.prems obtain lp1 w1 h1 where
    "(case HandleEvent (ep_store (el_ep lp) c) of None \<Rightarrow> Inr (lp, w, hist) | Some call \<Rightarrow> dispatch (beside handle) call c (lp, w, hist)) = Inr (lp1, w1, h1)"
    and 2: "handle_all (beside handle) cs (lp1, w1, h1) = Inr (lp', w', hist')" by (auto simp: bindR_eq_Inr_iff)
  then have "h1 = hist" using d by (auto split: option.splits)
  then show ?case using Cons.IH [OF 2] by simp
qed simp

lemma handling_beside: "handling run (beside handle) cs s fs s' \<Longrightarrow> snd (snd s') = snd (snd s)"
proof (induction rule: handling.induct)
  case (handler c s s1 cs fs s')
  then show ?case using handle_all_beside [of handle "[c]" "fst s" "fst (snd s)" "snd (snd s)" "fst s1" "fst (snd s1)" "snd (snd s1)"] by simp
next
  case (post np s cs f s1 fs s')
  then show ?case by (cases s) (auto simp: RunInLoop_def bindR_eq_Inr_iff)
qed simp

context loop_client
begin

lemma noted_round:
  assumes inv: "loop_inv lp" and o: "others lp (xs @ ys)" and r: "Poll (Inr (xs @ pipe_ready lp @ ys)) (el_ep lp) = Inr (cs, ep)"
    and h: "handling (noting run) (beside handle) cs ((pipe_taken lp)\<lparr>el_ep := ep\<rparr>, w, hist) fs s1"
    and e: "round_end (noting run) now s1 = Inr (evs, lp', w', hist')"
  shows "loop_inv lp' \<and> el_fns lp' = [] \<and> hist' = hist @ el_fns lp @ fs"
proof -
  obtain lp1 w1 h1 where s1: "s1 = (lp1, w1, h1)" by (cases s1)
  have p: "poll_ready (xs @ pipe_ready lp @ ys) (el_ep lp) = (cs, ep)" using r by (simp add: Poll_def)
  have st: "settled lp1" "el_fns lp1 = el_fns lp @ fs" using loop_client.handled [OF noted inv o p h [unfolded s1]] by simp_all
  obtain lp2 w2 where "run_all (noting run) (el_fns lp1) (lp1, w1, h1) = Inr (lp2, w2, hist')"
    using e by (auto simp: s1 round_end_def RunFuctions_def bindR_eq_Inr_iff split: prod.splits)
  then have "hist' = hist @ el_fns lp @ fs" using run_all_noting [where run = run] handling_beside [OF h] st(2) by (fastforce simp: s1)
  then show ?thesis using loop_client.end_inv [OF noted st(1) e [unfolded s1]] by simp
qed

lemma hist_inv: "loop_hist run handle w0 ps s \<Longrightarrow> loop_inv (fst s) \<and> snd (snd s) @ el_fns (fst s) = ps"
proof (induction rule: loop_hist.induct)
  case start
  then show ?case by (simp add: loop_inv_def new_EventLoop_def new_in_sync)
next
  case (post ps lp w hist np f lp' w')
  then show ?case using WakeUp_inv [of lp np "el_fns lp @ [f]"] by (auto simp: RunInLoop_def bindR_eq_Inr_iff)
next
  case (own ps lp w hist f np lp' w')
  then have c: "client_step lp lp'" using run_step by (simp add: RunInLoop_def)
  then show ?case using own loop_inv_client [OF _ c] by (simp add: client_step_def)
next
  case (round ps lp w hist xs ys cs ep fs s1 now evs s')
  then show ?case using noted_round [OF _ round.hyps(2-4), of now evs "fst s'" "fst (snd s')" "snd (snd s')"] by simp
qed

end

section \<open>Properties\<close>

text \<open>C17: functions posted by other threads, between the rounds of the loop or in the middle of one, are
  run exactly once, in the order they were posted, whatever handlers and functions do that leaves the
  pipe of the loop alone: what has run and what waits make up what was posted; posting never fails;
  while a function waits the pipe is registered for reading with the kernel and about to be reported,
  although a round reads a single wake-up of eight bytes and the pipe can fill up; and a round that
  returns has run everything, also what was posted while its handlers ran.\<close>

theorem posted_run_in_order:
  assumes "loop_client run handle" and "loop_hist run handle w0 ps (lp, w, hist)"
  shows "hist @ el_fns lp = ps \<and>
    (if el_fns lp = [] then True
     else (\<exists>p m. el_pipe lp = Some p \<and> pe_edge p \<and> k_interest (el_ep lp) (pipe_fd p lp) = Some m \<and> bit m 0)) \<and>
    (if fresh_pipe np (el_ep lp) then isl (RunInLoop run False f np (lp, w)) = False else True) \<and>
    (if others lp (xs @ ys)
     then (case loop_round (beside handle) (noting run) (Inr (xs @ pipe_ready lp @ ys)) now (pipe_taken lp, w, hist) of
             Inl e \<Rightarrow> True
           | Inr (evs, lp', w', hist') \<Rightarrow> el_fns lp' = [] \<and> hist' = ps)
     else True) \<and>
    (if others lp (xs @ ys) \<and> Poll (Inr (xs @ pipe_ready lp @ ys)) (el_ep lp) = Inr (cs, ep) \<and>
        handling (noting run) (beside handle) cs ((pipe_taken lp)\<lparr>el_ep := ep\<rparr>, w, hist) fs s1
     then (case round_end (noting run) now s1 of
             Inl e \<Rightarrow> True
           | Inr (evs, lp', w', hist') \<Rightarrow> el_fns lp' = [] \<and> hist' = ps @ fs)
     else True)"
proof -
  have inv: "loop_inv lp" "hist @ el_fns lp = ps" using loop_client.hist_inv [OF assms] by simp_all
  have watched: "\<exists>p m. el_pipe lp = Some p \<and> pe_edge p \<and> k_interest (el_ep lp) (pipe_fd p lp) = Some m \<and> bit m 0" if wait: "el_fns lp \<noteq> []"
  proof -
    obtain p where "el_pipe lp = Some p" "pe_edge p" "pipe_watched p lp" "in_sync (el_ep lp)"
      using inv(1) wait by (auto simp: loop_inv_def split: option.splits)
    then show ?thesis using in_syncD(1) [of "el_ep lp" "pipe_fd p lp" "pe_id p"] by (auto simp: pipe_watched_def)
  qed
  have posted: "isl (RunInLoop run False f np (lp, w)) = False" if "fresh_pipe np (el_ep lp)"
    using WakeUp_inv [OF inv(1) that, of "el_fns lp @ [f]"] by (auto simp: RunInLoop_def)
  have busy: "el_fns lp' = [] \<and> hist' = ps @ fs" if "others lp (xs @ ys)" "Poll (Inr (xs @ pipe_ready lp @ ys)) (el_ep lp) = Inr (cs, ep)"
    "handling (noting run) (beside handle) cs ((pipe_taken lp)\<lparr>el_ep := ep\<rparr>, w, hist) fs s1"
    "round_end (noting run) now s1 = Inr (evs, lp', w', hist')" for cs ep fs s1 evs lp' w' hist'
    using loop_client.noted_round [OF assms(1) inv(1) that] inv(2) by simp
  have plain: "el_fns lp' = [] \<and> hist' = ps" if o: "others lp (xs @ ys)"
    and r: "loop_round (beside handle) (noting run) (Inr (xs @ pipe_ready lp @ ys)) now (pipe_taken lp, w, hist) = Inr (evs, lp', w', hist')"
    for evs lp' w' hist'
  proof -
    have "el_ep (pipe_taken lp) = el_ep lp" by (simp add: pipe_taken_def)
    then obtain cs ep s1 where "Poll (Inr (xs @ pipe_ready lp @ ys)) (el_ep lp) = Inr (cs, ep)"
      "handle_all (beside handle) cs ((pipe_taken lp)\<lparr>el_ep := ep\<rparr>, w, hist) = Inr s1"
      "round_end (noting run) now s1 = Inr (evs, lp', w', hist')" using r unfolding loop_round_parts by (auto simp: bindR_eq_Inr_iff)
    from busy [OF o this(1) handle_all_handling [OF this(2)] this(3)] show ?thesis by simp
  qed
  have "case round_end (noting run) now s1 of Inl e \<Rightarrow> True | Inr (evs, lp', w', hist') \<Rightarrow> el_fns lp' = [] \<and> hist' = ps @ fs"
    if "others lp (xs @ ys)" "Poll (Inr (xs @ pipe_ready lp @ ys)) (el_ep lp) = Inr (cs, ep)"
      "handling (noting run) (beside handle) cs ((pipe_taken lp)\<lparr>el_ep := ep\<rparr>, w, hist) fs s1"
    using busy [OF that] by (auto split: sum.split)
  then show ?thesis using inv(2) watched posted plain by (auto split: sum.split prod.split)
qed

text \<open>Another thread sets a timer of five seconds; the loop has no other channels.\<close>

theorem posted_run_in_order_witness:
  "\<exists>lp. RunInLoop run_fn False (Wheel_after 5 1) (Some (3, 4), 0) (new_EventLoop, []) = Inr (lp, []) \<and>
    el_fns lp = [Wheel_after 5 1] \<and>
    (\<exists>p m. el_pipe lp = Some p \<and> pe_edge p \<and> k_interest (el_ep lp) (pipe_fd p lp) = Some m \<and> bit m 0)"
proof -
  let ?h = "ops_handler (\<lambda>call c w. (w, [])) :: (loop_fn, timer_event list) handlers"
  have f: "fresh_pipe (Some (3, 4), 0) (el_ep (new_EventLoop :: loop_fn event_loop))"
    by (simp add: fresh_pipe_def new_EventLoop_def new_Epoller_def chan_fd_def new_Channel_def)
  have i: "loop_inv (new_EventLoop :: loop_fn event_loop)" by (simp add: loop_inv_def new_EventLoop_def new_in_sync)
  obtain lp where lp: "RunInLoop run_fn False (Wheel_after 5 1) (Some (3, 4), 0) (new_EventLoop, []) = Inr (lp, [])"
    "el_fns lp = [Wheel_after 5 1]"
    using WakeUp_inv [OF i f, of "[Wheel_after 5 1]"] by (auto simp: RunInLoop_def new_EventLoop_def)
  have "loop_hist run_fn ?h [] ([] @ [Wheel_after 5 1]) (lp, [], [])" by (rule loop_hist.post [OF loop_hist.start f lp(1)])
  from posted_run_in_order [OF timers.loop_client_axioms this] lp show ?thesis by (simp split: if_splits)
qed

text \<open>A timer that another thread sets is set by the next run of the queue as if the loop had
  set it then.\<close>

theorem posted_timer:
  assumes "EventLoop_RunAfter False delay cb np (lp, es) = Inr (lp1, es1)" and "el_fns lp = []"
  shows "map_sum (\<lambda>e. e) (\<lambda>(l, x). (el_wheel l, x)) (RunFuctions run_fn (lp1, es1)) =
    map_sum (\<lambda>e. e) (\<lambda>(l, x). (el_wheel l, x)) (EventLoop_RunAfter True delay cb np (lp, es)) \<and> es1 = es"
proof -
  have "WakeUp np (lp\<lparr>el_fns := [Wheel_after delay cb]\<rparr>) = Inr lp1" "es1 = es"
    using assms by (auto simp: EventLoop_RunAfter_def RunInLoop_def bindR_eq_Inr_iff)
  then have "el_fns lp1 = [Wheel_after delay cb]" "el_wheel lp1 = el_wheel lp"
    by (auto simp: WakeUp_def bindR_eq_Inr_iff split: option.splits)
  then show ?thesis using \<open>es1 = es\<close>
    by (cases "RunAfter delay cb (el_wheel lp)")
      (auto simp: RunFuctions_def EventLoop_RunAfter_def RunInLoop_def run_fn_def split: prod.splits)
qed

theorem posted_timer_witness:
  "\<exists>lp1. EventLoop_RunAfter False 5 1 (Some (3, 4), 0) (new_EventLoop, []) = Inr (lp1, []) \<and>
    map_sum (\<lambda>e. e) (\<lambda>(l, x). (el_wheel l, x)) (RunFuctions run_fn (lp1, [])) =
    map_sum (\<lambda>e. e) (\<lambda>(l, x). (el_wheel l, x)) (EventLoop_RunAfter True 5 1 (Some (3, 4), 0) (new_EventLoop, []))"
proof -
  have f: "fresh_pipe (Some (3, 4), 0) (el_ep (new_EventLoop :: loop_fn event_loop))"
    by (simp add: fresh_pipe_def new_EventLoop_def new_Epoller_def chan_fd_def new_Channel_def)
  have i: "loop_inv (new_EventLoop :: loop_fn event_loop)" by (simp add: loop_inv_def new_EventLoop_def new_in_sync)
  obtain lp where lp: "EventLoop_RunAfter False 5 1 (Some (3, 4), 0) (new_EventLoop, []) = Inr (lp, [])"
    using WakeUp_inv [OF i f, of "[Wheel_after 5 1]"] by (auto simp: EventLoop_RunAfter_def RunInLoop_def new_EventLoop_def)
  then show ?thesis using posted_timer [OF lp] by (simp add: new_EventLoop_def)
qed


text \<open>The pool hands out its loops in turn: after \<open>k\<close> calls the next ones get the loops
  \<open>k, k + 1, ...\<close> modulo the number of threads, which is at least one even when none was asked for.\<close>

theorem loops_in_turn:
  assumes "n < 2147483648"
  shows "fst (next_loops n (new_EventLoopThreadPool threads)) =
    map (\<lambda>i. i mod lp_size (new_EventLoopThreadPool threads)) [0..<n] \<and> 0 < lp_size (new_EventLoopThreadPool threads)"
  using next_loops_run [of "new_EventLoopThreadPool threads" 0 n] assms pool_size [of threads]
  by (simp add: new_EventLoopThreadPool_def)

theorem loops_in_turn_witness:
  "fst (next_loops 5 (new_EventLoopThreadPool 3)) = [0, 1, 2, 0, 1]"
  using loops_in_turn [of 5 3] by (simp add: new_EventLoopThreadPool_def upt_rec_numeral upt_rec)

end
