(* ===== verification/DnsService.thy ===== *)
theory DnsService
  imports InetAddress
begin

text \<open>
  \<open>src/network/DnsService.{h,cpp}\<close>: the table of host addresses, the conversion of what
  \<open>getaddrinfo\<close> answers, and the thread that keeps the table fresh, interleaved with its users: the
  mutex makes each operation on the table one step. Pointers to addresses are values. An answer of
  \<open>getaddrinfo\<close> is a list of socket addresses or an error, which leaves the result pointer unset.
\<close>

section \<open>The table\<close>

type_synonym hosts = "string \<Rightarrow> inet_address list option"

definition AddHost :: "string \<Rightarrow> hosts \<Rightarrow> hosts" where
  "AddHost host h = (if h host \<noteq> None then h else h(host \<mapsto> []))"

definition GetHostAddress :: "string \<Rightarrow> hosts \<Rightarrow> inet_address list" where
  "GetHostAddress host h = (case h host of Some l \<Rightarrow> l | None \<Rightarrow> [])"

text \<open>The overload with an \<open>int\<close> index, which \<open>%\<close> converts to \<open>size_t\<close>; \<open>None\<close> is the null pointer.\<close>

definition GetHostAddress_index :: "string \<Rightarrow> int \<Rightarrow> hosts \<Rightarrow> inet_address option" where
  "GetHostAddress_index host index h =
     (case h host of
        None \<Rightarrow> None
      | Some l \<Rightarrow> if 0 < length l then Some (l ! (nat (index mod 18446744073709551616) mod length l)) else None)"

text \<open>\<open>UpdateHost\<close> swaps the lists; an unknown host gets an entry first.\<close>

definition UpdateHost :: "string \<Rightarrow> inet_address list \<Rightarrow> hosts \<Rightarrow> hosts \<times> inet_address list" where
  "UpdateHost host l h = (h(host \<mapsto> l), GetHostAddress host h)"

section \<open>Answers of the resolver\<close>

datatype ai_answer = Ai_list "sock_addr list" | Ai_error int

definition node_address :: "(nat list \<Rightarrow> string) \<Rightarrow> sock_addr \<Rightarrow> inet_address" where
  "node_address ntop6 sa =
     (case sa of
        Sockaddr_in port ip \<Rightarrow> SetPort port (SetAddr (inet_ntop4 ip) new_InetAddress)
      | Sockaddr_in6 port bs \<Rightarrow> SetIsIPV6 True (SetPort port (SetAddr (ntop6 bs) new_InetAddress))
      | Sockaddr_other \<Rightarrow> new_InetAddress)"

text \<open>The test for an error is \<open>ret == -1 || res == nullptr\<close>: after any other error \<open>res\<close> is read unset.\<close>

definition GetHostInfo :: "(nat list \<Rightarrow> string) \<Rightarrow> ai_answer \<Rightarrow> inet_address list \<Rightarrow> inet_address list result" where
  "GetHostInfo ntop6 answer l =
     (case answer of
        Ai_error e \<Rightarrow> if e = -1 then Inr l else Inl Uninitialised
      | Ai_list sas \<Rightarrow> Inr (l @ map (node_address ntop6) sas))"

section \<open>The service and its thread\<close>

text \<open>Where the thread is in \<open>OnWork\<close>: the attempts for a host carry their number and the hosts that
  follow it in the copy of the table.\<close>

datatype work_pc =
    W_test
  | W_copy
  | W_next "string list"
  | W_try string nat "string list"
  | W_update string "inet_address list" "string list"
  | W_ended

record dns_service =
  dn_hosts :: hosts
  dn_work :: "work_pc option"    \<comment> \<open>\<open>None\<close>: there is no thread to join\<close>
  dn_running :: bool
  dn_retry :: int
  dn_sleep :: int
  dn_interval :: int

definition new_DnsService :: dns_service where
  "new_DnsService =
     \<lparr>dn_hosts = Map.empty, dn_work = None, dn_running = False, dn_retry = 3, dn_sleep = 200, dn_interval = 180 * 1000\<rparr>"

definition SetDnsServiceParam :: "int \<Rightarrow> int \<Rightarrow> int \<Rightarrow> dns_service \<Rightarrow> dns_service" where
  "SetDnsServiceParam interval sleep retry s = s\<lparr>dn_interval := interval, dn_sleep := sleep, dn_retry := retry\<rparr>"

text \<open>Assigning to a thread that was not joined calls \<open>std::terminate\<close>.\<close>

definition DnsService_Start :: "dns_service \<Rightarrow> dns_service result" where
  "DnsService_Start s =
     (if dn_work s = None then Inr (s\<lparr>dn_running := True, dn_work := Some W_test\<rparr>) else Inl (Exception ''std::terminate''))"

text \<open>\<open>Stop\<close> clears the flag and then joins, which waits for the end of the thread.\<close>

definition Stop_request :: "dns_service \<Rightarrow> dns_service" where
  "Stop_request s = s\<lparr>dn_running := False\<rparr>"

definition Stop_join :: "dns_service \<Rightarrow> dns_service option" where
  "Stop_join s =
     (case dn_work s of None \<Rightarrow> Some s | Some W_ended \<Rightarrow> Some (s\<lparr>dn_work := None\<rparr>) | Some _ \<Rightarrow> None)"

text \<open>A step of the thread: \<open>order\<close> is the order of the copied table, \<open>answer\<close> what the resolver says.\<close>

fun work_pc_step :: "(nat list \<Rightarrow> string) \<Rightarrow> string list \<Rightarrow> ai_answer \<Rightarrow> work_pc \<Rightarrow> dns_service \<Rightarrow> (work_pc \<times> hosts) result" where
  "work_pc_step ntop6 order answer W_test s = Inr (if dn_running s then W_copy else W_ended, dn_hosts s)"
| "work_pc_step ntop6 order answer W_copy s = Inr (W_next order, dn_hosts s)"
| "work_pc_step ntop6 order answer (W_next []) s = Inr (W_test, dn_hosts s)"
| "work_pc_step ntop6 order answer (W_next (host # hs)) s = Inr (W_try host 0 hs, dn_hosts s)"
| "work_pc_step ntop6 order answer (W_try host i hs) s =
     (if int i < dn_retry s
      then bindR (GetHostInfo ntop6 answer []) (\<lambda>l.
             Inr (if 0 < length l then W_update host l hs else W_try host (i + 1) hs, dn_hosts s))
      else Inr (W_next hs, dn_hosts s))"
| "work_pc_step ntop6 order answer (W_update host l hs) s = Inr (W_next hs, fst (UpdateHost host l (dn_hosts s)))"
| "work_pc_step ntop6 order answer W_ended s = Inr (W_ended, dn_hosts s)"

definition OnWork_step :: "(nat list \<Rightarrow> string) \<Rightarrow> string list \<Rightarrow> ai_answer \<Rightarrow> dns_service \<Rightarrow> dns_service result" where
  "OnWork_step ntop6 order answer s =
     (case dn_work s of
        None \<Rightarrow> Inr s
      | Some pc \<Rightarrow> bindR (work_pc_step ntop6 order answer pc s) (\<lambda>(pc', h). Inr (s\<lparr>dn_work := Some pc', dn_hosts := h\<rparr>)))"

fun OnWork_run :: "(nat list \<Rightarrow> string) \<Rightarrow> (string list \<times> ai_answer) list \<Rightarrow> dns_service \<Rightarrow> dns_service result" where
  "OnWork_run ntop6 [] s = Inr s"
| "OnWork_run ntop6 ((order, answer) # xs) s = bindR (OnWork_step ntop6 order answer s) (OnWork_run ntop6 xs)"

section \<open>Histories\<close>

text \<open>What the users and the thread do in any order, with the attempts \<open>asked\<close> (host and answer) and the
  updates of the table \<open>upd\<close> so far. The thread alone calls \<open>UpdateHost\<close>, as in the repository: it is
  public, and what a user put into the table with it would not be an answer of the resolver.\<close>

definition attempt :: "dns_service \<Rightarrow> ai_answer \<Rightarrow> (string \<times> ai_answer) list" where
  "attempt s answer = (case dn_work s of Some (W_try host i hs) \<Rightarrow> if int i < dn_retry s then [(host, answer)] else [] | _ \<Rightarrow> [])"

definition update :: "dns_service \<Rightarrow> (string \<times> inet_address list) list" where
  "update s = (case dn_work s of Some (W_update host l hs) \<Rightarrow> [(host, l)] | _ \<Rightarrow> [])"

inductive dns_reach :: "(nat list \<Rightarrow> string) \<Rightarrow> (string \<times> ai_answer) list \<Rightarrow> (string \<times> inet_address list) list \<Rightarrow> dns_service \<Rightarrow> bool"
  for ntop6 where
  new: "dns_reach ntop6 [] [] new_DnsService"
| add: "dns_reach ntop6 asked upd s \<Longrightarrow> dns_reach ntop6 asked upd (s\<lparr>dn_hosts := AddHost host (dn_hosts s)\<rparr>)"
| param: "dns_reach ntop6 asked upd s \<Longrightarrow> dns_reach ntop6 asked upd (SetDnsServiceParam interval sleep retry s)"
| start: "dns_reach ntop6 asked upd s \<Longrightarrow> DnsService_Start s = Inr s' \<Longrightarrow> dns_reach ntop6 asked upd s'"
| stop: "dns_reach ntop6 asked upd s \<Longrightarrow> dns_reach ntop6 asked upd (Stop_request s)"
| join: "dns_reach ntop6 asked upd s \<Longrightarrow> Stop_join s = Some s' \<Longrightarrow> dns_reach ntop6 asked upd s'"
| work: "dns_reach ntop6 asked upd s \<Longrightarrow> set order = dom (dn_hosts s) \<Longrightarrow> OnWork_step ntop6 order answer s = Inr s' \<Longrightarrow>
    dns_reach ntop6 (asked @ attempt s answer) (upd @ update s) s'"

text \<open>The last update of a host.\<close>

definition latest :: "string \<Rightarrow> (string \<times> inet_address list) list \<Rightarrow> inet_address list option" where
  "latest host upd = map_of (rev upd) host"

section \<open>Lemmas\<close>

lemma AddHost_keeps: "h host = Some l \<Longrightarrow> AddHost host' h host = Some l"
  by (auto simp: AddHost_def)

lemma latest_snoc: "latest host (upd @ [(h, l)]) = (if host = h then Some l else latest host upd)"
  by (simp add: latest_def)

lemma GetHostInfo_fresh: "GetHostInfo ntop6 answer [] = Inr l \<Longrightarrow> l \<noteq> [] \<Longrightarrow> \<exists>sas. answer = Ai_list sas \<and> l = map (node_address ntop6) sas"
  by (auto simp: GetHostInfo_def split: ai_answer.splits if_splits)

text \<open>An update comes from a list that the resolver gave for its host.\<close>

definition answered :: "(nat list \<Rightarrow> string) \<Rightarrow> (string \<times> ai_answer) list \<Rightarrow> string \<times> inet_address list \<Rightarrow> bool" where
  "answered ntop6 asked u \<longleftrightarrow>
     snd u \<noteq> [] \<and> (\<exists>sas. (fst u, Ai_list sas) \<in> set asked \<and> snd u = map (node_address ntop6) sas)"

definition entry_ok :: "inet_address list option \<Rightarrow> inet_address list option \<Rightarrow> bool" where
  "entry_ok l e \<longleftrightarrow> (case l of Some l' \<Rightarrow> e = Some l' | None \<Rightarrow> e = None \<or> e = Some [])"

definition table_ok :: "hosts \<Rightarrow> (string \<times> inet_address list) list \<Rightarrow> bool" where
  "table_ok h upd \<longleftrightarrow> (\<forall>host. entry_ok (latest host upd) (h host))"

definition dns_inv :: "(nat list \<Rightarrow> string) \<Rightarrow> (string \<times> ai_answer) list \<Rightarrow> (string \<times> inet_address list) list \<Rightarrow> dns_service \<Rightarrow> bool" where
  "dns_inv ntop6 asked upd s \<longleftrightarrow> table_ok (dn_hosts s) upd \<and> (\<forall>u\<in>set (upd @ update s). answered ntop6 asked u)"

lemma answered_more: "answered ntop6 asked u \<Longrightarrow> answered ntop6 (asked @ xs) u"
  by (auto simp: answered_def)

lemma table_add:
  assumes "table_ok h upd"
  shows "table_ok (AddHost host h) upd"
  unfolding table_ok_def
proof
  fix x
  have "entry_ok (latest x upd) (h x)" using assms by (simp add: table_ok_def)
  then show "entry_ok (latest x upd) (AddHost host h x)" by (auto simp: AddHost_def entry_ok_def split: option.splits)
qed

lemma table_update: "table_ok h upd \<Longrightarrow> table_ok (h(host \<mapsto> l)) (upd @ [(host, l)])"
  by (simp add: table_ok_def latest_snoc) (simp add: entry_ok_def)

lemma try_step:
  "work_pc_step ntop6 order answer (W_try host i hs) s = Inr (pc', h) \<Longrightarrow> h = dn_hosts s \<and>
     (if int i < dn_retry s
      then pc' = W_try host (i + 1) hs \<or> (\<exists>l. GetHostInfo ntop6 answer [] = Inr l \<and> l \<noteq> [] \<and> pc' = W_update host l hs)
      else pc' = W_next hs)"
  by (auto simp: bindR_eq_Inr_iff split: if_splits)

text \<open>A step of the thread keeps the table unless it updates it, and has something to update only
  after an attempt gave a list.\<close>

lemma work_inv:
  assumes i: "dns_inv ntop6 asked upd s" and s: "OnWork_step ntop6 order answer s = Inr s'"
  shows "dns_inv ntop6 (asked @ attempt s answer) (upd @ update s) s'"
proof (cases "dn_work s")
  case None
  then show ?thesis using assms by (simp add: OnWork_step_def attempt_def update_def)
next
  case (Some pc)
  have a: "\<forall>u\<in>set (upd @ update s). answered ntop6 (asked @ attempt s answer) u" using i answered_more by (auto simp: dns_inv_def)
  have t: "table_ok (dn_hosts s) upd" using i by (simp add: dns_inv_def)
  obtain pc' h where p: "work_pc_step ntop6 order answer pc s = Inr (pc', h)" "s' = s\<lparr>dn_work := Some pc', dn_hosts := h\<rparr>"
    using s Some by (auto simp: OnWork_step_def bindR_eq_Inr_iff)
  have "table_ok h (upd @ update s)"
  proof (cases pc)
    case (W_next hs)
    then show ?thesis using p(1) t Some by (cases hs) (auto simp: update_def)
  next
    case (W_try host i hs)
    then show ?thesis using p(1) t Some try_step [of ntop6 order answer host i hs s] by (simp add: update_def)
  qed (use p(1) t Some table_update in \<open>auto simp: update_def UpdateHost_def\<close>)
  moreover have "\<forall>u\<in>set (update s'). answered ntop6 (asked @ attempt s answer) u"
  proof (cases pc)
    case (W_next hs)
    then show ?thesis using p by (cases hs) (auto simp: update_def)
  next
    case (W_try host i hs)
    from try_step [OF p(1) [unfolded this]] show ?thesis using p(2) Some W_try GetHostInfo_fresh [of ntop6 answer]
      by (auto simp: update_def attempt_def answered_def split: if_splits)
  qed (use p in \<open>auto simp: update_def split: if_splits\<close>)
  ultimately show ?thesis using a p(2) by (auto simp: dns_inv_def)
qed

lemma reach_dns_inv: "dns_reach ntop6 asked upd s \<Longrightarrow> dns_inv ntop6 asked upd s"
proof (induction rule: dns_reach.induct)
  case new
  then show ?case by (simp add: dns_inv_def table_ok_def entry_ok_def latest_def new_DnsService_def update_def)
next
  case (add asked upd s host)
  then show ?case by (simp add: dns_inv_def table_add update_def)
next
  case (start asked upd s s')
  then show ?case by (auto simp: dns_inv_def DnsService_Start_def update_def split: if_splits)
next
  case (join asked upd s s')
  then show ?case by (auto simp: dns_inv_def Stop_join_def update_def split: option.splits work_pc.splits)
qed (simp_all add: work_inv, simp_all add: dns_inv_def SetDnsServiceParam_def Stop_request_def update_def)

section \<open>The end of the thread\<close>

fun work_left :: "nat \<Rightarrow> nat \<Rightarrow> work_pc \<Rightarrow> nat" where
  "work_left r n W_ended = 0"
| "work_left r n W_test = 1"
| "work_left r n (W_next hs) = length hs * (r + 3) + 2"
| "work_left r n (W_try host i hs) = (r - i) + 2 + (length hs * (r + 3) + 2)"
| "work_left r n (W_update host l hs) = 1 + (length hs * (r + 3) + 2)"
| "work_left r n W_copy = n * (r + 3) + 3"

lemma work_less:
  assumes "work_pc_step ntop6 order answer pc s = Inr (pc', h)" and "\<not> dn_running s" and "length order \<le> n" and "pc \<noteq> W_ended"
  shows "work_left (nat (dn_retry s)) n pc' < work_left (nat (dn_retry s)) n pc"
proof -
  have n: "length order * (nat (dn_retry s) + 3) \<le> n * (nat (dn_retry s) + 3)" using assms(3) by (rule mult_le_mono1)
  show ?thesis
  proof (cases pc)
    case (W_next hs)
    then show ?thesis using assms(1) by (cases hs) auto
  next
    case (W_try host i hs)
    from try_step [OF assms(1) [unfolded this]] show ?thesis using W_try by (auto split: if_splits)
  next
    case W_copy
    then show ?thesis using assms(1) n by (auto simp: less_Suc_eq_le)
  qed (use assms in auto)
qed

lemma work_ends:
  "OnWork_run ntop6 xs s = Inr s' \<Longrightarrow> \<not> dn_running s \<Longrightarrow> dn_work s = Some pc \<Longrightarrow> \<forall>x\<in>set xs. length (fst x) \<le> n \<Longrightarrow>
     work_left (nat (dn_retry s)) n pc \<le> length xs \<Longrightarrow> dn_work s' = Some W_ended"
proof (induction xs arbitrary: s pc)
  case Nil
  then show ?case by (cases pc) simp_all
next
  case (Cons x xs)
  obtain order answer where x: "x = (order, answer)" by (cases x)
  obtain pc' h where p: "work_pc_step ntop6 order answer pc s = Inr (pc', h)"
    and r: "OnWork_run ntop6 xs (s\<lparr>dn_work := Some pc', dn_hosts := h\<rparr>) = Inr s'"
    using Cons.prems(1,3) x by (auto simp: OnWork_step_def bindR_eq_Inr_iff)
  have "work_left (nat (dn_retry s)) n pc' \<le> length xs"
  proof (cases "pc = W_ended")
    case True
    then show ?thesis using p by auto
  next
    case False
    then show ?thesis using work_less [OF p Cons.prems(2)] Cons.prems(4,5) x by fastforce
  qed
  then show ?case using Cons.IH [OF r] Cons.prems(2,4) by simp
qed

section \<open>Properties\<close>

text \<open>C36: however the thread and the users interleave, the table holds for each host the list of its last
  update, each update is a whole non-empty answer of the resolver for this host and nothing that was
  resolved is ever emptied again; a lookup with an index stays inside the list. A step of the thread
  faults exactly on an error other than -1 in an attempt, which is what \<open>getaddrinfo\<close> returns
  for an unknown name.\<close>

theorem dns_table:
  assumes "dns_reach ntop6 asked upd s"
  shows "GetHostAddress host (dn_hosts s) = (case latest host upd of None \<Rightarrow> [] | Some l \<Rightarrow> l) \<and>
    list_all (answered ntop6 asked) upd \<and>
    (GetHostAddress_index host index (dn_hosts s) = None) = (latest host upd = None) \<and>
    list_all (\<lambda>a. a \<in> set (GetHostAddress host (dn_hosts s)))
      (case GetHostAddress_index host index (dn_hosts s) of None \<Rightarrow> [] | Some a \<Rightarrow> [a]) \<and>
    isl (OnWork_step ntop6 order answer s) =
      (case (attempt s answer, answer) of ([_], Ai_error e) \<Rightarrow> e \<noteq> -1 | _ \<Rightarrow> False)"
proof -
  have t: "entry_ok (latest host upd) (dn_hosts s host)" and u: "list_all (answered ntop6 asked) upd"
    using reach_dns_inv [OF assms] by (simp_all add: dns_inv_def table_ok_def list_all_iff)
  have ne: "l \<noteq> []" if some: "latest host upd = Some l" for l
  proof -
    have "(host, l) \<in> set upd" using map_of_SomeD [OF some [unfolded latest_def]] by simp
    then show ?thesis using u by (auto simp: list_all_iff answered_def)
  qed
  have f: "isl (OnWork_step ntop6 order answer s) =
      (case (attempt s answer, answer) of ([_], Ai_error e) \<Rightarrow> e \<noteq> -1 | _ \<Rightarrow> False)"
  proof (cases "dn_work s")
    case None
    then show ?thesis by (simp add: OnWork_step_def attempt_def)
  next
    case (Some pc)
    then show ?thesis
    proof (cases pc)
      case (W_next hs)
      then show ?thesis using Some by (cases hs) (simp_all add: OnWork_step_def attempt_def)
    next
      case (W_try h i hs)
      then show ?thesis using Some by (cases answer) (simp_all add: OnWork_step_def attempt_def GetHostInfo_def)
    qed (simp_all add: OnWork_step_def attempt_def)
  qed
  show ?thesis using t u f ne
    by (auto simp: GetHostAddress_def GetHostAddress_index_def entry_ok_def split: option.splits)
qed

theorem dns_table_witness:
  "\<exists>s. dns_reach (\<lambda>bs. []) [(''a'', Ai_error (-1)), (''a'', Ai_list [Sockaddr_in 0 0x01020304])]
      [(''a'', [node_address (\<lambda>bs. []) (Sockaddr_in 0 0x01020304)])] s \<and>
    GetHostAddress ''a'' (dn_hosts s) = [node_address (\<lambda>bs. []) (Sockaddr_in 0 0x01020304)]"
proof -
  let ?n = "\<lambda>bs. []" and ?b = "Ai_error (-1)" and ?a = "Ai_list [Sockaddr_in 0 0x01020304]"
  let ?l = "[node_address ?n (Sockaddr_in 0 0x01020304)]"
  let ?s = "\<lambda>h w. new_DnsService\<lparr>dn_hosts := h, dn_work := Some w, dn_running := True\<rparr>"
  let ?h = "[''a'' \<mapsto> []]"
  have 1: "dns_reach ?n [] [] (?s ?h W_test)"
    using dns_reach.start [OF dns_reach.add [OF dns_reach.new, of ?n "''a''"]]
    by (simp add: DnsService_Start_def new_DnsService_def AddHost_def)
  have step: "dns_reach ?n (asked @ attempt (?s h w) a) (upd @ update (?s h w)) (?s h' w')"
    if "dns_reach ?n asked upd (?s h w)" "dom h = {''a''}" "work_pc_step ?n [''a''] a w (?s h w) = Inr (w', h')"
    for asked upd h w a h' w'
    using dns_reach.work [OF that(1), of "[''a'']" a "?s h' w'"] that(2,3) by (simp add: OnWork_step_def)
  note s = attempt_def update_def GetHostInfo_def new_DnsService_def UpdateHost_def
  have 2: "dns_reach ?n [] [] (?s ?h W_copy)" using step [OF 1, of ?b W_copy ?h] by (simp add: s)
  have 3: "dns_reach ?n [] [] (?s ?h (W_next [''a'']))" using step [OF 2, of ?b "W_next [''a'']" ?h] by (simp add: s)
  have 4: "dns_reach ?n [] [] (?s ?h (W_try ''a'' 0 []))" using step [OF 3, of ?b "W_try ''a'' 0 []" ?h] by (simp add: s)
  have 5: "dns_reach ?n [(''a'', ?b)] [] (?s ?h (W_try ''a'' 1 []))" using step [OF 4, of ?b "W_try ''a'' 1 []" ?h] by (simp add: s)
  have 6: "dns_reach ?n [(''a'', ?b), (''a'', ?a)] [] (?s ?h (W_update ''a'' ?l []))"
    using step [OF 5, of ?a "W_update ''a'' ?l []" ?h] by (simp add: s)
  have 7: "dns_reach ?n [(''a'', ?b), (''a'', ?a)] [(''a'', ?l)] (?s [''a'' \<mapsto> ?l] (W_next []))"
    using step [OF 6, of ?a "W_next []" "[''a'' \<mapsto> ?l]"] by (simp add: s)
  then show ?thesis using dns_table [OF 7, of "''a''" 0 "[]" ?b] by (auto simp: latest_def)
qed

text \<open>Once \<open>Stop\<close> has cleared the flag, the thread ends after a number of steps that the hosts of the
  copied table and the retries bound, so that the join returns.\<close>

theorem dns_stops:
  assumes "dn_work s = Some pc" and "\<forall>x\<in>set xs. length (fst x) \<le> n" and "work_left (nat (dn_retry s)) n pc \<le> length xs"
  shows "case OnWork_run ntop6 xs (Stop_request s) of
    Inl _ \<Rightarrow> True | Inr s' \<Rightarrow> Stop_join s' = Some (s'\<lparr>dn_work := None\<rparr>)"
proof (cases "OnWork_run ntop6 xs (Stop_request s)")
  case (Inr s')
  have "dn_work s' = Some W_ended" using work_ends [OF Inr, of pc n] assms by (simp add: Stop_request_def)
  then show ?thesis using Inr by (simp add: Stop_join_def)
qed simp

theorem dns_stops_witness:
  "case OnWork_run (\<lambda>bs. []) (replicate 6 ([], Ai_error (-1))) (Stop_request (new_DnsService\<lparr>dn_work := Some W_copy\<rparr>)) of
    Inl _ \<Rightarrow> True | Inr s' \<Rightarrow> Stop_join s' = Some (s'\<lparr>dn_work := None\<rparr>)"
  using dns_stops [of "new_DnsService\<lparr>dn_work := Some W_copy\<rparr>" W_copy "replicate 6 ([], Ai_error (-1))" 0] by simp

end
