(* ===== verification/HttpClient.thy ===== *)
theory HttpClient
  imports HttpContext DnsService
begin

text \<open>
  \<open>src/http/HttpClient.{h,cpp}\<close>: turning a URL into a request and a server address, and the
  callbacks of the client's connection. The table of the DNS service is passed along;
  \<open>ask\<close> stands for \<open>getaddrinfo\<close>. What \<open>CreateTcpClient\<close> does is the new client state and
  whether it connects or reports a bad URL; the callbacks use the context model.
\<close>

section \<open>State\<close>

record http_client =
  hc_addr :: inet_address
  hc_url :: string
  hc_isPost :: bool
  hc_request :: http_request
  hc_outPacket :: "packet option"
  hc_closeCb :: bool

definition new_HttpClient :: http_client where
  "new_HttpClient =
     \<lparr>hc_addr = new_InetAddress, hc_url = [], hc_isPost = False, hc_request = new_HttpRequest True,
      hc_outPacket = None, hc_closeCb = False\<rparr>"

definition HttpClient_SetCloseCallback :: "http_client \<Rightarrow> http_client" where
  "HttpClient_SetCloseCallback hc = hc\<lparr>hc_closeCb := True\<rparr>"

datatype client_call = Connect_to inet_address | Close_null | No_call

section \<open>URLs\<close>

text \<open>The first IPv4 address of a list replaces the address.\<close>

definition use_first_v4 :: "inet_address list \<Rightarrow> inet_address \<Rightarrow> inet_address" where
  "use_first_v4 l a = (case find (\<lambda>x. \<not> in_isIpv6 x) l of Some x \<Rightarrow> SetAddr (in_addr x) a | None \<Rightarrow> a)"

type_synonym resolver = "string \<Rightarrow> ai_answer"

definition lookup_host :: "(nat list \<Rightarrow> string) \<Rightarrow> resolver \<Rightarrow> inet_address \<Rightarrow> hosts \<Rightarrow> (inet_address \<times> hosts) result" where
  "lookup_host ntop6 ask a dns =
     (let l = GetHostAddress (in_addr a) dns
      in if 0 < length l then Inr (use_first_v4 l a, dns)
         else
           bindR (GetHostInfo ntop6 (ask (in_addr a)) []) (\<lambda>l2.
             Inr (if 0 < length l2 then use_first_v4 l2 a else a, AddHost (in_addr a) dns)))"

text \<open>The request and the address \<open>ParseUrl\<close> makes before it asks the DNS service.\<close>

definition url_target :: "string \<Rightarrow> http_request \<Rightarrow> inet_address \<Rightarrow> http_request \<times> inet_address" where
  "url_target url r a =
     (case find_index (\<lambda>c. c = CHR ''/'') (drop 7 url) of
        Some i \<Rightarrow>
          (let pos = 7 + i;
               path = drop pos url;
               r1 = (case find_index (\<lambda>c. c = CHR ''?'') path of
                       Some pos1 \<Rightarrow> SetQuery (drop (pos1 + 1) path) (SetPath (take pos1 path) r)
                     | None \<Rightarrow> SetPath path r);
               domain = substr url 7 (pos - 7);
               r2 = AddHeader ''Host'' domain r1
           in (r2,
               case find_index (\<lambda>c. c = CHR '':'') domain of
                 Some pos2 \<Rightarrow> SetPort (to_uint16 (atoi (drop (pos2 + 1) url))) (SetAddr (take pos2 domain) a)
               | None \<Rightarrow> SetPort 80 (SetAddr domain a)))
      | None \<Rightarrow>
          (AddHeader ''Host'' (drop 7 url) (SetPath ''/'' r), SetPort 80 (SetAddr (drop 7 url) a)))"

definition ParseUrl :: "(nat list \<Rightarrow> string) \<Rightarrow> resolver \<Rightarrow> string \<Rightarrow> http_client \<times> hosts \<Rightarrow>
    (bool \<times> http_client \<times> hosts) result" where
  "ParseUrl ntop6 ask url s =
     (case s of (hc, dns) \<Rightarrow>
        if length url > 7 then
          (case url_target url (hc_request hc) (hc_addr hc) of (r, a) \<Rightarrow>
             bindR (lookup_host ntop6 ask a dns) (\<lambda>(a', dns').
               Inr (True, hc\<lparr>hc_request := r, hc_addr := a'\<rparr>, dns')))
        else Inr (False, hc, dns))"

section \<open>Requests\<close>

definition client_request :: "bool \<Rightarrow> http_request" where
  "client_request isPost =
     AddHeader ''Accept'' ''*/*'' (AddHeader ''User-Agent'' ''curl/7.61.1''
       (SetMethod_enum (if isPost then kPost else kGet) (new_HttpRequest True)))"

definition CreateTcpClient :: "(nat list \<Rightarrow> string) \<Rightarrow> resolver \<Rightarrow> http_client \<times> hosts \<Rightarrow>
    (client_call \<times> http_client \<times> hosts) result" where
  "CreateTcpClient ntop6 ask s =
     (case s of (hc, dns) \<Rightarrow>
        bindR (ParseUrl ntop6 ask (hc_url hc) (hc\<lparr>hc_request := client_request (hc_isPost hc)\<rparr>, dns)) (\<lambda>(ret, hc', dns').
          Inr (if ret then Connect_to (hc_addr hc') else if hc_closeCb hc' then Close_null else No_call, hc', dns')))"

definition Get :: "(nat list \<Rightarrow> string) \<Rightarrow> resolver \<Rightarrow> string \<Rightarrow> http_client \<times> hosts \<Rightarrow> (client_call \<times> http_client \<times> hosts) result" where
  "Get ntop6 ask url s = (case s of (hc, dns) \<Rightarrow> CreateTcpClient ntop6 ask (hc\<lparr>hc_isPost := False, hc_url := url\<rparr>, dns))"

definition Post :: "(nat list \<Rightarrow> string) \<Rightarrow> resolver \<Rightarrow> string \<Rightarrow> packet option \<Rightarrow> http_client \<times> hosts \<Rightarrow>
    (client_call \<times> http_client \<times> hosts) result" where
  "Post ntop6 ask url packet s =
     (case s of (hc, dns) \<Rightarrow>
        CreateTcpClient ntop6 ask (hc\<lparr>hc_isPost := True, hc_url := url, hc_outPacket := packet\<rparr>, dns))"

section \<open>Callbacks of the connection\<close>

text \<open>\<open>OnConnection\<close> makes a context and posts the request through it; \<open>OnMessage\<close> parses, and its
  test of the result of \<open>Parse\<close> for -1 is never true, as \<open>Parse\<close> returns 1.\<close>

definition HttpClient_OnConnection :: "entry_order \<Rightarrow> bool \<Rightarrow> bool list \<Rightarrow> http_client \<Rightarrow> bool \<Rightarrow> bool \<Rightarrow>
    (cx_event list \<times> http_context option) result" where
  "HttpClient_OnConnection ord handler os hc junk connected =
     (if connected then
        (let cx = new_HttpContext handler junk; header = MakeHeaders ord (hc_request hc)
         in bindR (if hc_isPost hc then PostRequest_packet header (hc_outPacket hc) os cx
                   else PostRequest_text header os cx)
              (\<lambda>(ok, evs, cx', os'). Inr (evs, Some cx')))
      else Inr ([], None))"

definition HttpClient_OnMessage :: "msg_buffer \<Rightarrow> http_context option \<Rightarrow>
    (cx_event list \<times> http_context option \<times> msg_buffer) result option" where
  "HttpClient_OnMessage buf cx =
     (case cx of
        None \<Rightarrow> Some (Inr ([], None, buf))
      | Some x \<Rightarrow> map_option (\<lambda>r. bindR r (\<lambda>(evs, x', b). Inr (evs, Some x', b))) (context_parse buf x))"

definition HttpClient_OnWriteComplete :: "bool list \<Rightarrow> http_context option \<Rightarrow> (cx_event list \<times> http_context option) result" where
  "HttpClient_OnWriteComplete os cx =
     (case cx of
        None \<Rightarrow> Inr ([], None)
      | Some x \<Rightarrow> bindR (WriteComplete os x) (\<lambda>(evs, x', os'). Inr (evs, Some x')))"

section \<open>Lemmas\<close>

lemma find_char_none: "c \<notin> set s \<Longrightarrow> find_index (\<lambda>x. x = c) s = None"
  by (auto simp: find_index_None_iff)

lemma find_char_at: "c \<notin> set s \<Longrightarrow> find_index (\<lambda>x. x = c) (s @ c # t) = Some (length s)"
  using find_index_hit [of s "\<lambda>x. x = c" c t] by auto

lemma get_added: "GetHeader (AddHeader k v r) k = v"
  by (simp add: GetHeader_def AddHeader_def update_conv')

lemma get_other: "tolower_str k \<noteq> tolower_str k' \<Longrightarrow> GetHeader (AddHeader k v r) k' = GetHeader r k'"
  by (simp add: GetHeader_def AddHeader_def update_conv')

lemma headers_kept [simp]: "GetHeader (SetPath p r) k = GetHeader r k" "GetHeader (SetQuery q r) k = GetHeader r k"
  "GetHeader (SetMethod_enum e r) k = GetHeader r k" "GetHeader (new_HttpRequest b) k = []"
proof -
  have loop: "rq_headers (parse_parameters_loop ps x) = rq_headers x" for ps x
    by (induction ps arbitrary: x) (auto simp: SetParameter_def split: option.split)
  show "GetHeader (SetQuery q r) k = GetHeader r k" by (simp add: GetHeader_def SetQuery_def ParseParameters_def loop)
qed (simp_all add: GetHeader_def SetPath_def SetMethod_enum_def new_HttpRequest_def)

lemma url_parts:
  assumes "CHR ''/'' \<notin> set host"
  shows "url_target (''http://'' @ host @ ''/'' @ rest) r a =
    (AddHeader ''Host'' host
       (case find_index (\<lambda>c. c = CHR ''?'') (''/'' @ rest) of
          Some p \<Rightarrow> SetQuery (drop (p + 1) (''/'' @ rest)) (SetPath (take p (''/'' @ rest)) r)
        | None \<Rightarrow> SetPath (''/'' @ rest) r),
     case find_index (\<lambda>c. c = CHR '':'') host of
       Some p \<Rightarrow> SetPort (to_uint16 (atoi (drop (p + 1) (''http://'' @ host @ ''/'' @ rest)))) (SetAddr (take p host) a)
     | None \<Rightarrow> SetPort 80 (SetAddr host a))"
proof -
  have f: "find_index (\<lambda>c. c = CHR ''/'') (host @ ''/'' @ rest) = Some (length host)"
    using find_char_at [OF assms, of rest] by simp
  have d7: "drop 7 (''http://'' @ t) = t" for t by simp
  have d: "drop (7 + length host) (''http://'' @ host @ t) = t" for t
  proof -
    have "drop (7 + length host) (''http://'' @ host @ t) = drop (length host) (drop 7 (''http://'' @ host @ t))"
      by (simp only: drop_drop add.commute)
    also have "\<dots> = t" unfolding d7 by simp
    finally show ?thesis .
  qed
  have sub: "substr (''http://'' @ host @ t) 7 (7 + length host - 7) = host" for t unfolding substr_def d7 by simp
  show ?thesis by (simp only: url_target_def d7 d sub f option.case Let_def)
qed

text \<open>A byte at which \<open>atoi\<close> finds no number.\<close>

definition no_number :: "char \<Rightarrow> bool" where
  "no_number c \<longleftrightarrow> \<not> c_isspace c \<and> \<not> c_isdigit c \<and> c \<noteq> CHR ''-'' \<and> c \<noteq> CHR ''+''"

lemma atoi_none: "s = [] \<or> no_number (hd s) \<Longrightarrow> atoi s = 0"
proof (cases s)
  case (Cons c t)
  assume "s = [] \<or> no_number (hd s)"
  then have n: "no_number c" using Cons by simp
  then have "\<not> is_digit_of 10 c" by (auto simp: is_digit_of_def digit_val_def no_number_def)
  then have "read_digits 10 (c # t) = None" by (simp add: read_digits_def)
  moreover have "skip_hex_prefix 10 (c # t) = c # t" by (auto simp: skip_hex_prefix_def split: list.splits)
  ultimately show ?thesis using n Cons
    by (simp add: atoi_def strtol_def read_signed_def no_number_def to_int32_def)
qed (simp add: atoi_def strtol_def read_signed_def to_int32_def)

section \<open>Properties\<close>

text \<open>C39: a URL \<open>http://host/path?query\<close> without a port gives a request for the path with the query's
  parameters and the host in its header, and port 80 at the first IPv4 address the DNS table or,
  failing that, the resolver has for the host, which is added to the table then; a fault of
  \<open>GetHostInfo\<close> is the only one.\<close>

theorem ParseUrl_target:
  assumes "CHR ''/'' \<notin> set host" and "CHR '':'' \<notin> set host" and "CHR ''?'' \<notin> set path"
  shows "ParseUrl ntop6 ask (''http://'' @ host @ ''/'' @ path @ ''?'' @ query) (hc, dns) =
      (let r = AddHeader ''Host'' host (SetQuery query (SetPath (''/'' @ path) (hc_request hc)));
           known = GetHostAddress host dns
       in bindR (if known \<noteq> [] then Inr known else GetHostInfo ntop6 (ask host) []) (\<lambda>l.
            Inr (True,
              hc\<lparr>hc_request := r,
                hc_addr := (hc_addr hc)\<lparr>in_addr := (case find (\<lambda>x. \<not> in_isIpv6 x) l of Some x \<Rightarrow> in_addr x | None \<Rightarrow> host),
                  in_port := ''80''\<rparr>\<rparr>,
              if known \<noteq> [] then dns else AddHost host dns))) \<and>
    GetHeader (AddHeader ''Host'' host (SetQuery query (SetPath (''/'' @ path) (hc_request hc)))) ''host'' = host"
proof -
  have q: "find_index (\<lambda>c. c = CHR ''?'') (''/'' @ path @ ''?'' @ query) = Some (Suc (length path))"
    using find_char_at [OF assms(3), of query] by simp
  have c: "find_index (\<lambda>c. c = CHR '':'') host = None" using assms(2) by (rule find_char_none)
  let ?a = "SetPort 80 (SetAddr host (hc_addr hc))"
  have t: "url_target (''http://'' @ host @ ''/'' @ path @ ''?'' @ query) (hc_request hc) (hc_addr hc) =
      (AddHeader ''Host'' host (SetQuery query (SetPath (''/'' @ path) (hc_request hc))), ?a)"
    using url_parts [OF assms(1), of "path @ ''?'' @ query" "hc_request hc" "hc_addr hc"] unfolding q c by simp
  have p80: "to_string 80 = ''80''" by code_simp
  have use: "use_first_v4 m ?a = (hc_addr hc)\<lparr>in_addr := (case find (\<lambda>x. \<not> in_isIpv6 x) m of Some x \<Rightarrow> in_addr x | None \<Rightarrow> host),
      in_port := ''80''\<rparr>" for m
    using p80 by (simp add: use_first_v4_def SetPort_def SetAddr_def split: option.split)
  have host: "in_addr ?a = host" by (simp add: SetPort_def SetAddr_def)
  have "(if 0 < length l then use_first_v4 l ?a else ?a) = use_first_v4 l ?a" for l
    by (cases l) (simp_all add: use_first_v4_def)
  then have look: "lookup_host ntop6 ask ?a dns =
      bindR (if GetHostAddress host dns \<noteq> [] then Inr (GetHostAddress host dns) else GetHostInfo ntop6 (ask host) []) (\<lambda>l.
        Inr (use_first_v4 l ?a, if GetHostAddress host dns \<noteq> [] then dns else AddHost host dns))"
    unfolding lookup_host_def host Let_def by simp
  have g: "GetHeader (AddHeader ''Host'' host x) ''host'' = host" for x
  proof -
    have "tolower_str ''Host'' = tolower_str ''host''" by code_simp
    then show ?thesis by (simp add: GetHeader_def AddHeader_def update_conv')
  qed
  have "length (''http://'' @ host @ ''/'' @ path @ ''?'' @ query) > 7" by simp
  then show ?thesis unfolding ParseUrl_def prod.case t if_True look use g Let_def by (simp add: bindR_assoc)
qed

theorem ParseUrl_target_witness:
  "\<exists>hc'. ParseUrl (\<lambda>bs. []) (\<lambda>h. Ai_list [Sockaddr_in 0 0x01020304]) (''http://'' @ ''a.b'' @ ''/'' @ ''x'' @ ''?'' @ ''k=v'')
      (new_HttpClient, Map.empty) = Inr (True, hc', [''a.b'' \<mapsto> []]) \<and>
    in_addr (hc_addr hc') = inet_ntop4 0x01020304 \<and> in_port (hc_addr hc') = ''80''"
  using ParseUrl_target [of "''a.b''" "''x''" "\<lambda>bs. []" "\<lambda>h. Ai_list [Sockaddr_in 0 0x01020304]" "''k=v''" new_HttpClient Map.empty]
  by (simp add: GetHostAddress_def GetHostInfo_def node_address_def AddHost_def Let_def SetPort_def SetAddr_def new_InetAddress_def)

text \<open>The port of a URL is not taken: \<open>ParseUrl\<close> reads it at the place where the colon is in the
  host, but in the whole URL, so for a host without digits, blanks and signs the port is 0; and
  without a path the host and the port together become the host name, with port 80.\<close>

theorem ParseUrl_port_lost:
  assumes "CHR ''/'' \<notin> set host" and "CHR '':'' \<notin> set host" and "list_all no_number host"
    and "CHR ''/'' \<notin> set port"
  shows "port_of (snd (url_target (''http://'' @ host @ '':'' @ port @ ''/'' @ path) r a)) = 0 \<and>
    in_addr (snd (url_target (''http://'' @ host @ '':'' @ port @ ''/'' @ path) r a)) = host \<and>
    port_of (snd (url_target (''http://'' @ host @ '':'' @ port) r a)) = 80 \<and>
    in_addr (snd (url_target (''http://'' @ host @ '':'' @ port) r a)) = host @ '':'' @ port"
proof -
  let ?d = "host @ '':'' @ port"
  have nd: "CHR ''/'' \<notin> set ?d" using assms(1,4) by auto
  have c: "find_index (\<lambda>c. c = CHR '':'') ?d = Some (length host)" using find_char_at [OF assms(2), of port] by simp
  have none: "find_index (\<lambda>c. c = CHR ''/'') ?d = None" using nd by (rule find_char_none)
  let ?url = "''http://'' @ ?d @ ''/'' @ path"
  have hd: "no_number (?url ! (length host + 1))"
  proof (cases "length host + 1 < 7")
    case True
    have pre: "list_all no_number ''ttp://''" by code_simp
    then have "no_number (''ttp://'' ! length host)" using True by (simp add: list_all_length)
    moreover have "?url ! (length host + 1) = ''ttp://'' ! length host"
      using True nth_append [of "''ttp://''" "?d @ ''/'' @ path" "length host"] by simp
    ultimately show ?thesis by simp
  next
    case False
    have len: "length ''http://'' = 7" by simp
    have "?url ! (length host + 1) = (host @ '':'' @ port @ ''/'' @ path) ! (length host + 1 - 7)"
      unfolding nth_append [of "''http://''"] len using False by (simp only: if_False append.assoc)
    moreover have i: "length host + 1 - 7 < length host" using False by simp
    ultimately have "?url ! (length host + 1) = host ! (length host + 1 - 7)" by (simp only: nth_append if_True)
    then show ?thesis using assms(3) i by (simp only: list_all_length)
  qed
  have "atoi (drop (length host + 1) ?url) = 0"
    by (rule atoi_none) (use hd in \<open>simp add: hd_drop_conv_nth\<close>)
  moreover have "to_uint16 0 = 0" by (simp add: to_uint16_def)
  moreover have "atoi (to_string 0) = 0" "atoi (to_string 80) = 80" using atoi_to_string [of 0] atoi_to_string [of 80] by simp_all
  moreover have "snd (url_target ?url r a) = SetPort (to_uint16 (atoi (drop (length host + 1) ?url))) (SetAddr host a)"
    using url_parts [OF nd, of path r a] unfolding c by simp
  moreover have "snd (url_target (''http://'' @ ?d) r a) = SetPort 80 (SetAddr ?d a)"
  proof -
    have "drop 7 (''http://'' @ ?d) = ?d" by simp
    then show ?thesis by (simp only: url_target_def none option.case snd_conv)
  qed
  ultimately show ?thesis by (simp add: port_of_def SetPort_def SetAddr_def to_uint16_def)
qed

theorem ParseUrl_port_lost_witness:
  "port_of (snd (url_target (''http://'' @ ''a.b'' @ '':'' @ ''8080'' @ ''/'' @ ''x'') r a)) = 0"
proof -
  have "list_all no_number ''a.b''" by code_simp
  then show ?thesis using ParseUrl_port_lost [of "''a.b''" "''8080''" "''x''" r a] by simp
qed

text \<open>A POST of the client carries no length: its headers have neither Content-Length nor
  Transfer-Encoding, so the parser of this library takes the body for a stream that never ends.\<close>

theorem client_post_streams:
  "case body_kind (AddHeader ''Host'' host (SetPath path (client_request True))) (p\<lparr>hp_isRequest := True\<rparr>) of q \<Rightarrow>
    hp_state q = kExpectStreamBody \<and> hp_isStream q \<and> hp_curContentLength q = -1 \<and> map_option rq_isStream (hp_req q) = Some True"
proof -
  let ?r = "AddHeader ''Host'' host (SetPath path (client_request True))"
  have no: "GetHeader ?r k = []" if "tolower_str ''Host'' \<noteq> tolower_str k" "tolower_str ''Accept'' \<noteq> tolower_str k"
    "tolower_str ''User-Agent'' \<noteq> tolower_str k" for k
    using that by (simp add: get_other client_request_def)
  have k: "tolower_str ''Host'' \<noteq> tolower_str ''content-length''" "tolower_str ''Accept'' \<noteq> tolower_str ''content-length''"
    "tolower_str ''User-Agent'' \<noteq> tolower_str ''content-length''" "tolower_str ''Host'' \<noteq> tolower_str ''transfer-encoding''"
    "tolower_str ''Accept'' \<noteq> tolower_str ''transfer-encoding''" "tolower_str ''User-Agent'' \<noteq> tolower_str ''transfer-encoding''"
    by code_simp+
  have m: "rq_method ?r = kPost" "rq_code ?r = 0"
    by (simp_all add: AddHeader_def SetPath_def client_request_def SetMethod_enum_def new_HttpRequest_def)
  show ?thesis using no [OF k(1-3)] no [OF k(4-6)] m
    by (simp add: body_kind_def SetIsStream_def)
qed

end
