(* ===== verification/Time.thy ===== *)
theory Time
  imports Numbers
begin

text \<open>
  \<open>src/base/Time.{h,cpp}\<close>: the clock and the calendar. What \<open>gettimeofday\<close> and \<open>localtime_r\<close> fill in are
  the arguments; \<open>pad\<close> are the conversions \<open>%4d\<close> and \<open>%02d\<close> of \<open>sprintf\<close>.
\<close>

section \<open>The clock\<close>

record timeval =
  tv_sec :: int
  tv_usec :: int

definition NowMS :: "timeval \<Rightarrow> int" where
  "NowMS tv = tv_sec tv * 1000 + tv_usec tv div 1000"

definition Time_Now :: "timeval \<Rightarrow> int" where
  "Time_Now tv = tv_sec tv"

section \<open>The calendar\<close>

record tm =
  tm_year :: nat
  tm_mon :: nat
  tm_mday :: nat
  tm_hour :: nat
  tm_min :: nat
  tm_sec :: nat

record civil_time =
  ct_year :: nat
  ct_month :: nat
  ct_day :: nat
  ct_hour :: nat
  ct_minute :: nat
  ct_second :: nat

definition Now_civil :: "tm \<Rightarrow> civil_time" where
  "Now_civil t = \<lparr>ct_year = tm_year t + 1900, ct_month = tm_mon t + 1, ct_day = tm_mday t, ct_hour = tm_hour t,
     ct_minute = tm_min t, ct_second = tm_sec t\<rparr>"

definition pad :: "char \<Rightarrow> nat \<Rightarrow> nat \<Rightarrow> string" where
  "pad c w n = replicate (w - length (to_string n)) c @ to_string n"

definition ISOTime :: "tm \<Rightarrow> string" where
  "ISOTime t =
     pad CHR '' '' 4 (tm_year t + 1900) @ ''-'' @ pad CHR ''0'' 2 (tm_mon t + 1) @ ''-'' @ pad CHR ''0'' 2 (tm_mday t) @
     ''T'' @ pad CHR ''0'' 2 (tm_hour t) @ '':'' @ pad CHR ''0'' 2 (tm_min t) @ '':'' @ pad CHR ''0'' 2 (tm_sec t)"

section \<open>Lemmas\<close>

lemma length_digits: "n < 10 ^ w \<Longrightarrow> 0 < w \<Longrightarrow> length (to_string n) \<le> w"
proof (induction w arbitrary: n)
  case (Suc w)
  show ?case
  proof (cases "n < 10")
    case True
    then show ?thesis by (simp add: to_string_def digits_of_small)
  next
    case False
    then have "0 < w" using Suc.prems(1) by (cases w) auto
    moreover have "n div 10 < 10 ^ w" using Suc.prems(1) by (simp add: less_mult_imp_div_less mult.commute)
    ultimately show ?thesis using Suc.IH [of "n div 10"] False by (simp add: to_string_def digits_of_step)
  qed
qed simp

lemma length_pad: "n < 10 ^ w \<Longrightarrow> 0 < w \<Longrightarrow> length (pad c w n) = w"
  using length_digits [of n w] by (simp add: pad_def)

lemma digits_val_to_string: "digits_val 10 (to_string n) = n"
  unfolding to_string_def by (rule digits_val_digits_of) simp_all

lemma to_string_inj: "to_string n = to_string m \<Longrightarrow> n = m"
  by (drule arg_cong [of _ _ "digits_val 10"]) (simp only: digits_val_to_string)

lemma digits_val_zeros: "digits_val 10 (replicate k CHR ''0'' @ s) = digits_val 10 s"
proof -
  have "digit_val (CHR ''0'') = 0" by code_simp
  then show ?thesis by (induction k) (simp_all add: digits_val_def)
qed

lemma pad_zero_inj: "pad CHR ''0'' w n = pad CHR ''0'' w m \<Longrightarrow> n = m"
  by (drule arg_cong [of _ _ "digits_val 10"]) (simp only: pad_def digits_val_zeros digits_val_to_string)

lemma pad_blank_inj: "pad CHR '' '' w n = pad CHR '' '' w m \<Longrightarrow> n = m"
proof -
  have blank: "\<not> is_digit_of 10 (CHR '' '')" by code_simp
  have d: "dropWhile (\<lambda>c. c = CHR '' '') (pad CHR '' '' w k) = to_string k" for k
  proof -
    have "c \<noteq> CHR '' ''" if "c \<in> set (to_string k)" for c
      using all_digits_of [of 10 c k] that blank by (auto simp: to_string_def)
    then have "dropWhile (\<lambda>c. c = CHR '' '') (to_string k) = to_string k" by (cases "to_string k") simp_all
    moreover have "dropWhile (\<lambda>c. c = CHR '' '') (replicate j (CHR '' '') @ xs) = dropWhile (\<lambda>c. c = CHR '' '') xs" for j xs
      by (induction j) simp_all
    ultimately show ?thesis by (simp only: pad_def)
  qed
  assume "pad CHR '' '' w n = pad CHR '' '' w m"
  then show "n = m" using d [of n] d [of m] to_string_inj [of n m] by simp
qed

text \<open>A calendar whose fields have the widths of the conversions.\<close>

definition civil_ok :: "civil_time \<Rightarrow> bool" where
  "civil_ok t \<longleftrightarrow> ct_year t < 10000 \<and> ct_month t < 100 \<and> ct_day t < 100 \<and> ct_hour t < 100 \<and> ct_minute t < 100 \<and> ct_second t < 100"

lemma length_pads: "n < 100 \<Longrightarrow> length (pad c 2 n) = 2" "n < 10000 \<Longrightarrow> length (pad c 4 n) = 4"
  using length_pad [of n 2 c] length_pad [of n 4 c] by simp_all

lemma pads_inj: "pad CHR ''0'' w n = pad CHR ''0'' w m \<longleftrightarrow> n = m" "pad CHR '' '' w n = pad CHR '' '' w m \<longleftrightarrow> n = m"
  by (auto dest: pad_zero_inj pad_blank_inj)

lemma NowMS_mono:
  "tv_sec a < tv_sec b \<or> (tv_sec a = tv_sec b \<and> tv_usec a \<le> tv_usec b) \<Longrightarrow> tv_usec a < 1000000 \<Longrightarrow> 0 \<le> tv_usec b \<Longrightarrow>
     NowMS a \<le> NowMS b"
proof -
  assume o: "tv_sec a < tv_sec b \<or> (tv_sec a = tv_sec b \<and> tv_usec a \<le> tv_usec b)" and r: "tv_usec a < 1000000" "0 \<le> tv_usec b"
  show ?thesis
  proof (cases "tv_sec a = tv_sec b")
    case True
    then show ?thesis using o zdiv_mono1 [of "tv_usec a" "tv_usec b" 1000] by (simp add: NowMS_def)
  next
    case False
    then have "tv_sec a + 1 \<le> tv_sec b" using o by simp
    moreover have "tv_usec a div 1000 < 1000" "0 \<le> tv_usec b div 1000" using r by simp_all
    ultimately show ?thesis by (simp add: NowMS_def)
  qed
qed

text \<open>The time of a log line has nineteen characters, and different times have different texts.\<close>

theorem iso_time:
  assumes "civil_ok (Now_civil t)" and "civil_ok (Now_civil u)"
  shows "length (ISOTime t) = 19 \<and> (ISOTime t = ISOTime u \<longleftrightarrow> Now_civil t = Now_civil u)"
  using assms by (simp add: ISOTime_def Now_civil_def civil_ok_def length_pads pads_inj)

theorem iso_time_witness:
  "length (ISOTime \<lparr>tm_year = 124, tm_mon = 0, tm_mday = 2, tm_hour = 3, tm_min = 4, tm_sec = 5\<rparr>) = 19"
proof -
  let ?t = "\<lparr>tm_year = 124, tm_mon = 0, tm_mday = 2, tm_hour = 3, tm_min = 4, tm_sec = 5\<rparr>"
  have "civil_ok (Now_civil ?t)" by (simp add: civil_ok_def Now_civil_def)
  then show ?thesis using iso_time [of ?t ?t] by simp
qed

end
