(* ===== verification/FileMgr.thy ===== *)
theory FileMgr
  imports StringUtils Time "HOL-Library.AList"
begin

text \<open>
  \<open>src/base/FileLog.{h,cpp}\<close>, \<open>FileMgr.{h,cpp}\<close> and \<open>Logger.{h,cpp}\<close>: log files and their
  rotation. The file system maps paths to files and keeps the contents of each file, so that an
  open descriptor follows its file when the path is renamed. Log objects are shared and named
  by numbers. \<open>open\<close> succeeds unless the predicate \<open>can\<close> refuses the path; \<open>rename\<close> fails when
  the old path is missing or the new one is refused. The clock is an argument.
\<close>

section \<open>Files\<close>

record fsys =
  fs_dir :: "string \<Rightarrow> nat option"
  fs_data :: "nat \<Rightarrow> string"
  fs_next :: nat

definition sys_open :: "(string \<Rightarrow> bool) \<Rightarrow> string \<Rightarrow> fsys \<Rightarrow> nat option \<times> fsys" where
  "sys_open can path fs =
     (if \<not> can path then (None, fs)
      else
        (case fs_dir fs path of
           Some i \<Rightarrow> (Some i, fs)
         | None \<Rightarrow>
             (Some (fs_next fs),
              fs\<lparr>fs_dir := (fs_dir fs)(path \<mapsto> fs_next fs), fs_data := (fs_data fs)(fs_next fs := []),
                 fs_next := fs_next fs + 1\<rparr>)))"

definition sys_rename :: "(string \<Rightarrow> bool) \<Rightarrow> string \<Rightarrow> string \<Rightarrow> fsys \<Rightarrow> fsys option" where
  "sys_rename can old new fs =
     (case fs_dir fs old of
        None \<Rightarrow> None
      | Some i \<Rightarrow> if can new then Some (fs\<lparr>fs_dir := ((fs_dir fs)(old := None))(new \<mapsto> i)\<rparr>) else None)"

definition contents :: "fsys \<Rightarrow> string \<Rightarrow> string option" where
  "contents fs path = map_option (fs_data fs) (fs_dir fs path)"

section \<open>FileLog\<close>

datatype RotateType = kRotateNone | kRotateMinute | kRotateHour | kRotateDay

record file_log =
  fl_fd :: "nat option"       \<comment> \<open>the open file; \<open>None\<close> is -1\<close>
  fl_rotateType :: RotateType
  fl_filePath :: string

definition new_FileLog :: file_log where
  "new_FileLog = \<lparr>fl_fd = None, fl_rotateType = kRotateNone, fl_filePath = []\<rparr>"

definition FileLog_Open :: "(string \<Rightarrow> bool) \<Rightarrow> string \<Rightarrow> file_log \<Rightarrow> fsys \<Rightarrow> bool \<times> file_log \<times> fsys" where
  "FileLog_Open can path lg fs =
     (case sys_open can path fs of
        (None, fs') \<Rightarrow> (False, lg\<lparr>fl_filePath := path\<rparr>, fs')
      | (Some i, fs') \<Rightarrow> (True, lg\<lparr>fl_filePath := path, fl_fd := Some i\<rparr>, fs'))"

text \<open>\<open>WriteLog\<close>: to standard output (the first result) when no file is open.\<close>

definition WriteLog :: "string \<Rightarrow> file_log \<Rightarrow> fsys \<Rightarrow> string \<times> fsys" where
  "WriteLog msg lg fs =
     (case fl_fd lg of
        None \<Rightarrow> (msg, fs)
      | Some i \<Rightarrow> ([], fs\<lparr>fs_data := (fs_data fs)(i := fs_data fs i @ msg)\<rparr>))"

text \<open>\<open>dup2 (fd, fd_)\<close> makes the descriptor of the log refer to the new file; it fails on -1.\<close>

definition Rotate :: "(string \<Rightarrow> bool) \<Rightarrow> string \<Rightarrow> file_log \<Rightarrow> fsys \<Rightarrow> file_log \<times> fsys" where
  "Rotate can file lg fs =
     (if fl_filePath lg = [] then (lg, fs)
      else
        (case sys_rename can (fl_filePath lg) file fs of
           None \<Rightarrow> (lg, fs)
         | Some fs1 \<Rightarrow>
             (case sys_open can (fl_filePath lg) fs1 of
                (None, fs2) \<Rightarrow> (lg, fs2)
              | (Some i, fs2) \<Rightarrow> ((case fl_fd lg of None \<Rightarrow> lg | Some _ \<Rightarrow> lg\<lparr>fl_fd := Some i\<rparr>), fs2))))"

definition SetRotate :: "RotateType \<Rightarrow> file_log \<Rightarrow> file_log" where
  "SetRotate t lg = lg\<lparr>fl_rotateType := t\<rparr>"

text \<open>\<open>lseek64\<close> to the end; -1 on a closed descriptor.\<close>

definition FileSize :: "file_log \<Rightarrow> fsys \<Rightarrow> int" where
  "FileSize lg fs = (case fl_fd lg of None \<Rightarrow> -1 | Some i \<Rightarrow> int (length (fs_data fs i)))"

section \<open>FileMgr\<close>

record file_mgr =
  fm_logs :: "(string \<times> nat) list"
  fm_objs :: "nat \<Rightarrow> file_log"
  fm_next :: nat
  fm_fs :: fsys
  fm_last :: "civil_time option"   \<comment> \<open>\<open>None\<close>: \<open>lastDay_\<close> is -1\<close>

definition day_suffix :: "civil_time \<Rightarrow> string" where
  "day_suffix t = ''_'' @ pad CHR '' '' 4 (ct_year t) @ ''-'' @ pad CHR ''0'' 2 (ct_month t) @ ''-'' @ pad CHR ''0'' 2 (ct_day t)"

definition hour_suffix :: "civil_time \<Rightarrow> string" where
  "hour_suffix t = day_suffix t @ ''T'' @ pad CHR ''0'' 2 (ct_hour t)"

definition minute_suffix :: "civil_time \<Rightarrow> string" where
  "minute_suffix t = hour_suffix t @ pad CHR ''0'' 2 (ct_minute t)"

definition rotated_name :: "string \<Rightarrow> string \<Rightarrow> string" where
  "rotated_name sfx path = FilePath path @ FileName path @ sfx @ ''.'' @ Extension path"

text \<open>\<open>RotateDays\<close>, \<open>RotateHours\<close>, \<open>RotateMinutes\<close> differ in the suffix.\<close>

definition rotate_log :: "(string \<Rightarrow> bool) \<Rightarrow> string \<Rightarrow> nat \<Rightarrow> file_mgr \<Rightarrow> file_mgr" where
  "rotate_log can sfx n fm =
     (let lg = fm_objs fm n
      in if FileSize lg (fm_fs fm) > 0 then
           (case Rotate can (rotated_name sfx (fl_filePath lg)) lg (fm_fs fm) of
              (lg', fs') \<Rightarrow> fm\<lparr>fm_objs := (fm_objs fm)(n := lg'), fm_fs := fs'\<rparr>)
         else fm)"

definition RotateDays :: "(string \<Rightarrow> bool) \<Rightarrow> civil_time \<Rightarrow> nat \<Rightarrow> file_mgr \<Rightarrow> file_mgr" where
  "RotateDays can t = rotate_log can (day_suffix t)"
definition RotateHours :: "(string \<Rightarrow> bool) \<Rightarrow> civil_time \<Rightarrow> nat \<Rightarrow> file_mgr \<Rightarrow> file_mgr" where
  "RotateHours can t = rotate_log can (hour_suffix t)"
definition RotateMinutes :: "(string \<Rightarrow> bool) \<Rightarrow> civil_time \<Rightarrow> nat \<Rightarrow> file_mgr \<Rightarrow> file_mgr" where
  "RotateMinutes can t = rotate_log can (minute_suffix t)"

definition check_log :: "(string \<Rightarrow> bool) \<Rightarrow> civil_time \<Rightarrow> civil_time \<Rightarrow> nat \<Rightarrow> file_mgr \<Rightarrow> file_mgr" where
  "check_log can last_t now n fm =
     (let fm1 = (if ct_minute last_t \<noteq> ct_minute now \<and> fl_rotateType (fm_objs fm n) = kRotateMinute
                 then RotateMinutes can last_t n fm else fm);
          fm2 = (if ct_hour last_t \<noteq> ct_hour now \<and> fl_rotateType (fm_objs fm1 n) = kRotateHour
                 then RotateHours can last_t n fm1 else fm1)
      in if ct_day last_t \<noteq> ct_day now \<and> fl_rotateType (fm_objs fm2 n) = kRotateDay
         then RotateDays can last_t n fm2 else fm2)"

definition OnCheck :: "(string \<Rightarrow> bool) \<Rightarrow> civil_time \<Rightarrow> file_mgr \<Rightarrow> file_mgr" where
  "OnCheck can now fm =
     (let last_t = (case fm_last fm of None \<Rightarrow> now | Some t \<Rightarrow> t)
      in if ct_day last_t = ct_day now \<and> ct_hour last_t = ct_hour now \<and> ct_minute last_t = ct_minute now
         then fm\<lparr>fm_last := Some last_t\<rparr>
         else (fold (\<lambda>(name, n). check_log can last_t now n) (fm_logs fm) fm)\<lparr>fm_last := Some now\<rparr>)"

definition GetFileLog :: "(string \<Rightarrow> bool) \<Rightarrow> string \<Rightarrow> file_mgr \<Rightarrow> nat option \<times> file_mgr" where
  "GetFileLog can filename fm =
     (case map_of (fm_logs fm) filename of
        Some n \<Rightarrow> (Some n, fm)
      | None \<Rightarrow>
          (case FileLog_Open can filename new_FileLog (fm_fs fm) of
             (ok, lg, fs) \<Rightarrow>
               if \<not> ok then (None, fm\<lparr>fm_fs := fs\<rparr>)
               else (Some (fm_next fm),
                     fm\<lparr>fm_logs := AList.update filename (fm_next fm) (fm_logs fm),
                        fm_objs := (fm_objs fm)(fm_next fm := lg), fm_next := fm_next fm + 1, fm_fs := fs\<rparr>)))"

definition RemoveFileLog :: "nat \<Rightarrow> file_mgr \<Rightarrow> file_mgr" where
  "RemoveFileLog n fm = fm\<lparr>fm_logs := AList.delete (fl_filePath (fm_objs fm n)) (fm_logs fm)\<rparr>"

section \<open>Logger\<close>

datatype LogLevel = kTrace | kDebug | kInfo | kWarn | kError

fun level_value :: "LogLevel \<Rightarrow> nat" where
  "level_value kTrace = 0" | "level_value kDebug = 1" | "level_value kInfo = 2"
| "level_value kWarn = 3" | "level_value kError = 4"

text \<open>Levels are compared by their values.\<close>

instantiation LogLevel :: linorder
begin

definition less_eq_LogLevel :: "LogLevel \<Rightarrow> LogLevel \<Rightarrow> bool" where
  "less_eq_LogLevel a b \<longleftrightarrow> level_value a \<le> level_value b"

definition less_LogLevel :: "LogLevel \<Rightarrow> LogLevel \<Rightarrow> bool" where
  "less_LogLevel a b \<longleftrightarrow> level_value a < level_value b"

instance
proof
  fix a b :: LogLevel
  show "a \<le> b \<Longrightarrow> b \<le> a \<Longrightarrow> a = b" by (cases a; cases b) (simp_all add: less_eq_LogLevel_def)
qed (auto simp: less_eq_LogLevel_def less_LogLevel_def)

end

record logger =
  lo_level :: LogLevel
  lo_fileLog :: "nat option"

definition new_Logger :: "nat option \<Rightarrow> logger" where
  "new_Logger lg = \<lparr>lo_level = kDebug, lo_fileLog = lg\<rparr>"

definition Logger_Write :: "string \<Rightarrow> logger \<Rightarrow> file_mgr \<Rightarrow> string \<times> file_mgr" where
  "Logger_Write msg lo fm =
     (case lo_fileLog lo of
        None \<Rightarrow> (msg, fm)
      | Some n \<Rightarrow> (case WriteLog msg (fm_objs fm n) (fm_fs fm) of (out, fs) \<Rightarrow> (out, fm\<lparr>fm_fs := fs\<rparr>)))"

text \<open>
  The macros \<open>LOG_TRACE\<close> ... \<open>LOG_ERROR\<close>: the first three need a global logger whose level is
  not above theirs, warnings and errors are always logged (\<open>LogStream\<close> writes to standard output
  without a logger).
\<close>

definition log_enabled :: "LogLevel \<Rightarrow> logger option \<Rightarrow> bool" where
  "log_enabled l g \<longleftrightarrow>
     (if l = kWarn \<or> l = kError then True
      else (case g of None \<Rightarrow> False | Some lo \<Rightarrow> lo_level lo \<le> l))"

text \<open>A logger of a higher level logs less, but never leaves out warnings, whatever its level.\<close>

lemma log_threshold:
  "lo_level a \<le> lo_level b \<Longrightarrow> log_enabled l (Some b) \<Longrightarrow> log_enabled l (Some a)" "log_enabled kWarn (Some a)"
  by (auto simp: log_enabled_def split: if_splits intro: order_trans)

text \<open>The line \<open>LogStream\<close> writes: time, thread, level, place, function and the message.\<close>

fun log_string :: "LogLevel \<Rightarrow> string" where
  "log_string kTrace = '' TRACE ''" | "log_string kDebug = '' DEBUG ''" | "log_string kInfo = '' INFO ''"
| "log_string kWarn = '' WARN ''" | "log_string kError = '' ERROR ''"

definition log_line :: "tm \<Rightarrow> nat \<Rightarrow> LogLevel \<Rightarrow> string \<Rightarrow> nat \<Rightarrow> string option \<Rightarrow> string \<Rightarrow> string" where
  "log_line t tid l file line func msg =
     ISOTime t @ '' '' @ to_string tid @ log_string l @ ''['' @
     (case rfind_index (\<lambda>c. c = CHR ''/'') file of Some p \<Rightarrow> drop (p + 1) file | None \<Rightarrow> file) @ '':'' @ to_string line @ '']'' @
     (case func of None \<Rightarrow> [] | Some f \<Rightarrow> ''['' @ f @ '']'') @ msg @ [LF]"

section \<open>Rotation\<close>

lemma rotated_file:
  assumes "fl_fd lg = Some i" "fs_dir fs (fl_filePath lg) = Some i" "fl_filePath lg \<noteq> []" "file \<noteq> fl_filePath lg"
    and "can file" "can (fl_filePath lg)" "i < fs_next fs"
  shows "Rotate can file lg fs = (lg\<lparr>fl_fd := Some (fs_next fs)\<rparr>,
     fs\<lparr>fs_dir := (((fs_dir fs)(fl_filePath lg := None))(file \<mapsto> i))(fl_filePath lg \<mapsto> fs_next fs),
        fs_data := (fs_data fs)(fs_next fs := []), fs_next := fs_next fs + 1\<rparr>)"
  using assms by (simp add: Rotate_def sys_rename_def sys_open_def)

text \<open>Rotating an open log moves everything written so far to the new name and starts an empty
  file under the old one; later lines go there, also from those who already hold the log.\<close>

theorem rotation_keeps_lines:
  assumes "fl_fd lg = Some i" and "fs_dir fs (fl_filePath lg) = Some i" and "fl_filePath lg \<noteq> []"
    and "file \<noteq> fl_filePath lg" and "can file" and "can (fl_filePath lg)" and "i < fs_next fs"
  shows "case Rotate can file lg fs of (lg', fs') \<Rightarrow>
    contents fs' file = Some (fs_data fs i) \<and> contents fs' (fl_filePath lg) = Some [] \<and> fl_filePath lg' = fl_filePath lg \<and>
    (case WriteLog msg lg' fs' of (out, fs'') \<Rightarrow>
       out = [] \<and> contents fs'' (fl_filePath lg) = Some msg \<and> contents fs'' file = Some (fs_data fs i))"
  using assms(4,7) rotated_file [OF assms] by (simp add: contents_def WriteLog_def)

definition one_log :: "file_log \<times> fsys" where
  "one_log = (\<lparr>fl_fd = Some 0, fl_rotateType = kRotateDay, fl_filePath = ''log/app.log''\<rparr>,
     \<lparr>fs_dir = [''log/app.log'' \<mapsto> 0], fs_data = (\<lambda>_. ''old lines''), fs_next = 1\<rparr>)"

theorem rotation_keeps_lines_witness:
  "case Rotate (\<lambda>_. True) ''x'' (fst one_log) (snd one_log) of (lg', fs') \<Rightarrow>
    contents fs' ''x'' = Some ''old lines'' \<and> contents fs' ''log/app.log'' = Some []"
proof -
  have h: "fl_fd (fst one_log) = Some 0" "fs_dir (snd one_log) (fl_filePath (fst one_log)) = Some 0" "fl_filePath (fst one_log) \<noteq> []"
    "''x'' \<noteq> fl_filePath (fst one_log)" "(\<lambda>_. True) ''x''" "(\<lambda>_. True) (fl_filePath (fst one_log))" "0 < fs_next (snd one_log)"
    by (simp_all add: one_log_def)
  have v: "fs_data (snd one_log) 0 = ''old lines''" "fl_filePath (fst one_log) = ''log/app.log''" by (simp_all add: one_log_def)
  show ?thesis using rotation_keeps_lines [OF h, of "[]"] unfolding v by (auto split: prod.splits)
qed

text \<open>The rotated file of a log in a directory does not stay there: the name is put together
  without a separator, so the file lands beside the directory, with the directory's name in
  front. Only a log without a directory keeps its place.\<close>

theorem rotation_leaves_directory:
  assumes "base \<noteq> []" and "ext \<noteq> []" and "CHR ''.'' \<notin> set ext"
    and "\<forall>x\<in>set (base @ ext). \<not> is_sep x" and "\<forall>x\<in>set (dir @ sfx). \<not> is_sep x"
  shows "rotated_name sfx (up @ ''/'' @ dir @ ''/'' @ base @ ''.'' @ ext) = up @ ''/'' @ dir @ base @ sfx @ ''.'' @ ext \<and>
    FilePath (up @ ''/'' @ dir @ ''/'' @ base @ ''.'' @ ext) = up @ ''/'' @ dir \<and>
    FilePath (rotated_name sfx (up @ ''/'' @ dir @ ''/'' @ base @ ''.'' @ ext)) = up"
proof -
  have sep: "is_sep (CHR ''/'')" by (simp add: is_sep_def)
  have plain: "\<forall>x\<in>set (base @ CHR ''.'' # ext). \<not> is_sep x" using assms(4) by (auto simp: is_sep_def)
  let ?p = "up @ ''/'' @ dir @ ''/'' @ base @ ''.'' @ ext"
  have p: "?p = (up @ ''/'' @ dir) @ CHR ''/'' # base @ CHR ''.'' # ext" by simp
  have parts: "FileName ?p = base" "Extension ?p = ext" "FilePath ?p = up @ ''/'' @ dir"
    unfolding p
    by (rule FileName_Extension_join(1) [OF sep assms(1,2,4,3)], rule FileName_Extension_join(2) [OF sep assms(1,2,4,3)],
      rule FileNameExt_join(2) [OF sep _ plain], simp)
  have r: "rotated_name sfx ?p = up @ ''/'' @ dir @ base @ sfx @ ''.'' @ ext" unfolding rotated_name_def parts by simp
  have "\<forall>x\<in>set (dir @ base @ sfx @ ''.'' @ ext). \<not> is_sep x" using assms(4,5) by (auto simp: is_sep_def)
  then have "FilePath (up @ CHR ''/'' # (dir @ base @ sfx @ ''.'' @ ext)) = up"
    using FileNameExt_join(2) [OF sep, of "dir @ base @ sfx @ ''.'' @ ext"] by simp
  then show ?thesis using r parts by simp
qed

theorem rotation_leaves_directory_witness:
  "rotated_name ''_2024-01-02'' (''/srv'' @ ''/'' @ ''logs'' @ ''/'' @ ''app'' @ ''.'' @ ''log'') = ''/srv/logsapp_2024-01-02.log''"
proof -
  have "\<forall>x\<in>set (''app'' @ ''log''). \<not> is_sep x" "\<forall>x\<in>set (''logs'' @ ''_2024-01-02''). \<not> is_sep x"
    by (simp_all add: is_sep_def)
  then show ?thesis using rotation_leaves_directory [of "''app''" "''log''" "''logs''" "''_2024-01-02''" "''/srv''"] by simp
qed

text \<open>Files of different days, hours or minutes do not get the same name.\<close>

lemma suffixes_differ:
  assumes "civil_ok s" and "civil_ok t"
  shows "rotated_name (day_suffix s) path = rotated_name (day_suffix t) path \<longleftrightarrow>
      ct_year s = ct_year t \<and> ct_month s = ct_month t \<and> ct_day s = ct_day t"
    and "rotated_name (hour_suffix s) path = rotated_name (hour_suffix t) path \<longleftrightarrow>
      ct_year s = ct_year t \<and> ct_month s = ct_month t \<and> ct_day s = ct_day t \<and> ct_hour s = ct_hour t"
    and "rotated_name (minute_suffix s) path = rotated_name (minute_suffix t) path \<longleftrightarrow>
      ct_year s = ct_year t \<and> ct_month s = ct_month t \<and> ct_day s = ct_day t \<and> ct_hour s = ct_hour t \<and> ct_minute s = ct_minute t"
  using assms by (simp_all add: rotated_name_def day_suffix_def hour_suffix_def minute_suffix_def civil_ok_def length_pads pads_inj)

section \<open>Which logs are rotated\<close>

lemma check_log_type: "fl_rotateType (fm_objs (rotate_log can s n fm) m) = fl_rotateType (fm_objs fm m)"
  by (auto simp: rotate_log_def Rotate_def Let_def split: prod.splits option.splits)

text \<open>A log is rotated with the time of the last check, when its own unit has changed.\<close>

lemma check_log_cases:
  "check_log can l now n fm =
     (case fl_rotateType (fm_objs fm n) of
        kRotateMinute \<Rightarrow> if ct_minute l \<noteq> ct_minute now then RotateMinutes can l n fm else fm
      | kRotateHour \<Rightarrow> if ct_hour l \<noteq> ct_hour now then RotateHours can l n fm else fm
      | kRotateDay \<Rightarrow> if ct_day l \<noteq> ct_day now then RotateDays can l n fm else fm
      | kRotateNone \<Rightarrow> fm)"
  by (cases "fl_rotateType (fm_objs fm n)")
    (simp_all add: check_log_def Let_def RotateMinutes_def RotateHours_def RotateDays_def check_log_type)

end
