(* ===== verification/HttpServer.thy ===== *)
theory HttpServer
  imports HttpContext TcpServer
begin

text \<open>
  \<open>src/http/HttpServer.{h,cpp}\<close> and the sample service \<open>src/http/sample/HttpService.cpp\<close>: the HTTP
  context is attached to each TCP connection, received bytes go through its parser, requests go
  to the handler, and the handler's answer goes back through the context to the connection. The
  loop's thread runs everything, so \<open>ForceClose\<close> and \<open>Send\<close> act at once. Handler calls inside
  \<open>HttpContext::Parse\<close> are run after the loop has returned: posting does not touch the parser.
\<close>

section \<open>What a connection of the server carries\<close>

text \<open>
  \<open>hu_memory\<close> is the memory \<open>Send\<close> points into: the text of \<open>header_\<close> of the context is stored at
  \<open>hu_address\<close>. \<open>hu_writes\<close> are the results of the coming calls of \<open>write\<close>.
\<close>

record http_user =
  hu_context :: "http_context option"
  hu_memory :: memory
  hu_address :: nat
  hu_writes :: "(int + nat) list"

type_synonym http_result = "http_user read_result"
type_synonym request_handler = "http_request option \<Rightarrow> packet option \<Rightarrow> http_user \<Rightarrow> tcp_conn \<Rightarrow> http_result"

definition store_text :: "nat \<Rightarrow> string \<Rightarrow> memory \<Rightarrow> memory" where
  "store_text a s mem x = (if a \<le> x \<and> x < a + length s then s ! (x - a) else mem x)"

definition new_HttpServer :: "inet_address \<Rightarrow> 'u \<Rightarrow> 'u tcp_server" where
  "new_HttpServer addr u = new_TcpServer False addr u"

text \<open>\<open>Start\<close> sets the callbacks (of which the model keeps whether writes are reported; the others are
  parameters of \<open>server_call\<close>) and starts the acceptor.\<close>

definition HttpServer_Start :: "int \<Rightarrow> 'u tcp_server \<Rightarrow> 'u tcp_server result" where
  "HttpServer_Start fd sv = TcpServer_Start fd (sv\<lparr>sv_writeCompleteCb := True\<rparr>)"

definition HttpServer_Stop :: "'u tcp_server \<Rightarrow> 'u tcp_server result" where
  "HttpServer_Stop sv = TcpServer_Stop sv"

definition HttpServer_OnNewConnection :: "bool \<Rightarrow> bool \<Rightarrow> http_user \<Rightarrow> http_user" where
  "HttpServer_OnNewConnection handler junk hu = hu\<lparr>hu_context := Some (new_HttpContext handler junk)\<rparr>"

definition HttpServer_OnDestroyed :: "http_user \<Rightarrow> http_user" where
  "HttpServer_OnDestroyed hu = hu\<lparr>hu_context := None\<rparr>"

section \<open>Answers\<close>

text \<open>\<open>connection_->Send (header_.c_str (), header_.size ())\<close>\<close>

definition send_header :: "string \<Rightarrow> http_user \<Rightarrow> tcp_conn \<Rightarrow> tc_event list \<times> http_user \<times> tcp_conn" where
  "send_header text hu c =
     (let mem = store_text (hu_address hu) text (hu_memory hu);
          w = (case hu_writes hu of [] \<Rightarrow> Inr 0 | x # xs \<Rightarrow> x);
          (evs, c') = SendInLoop mem (hu_address hu) (length text) w c
      in (evs, hu\<lparr>hu_memory := mem, hu_writes := tl (hu_writes hu)\<rparr>, c'))"

text \<open>
  \<open>HttpContext::PostRequest\<close> on the connection: whether \<open>WriteComplete\<close> is called before \<open>Send\<close>
  returns is what the connection does with the text; a refused post sends nothing.
\<close>

definition post_response :: "entry_order \<Rightarrow> http_request \<Rightarrow> http_context \<Rightarrow> http_user \<Rightarrow> tcp_conn \<Rightarrow> http_result" where
  "post_response ord res cx hu c =
     (case send_header (AppendToBuffer ord res) hu c of
        (evs, hu', c') \<Rightarrow>
          (case PostRequest ord res [Write_complete_cb \<in> set evs] cx of
             Inl e \<Rightarrow> Some (Inl e)
           | Inr (ok, cevs, cx', os) \<Rightarrow>
               if cevs = [] then Some (Inr ([], hu\<lparr>hu_context := Some cx'\<rparr>, c))
               else Some (Inr (evs, hu'\<lparr>hu_context := Some cx'\<rparr>, c'))))"

definition ok_response :: http_request where
  "ok_response = AddHeader ''content-length'' ''0'' (AddHeader ''server'' ''nest'' (SetStatusCode 200 (new_HttpRequest False)))"

definition HttpService_OnRequest :: "entry_order \<Rightarrow> request_handler" where
  "HttpService_OnRequest ord req pk hu c =
     (case req of
        None \<Rightarrow> Some (Inl Null_deref)
      | Some r \<Rightarrow>
          if rq_isRequest r then
            (case hu_context hu of
               None \<Rightarrow> Some (Inr ([], hu, c))
             | Some cx \<Rightarrow> post_response ord (SetIsStream False ok_response) cx hu c)
          else Some (Inr ([], hu, c)))"

section \<open>Received bytes\<close>

fun run_events :: "request_handler \<Rightarrow> cx_event list \<Rightarrow> http_user \<Rightarrow> tcp_conn \<Rightarrow> http_result" where
  "run_events h [] hu c = Some (Inr ([], hu, c))"
| "run_events h (OnRequest r pk # es) hu c = then_read (h r pk hu c) (run_events h es)"
| "run_events h (ForceClose # es) hu c =
     (case OnClose c of (evs, c') \<Rightarrow>
        then_read (Some (Inr (evs, if tc_isClosed c then hu else HttpServer_OnDestroyed hu, c'))) (run_events h es))"
| "run_events h (_ # es) hu c = run_events h es hu c"

text \<open>\<open>HttpContext::Parse\<close> returns 1 only, so the \<open>ForceClose\<close> for -1 is never reached.\<close>

definition HttpServer_OnMessage :: "request_handler \<Rightarrow> http_user \<times> tcp_conn \<Rightarrow> http_result" where
  "HttpServer_OnMessage h = (\<lambda>(hu, c).
     (case hu_context hu of
        None \<Rightarrow> Some (Inr ([], hu, c))
      | Some cx \<Rightarrow>
          (case context_parse (tc_msgBuffer c) cx of
             None \<Rightarrow> None
           | Some (Inl e) \<Rightarrow> Some (Inl e)
           | Some (Inr (es, cx', buf)) \<Rightarrow>
               run_events h es (hu\<lparr>hu_context := Some cx'\<rparr>) (c\<lparr>tc_msgBuffer := buf\<rparr>))))"

definition HttpServer_OnWriteComplete :: "http_user \<Rightarrow> (cx_event list \<times> http_user) result" where
  "HttpServer_OnWriteComplete hu =
     (case hu_context hu of
        None \<Rightarrow> Inr ([], hu)
      | Some cx \<Rightarrow> bindR (WriteComplete [] cx) (\<lambda>(es, cx', os). Inr (es, hu\<lparr>hu_context := Some cx'\<rparr>)))"

section \<open>The contract of a handler\<close>

text \<open>
  A handler acts on its connection through the operations of \<open>TcpConnection\<close>: on a live
  connection a close is reported once and last, and a closed one is left alone.
\<close>

locale http_handler =
  fixes h :: request_handler
  assumes handles: "h r pk hu c = Some (Inr (evs, hu', c')) \<Longrightarrow> live c \<Longrightarrow> close_spec c evs c'"
    and closed_quiet: "h r pk hu c = Some (Inr (evs, hu', c')) \<Longrightarrow> tc_isClosed c \<Longrightarrow> evs = [] \<and> c' = c"
begin

lemma then_readD:
  assumes "then_read r g = Some (Inr (evs, u, c'))"
  obtains es1 u1 c1 es2 where "r = Some (Inr (es1, u1, c1))" "g u1 c1 = Some (Inr (es2, u, c'))" "evs = es1 @ es2"
  using assms by (auto simp: then_read_def bindR_eq_Inr_iff split: option.splits sum.splits)

lemma events_closed:
  "run_events h es hu c = Some (Inr (evs, hu', c')) \<Longrightarrow> tc_isClosed c \<Longrightarrow> evs = [] \<and> c' = c"
proof (induction es arbitrary: hu evs)
  case (Cons e es)
  then show ?case by (cases e) (auto elim!: then_readD simp: OnClose_def dest: closed_quiet)
qed simp

lemma events_spec:
  "run_events h es hu c = Some (Inr (evs, hu', c')) \<Longrightarrow> live c \<Longrightarrow> close_spec c evs c'"
proof (induction es arbitrary: hu c evs)
  case Nil
  then show ?case by (simp add: close_spec_refl live_def)
next
  case (Cons e es)
  have step: "close_spec c evs c'" if r: "evs = es1 @ es2" "close_spec c es1 c1" "run_events h es u1 c1 = Some (Inr (es2, hu', c'))"
    for es1 es2 u1 c1
  proof (cases "tc_isClosed c1")
    case True
    then show ?thesis using events_closed [OF r(3)] r by simp
  next
    case False
    then show ?thesis using close_spec_trans [OF r(2) False] Cons.IH [OF r(3)] close_spec_live [OF r(2) False] Cons.prems(2) r(1)
      by simp
  qed
  show ?case
  proof (cases e)
    case (OnRequest r pk)
    then have "then_read (h r pk hu c) (run_events h es) = Some (Inr (evs, hu', c'))" using Cons.prems(1) by simp
    then show ?thesis by (rule then_readD) (rule step [OF _ handles [OF _ Cons.prems(2)]])
  next
    case ForceClose
    obtain es1 c1 where o: "OnClose c = (es1, c1)" by (cases "OnClose c")
    then have spec: "close_spec c es1 c1" using OnClose_close_spec [OF Cons.prems(2)] by simp
    have "then_read (Some (Inr (es1, if tc_isClosed c then hu else HttpServer_OnDestroyed hu, c1))) (run_events h es)
        = Some (Inr (evs, hu', c'))" using Cons.prems(1) ForceClose o by simp
    then show ?thesis by (rule then_readD) (use spec step in auto)
  qed (use Cons in simp_all)
qed

end

sublocale http_handler \<subseteq> onmsg: message_handler "Some (HttpServer_OnMessage h)"
proof
  fix u c evs u' c'
  assume r: "call_message (Some (HttpServer_OnMessage h)) u c = Some (Inr (evs, u', c'))" and l: "live c"
  show "close_spec c evs c'"
  proof (cases "hu_context u")
    case None
    then show ?thesis using r l by (auto simp: call_message_def HttpServer_OnMessage_def close_spec_refl live_def)
  next
    case (Some cx)
    then obtain es cx' buf where "run_events h es (u\<lparr>hu_context := Some cx'\<rparr>) (c\<lparr>tc_msgBuffer := buf\<rparr>) = Some (Inr (evs, u', c'))"
      using r by (auto simp: call_message_def HttpServer_OnMessage_def split: option.splits sum.splits)
    then have "close_spec (c\<lparr>tc_msgBuffer := buf\<rparr>) evs c'" by (rule events_spec) (use l in \<open>simp add: live_def\<close>)
    then show ?thesis by (rule close_spec_same_chan [of "c\<lparr>tc_msgBuffer := buf\<rparr>"]) simp_all
  qed
qed

section \<open>The sample service is such a handler\<close>

lemma send_header_fst: "fst (send_header text hu c) =
  fst (SendInLoop (store_text (hu_address hu) text (hu_memory hu)) (hu_address hu) (length text)
    (case hu_writes hu of [] \<Rightarrow> Inr 0 | x # xs \<Rightarrow> x) c)"
  and send_header_snd: "snd (snd (send_header text hu c)) =
  snd (SendInLoop (store_text (hu_address hu) text (hu_memory hu)) (hu_address hu) (length text)
    (case hu_writes hu of [] \<Rightarrow> Inr 0 | x # xs \<Rightarrow> x) c)"
  by (simp_all add: send_header_def Let_def split: prod.split)

lemma post_response_acts:
  assumes "post_response ord res cx hu c = Some (Inr (evs, hu', c'))"
  obtains "evs = []" "c' = c"
  | "evs = fst (send_header (AppendToBuffer ord res) hu c)" "c' = snd (snd (send_header (AppendToBuffer ord res) hu c))"
  using assms by (auto simp: post_response_def split: prod.splits sum.splits if_splits)

interpretation service: http_handler "HttpService_OnRequest ord"
proof
  fix r pk hu c evs hu' c'
  assume h: "HttpService_OnRequest ord r pk hu c = Some (Inr (evs, hu', c'))"
  then have cases: "evs = [] \<and> c' = c \<or> (\<exists>cx res. post_response ord res cx hu c = Some (Inr (evs, hu', c')))"
    by (auto simp: HttpService_OnRequest_def split: option.splits if_splits)
  show "close_spec c evs c'" if l: "live c"
    using cases close_spec_refl [of c] l SendInLoop_close_spec [OF l]
    by (auto elim!: post_response_acts simp: send_header_fst send_header_snd live_def)
  show "evs = [] \<and> c' = c" if "tc_isClosed c"
    using cases that by (auto elim!: post_response_acts simp: send_header_fst send_header_snd SendInLoop_def)
qed

lemma http_server_invariant:
  "server_reach (Some (HttpServer_OnMessage (HttpService_OnRequest ord))) b sv \<Longrightarrow> sv_inv sv \<and> listening_on sv = b"
  by (rule service.onmsg.reach_inv)

section \<open>One request\<close>

lemma mem_bytes_store: "a + length s \<le> two64 \<Longrightarrow> mem_bytes (store_text a s mem) a (length s) = s"
  by (rule nth_equalityI) (auto simp: mem_bytes_def store_text_def padd_def)

text \<open>A printed request without a body that announces none.\<close>

lemma plain_request_parsed:
  assumes p: "hp_state p = kExpectHeaders" and buf: "small_buf buf" "bytes buf = MakeHeaders ord r @ rest"
    and r: "rq_inv r" "rq_isRequest r" "\<forall>kv\<in>set (rq_headers r). plain_field kv"
      "\<forall>kv\<in>set (rq_parameters r). plain_param kv" "CHR ''?'' \<notin> set (rq_path r)" "rq_method r \<in> {kGet, kHead, kOptions}"
    and ord: "lawful_order ord"
    and none: "map_of (rq_headers r) ''content-length'' = None" "map_of (rq_headers r) ''transfer-encoding'' = None"
  obtains p' buf' r' where "Parse buf p = Inr (kExpectHttpComplete, p', buf')" "small_buf buf'" "bytes buf' = rest"
    "hp_state p' = kExpectHttpComplete" "hp_req p' = Some r'" "rq_isRequest r'" "hp_chunk p' = hp_chunk p"
proof -
  have m: "rq_method r \<noteq> kPatch" using r(6) by auto
  obtain r1 h p1 b1 r' where p1: "p1 = body_kind r1 (p\<lparr>hp_header := h, hp_isRequest := True, hp_req := Some r1\<rparr>)"
    "received_headers r r1" "Parse buf p = Inr (hp_state p1, p1, b1)" "small_buf b1" "bytes b1 = rest"
    "hp_req p1 = Some r'" "rq_method r' = rq_method r" "rq_isRequest r'"
    using request_roundtrip [OF p buf r(1-5) m ord] by metis
  have no: "GetHeader r1 ''content-length'' = []" "GetHeader r1 ''transfer-encoding'' = []"
    using p1(2) none lower_names by (simp_all add: received_headers_def)
  have "rq_method r1 = rq_method r"
    using p1(1,6,7) body_kind_req [of r1 "p\<lparr>hp_header := h, hp_isRequest := True\<rparr>"] by auto
  then have "p1 = p\<lparr>hp_header := h, hp_isRequest := True, hp_req := Some r1, hp_curChunkLength := 0, hp_state := kExpectHttpComplete\<rparr>"
    using r(6) no by (auto simp: p1(1) body_kind_def Let_def)
  then have "hp_state p1 = kExpectHttpComplete" "hp_chunk p1 = hp_chunk p" by simp_all
  with p1 that show thesis by metis
qed


text \<open>A direct send of \<open>n\<close> bytes of which the kernel takes \<open>k\<close>.\<close>

lemma direct_send:
  assumes "\<not> tc_isClosed c" and "tc_iovecList c = []" and "n < two64" and "SendInLoop mem a n (Inr k) c = (evs, c')"
  shows "\<not> tc_isClosed c'" "tc_msgBuffer c' = tc_msgBuffer c" "ch_fd (tc_chan c') = ch_fd (tc_chan c)"
    "wrote evs @ pending mem c' = mem_bytes mem a n" "(pending mem c' = []) = (n \<le> k)"
proof -
  have "tc_inv c" using assms(2) by (simp add: tc_inv_def)
  from SendInLoop_spec [OF this assms(3), of "Inr k" mem a] assms(1,2,4)
  show "wrote evs @ pending mem c' = mem_bytes mem a n" by (simp add: op_spec_def pending_def)
  show "\<not> tc_isClosed c'" "tc_msgBuffer c' = tc_msgBuffer c" "ch_fd (tc_chan c') = ch_fd (tc_chan c)"
    "(pending mem c' = []) = (n \<le> k)"
    using assms by (auto simp: SendInLoop_def write_ret_def Let_def push_vec_def EnableWriting_def with_writing_def
        pending_def vec_bytes_def mem_bytes_def split: if_splits prod.splits)
qed

definition answer_text :: "entry_order \<Rightarrow> string" where
  "answer_text ord = ''HTTP/1.1 200 OK'' @ [CR, LF]
     @ header_lines (ord [(''server'', ''nest''), (''content-length'', ''0'')]) @ [CR, LF]"

lemma answer_printed: "AppendToBuffer ord (SetIsStream False ok_response) = answer_text ord"
proof -
  have low: "tolower_str ''server'' = ''server''" "tolower_str ''content-length'' = ''content-length''"
    "to_string 200 = ''200''" "ParseStatusMessage (to_int32 200) = ''OK''" "to_uint32 200 = 200"
    by code_simp+
  show ?thesis
    by (simp add: AppendToBuffer_def MakeHeaders_def AppendResponseFirstLine_def version_text_def answer_text_def
        ok_response_def AddHeader_def SetIsStream_def SetStatusCode_def new_HttpRequest_def low)
qed

lemma post_plain:
  assumes "cx_postState cx = kHttpContextPostInit" and "cx_handler cx"
  shows "\<exists>ok cevs cx' os. PostRequest ord (SetIsStream False ok_response) [sync] cx = Inr (ok, cevs, cx', os) \<and> cevs \<noteq> []
    \<and> cx_parser cx' = cx_parser cx \<and> cx_postState cx' = (if sync then kHttpContextPostInit else kHttpContextPostHttp)"
  using assms by (cases sync)
    (auto simp: PostRequest_def PostRequest_text_def posted_def Send.simps WriteComplete.simps notify_def
      SetIsStream_def ok_response_def AddHeader_def SetStatusCode_def new_HttpRequest_def)

lemma service_answers:
  assumes c: "\<not> tc_isClosed c" "tc_iovecList c = []"
    and hu: "hu_context hu = Some cx" "cx_postState cx = kHttpContextPostInit" "cx_handler cx" "hu_writes hu = Inr k # ws"
    and a: "hu_address hu + length (answer_text ord) \<le> two64" "0 < hu_address hu" and r: "rq_isRequest r"
  shows "\<exists>evs hu' c' cx'. HttpService_OnRequest ord (Some r) pk hu c = Some (Inr (evs, hu', c')) \<and>
    \<not> tc_isClosed c' \<and> tc_msgBuffer c' = tc_msgBuffer c \<and> ch_fd (tc_chan c') = ch_fd (tc_chan c) \<and>
    wrote evs @ pending (hu_memory hu') c' = answer_text ord \<and>
    (pending (hu_memory hu') c' = []) = (length (answer_text ord) \<le> k) \<and>
    hu_context hu' = Some cx' \<and> cx_parser cx' = cx_parser cx"
proof -
  let ?t = "answer_text ord" and ?a = "hu_address hu"
  let ?mem = "store_text ?a ?t (hu_memory hu)"
  obtain evs c' where s: "SendInLoop ?mem ?a (length ?t) (Inr k) c = (evs, c')" by fastforce
  have n: "length ?t < two64" using a by linarith
  note d = direct_send [OF c n s]
  have sh: "send_header ?t hu c = (evs, hu\<lparr>hu_memory := ?mem, hu_writes := ws\<rparr>, c')"
    using s by (simp add: send_header_def hu(4))
  obtain ok cevs cx' os where p: "PostRequest ord (SetIsStream False ok_response) [Write_complete_cb \<in> set evs] cx = Inr (ok, cevs, cx', os)"
    "cevs \<noteq> []" "cx_parser cx' = cx_parser cx" using post_plain [OF hu(2,3)] by blast
  have "HttpService_OnRequest ord (Some r) pk hu c
      = Some (Inr (evs, (hu\<lparr>hu_memory := ?mem, hu_writes := ws\<rparr>)\<lparr>hu_context := Some cx'\<rparr>, c'))"
    by (simp add: HttpService_OnRequest_def r hu(1) post_response_def answer_printed sh p(1,2))
  then show ?thesis using d p(3) mem_bytes_store [OF a(1)] by fastforce
qed


text \<open>A piece of data that is read, with what the message callback then does.\<close>

lemma read_piece:
  assumes "0 \<le> ch_fd (tc_chan c)" and "mb_inv (tc_msgBuffer c)" and "d \<noteq> []" and "length d \<le> 8192"
  obtains b where "mb_inv b" "bytes b = bytes (tc_msgBuffer c) @ d"
    "read_loop cb (Inr d # rds) u c = then_read (call_message cb u (c\<lparr>tc_msgBuffer := b\<rparr>)) (read_loop cb rds)"
proof -
  have "length d \<le> readv_room (tc_msgBuffer c)" using assms(4) by (auto simp: readv_room_def)
  then obtain b where b: "ReadFd (Inr d) (tc_msgBuffer c) = Inr (int (length d), None, b)" "mb_inv b"
    "bytes b = bytes (tc_msgBuffer c) @ d" using ReadFd_ok [OF assms(2)] by blast
  have "read_loop cb (Inr d # rds) u c = then_read (call_message cb u (c\<lparr>tc_msgBuffer := b\<rparr>)) (read_loop cb rds)"
    using assms(1,3) b(1) by simp
  with b that show thesis by blast
qed

lemma read_again: "0 \<le> ch_fd (tc_chan c) \<Longrightarrow> read_loop cb [Inl EAGAIN] u c = Some (Inr ([], u, c\<lparr>tc_msgBuffer := tc_msgBuffer c\<rparr>))"
  by (simp add: ReadFd_def read_failed_def transient_def)

text \<open>After a complete message two more bytes make the receive loop run for ever.\<close>

lemma complete_hangs:
  assumes "\<not> tc_isClosed c" and "0 \<le> ch_fd (tc_chan c)" and "mb_inv (tc_msgBuffer c)"
    and "hu_context hu = Some cx" and "hp_state (cx_parser cx) = kExpectHttpComplete" and "1 < length d" and "length d \<le> 8192"
  shows "OnRead (Some (HttpServer_OnMessage h)) (Inr d # rds) hu c = None"
proof -
  let ?cb = "Some (HttpServer_OnMessage h)"
  have d: "d \<noteq> []" using assms(6) by auto
  obtain b where b: "mb_inv b" "bytes b = bytes (tc_msgBuffer c) @ d"
    "read_loop ?cb (Inr d # rds) hu c = then_read (call_message ?cb hu (c\<lparr>tc_msgBuffer := b\<rparr>)) (read_loop ?cb rds)"
    using read_piece [OF assms(2,3) d assms(7), where cb = ?cb] by blast
  have "stalls b (cx_parser cx)" using assms(5) by (simp add: stalls_def)
  then have "context_parse b cx = None" using b(1,2) assms(6) by (intro context_parse_stuck stalls_no_progress) simp_all
  then have "call_message ?cb hu (c\<lparr>tc_msgBuffer := b\<rparr>) = None"
    by (simp add: call_message_def HttpServer_OnMessage_def assms(4))
  then show ?thesis using b(3) assms(1) by (simp add: OnRead_def then_read_def)
qed

text \<open>C2: the server answers the first request of a connection and hangs on the second. A printed
  GET request that arrives in one piece is parsed, handed to the sample service and answered with
  its 200 response: what is written at once and what stays queued make up exactly the answer, the
  rest being queued when the kernel takes only \<open>k\<close> bytes. From then on any further piece of two
  bytes or more on this connection makes the event loop of the server run for ever.\<close>

theorem one_answer_per_connection:
  assumes c: "\<not> tc_isClosed c" "0 \<le> ch_fd (tc_chan c)" "tc_iovecList c = []" "mb_inv (tc_msgBuffer c)" "bytes (tc_msgBuffer c) = []"
    and hu: "hu_context hu = Some cx" "cx_postState cx = kHttpContextPostInit" "cx_handler cx" "hp_state (cx_parser cx) = kExpectHeaders"
      "hu_writes hu = Inr k # ws" "0 < hu_address hu" "hu_address hu + length (answer_text ord') \<le> two64"
    and r: "rq_inv r" "rq_isRequest r" "list_all plain_field (rq_headers r)" "list_all plain_param (rq_parameters r)"
      "CHR ''?'' \<notin> set (rq_path r)" "rq_method r \<in> {kGet, kHead, kOptions}" "length (MakeHeaders ord r) \<le> 8192"
    and none: "map_of (rq_headers r) ''content-length'' = None" "map_of (rq_headers r) ''transfer-encoding'' = None"
    and ord: "lawful_order ord"
  shows "\<exists>evs hu' c'.
    OnRead (Some (HttpServer_OnMessage (HttpService_OnRequest ord'))) [Inr (MakeHeaders ord r), Inl EAGAIN] hu c = Some (Inr (evs, hu', c')) \<and>
    \<not> tc_isClosed c' \<and> wrote evs @ pending (hu_memory hu') c' = answer_text ord' \<and>
    (pending (hu_memory hu') c' = []) = (length (answer_text ord') \<le> k) \<and>
    (\<forall>d rds. 1 < length d \<and> length d \<le> 8192 \<longrightarrow>
       OnRead (Some (HttpServer_OnMessage (HttpService_OnRequest ord'))) (Inr d # rds) hu' c' = None)"
proof -
  let ?h = "HttpService_OnRequest ord'" and ?m = "MakeHeaders ord r"
  let ?cb = "Some (HttpServer_OnMessage ?h)"
  have ne: "?m \<noteq> []" by (simp add: MakeHeaders_def)
  obtain b where b: "mb_inv b" "bytes b = ?m"
    "read_loop ?cb [Inr ?m, Inl EAGAIN] hu c = then_read (call_message ?cb hu (c\<lparr>tc_msgBuffer := b\<rparr>)) (read_loop ?cb [Inl EAGAIN])"
    using read_piece [OF c(2,4) ne r(7), where cb = ?cb] c(5) by (metis append_Nil)
  have small: "small_buf b" using b(1,2) r(7) by (simp add: small_buf_iff)
  obtain p' b1 r' where p: "Parse b (cx_parser cx) = Inr (kExpectHttpComplete, p', b1)" "small_buf b1" "bytes b1 = []"
    "hp_state p' = kExpectHttpComplete" "hp_req p' = Some r'" "rq_isRequest r'"
    by (rule plain_request_parsed [OF hu(4) small _ r(1,2) _ _ r(5,6) ord none, of "[]"])
      (use b(2) r(3,4) in \<open>simp_all add: list_all_iff\<close>)
  have inv1: "mb_inv b1" using p(2) by (simp add: small_buf_def)
  have two: "1 < ReadableBytes b" using b(1,2) MakeHeaders_request [OF r(2), of ord] by (simp add: length_bytes [symmetric])
  let ?cx1 = "cx\<lparr>cx_parser := p'\<rparr>"
  have "ReadableBytes b1 \<le> 1" using p(3) inv1 by (simp add: length_bytes [symmetric])
  from context_parse_step [OF two p(1) context_parse_done [OF this]]
  have parsed: "context_parse b cx = Some (Inr ([OnRequest (Some r') (hp_chunk p')], ?cx1, b1))"
    using hu(3) p(5) by (simp add: parse_events_def)
  let ?c1 = "c\<lparr>tc_msgBuffer := b1\<rparr>" and ?hu1 = "hu\<lparr>hu_context := Some ?cx1\<rparr>"
  obtain evs hu' c' cx' where s: "?h (Some r') (hp_chunk p') ?hu1 ?c1 = Some (Inr (evs, hu', c'))"
    "\<not> tc_isClosed c'" "tc_msgBuffer c' = b1" "ch_fd (tc_chan c') = ch_fd (tc_chan c)"
    "wrote evs @ pending (hu_memory hu') c' = answer_text ord'"
    "(pending (hu_memory hu') c' = []) = (length (answer_text ord') \<le> k)"
    "hu_context hu' = Some cx'" "cx_parser cx' = p'"
    using service_answers [of ?c1 ?hu1 ?cx1 k ws ord' r' "hp_chunk p'"] c(1,3) hu p(6) by auto
  have "call_message ?cb hu (c\<lparr>tc_msgBuffer := b\<rparr>) = Some (Inr (evs, hu', c'))"
    using s(1) by (simp add: call_message_def HttpServer_OnMessage_def hu(1) parsed then_read_def)
  moreover have "read_loop ?cb [Inl EAGAIN] hu' c' = Some (Inr ([], hu', c'))"
    using read_again [of c' ?cb hu'] s(4) c(2) by simp
  ultimately have "OnRead ?cb [Inr ?m, Inl EAGAIN] hu c = Some (Inr (ExtendLife c @ evs, hu', c'))"
    using b(3) c(1) by (simp add: OnRead_def then_read_def del: read_loop.simps)
  moreover have "OnRead ?cb (Inr d # rds) hu' c' = None" if "1 < length d" "length d \<le> 8192" for d rds
    by (rule complete_hangs [OF s(2) _ _ s(7)]) (use s c(2) inv1 p(4) that in simp_all)
  ultimately show ?thesis using s(2,5,6) by auto
qed


definition sample_get :: http_request where
  "sample_get = (new_HttpRequest True)\<lparr>rq_method := kGet, rq_path := ''/''\<rparr>"

definition sample_user :: http_user where
  "sample_user = \<lparr>hu_context = Some (new_HttpContext True False), hu_memory = (\<lambda>_. CHR ''?''), hu_address = 100,
     hu_writes = [Inr 10]\<rparr>"

lemma sample_get_text: "length (MakeHeaders (\<lambda>m. m) sample_get) \<le> 8192" "10 < length (answer_text (\<lambda>m. m))" "length (answer_text (\<lambda>m. m)) < 1000"
  by code_simp+

theorem one_answer_per_connection_witness:
  "\<exists>evs hu' c'.
    OnRead (Some (HttpServer_OnMessage (HttpService_OnRequest (\<lambda>m. m)))) [Inr (MakeHeaders (\<lambda>m. m) sample_get), Inl EAGAIN]
      sample_user (new_TcpConnection 5) = Some (Inr (evs, hu', c')) \<and>
    wrote evs @ pending (hu_memory hu') c' = answer_text (\<lambda>m. m) \<and> pending (hu_memory hu') c' \<noteq> [] \<and>
    OnRead (Some (HttpServer_OnMessage (HttpService_OnRequest (\<lambda>m. m)))) [Inr ''GET''] hu' c' = None"
proof -
  let ?c = "new_TcpConnection 5"
  have c: "\<not> tc_isClosed ?c" "0 \<le> ch_fd (tc_chan ?c)" "tc_iovecList ?c = []" "mb_inv (tc_msgBuffer ?c)" "bytes (tc_msgBuffer ?c) = []"
    by (simp_all add: new_TcpConnection_def new_Channel_def mb_inv_new kBufferDefaultLength_def kBufferOffset_def)
  have hu: "hu_context sample_user = Some (new_HttpContext True False)" "cx_postState (new_HttpContext True False) = kHttpContextPostInit"
    "cx_handler (new_HttpContext True False)" "hp_state (cx_parser (new_HttpContext True False)) = kExpectHeaders"
    "hu_writes sample_user = Inr 10 # []" "0 < hu_address sample_user" "hu_address sample_user + length (answer_text (\<lambda>m. m)) \<le> two64"
    using sample_get_text(3) by (simp_all add: sample_user_def new_HttpContext_def new_HttpParser_def two64_def)
  have r: "rq_inv sample_get" "rq_isRequest sample_get" "list_all plain_field (rq_headers sample_get)"
    "list_all plain_param (rq_parameters sample_get)" "CHR ''?'' \<notin> set (rq_path sample_get)" "rq_method sample_get \<in> {kGet, kHead, kOptions}"
    "map_of (rq_headers sample_get) ''content-length'' = None" "map_of (rq_headers sample_get) ''transfer-encoding'' = None"
    by (simp_all add: sample_get_def new_HttpRequest_def rq_inv_def)
  show ?thesis
    using one_answer_per_connection [OF c hu r(1-6) sample_get_text(1) r(7,8) sample_post_fields(7)] sample_get_text(2) by fastforce
qed

end
