(* ===== verification/UdpSocket.thy ===== *)
theory UdpSocket
  imports TcpConnection InetAddress Epoller
begin

text \<open>
  \<open>src/network/net/UdpSocket.{h,cpp}\<close>, \<open>src/network/UdpServer.cpp\<close> and \<open>UdpClient.cpp\<close>: datagrams
  sent from a list of nodes and received into one buffer. A node is an address with a size and a
  destination; \<open>sendto\<close> takes a whole datagram or fails. What a socket asks of its loop and the
  kernel is a list of events, which \<open>apply_udp\<close> runs on the poller.
\<close>

section \<open>State\<close>

record udp_node =
  un_addr :: nat
  un_size :: nat
  un_dest :: sock_addr

record udp_socket =
  us_chan :: channel
  us_isClosed :: bool
  us_messageBuffer :: msg_buffer
  us_bufferList :: "udp_node list"
  us_closeCb :: bool
  us_writeCompleteCb :: bool
  us_maxIdleTime :: int
  us_timeoutEntry :: bool

definition messageBufferSize :: nat where "messageBufferSize = 65535"

definition new_UdpSocket :: "int \<Rightarrow> udp_socket" where
  "new_UdpSocket fd =
     \<lparr>us_chan = new_Channel fd, us_isClosed = False, us_messageBuffer = new_MsgBuffer messageBufferSize,
      us_bufferList = [], us_closeCb = False, us_writeCompleteCb = False, us_maxIdleTime = 30, us_timeoutEntry = False\<rparr>"

datatype udp_event =
    Datagram string sock_addr
  | Udp_interest "32 word"
  | Udp_close_cb
  | Udp_write_complete_cb
  | Udp_opened int
  | Udp_add_channel
  | Udp_del_channel
  | Udp_closed_fd int
  | Udp_insert_entry int
  | Udp_connected_cb

definition UdpSocket_SetCloseCallback :: "udp_socket \<Rightarrow> udp_socket" where
  "UdpSocket_SetCloseCallback s = s\<lparr>us_closeCb := True\<rparr>"
definition UdpSocket_SetWriteCompleteCallback :: "udp_socket \<Rightarrow> udp_socket" where
  "UdpSocket_SetWriteCompleteCallback s = s\<lparr>us_writeCompleteCb := True\<rparr>"

section \<open>Closing and timeouts\<close>

definition UdpSocket_OnClose :: "udp_socket \<Rightarrow> udp_event list \<times> udp_socket" where
  "UdpSocket_OnClose s =
     (if us_isClosed s then ([], s)
      else
        (let (fd, ch) = Channel_Close (us_chan s)
         in ((if us_closeCb s then [Udp_close_cb] else []) @ (case fd of None \<Rightarrow> [] | Some d \<Rightarrow> [Udp_closed_fd d]),
             s\<lparr>us_isClosed := True, us_chan := ch\<rparr>)))"

definition UdpSocket_OnError :: "udp_socket \<Rightarrow> udp_event list \<times> udp_socket" where
  "UdpSocket_OnError s = UdpSocket_OnClose s"
definition UdpSocket_OnTimeOut :: "udp_socket \<Rightarrow> udp_event list \<times> udp_socket" where
  "UdpSocket_OnTimeOut s = UdpSocket_OnClose s"
definition UdpSocket_ForceClose :: "udp_socket \<Rightarrow> udp_event list \<times> udp_socket" where
  "UdpSocket_ForceClose s = UdpSocket_OnClose s"

definition UdpSocket_EnableCheckIdleTimeout :: "int \<Rightarrow> udp_socket \<Rightarrow> udp_event list \<times> udp_socket" where
  "UdpSocket_EnableCheckIdleTimeout maxTime s =
     ([Udp_insert_entry maxTime], s\<lparr>us_maxIdleTime := maxTime, us_timeoutEntry := True\<rparr>)"

text \<open>\<open>ExtendLife\<close> has an empty body.\<close>

definition UdpSocket_ExtendLife :: "udp_socket \<Rightarrow> udp_event list" where
  "UdpSocket_ExtendLife s = []"

definition udp_write_on :: "udp_socket \<Rightarrow> udp_event list \<times> udp_socket" where
  "udp_write_on s =
     (let ch = with_writing True (us_chan s) in ([Udp_interest (ch_event ch)], s\<lparr>us_chan := ch\<rparr>))"

section \<open>Sending\<close>

text \<open>
  \<open>sendto\<close>: \<open>w\<close> is the error number of a failure. The value is the size of the datagram, so an
  empty datagram that was sent gives 0.
\<close>

definition sys_sendto :: "int option \<Rightarrow> udp_socket \<Rightarrow> udp_node \<Rightarrow> int + nat" where
  "sys_sendto w s n = (if ch_fd (us_chan s) < 0 then Inl EBADF else case w of Some err \<Rightarrow> Inl err | None \<Rightarrow> Inr (un_size n))"

definition node_bytes :: "memory \<Rightarrow> udp_node \<Rightarrow> string" where
  "node_bytes mem n = mem_bytes mem (un_addr n) (un_size n)"

definition sent :: "memory \<Rightarrow> udp_node \<Rightarrow> int + nat \<Rightarrow> udp_event list" where
  "sent mem n ret = (case ret of Inl _ \<Rightarrow> [] | Inr _ \<Rightarrow> [Datagram (node_bytes mem n) (un_dest n)])"

definition UdpSocket_SendInLoop :: "memory \<Rightarrow> udp_node \<Rightarrow> int option \<Rightarrow> udp_socket \<Rightarrow> udp_event list \<times> udp_socket" where
  "UdpSocket_SendInLoop mem n w s =
     (let tried = (us_bufferList s = []); ret = sys_sendto w s n; evs = (if tried then sent mem n ret else [])
      in if tried \<and> (case ret of Inl _ \<Rightarrow> False | Inr k \<Rightarrow> 0 < k) then (evs, s)
         else (let (evs', s') = udp_write_on (s\<lparr>us_bufferList := us_bufferList s @ [n]\<rparr>) in (evs @ evs', s')))"

definition UdpSocket_SendInLoop_list :: "udp_node list \<Rightarrow> udp_socket \<Rightarrow> udp_event list \<times> udp_socket" where
  "UdpSocket_SendInLoop_list nodes s =
     (let s' = s\<lparr>us_bufferList := us_bufferList s @ nodes\<rparr>
      in if us_bufferList s' = [] then ([], s') else udp_write_on s')"

definition udp_write_complete :: "udp_socket \<Rightarrow> udp_event list" where
  "udp_write_complete s = (if us_writeCompleteCb s then [Udp_write_complete_cb] else [])"

text \<open>The loop of \<open>OnWrite\<close>, with the results of its \<open>sendto\<close> calls (\<open>EAGAIN\<close> when the list has ended).\<close>

fun udp_write_loop :: "memory \<Rightarrow> int option list \<Rightarrow> udp_socket \<Rightarrow> udp_event list \<times> udp_socket" where
  "udp_write_loop mem [] s = (if us_bufferList s = [] then (udp_write_complete s, s) else ([], s))"
| "udp_write_loop mem (w # ws) s =
     (case us_bufferList s of
        [] \<Rightarrow> (udp_write_complete s, s)
      | n # ns \<Rightarrow>
          (case sys_sendto w s n of
             Inl err \<Rightarrow> if transient err then ([], s) else UdpSocket_OnClose s
           | Inr k \<Rightarrow>
               (let s1 = (if 0 < k then s\<lparr>us_bufferList := ns\<rparr> else s);
                    (evs, s') = (if us_bufferList s1 = [] then (udp_write_complete s1, s1) else udp_write_loop mem ws s1)
                in (sent mem n (Inr k) @ evs, s'))))"

definition UdpSocket_OnWrite :: "memory \<Rightarrow> int option list \<Rightarrow> udp_socket \<Rightarrow> udp_event list \<times> udp_socket" where
  "UdpSocket_OnWrite mem ws s =
     (if us_isClosed s then ([], s)
      else (let (evs, s') = udp_write_loop mem ws s in (UdpSocket_ExtendLife s @ evs, s')))"

section \<open>Receiving\<close>

text \<open>\<open>recvfrom\<close> writes at most \<open>messageBufferSize_\<close> bytes behind the readable ones; the rest of a
  longer datagram is lost.\<close>

definition udp_recv :: "string \<Rightarrow> msg_buffer \<Rightarrow> msg_buffer result" where
  "udp_recv data b =
     (let d = take messageBufferSize data
      in bindR (memcpy (mb_buffer b) (mb_tail b) d) (\<lambda>buf. HasWritten (length d) (b\<lparr>mb_buffer := buf\<rparr>)))"

type_synonym 'u udp_cb = "(inet_address \<Rightarrow> msg_buffer \<Rightarrow> 'u \<Rightarrow> ('u \<times> msg_buffer) result) option"

definition call_udp :: "'u udp_cb \<Rightarrow> inet_address \<Rightarrow> msg_buffer \<Rightarrow> 'u \<Rightarrow> ('u \<times> msg_buffer) result" where
  "call_udp cb a b u = (case cb of None \<Rightarrow> Inr (u, b) | Some f \<Rightarrow> f a b u)"

definition udp_read_failed :: "int \<Rightarrow> 'u \<Rightarrow> udp_socket \<Rightarrow> (udp_event list \<times> 'u \<times> udp_socket) result" where
  "udp_read_failed err u s = Inr (if transient err then ([], u, s) else (let (evs, s') = UdpSocket_OnClose s in (evs, u, s')))"

fun udp_read_loop :: "(nat list \<Rightarrow> string) \<Rightarrow> 'u udp_cb \<Rightarrow> (int + sock_addr \<times> string) list \<Rightarrow> 'u \<Rightarrow> udp_socket
    \<Rightarrow> (udp_event list \<times> 'u \<times> udp_socket) result" where
  "udp_read_loop ntop6 cb [] u s = udp_read_failed (if ch_fd (us_chan s) < 0 then EBADF else EAGAIN) u s"
| "udp_read_loop ntop6 cb (rd # rds) u s =
     (if ch_fd (us_chan s) < 0 then udp_read_failed EBADF u s
      else
        (case rd of
           Inl err \<Rightarrow> udp_read_failed err u s
         | Inr (sa, data) \<Rightarrow>
             if data = [] then udp_read_loop ntop6 cb rds u s
             else
               bindR (udp_recv data (us_messageBuffer s)) (\<lambda>b.
                 bindR (call_udp cb (peer_address ntop6 sa new_InetAddress) b u) (\<lambda>(u', b').
                   udp_read_loop ntop6 cb rds u' (s\<lparr>us_messageBuffer := RetrieveAll b'\<rparr>)))))"

definition UdpSocket_OnRead :: "(nat list \<Rightarrow> string) \<Rightarrow> 'u udp_cb \<Rightarrow> (int + sock_addr \<times> string) list \<Rightarrow> 'u \<Rightarrow> udp_socket
    \<Rightarrow> (udp_event list \<times> 'u \<times> udp_socket) result" where
  "UdpSocket_OnRead ntop6 cb rds u s =
     (if us_isClosed s then Inr ([], u, s)
      else bindR (udp_read_loop ntop6 cb rds u s) (\<lambda>(evs, u', s'). Inr (UdpSocket_ExtendLife s @ evs, u', s')))"

section \<open>Servers and clients\<close>

text \<open>\<open>fd\<close> is the value of \<open>socket\<close>; the result of \<open>bind\<close> is ignored.\<close>

definition UdpServer_Open :: "int \<Rightarrow> udp_socket \<Rightarrow> udp_event list \<times> udp_socket" where
  "UdpServer_Open fd s =
     (if fd < 0 then UdpSocket_OnClose (s\<lparr>us_chan := (us_chan s)\<lparr>ch_fd := fd\<rparr>\<rparr>)
      else ([Udp_opened fd, Udp_add_channel], s\<lparr>us_chan := with_reading True ((us_chan s)\<lparr>ch_fd := fd\<rparr>)\<rparr>))"

definition UdpServer_Stop :: "udp_socket \<Rightarrow> udp_event list \<times> udp_socket" where
  "UdpServer_Stop s = (let (evs, s') = UdpSocket_OnClose s in (Udp_del_channel # evs, s'))"

record udp_client =
  uc_socket :: udp_socket
  uc_connected :: bool
  uc_servAddr :: inet_address
  uc_sockAddr :: sock_addr
  uc_connectedCb :: bool

text \<open>\<open>junk\<close> is the address that nobody has set yet.\<close>

definition new_UdpClient :: "sock_addr \<Rightarrow> inet_address \<Rightarrow> udp_client" where
  "new_UdpClient junk server =
     \<lparr>uc_socket = new_UdpSocket (-1), uc_connected = False, uc_servAddr = server, uc_sockAddr = junk, uc_connectedCb = False\<rparr>"

definition SetConnectedCallback :: "udp_client \<Rightarrow> udp_client" where
  "SetConnectedCallback uc = uc\<lparr>uc_connectedCb := True\<rparr>"

definition UdpClient_OnClose :: "udp_client \<Rightarrow> udp_event list \<times> udp_client" where
  "UdpClient_OnClose uc =
     (if uc_connected uc then
        (let (evs, s) = UdpSocket_OnClose (uc_socket uc)
         in (Udp_del_channel # evs, uc\<lparr>uc_connected := False, uc_socket := s\<rparr>))
      else ([], uc))"

definition UdpClient_ConnectInLoop :: "(string \<Rightarrow> nat list option) \<Rightarrow> int \<Rightarrow> udp_client \<Rightarrow> udp_event list \<times> udp_client" where
  "UdpClient_ConnectInLoop pton6 fd uc =
     (let s = (uc_socket uc)\<lparr>us_chan := (us_chan (uc_socket uc))\<lparr>ch_fd := fd\<rparr>\<rparr>
      in if fd < 0 then UdpClient_OnClose (uc\<lparr>uc_socket := s\<rparr>)
         else ([Udp_opened fd, Udp_add_channel] @ (if uc_connectedCb uc then [Udp_connected_cb] else []),
               uc\<lparr>uc_connected := True, uc_socket := s\<lparr>us_chan := with_reading True (us_chan s)\<rparr>,
                  uc_sockAddr := GetSockAddr pton6 (uc_servAddr uc)\<rparr>))"

definition UdpClient_Send :: "memory \<Rightarrow> nat \<Rightarrow> nat \<Rightarrow> int option \<Rightarrow> udp_client \<Rightarrow> udp_event list \<times> udp_client" where
  "UdpClient_Send mem buf sz w uc =
     (let (evs, s) = UdpSocket_SendInLoop mem \<lparr>un_addr = buf, un_size = sz, un_dest = uc_sockAddr uc\<rparr> w (uc_socket uc)
      in (evs, uc\<lparr>uc_socket := s\<rparr>))"

section \<open>Events on the poller\<close>

fun apply_udp :: "nat \<Rightarrow> udp_event list \<Rightarrow> epoll_state \<Rightarrow> epoll_state result" where
  "apply_udp c [] ep = Inr ep"
| "apply_udp c (e # es) ep =
     bindR (case e of
         Udp_interest m \<Rightarrow> Epoller_UpdateChannel c (update_chan c (\<lambda>ch. ch\<lparr>ch_event := m\<rparr>) ep)
       | Udp_opened fd \<Rightarrow> Inr (open_channel fd c ep)
       | Udp_add_channel \<Rightarrow> AddChannel c ep
       | Udp_del_channel \<Rightarrow> DelChannel c ep
       | Udp_closed_fd fd \<Rightarrow> Inr (sys_close fd (update_chan c (\<lambda>ch. ch\<lparr>ch_fd := -1\<rparr>) ep))
       | _ \<Rightarrow> Inr ep) (apply_udp c es)"


section \<open>The stream of datagrams\<close>

definition node_dgram :: "memory \<Rightarrow> udp_node \<Rightarrow> string \<times> sock_addr" where
  "node_dgram mem n = (node_bytes mem n, un_dest n)"

fun datagrams :: "udp_event list \<Rightarrow> (string \<times> sock_addr) list" where
  "datagrams [] = []"
| "datagrams (Datagram d a # evs) = (d, a) # datagrams evs"
| "datagrams (_ # evs) = datagrams evs"

lemma datagrams_append [simp]: "datagrams (es @ fs) = datagrams es @ datagrams fs"
  by (induction es rule: datagrams.induct) simp_all

lemma UdpSocket_OnClose_fields [simp]: "datagrams (fst (UdpSocket_OnClose s)) = []"
  "us_bufferList (snd (UdpSocket_OnClose s)) = us_bufferList s" "us_isClosed (snd (UdpSocket_OnClose s))"
  by (auto simp: UdpSocket_OnClose_def Channel_Close_def split: prod.split option.split)

lemma udp_write_on_fields [simp]: "datagrams (fst (udp_write_on s)) = []"
  "us_bufferList (snd (udp_write_on s)) = us_bufferList s" "us_isClosed (snd (udp_write_on s)) = us_isClosed s"
  "ch_fd (us_chan (snd (udp_write_on s))) = ch_fd (us_chan s)"
  by (simp_all add: udp_write_on_def Let_def with_writing_def)

lemma UdpSocket_OnCloseD: "UdpSocket_OnClose s = (evs, s') \<Longrightarrow> datagrams evs = [] \<and> us_bufferList s' = us_bufferList s \<and> us_isClosed s'"
  using UdpSocket_OnClose_fields [of s] by (metis fst_conv snd_conv)

lemma udp_write_onD: "udp_write_on s = (evs, s') \<Longrightarrow> datagrams evs = [] \<and> us_bufferList s' = us_bufferList s
    \<and> us_isClosed s' = us_isClosed s \<and> ch_fd (us_chan s') = ch_fd (us_chan s)"
  using udp_write_on_fields [of s] by (metis fst_conv snd_conv)

lemma udp_write_complete_datagrams [simp]: "datagrams (udp_write_complete s) = []" "datagrams (UdpSocket_ExtendLife s) = []"
  by (simp_all add: udp_write_complete_def UdpSocket_ExtendLife_def)

lemma sent_datagrams [simp]: "datagrams (sent mem n ret) = (case ret of Inl _ \<Rightarrow> [] | Inr _ \<Rightarrow> [node_dgram mem n])"
  by (simp add: sent_def node_dgram_def split: sum.split)

definition full_nodes :: "udp_node list \<Rightarrow> bool" where
  "full_nodes ns \<longleftrightarrow> list_all (\<lambda>n. 0 < un_size n) ns"

lemma sendto_Inr: "sys_sendto w s n = Inr k \<Longrightarrow> k = un_size n"
  by (auto simp: sys_sendto_def split: if_splits option.splits)

lemma SendInLoop_datagrams:
  assumes "0 < un_size n"
  shows "datagrams (fst (UdpSocket_SendInLoop mem n w s)) @ map (node_dgram mem) (us_bufferList (snd (UdpSocket_SendInLoop mem n w s)))
    = map (node_dgram mem) (us_bufferList s) @ [node_dgram mem n]"
  using assms by (auto simp: UdpSocket_SendInLoop_def Let_def split_beta split: sum.splits dest: sendto_Inr)

lemma write_loop_datagrams:
  "full_nodes (us_bufferList s) \<Longrightarrow> udp_write_loop mem ws s = (evs, s') \<Longrightarrow>
     datagrams evs @ map (node_dgram mem) (us_bufferList s') = map (node_dgram mem) (us_bufferList s) \<and> full_nodes (us_bufferList s')"
proof (induction ws arbitrary: s evs)
  case Nil
  then show ?case by (auto split: if_splits)
next
  case (Cons w ws)
  show ?case
  proof (cases "us_bufferList s")
    case Nil
    then show ?thesis using Cons.prems by auto
  next
    case q: (Cons n ns)
    show ?thesis
    proof (cases "sys_sendto w s n")
      case (Inl err)
      then have "evs = [] \<and> s' = s \<or> UdpSocket_OnClose s = (evs, s')" using Cons.prems q by (auto split: if_splits)
      then show ?thesis using Cons.prems(1) by (auto dest: UdpSocket_OnCloseD)
    next
      case (Inr k)
      then have k: "0 < k" "full_nodes ns" using Cons.prems(1) q by (auto simp: full_nodes_def dest: sendto_Inr)
      let ?s1 = "s\<lparr>us_bufferList := ns\<rparr>"
      show ?thesis
      proof (cases "ns = []")
        case True
        then show ?thesis using Cons.prems Inr k q by (auto simp: full_nodes_def Let_def)
      next
        case False
        obtain es where e: "udp_write_loop mem ws ?s1 = (es, s')" "evs = sent mem n (Inr k) @ es"
          using Cons.prems(2) Inr k q False by (auto simp: Let_def split: prod.splits)
        then show ?thesis using Cons.IH [of ?s1] k q by simp
      qed
    qed
  qed
qed

lemma OnWrite_datagrams:
  assumes "full_nodes (us_bufferList s)"
  shows "datagrams (fst (UdpSocket_OnWrite mem ws s)) @ map (node_dgram mem) (us_bufferList (snd (UdpSocket_OnWrite mem ws s)))
    = map (node_dgram mem) (us_bufferList s) \<and> full_nodes (us_bufferList (snd (UdpSocket_OnWrite mem ws s)))"
proof -
  obtain evs s' where w: "udp_write_loop mem ws s = (evs, s')" by fastforce
  then show ?thesis using write_loop_datagrams [OF assms w] assms by (auto simp: UdpSocket_OnWrite_def)
qed

datatype udp_op = Op_udp_send udp_node "int option" | Op_udp_list "udp_node list" | Op_udp_write "int option list" | Op_udp_close

fun udp_step :: "memory \<Rightarrow> udp_op \<Rightarrow> udp_socket \<Rightarrow> udp_event list \<times> udp_socket" where
  "udp_step mem (Op_udp_send n w) s = UdpSocket_SendInLoop mem n w s"
| "udp_step mem (Op_udp_list ns) s = UdpSocket_SendInLoop_list ns s"
| "udp_step mem (Op_udp_write ws) s = UdpSocket_OnWrite mem ws s"
| "udp_step mem Op_udp_close s = UdpSocket_ForceClose s"

fun udp_run :: "memory \<Rightarrow> udp_op list \<Rightarrow> udp_socket \<Rightarrow> udp_event list \<times> udp_socket" where
  "udp_run mem [] s = ([], s)"
| "udp_run mem (x # xs) s =
     (let (evs, s1) = udp_step mem x s; (evs', s2) = udp_run mem xs s1 in (evs @ evs', s2))"

fun udp_offered :: "udp_op \<Rightarrow> udp_node list" where
  "udp_offered (Op_udp_send n w) = [n]"
| "udp_offered (Op_udp_list ns) = ns"
| "udp_offered _ = []"

lemma udp_step_datagrams:
  assumes "full_nodes (us_bufferList s)" and "full_nodes (udp_offered x)" and "udp_step mem x s = (evs, s')"
  shows "datagrams evs @ map (node_dgram mem) (us_bufferList s')
      = map (node_dgram mem) (us_bufferList s @ udp_offered x) \<and> full_nodes (us_bufferList s')"
proof (cases x)
  case (Op_udp_send n w)
  then have n: "0 < un_size n" using assms(2) by (simp add: full_nodes_def)
  have "full_nodes (us_bufferList (snd (UdpSocket_SendInLoop mem n w s)))"
    using assms(1) n by (auto simp: UdpSocket_SendInLoop_def Let_def split_beta full_nodes_def)
  then show ?thesis using SendInLoop_datagrams [OF n, of mem w s] assms(3) Op_udp_send by simp
next
  case (Op_udp_list ns)
  then show ?thesis using assms
    by (auto simp: UdpSocket_SendInLoop_list_def Let_def full_nodes_def split: if_splits dest!: udp_write_onD)
next
  case (Op_udp_write ws)
  then show ?thesis using OnWrite_datagrams [OF assms(1), of mem ws] assms(3) by simp
next
  case Op_udp_close
  then show ?thesis using assms by (auto simp: UdpSocket_ForceClose_def dest: UdpSocket_OnCloseD)
qed

text \<open>A socket in its program, whose memory and lists of nodes may be written: what each call takes, and
  the calls that send no empty datagram and leave what is queued as it is.\<close>

type_synonym udp_call = "(udp_op, udp_node) shared_call"
type_synonym udp_world = "(udp_node, udp_socket) shared"

definition udp_op_run :: "(udp_op, udp_socket, udp_event) shared_op" where
  "udp_op_run mem x s = Some (Inr (udp_step mem x s))"

definition udp_pending :: "memory \<Rightarrow> udp_socket \<Rightarrow> (string \<times> sock_addr) list" where
  "udp_pending mem s = map (node_dgram mem) (us_bufferList s)"

fun udp_takes :: "udp_call \<Rightarrow> udp_world \<Rightarrow> (string \<times> sock_addr) list" where
  "udp_takes (Call x) (m, ls, s) = map (node_dgram m) (udp_offered x)"
| "udp_takes (Call_list l) (m, ls, s) = map (node_dgram m) (ls l)"
| "udp_takes (Store m' ls') (m, ls, s) = []"

fun udp_send_ok :: "udp_call \<Rightarrow> udp_world \<Rightarrow> bool" where
  "udp_send_ok (Call x) (m, ls, s) \<longleftrightarrow> full_nodes (udp_offered x)"
| "udp_send_ok (Call_list l) (m, ls, s) \<longleftrightarrow> full_nodes (ls l)"
| "udp_send_ok (Store m' ls') (m, ls, s) \<longleftrightarrow> udp_pending m' s = udp_pending m s"

definition udp_runs :: "udp_call list \<Rightarrow> udp_world \<Rightarrow> (udp_event list \<times> udp_world) result option" where
  "udp_runs = shared_runs udp_op_run Op_udp_list"

definition udp_taken_along :: "udp_call list \<Rightarrow> udp_world \<Rightarrow> (string \<times> sock_addr) list" where
  "udp_taken_along = along_run udp_op_run Op_udp_list udp_takes"

definition udp_sends_ok :: "udp_call list \<Rightarrow> udp_world \<Rightarrow> bool" where
  "udp_sends_ok = all_run udp_op_run Op_udp_list udp_send_ok"

interpretation udp_queue: shared_queue udp_op_run Op_udp_list "\<lambda>s. full_nodes (us_bufferList s)" udp_send_ok udp_takes datagrams udp_pending
proof
  fix s x m ls
  assume q: "full_nodes (us_bufferList s)" and ok: "udp_send_ok x (m, ls, s)"
  have op: "\<exists>evs s'. in_memory m ls (udp_op_run m y s) = Some (Inr (evs, m, ls, s')) \<and> full_nodes (us_bufferList s') \<and>
      datagrams evs @ udp_pending m s' = udp_pending m s @ map (node_dgram m) (udp_offered y)" if "full_nodes (udp_offered y)" for y
    using udp_step_datagrams [OF q that] by (cases "udp_step m y s") (auto simp: in_memory_def udp_op_run_def udp_pending_def)
  show "\<exists>evs m' ls' s'. shared_run udp_op_run Op_udp_list x (m, ls, s) = Some (Inr (evs, m', ls', s')) \<and> full_nodes (us_bufferList s') \<and>
    datagrams evs @ udp_pending m' s' = udp_pending m s @ udp_takes x (m, ls, s)"
  proof (cases x)
    case (Call y)
    then show ?thesis using op [of y] ok by auto
  next
    case (Call_list l)
    then show ?thesis using op [of "Op_udp_list (ls l)"] ok by auto
  next
    case (Store m' ls')
    then show ?thesis using q ok by simp
  qed
qed simp_all

lemma udp_runs_spec:
  "full_nodes (us_bufferList s) \<Longrightarrow> udp_sends_ok xs (m, ls, s) \<Longrightarrow> \<exists>evs m' ls' s'. udp_runs xs (m, ls, s) = Some (Inr (evs, m', ls', s')) \<and>
     full_nodes (us_bufferList s') \<and> datagrams evs @ udp_pending m' s' = udp_pending m s @ udp_taken_along xs (m, ls, s)"
  unfolding udp_runs_def udp_sends_ok_def udp_taken_along_def by (rule udp_queue.runs)

text \<open>Datagrams leave a UDP socket in the order they were handed over, each once and whole, with
  its destination: over every history of sends, lists, write events with any results and closes,
  what was sent followed by what is still queued is what was queued followed by what was offered.
  No datagram is empty.\<close>

theorem datagrams_in_order:
  assumes "full_nodes (us_bufferList s)" and "list_all (\<lambda>x. full_nodes (udp_offered x)) ops" and "udp_run mem ops s = (evs, s')"
  shows "datagrams evs @ map (node_dgram mem) (us_bufferList s')
    = map (node_dgram mem) (us_bufferList s @ concat (map udp_offered ops))"
  using assms
proof (induction ops arbitrary: s evs)
  case (Cons x ops)
  obtain e1 s1 where 1: "udp_step mem x s = (e1, s1)" by fastforce
  obtain e2 where 2: "udp_run mem ops s1 = (e2, s')" "evs = e1 @ e2" using Cons.prems(3) 1 by (auto split: prod.splits)
  have step: "datagrams e1 @ map (node_dgram mem) (us_bufferList s1) = map (node_dgram mem) (us_bufferList s @ udp_offered x)"
    "full_nodes (us_bufferList s1)"
    using udp_step_datagrams [OF Cons.prems(1) _ 1] Cons.prems(2) by simp_all
  have "datagrams e2 @ map (node_dgram mem) (us_bufferList s') = map (node_dgram mem) (us_bufferList s1 @ concat (map udp_offered ops))"
    using Cons.IH [OF step(2) _ 2(1)] Cons.prems(2) by simp
  then have "datagrams evs @ map (node_dgram mem) (us_bufferList s')
      = (datagrams e1 @ map (node_dgram mem) (us_bufferList s1)) @ map (node_dgram mem) (concat (map udp_offered ops))"
    using 2(2) by simp
  then show ?case unfolding step(1) by simp
qed simp


definition node_at :: "nat \<Rightarrow> nat \<Rightarrow> udp_node" where
  "node_at a n = \<lparr>un_addr = a, un_size = n, un_dest = Sockaddr_in 53 1\<rparr>"

definition udp_history :: "udp_op list" where
  "udp_history = [Op_udp_send (node_at 100 5) None, Op_udp_send (node_at 100 2) (Some EAGAIN), Op_udp_list [node_at 101 1],
     Op_udp_write [None, Some EAGAIN], Op_udp_close]"

theorem datagrams_in_order_witness:
  "\<exists>evs s'. udp_run (memory_of ''hello'') udp_history (new_UdpSocket 5) = (evs, s') \<and>
     datagrams evs @ map (node_dgram (memory_of ''hello'')) (us_bufferList s')
       = [(''hello'', Sockaddr_in 53 1), (''he'', Sockaddr_in 53 1), (''e'', Sockaddr_in 53 1)]"
proof -
  let ?m = "memory_of ''hello''"
  obtain evs s' where run: "udp_run ?m udp_history (new_UdpSocket 5) = (evs, s')" by fastforce
  have e: "mem_bytes ?m 101 1 = ''e''" by (simp add: mem_bytes_def padd_def two64_def memory_of_def)
  have "datagrams evs @ map (node_dgram ?m) (us_bufferList s')
    = map (node_dgram ?m) (us_bufferList (new_UdpSocket 5) @ concat (map udp_offered udp_history))"
    by (rule datagrams_in_order [OF _ _ run]) (simp_all add: full_nodes_def new_UdpSocket_def udp_history_def node_at_def)
  then show ?thesis using run e memory_of_hello
    by (simp add: new_UdpSocket_def udp_history_def node_dgram_def node_bytes_def node_at_def)
qed

text \<open>An empty datagram is never done: \<open>sendto\<close> gives 0 for it, which the code takes for a datagram
  that was not sent. A direct send puts it on the wire and queues it as well, and every write event
  sends it again as often as the kernel takes it, with nothing behind it ever leaving.\<close>

theorem empty_datagram_repeats:
  assumes "us_bufferList s = []" and "\<not> us_isClosed s" and "0 \<le> ch_fd (us_chan s)" and "un_size n = 0"
  shows "\<exists>evs s1. UdpSocket_SendInLoop mem n None s = (evs, s1) \<and> datagrams evs = [([], un_dest n)] \<and>
    (\<exists>evs' s2. UdpSocket_OnWrite mem (replicate k None) (snd (UdpSocket_SendInLoop_list ns s1)) = (evs', s2) \<and>
       datagrams evs' = replicate k ([], un_dest n) \<and> us_bufferList s2 = n # ns)"
proof -
  have d: "node_dgram mem n = ([], un_dest n)" using assms(4) by (simp add: node_dgram_def node_bytes_def)
  have io: "sys_sendto None s' n = Inr 0" if "0 \<le> ch_fd (us_chan s')" for s' using that assms(4) by (simp add: sys_sendto_def)
  have loop: "\<exists>evs' s2. udp_write_loop mem (replicate k None) s' = (evs', s2) \<and> datagrams evs' = replicate k ([], un_dest n) \<and> us_bufferList s2 = n # ns"
    if "us_bufferList s' = n # ns" "0 \<le> ch_fd (us_chan s')" for s'
    using that
  proof (induction k)
    case (Suc k)
    then show ?case using io [OF Suc.prems(2)] d by auto
  qed simp
  obtain evs s1 where s1: "UdpSocket_SendInLoop mem n None s = (evs, s1)" by fastforce
  obtain es where es: "udp_write_on (s\<lparr>us_bufferList := [n]\<rparr>) = (es, s1)" "evs = sent mem n (Inr 0) @ es"
    using s1 assms(1) io [OF assms(3)] by (auto simp: UdpSocket_SendInLoop_def Let_def split: prod.splits)
  note f1 = udp_write_onD [OF es(1)]
  obtain s3 where s3: "snd (UdpSocket_SendInLoop_list ns s1) = s3" "us_bufferList s3 = n # ns" "us_isClosed s3 = us_isClosed s"
    "ch_fd (us_chan s3) = ch_fd (us_chan s)"
    using f1 by (auto simp: UdpSocket_SendInLoop_list_def Let_def)
  obtain evs' s2 where "udp_write_loop mem (replicate k None) s3 = (evs', s2)" "datagrams evs' = replicate k ([], un_dest n)"
    "us_bufferList s2 = n # ns" using loop [OF s3(2)] s3(4) assms(3) by auto
  then show ?thesis using s1 es(2) f1 d s3 assms(2) by (simp add: UdpSocket_OnWrite_def)
qed

theorem empty_datagram_repeats_witness:
  "\<exists>evs s1. UdpSocket_SendInLoop (memory_of ''hello'') (node_at 100 0) None (new_UdpSocket 5) = (evs, s1) \<and> datagrams evs = [([], Sockaddr_in 53 1)] \<and>
    (\<exists>evs' s2. UdpSocket_OnWrite (memory_of ''hello'') (replicate 3 None) (snd (UdpSocket_SendInLoop_list [node_at 100 5] s1)) = (evs', s2) \<and>
       datagrams evs' = replicate 3 ([], Sockaddr_in 53 1) \<and> us_bufferList s2 = [node_at 100 0, node_at 100 5])"
proof -
  have n: "un_dest (node_at 100 0) = Sockaddr_in 53 1" "un_size (node_at 100 0) = 0" by (simp_all add: node_at_def)
  have s: "us_bufferList (new_UdpSocket 5) = []" "\<not> us_isClosed (new_UdpSocket 5)" "0 \<le> ch_fd (us_chan (new_UdpSocket 5))"
    by (simp_all add: new_UdpSocket_def new_Channel_def)
  show ?thesis using empty_datagram_repeats [OF s n(2), of "memory_of ''hello''" 3 "[node_at 100 5]"] unfolding n(1) .
qed


section \<open>Receiving datagrams\<close>

text \<open>The buffer between two datagrams: empty, with the room the socket asks \<open>recvfrom\<close> to fill.\<close>

definition udp_buf_ok :: "msg_buffer \<Rightarrow> bool" where
  "udp_buf_ok b \<longleftrightarrow> mb_inv b \<and> messageBufferSize \<le> mb_initCap b \<and> mb_head b = kBufferOffset \<and> mb_tail b = kBufferOffset"

lemma udp_buf_ok_new: "udp_buf_ok (new_MsgBuffer messageBufferSize)"
  by (simp add: udp_buf_ok_def mb_inv_new messageBufferSize_def kBufferOffset_def) (simp add: new_MsgBuffer_def kBufferOffset_def)

lemma udp_recv_ok:
  assumes "udp_buf_ok b" and "length d \<le> messageBufferSize"
  shows "\<exists>b'. udp_recv d b = Inr b' \<and> bytes b' = d \<and> mb_inv b' \<and> mb_initCap b' = mb_initCap b"
proof -
  have inv: "mb_inv b" using assms(1) by (simp add: udp_buf_ok_def)
  have room: "length d \<le> WritableBytes b" using assms by (auto simp: Writable_inv [OF inv] udp_buf_ok_def mb_inv_def)
  obtain buf where b: "memcpy (mb_buffer b) (mb_tail b) d = Inr buf" "mb_inv (b\<lparr>mb_buffer := buf, mb_tail := mb_tail b + length d\<rparr>)"
    "bytes (b\<lparr>mb_buffer := buf, mb_tail := mb_tail b + length d\<rparr>) = bytes b @ d"
    using store_tail [OF inv room] by blast
  have "length buf = length (mb_buffer b)" using b(1) by (auto simp: memcpy_def split: if_splits)
  then have "length d \<le> WritableBytes (b\<lparr>mb_buffer := buf\<rparr>)" using room by (simp add: WritableBytes_def)
  moreover have "bytes b = []" using assms(1) by (simp add: bytes_def udp_buf_ok_def)
  ultimately show ?thesis using b assms(2) by (simp add: udp_recv_def HasWritten_def)
qed

lemma RetrieveAll_udp: "mb_inv b \<Longrightarrow> messageBufferSize \<le> mb_initCap b \<Longrightarrow> udp_buf_ok (RetrieveAll b)"
  using RetrieveAll_ok [of b] by (simp add: udp_buf_ok_def RetrieveAll_def Let_def)

text \<open>A handler that notes what it is shown and consumes as much of the buffer as it likes.\<close>

definition note_datagrams :: "(string \<Rightarrow> nat) \<Rightarrow> (inet_address \<times> string) list udp_cb" where
  "note_datagrams f = Some (\<lambda>a b u. Inr (u @ [(a, bytes b)], Retrieve (f (bytes b)) b))"

lemma Retrieve_cap: "mb_initCap (Retrieve n b) = mb_initCap b"
  by (simp add: Retrieve_def RetrieveAll_def Let_def)

text \<open>C16: every datagram of 1 to 65535 bytes reaches the message callback as one message with exactly
  its bytes and its sender, in the order of arrival, whatever the callback leaves unread: nothing
  is carried over into the next one, and the buffer never overflows. Empty datagrams are passed over
  without a call, and the socket stays open when no more data is there.\<close>

theorem datagrams_delivered:
  assumes "\<not> us_isClosed s" and "0 \<le> ch_fd (us_chan s)" and "udp_buf_ok (us_messageBuffer s)"
    and "list_all (\<lambda>(sa, d). length d \<le> messageBufferSize) ds"
  shows "\<exists>s'. UdpSocket_OnRead ntop6 (note_datagrams f) (map Inr ds @ [Inl EAGAIN]) u s
      = Inr ([], u @ map (\<lambda>(sa, d). (peer_address ntop6 sa new_InetAddress, d)) (filter (\<lambda>(sa, d). d \<noteq> []) ds), s') \<and>
    \<not> us_isClosed s' \<and> udp_buf_ok (us_messageBuffer s')"
proof -
  have "\<exists>s'. udp_read_loop ntop6 (note_datagrams f) (map Inr ds @ [Inl EAGAIN]) u s
      = Inr ([], u @ map (\<lambda>(sa, d). (peer_address ntop6 sa new_InetAddress, d)) (filter (\<lambda>(sa, d). d \<noteq> []) ds), s') \<and>
    \<not> us_isClosed s' \<and> udp_buf_ok (us_messageBuffer s')"
    using assms
  proof (induction ds arbitrary: u s)
    case Nil
    then show ?case by (simp add: udp_read_failed_def transient_def)
  next
    case (Cons x ds)
    obtain sa d where x: "x = (sa, d)" by fastforce
    show ?case
    proof (cases "d = []")
      case True
      then show ?thesis using Cons x by auto
    next
      case False
      have "length d \<le> messageBufferSize" using Cons.prems(4) x by simp
      then obtain b where b: "udp_recv d (us_messageBuffer s) = Inr b" "bytes b = d" "mb_inv b"
        "mb_initCap b = mb_initCap (us_messageBuffer s)" using udp_recv_ok [OF Cons.prems(3)] by blast
      let ?b = "RetrieveAll (Retrieve (f d) b)"
      have "udp_buf_ok ?b" using b Cons.prems(3) Retrieve_ok [OF b(3)]
        by (intro RetrieveAll_udp) (simp_all add: Retrieve_cap udp_buf_ok_def)
      then have "\<exists>s'. udp_read_loop ntop6 (note_datagrams f) (map Inr ds @ [Inl EAGAIN])
          (u @ [(peer_address ntop6 sa new_InetAddress, d)]) (s\<lparr>us_messageBuffer := ?b\<rparr>)
        = Inr ([], (u @ [(peer_address ntop6 sa new_InetAddress, d)])
            @ map (\<lambda>(sa, d). (peer_address ntop6 sa new_InetAddress, d)) (filter (\<lambda>(sa, d). d \<noteq> []) ds), s')
          \<and> \<not> us_isClosed s' \<and> udp_buf_ok (us_messageBuffer s')"
        using Cons.prems by (intro Cons.IH) simp_all
      then show ?thesis using Cons.prems(2) x False b by (simp add: call_udp_def note_datagrams_def)
    qed
  qed
  then show ?thesis using assms(1) by (simp add: UdpSocket_OnRead_def UdpSocket_ExtendLife_def)
qed

theorem datagrams_delivered_witness:
  "\<exists>s'. UdpSocket_OnRead (\<lambda>_. []) (note_datagrams (\<lambda>_. 1)) (map Inr [(Sockaddr_in 53 1, ''ab''), (Sockaddr_in 7 2, []), (Sockaddr_in 7 2, ''c'')] @ [Inl EAGAIN])
      [] (new_UdpSocket 5)
    = Inr ([], [(peer_address (\<lambda>_. []) (Sockaddr_in 53 1) new_InetAddress, ''ab''),
               (peer_address (\<lambda>_. []) (Sockaddr_in 7 2) new_InetAddress, ''c'')], s')"
proof -
  have "\<not> us_isClosed (new_UdpSocket 5)" "0 \<le> ch_fd (us_chan (new_UdpSocket 5))" "udp_buf_ok (us_messageBuffer (new_UdpSocket 5))"
    "list_all (\<lambda>(sa, d). length d \<le> messageBufferSize) [(Sockaddr_in 53 1, ''ab''), (Sockaddr_in 7 2, []), (Sockaddr_in 7 2, ''c'')]"
    using udp_buf_ok_new by (simp_all add: new_UdpSocket_def new_Channel_def messageBufferSize_def)
  from datagrams_delivered [OF this, of "\<lambda>_. []" "\<lambda>_. 1" "[]"] show ?thesis by auto
qed

section \<open>Closing a server\<close>

lemma open_evaluated:
  assumes s: "in_sync ep" and fd: "0 < fd" "\<not> k_open ep fd" "chan_fd c ep = -1"
  shows "\<exists>ep1. apply_udp c [Udp_opened fd, Udp_add_channel] ep = Inr ep1 \<and> in_sync ep1 \<and> ep_channels ep1 fd = Some c"
proof -
  let ?e = "open_channel fd c ep"
  have e: "in_sync ?e" "chan_fd c ?e = fd" using open_in_sync [OF s fd] by (simp_all add: open_channel_def chan_fd_def new_Channel_def)
  have "ep_channels ep fd = None" using in_syncD(1,3) [OF s] fd(1,2) by (cases "ep_channels ep fd") auto
  then have none: "ep_channels ?e fd = None" by (simp add: open_channel_def)
  obtain ep1 where a: "AddChannel c ?e = Inr ep1" "ep_channels ep1 fd = Some c"
    using add_eval [OF e(1), of c] e(2) fd(1) none by simp
  have "in_sync ep1" by (rule add_in_sync [OF e(1) _ _ a(1)]) (simp_all add: e(2) fd(1) none)
  then show ?thesis using a by simp
qed

text \<open>C34: a UDP server that is stopped leaves the poller as it should be, but one that closes itself on
  an error is not taken out of the poller's table: the next channel that gets its descriptor is not
  watched, and the first change of its interest makes the process exit.\<close>

theorem udp_error_stays_registered:
  assumes "loop_reach ep" and "0 < fd" and "\<not> k_open ep fd" and "chan_fd c ep = -1" and "\<not> us_isClosed s" and "d \<noteq> c"
  shows "\<exists>evs s1 ep1. UdpServer_Open fd s = (evs, s1) \<and> apply_udp c evs ep = Inr ep1 \<and>
    (\<exists>ep2. apply_udp c (fst (UdpServer_Stop s1)) ep1 = Inr ep2 \<and> in_sync ep2 \<and> ep_channels ep2 fd = None) \<and>
    (\<exists>ep3 ep4. apply_udp c (fst (UdpSocket_OnError s1)) ep1 = Inr ep3 \<and> AddChannel d (open_channel fd d ep3) = Inr ep4 \<and>
       k_interest ep4 fd = None \<and> EnableChannelWriting d b ep4 = Inl exit_fault)"
proof -
  obtain ep1 where ep1: "apply_udp c [Udp_opened fd, Udp_add_channel] ep = Inr ep1" "in_sync ep1" "ep_channels ep1 fd = Some c"
    using open_evaluated [OF reach_in_sync [OF assms(1)] assms(2-4)] by blast
  have fdc: "chan_fd c ep1 = fd" using in_syncD(1) [OF ep1(2,3)] by simp
  let ?s1 = "s\<lparr>us_chan := with_reading True ((us_chan s)\<lparr>ch_fd := fd\<rparr>)\<rparr>"
  have o: "UdpServer_Open fd s = ([Udp_opened fd, Udp_add_channel], ?s1)" using assms(2) by (simp add: UdpServer_Open_def)
  have close: "fst (UdpSocket_OnClose ?s1) = (if us_closeCb s then [Udp_close_cb] else []) @ [Udp_closed_fd fd]"
    using assms(2,5) by (simp add: UdpSocket_OnClose_def Channel_Close_def with_reading_def)
  let ?closed = "\<lambda>e. sys_close fd (update_chan c (\<lambda>ch. ch\<lparr>ch_fd := -1\<rparr>) e)"
  have run: "apply_udp c (fst (UdpSocket_OnClose ?s1)) e = Inr (?closed e)" for e by (simp add: close)
  have same: "close_channel c e = ?closed e" if "chan_fd c e = fd" for e
    using that assms(2) by (auto simp: close_channel_def Channel_Close_def chan_fd_def update_chan_def)
  obtain ep1' where del: "DelChannel c ep1 = Inr ep1'" "in_sync ep1'" "ep_channels ep1' fd = None" "chan_fd c ep1' = fd"
    using del_eval [OF ep1(2), of c] del_in_sync [OF ep1(2)] ep1(3) fdc by simp
  have "apply_udp c (fst (UdpServer_Stop ?s1)) ep1 = Inr (close_channel c ep1')"
    using run del(1) same [OF del(4)] by (simp add: UdpServer_Stop_def split_beta)
  moreover have "in_sync (close_channel c ep1')" using close_in_sync [OF del(2)] del(3,4) by simp
  moreover have "ep_channels (close_channel c ep1') fd = None" unfolding same [OF del(4)] using del(3) by (simp add: sys_close_def Let_def)
  moreover have "apply_udp c (fst (UdpSocket_OnError ?s1)) ep1 = Inr (close_channel c ep1)"
    using run same [OF fdc] by (simp add: UdpSocket_OnError_def)
  moreover obtain ep4 where "AddChannel d (open_channel fd d (close_channel c ep1)) = Inr ep4" "k_interest ep4 fd = None"
    "EnableChannelWriting d b ep4 = Inl exit_fault"
    using stale_entry [OF close_registered [OF ep1(2,3)] assms(6)] by blast
  ultimately show ?thesis using o ep1(1) by blast
qed

theorem udp_error_stays_registered_witness:
  "\<exists>evs s1 ep1 ep3 ep4. UdpServer_Open 5 (new_UdpSocket (-1)) = (evs, s1) \<and> apply_udp 0 evs (new_Epoller 1024) = Inr ep1 \<and>
    apply_udp 0 (fst (UdpSocket_OnError s1)) ep1 = Inr ep3 \<and> AddChannel 1 (open_channel 5 1 ep3) = Inr ep4 \<and>
    EnableChannelWriting 1 True ep4 = Inl exit_fault"
proof -
  have "0 < (5::int)" "\<not> k_open (new_Epoller 1024) 5" "chan_fd 0 (new_Epoller 1024) = -1" "\<not> us_isClosed (new_UdpSocket (-1))"
    by (simp_all add: new_Epoller_def chan_fd_def new_Channel_def new_UdpSocket_def)
  from udp_error_stays_registered [OF loop_reach.start this, of 1 True] show ?thesis by fastforce
qed

section \<open>Connecting again\<close>

text \<open>A datagram client that was closed once and connects again is told so and sends, but it drops
  every readable and writable event, and closing it takes its channel out of the loop and leaves the
  new descriptor open, without the close callback.\<close>

theorem udp_reconnect_dead:
  assumes "us_isClosed (uc_socket uc)" and "uc_connectedCb uc" and "0 \<le> fd"
  shows "case UdpClient_ConnectInLoop pton fd uc of (evs, uc1) \<Rightarrow>
    Udp_connected_cb \<in> set evs \<and> ch_fd (us_chan (uc_socket uc1)) = fd \<and>
    UdpSocket_OnRead ntop cb rds u (uc_socket uc1) = Inr ([], u, uc_socket uc1) \<and>
    UdpSocket_OnWrite mem ws (uc_socket uc1) = ([], uc_socket uc1) \<and>
    (case UdpClient_OnClose uc1 of (evs2, uc2) \<Rightarrow> evs2 = [Udp_del_channel] \<and> ch_fd (us_chan (uc_socket uc2)) = fd)"
  using assms by (simp add: UdpClient_ConnectInLoop_def Let_def with_reading_def UdpSocket_OnRead_def UdpSocket_OnWrite_def
      UdpClient_OnClose_def UdpSocket_OnClose_def)

theorem udp_reconnect_dead_witness:
  "case UdpClient_ConnectInLoop (\<lambda>_. None) 7 ((SetConnectedCallback (new_UdpClient (Sockaddr_in 53 1) new_InetAddress))
      \<lparr>uc_socket := snd (UdpSocket_OnClose (new_UdpSocket (-1)))\<rparr>) of
    (evs, uc1) \<Rightarrow> Udp_connected_cb \<in> set evs \<and> ch_fd (us_chan (uc_socket uc1)) = 7"
proof -
  let ?uc = "(SetConnectedCallback (new_UdpClient (Sockaddr_in 53 1) new_InetAddress))
      \<lparr>uc_socket := snd (UdpSocket_OnClose (new_UdpSocket (-1)))\<rparr>"
  have "us_isClosed (uc_socket ?uc)" "uc_connectedCb ?uc" "(0::int) \<le> 7" by (simp_all add: SetConnectedCallback_def)
  from udp_reconnect_dead [OF this, where pton = "\<lambda>_. None" and ntop = "\<lambda>_. []" and rds = "[]" and u = "()" and cb = None
      and mem = "\<lambda>_. CHR ''x''" and ws = "[]"]
  show ?thesis unfolding split_beta by blast
qed

end
