(* ===== verification/TaskMgr.thy ===== *)
theory TaskMgr
  imports Prelude
begin

text \<open>
  \<open>src/base/Task.{h,cpp}\<close> and \<open>TaskMgr.{h,cpp}\<close>: timed tasks run by the main loop. Tasks are
  shared objects named by numbers; the set is a list in the order the container iterates it. What
  a callback does to tasks is a list of actions; \<open>clock n\<close> is the time it reads while task \<open>n\<close> runs.
  \<open>OnWork\<close> holds the lock while callbacks run, so \<open>Add\<close> or \<open>Del\<close> from a callback never returns
  (\<open>None\<close>). Times are milliseconds far from the bounds of \<open>int64_t\<close>.
\<close>

section \<open>State\<close>

datatype task_act = Act_Restart nat | Act_Add nat | Act_Del nat

record task =
  tk_cb :: "task_act list option"
  tk_interval :: int
  tk_when :: int

record task_mgr =
  tm_tasks :: "nat list"
  tm_objs :: "nat \<Rightarrow> task"

definition new_Task :: "task_act list option \<Rightarrow> int \<Rightarrow> int \<Rightarrow> task" where
  "new_Task cb interval now = \<lparr>tk_cb = cb, tk_interval = interval, tk_when = interval + now\<rparr>"

definition Task_Restart :: "int \<Rightarrow> task \<Rightarrow> task" where
  "Task_Restart now t = t\<lparr>tk_when := tk_interval t + now\<rparr>"

definition When :: "task_mgr \<Rightarrow> nat \<Rightarrow> int" where
  "When tm n = tk_when (tm_objs tm n)"

section \<open>Operations\<close>

definition TaskMgr_Add :: "nat \<Rightarrow> task_mgr \<Rightarrow> bool \<times> task_mgr" where
  "TaskMgr_Add n tm =
     (if n \<in> set (tm_tasks tm) then (False, tm) else (True, tm\<lparr>tm_tasks := tm_tasks tm @ [n]\<rparr>))"

definition TaskMgr_Del :: "nat \<Rightarrow> task_mgr \<Rightarrow> bool \<times> task_mgr" where
  "TaskMgr_Del n tm = (True, tm\<lparr>tm_tasks := removeAll n (tm_tasks tm)\<rparr>)"

fun run_acts :: "int \<Rightarrow> task_act list \<Rightarrow> task_mgr \<Rightarrow> task_mgr option" where
  "run_acts t [] tm = Some tm"
| "run_acts t (Act_Restart n # acts) tm = run_acts t acts (tm\<lparr>tm_objs := (tm_objs tm)(n := Task_Restart t (tm_objs tm n))\<rparr>)"
| "run_acts t (_ # acts) tm = None"

definition Task_Run :: "(nat \<Rightarrow> int) \<Rightarrow> nat \<Rightarrow> task_mgr \<Rightarrow> task_mgr option" where
  "Task_Run clock n tm = (case tk_cb (tm_objs tm n) of None \<Rightarrow> Some tm | Some acts \<Rightarrow> run_acts (clock n) acts tm)"

text \<open>The loop over the set: the tasks that were run, in order, and those that stay.\<close>

fun work_loop :: "(nat \<Rightarrow> int) \<Rightarrow> int \<Rightarrow> nat list \<Rightarrow> task_mgr \<Rightarrow> (nat list \<times> nat list \<times> task_mgr) option" where
  "work_loop clock now [] tm = Some ([], [], tm)"
| "work_loop clock now (n # ns) tm =
     (if When tm n < now then
        Option.bind (Task_Run clock n tm) (\<lambda>tm1.
          map_option (\<lambda>(ran, kept, tm2). (n # ran, if When tm1 n < now then kept else n # kept, tm2))
            (work_loop clock now ns tm1))
      else map_option (\<lambda>(ran, kept, tm2). (ran, n # kept, tm2)) (work_loop clock now ns tm))"

definition TaskMgr_OnWork :: "(nat \<Rightarrow> int) \<Rightarrow> int \<Rightarrow> task_mgr \<Rightarrow> (nat list \<times> task_mgr) option" where
  "TaskMgr_OnWork clock now tm =
     map_option (\<lambda>(ran, kept, tm'). (ran, tm'\<lparr>tm_tasks := kept\<rparr>)) (work_loop clock now (tm_tasks tm) tm)"

section \<open>Properties\<close>

text \<open>A callback that leaves every task but its own alone, and the set to itself.\<close>

definition own_acts :: "nat \<Rightarrow> task \<Rightarrow> bool" where
  "own_acts n t \<longleftrightarrow> (case tk_cb t of None \<Rightarrow> True | Some acts \<Rightarrow> list_all (\<lambda>a. a = Act_Restart n) acts)"

definition restarts :: "task \<Rightarrow> bool" where
  "restarts t \<longleftrightarrow> (case tk_cb t of None \<Rightarrow> False | Some acts \<Rightarrow> acts \<noteq> [])"

definition after_run :: "int \<Rightarrow> task \<Rightarrow> task" where
  "after_run t k = (if restarts k then Task_Restart t k else k)"

lemma after_run_cb [simp]: "tk_cb (after_run t k) = tk_cb k" "tk_interval (after_run t k) = tk_interval k"
  by (simp_all add: after_run_def Task_Restart_def)

lemma run_own_acts: "list_all (\<lambda>a. a = Act_Restart n) acts \<Longrightarrow>
  run_acts t acts tm = Some (if acts = [] then tm else tm\<lparr>tm_objs := (tm_objs tm)(n := Task_Restart t (tm_objs tm n))\<rparr>)"
proof (induction acts arbitrary: tm)
  case (Cons a acts)
  then show ?case by (simp add: Task_Restart_def)
qed simp

lemma Task_Run_own: "own_acts n (tm_objs tm n) \<Longrightarrow>
  Task_Run clock n tm = Some (tm\<lparr>tm_objs := (tm_objs tm)(n := after_run (clock n) (tm_objs tm n))\<rparr>)"
  by (auto simp: Task_Run_def own_acts_def after_run_def restarts_def run_own_acts split: option.splits)

lemma work_loop_due:
  assumes "distinct ns" and "\<forall>n\<in>set ns. own_acts n (tm_objs tm n)"
  shows "\<exists>tm'. work_loop clock now ns tm = Some (filter (\<lambda>n. When tm n < now) ns,
      filter (\<lambda>n. When tm n < now \<longrightarrow> now \<le> tk_when (after_run (clock n) (tm_objs tm n))) ns, tm') \<and> tm_tasks tm' = tm_tasks tm \<and>
    (\<forall>n. tm_objs tm' n = (if n \<in> set ns \<and> When tm n < now then after_run (clock n) (tm_objs tm n) else tm_objs tm n))"
  using assms
proof (induction ns arbitrary: tm)
  case (Cons n ns)
  show ?case
  proof (cases "When tm n < now")
    case False
    then show ?thesis using Cons by fastforce
  next
    case True
    let ?t = "after_run (clock n) (tm_objs tm n)"
    let ?tm = "tm\<lparr>tm_objs := (tm_objs tm)(n := ?t)\<rparr>"
    have run: "Task_Run clock n tm = Some ?tm" using Task_Run_own Cons.prems(2) by simp
    have other: "tm_objs ?tm m = tm_objs tm m" "When ?tm m = When tm m" if "m \<in> set ns" for m
      using that Cons.prems(1) by (auto simp: When_def)
    have fresh: "n \<notin> set ns" using Cons.prems(1) by simp
    then have due: "filter (\<lambda>m. When ?tm m < now) ns = filter (\<lambda>m. When tm m < now) ns"
      "filter (\<lambda>m. When ?tm m < now \<longrightarrow> now \<le> tk_when (after_run (clock m) (tm_objs ?tm m))) ns
        = filter (\<lambda>m. When tm m < now \<longrightarrow> now \<le> tk_when (after_run (clock m) (tm_objs tm m))) ns"
      using fresh other by (auto intro!: filter_cong)
    obtain tm' where tm': "work_loop clock now ns ?tm = Some (filter (\<lambda>m. When tm m < now) ns,
        filter (\<lambda>m. When tm m < now \<longrightarrow> now \<le> tk_when (after_run (clock m) (tm_objs tm m))) ns, tm')" "tm_tasks tm' = tm_tasks tm"
      "\<And>m. tm_objs tm' m = (if m \<in> set ns \<and> When ?tm m < now then after_run (clock m) (tm_objs ?tm m) else tm_objs ?tm m)"
      using Cons.IH [of ?tm] Cons.prems other unfolding due by auto
    have "When ?tm n = tk_when ?t" by (simp add: When_def)
    moreover have "tm_objs tm' m = (if m \<in> set (n # ns) \<and> When tm m < now then after_run (clock m) (tm_objs tm m) else tm_objs tm m)" for m
      using tm'(3) [of m] other [of m] Cons.prems(1) True by auto
    ultimately show ?thesis using True run tm'(1,2) by (auto simp: not_less)
  qed
qed simp

text \<open>C30: one round of the task manager runs each due task exactly once, in the order of the set, and no
  other; a task stays in the set exactly when it was not due or has restarted itself to a time
  that is not past, so that afterwards nothing in the set is overdue and every restarted task is
  due again one interval after it ran. A callback that adds or removes a task never returns.\<close>

theorem OnWork_runs_due:
  assumes "distinct (tm_tasks tm)" and "list_all (\<lambda>n. own_acts n (tm_objs tm n)) (tm_tasks tm)"
  shows "\<exists>tm'. TaskMgr_OnWork clock now tm = Some (filter (\<lambda>n. When tm n < now) (tm_tasks tm), tm') \<and>
    list_all (\<lambda>n. now \<le> When tm' n) (tm_tasks tm') \<and>
    (\<forall>n. n \<in> set (tm_tasks tm') \<longleftrightarrow> n \<in> set (tm_tasks tm) \<and>
       (When tm n < now \<longrightarrow> restarts (tm_objs tm n) \<and> now \<le> tk_interval (tm_objs tm n) + clock n)) \<and>
    (\<forall>n. n \<in> set (tm_tasks tm) \<and> When tm n < now \<and> restarts (tm_objs tm n) \<longrightarrow> When tm' n = tk_interval (tm_objs tm n) + clock n)"
proof -
  obtain tm' where w: "work_loop clock now (tm_tasks tm) tm = Some (filter (\<lambda>n. When tm n < now) (tm_tasks tm),
      filter (\<lambda>n. When tm n < now \<longrightarrow> now \<le> tk_when (after_run (clock n) (tm_objs tm n))) (tm_tasks tm), tm')"
    "\<And>n. tm_objs tm' n = (if n \<in> set (tm_tasks tm) \<and> When tm n < now then after_run (clock n) (tm_objs tm n) else tm_objs tm n)"
    using work_loop_due [OF assms(1), of tm clock now] assms(2) by (auto simp: list_all_iff)
  show ?thesis using w(1) by (auto simp: TaskMgr_OnWork_def list_all_iff When_def w(2) after_run_def Task_Restart_def)
qed

text \<open>The task of \<open>main\<close>, which restarts itself every second, and one that runs once.\<close>

definition main_tasks :: task_mgr where
  "main_tasks = \<lparr>tm_tasks = [0, 1], tm_objs = (\<lambda>_. new_Task (Some []) 500 0)(0 := new_Task (Some [Act_Restart 0]) 1000 0)\<rparr>"

theorem OnWork_runs_due_witness:
  "\<exists>tm'. TaskMgr_OnWork (\<lambda>_. 1003) 1002 main_tasks = Some ([0, 1], tm') \<and> list_all (\<lambda>n. 1002 \<le> When tm' n) (tm_tasks tm')
     \<and> When tm' 0 = 2003 \<and> 0 \<in> set (tm_tasks tm') \<and> 1 \<notin> set (tm_tasks tm')"
proof -
  have "distinct (tm_tasks main_tasks)" "list_all (\<lambda>n. own_acts n (tm_objs main_tasks n)) (tm_tasks main_tasks)"
    by (simp_all add: main_tasks_def own_acts_def new_Task_def)
  note t = OnWork_runs_due [OF this, of "\<lambda>_. 1003" 1002]
  have v: "tm_tasks main_tasks = [0, 1]" "When main_tasks 0 = 1000" "When main_tasks 1 = 500" "tk_interval (tm_objs main_tasks 0) = 1000"
    "restarts (tm_objs main_tasks 0)" "\<not> restarts (tm_objs main_tasks 1)"
    by (simp_all add: main_tasks_def new_Task_def When_def restarts_def)
  from t obtain tm' where "TaskMgr_OnWork (\<lambda>_. 1003) 1002 main_tasks = Some (filter (\<lambda>n. When main_tasks n < 1002) [0, 1], tm')"
    "list_all (\<lambda>n. 1002 \<le> When tm' n) (tm_tasks tm')" "0 \<in> set (tm_tasks tm')" "1 \<notin> set (tm_tasks tm')" "When tm' 0 = 2003"
    using v by fastforce
  then show ?thesis using v by auto
qed

lemma Add_in_callback_blocks: "tk_cb (tm_objs tm n) = Some (Act_Add m # acts) \<or> tk_cb (tm_objs tm n) = Some (Act_Del m # acts) \<Longrightarrow>
  When tm n < now \<Longrightarrow> work_loop clock now (n # ns) tm = None"
  by (auto simp: Task_Run_def)

end
