(* ===== verification/TcpClient.thy ===== *)
theory TcpClient
  imports TcpConnection InetAddress
begin

text \<open>
  \<open>src/network/TcpClient.{h,cpp}\<close>: a connection that is opened by its owner. \<open>TcpClient\<close>
  overrides \<open>OnClose\<close>, so a close inside a method of the base class also takes the channel out of
  the loop (\<open>base_call\<close>). The result of \<open>socket\<close> and \<open>connect\<close>, and the value of \<open>SO_ERROR\<close>, are
  arguments; \<open>None\<close> stands for success of \<open>connect\<close>.
\<close>

section \<open>State\<close>

datatype client_status =
    kTcpConStatusInit
  | kTcpConStatusConnecting
  | kTcpConStatusConnected
  | kTcpConStatusDisConnected

record tcp_client =
  cl_conn :: tcp_conn
  cl_status :: client_status
  cl_servAddr :: inet_address
  cl_connectedCb :: bool

datatype cl_event =
    Conn tc_event
  | Cl_socket int          \<comment> \<open>the descriptor of a new socket\<close>
  | Cl_add_channel
  | Cl_del_channel
  | Connected_cb

definition new_TcpClient :: "inet_address \<Rightarrow> tcp_client" where
  "new_TcpClient server =
     \<lparr>cl_conn = new_TcpConnection (-1), cl_status = kTcpConStatusInit, cl_servAddr = server, cl_connectedCb = False\<rparr>"

definition SetConnectCallback :: "tcp_client \<Rightarrow> tcp_client" where
  "SetConnectCallback cl = cl\<lparr>cl_connectedCb := True\<rparr>"

definition EINPROGRESS :: int where "EINPROGRESS = 115"

section \<open>Operations\<close>

definition active :: "tcp_client \<Rightarrow> bool" where
  "active cl \<longleftrightarrow> cl_status cl = kTcpConStatusConnecting \<or> cl_status cl = kTcpConStatusConnected"

definition TcpClient_OnClose :: "tcp_client \<Rightarrow> cl_event list \<times> tcp_client" where
  "TcpClient_OnClose cl =
     (let (evs, c) = OnClose (cl_conn cl)
      in ((if active cl then [Cl_del_channel] else []) @ map Conn evs,
          cl\<lparr>cl_status := kTcpConStatusDisConnected, cl_conn := c\<rparr>))"

text \<open>
  A method of the base class run on a connected client. When it closed the connection,
  \<open>TcpClient::OnClose\<close> ran in it: the channel is deleted just before the events of the close.
\<close>

definition closing :: "tc_event \<Rightarrow> bool" where
  "closing e \<longleftrightarrow> (case e of Close_cb \<Rightarrow> True | Closed_fd _ \<Rightarrow> True | _ \<Rightarrow> False)"

definition base_call :: "tc_event list \<times> tcp_conn \<Rightarrow> tcp_client \<Rightarrow> cl_event list \<times> tcp_client" where
  "base_call r cl =
     (if tc_isClosed (snd r) \<and> \<not> tc_isClosed (cl_conn cl) then
        (map Conn (takeWhile (\<lambda>e. \<not> closing e) (fst r)) @ Cl_del_channel # map Conn (dropWhile (\<lambda>e. \<not> closing e) (fst r)),
         cl\<lparr>cl_status := kTcpConStatusDisConnected, cl_conn := snd r\<rparr>)
      else (map Conn (fst r), cl\<lparr>cl_conn := snd r\<rparr>))"

definition UpdateConnectionStatus :: "tcp_client \<Rightarrow> cl_event list \<times> tcp_client" where
  "UpdateConnectionStatus cl =
     (if cl_connectedCb cl then [Connected_cb] else [], cl\<lparr>cl_status := kTcpConStatusConnected\<rparr>)"

definition set_fd :: "int \<Rightarrow> tcp_conn \<Rightarrow> tcp_conn" where
  "set_fd fd c = c\<lparr>tc_chan := (tc_chan c)\<lparr>ch_fd := fd\<rparr>\<rparr>"

definition add_channel :: "tcp_conn \<Rightarrow> tcp_conn" where
  "add_channel c = c\<lparr>tc_chan := with_reading True (tc_chan c)\<rparr>"

definition ConnectInLoop :: "int \<Rightarrow> int option \<Rightarrow> tcp_client \<Rightarrow> cl_event list \<times> tcp_client" where
  "ConnectInLoop fd r cl =
     (let cl1 = cl\<lparr>cl_conn := set_fd fd (cl_conn cl)\<rparr>
      in if fd < 0 then TcpClient_OnClose cl1
         else
           (let (evs1, c1) = EnableWriting True (add_channel (cl_conn cl1));
                (evs2, c2) = EnableCheckIdleTimeout 3 c1;
                cl2 = cl1\<lparr>cl_status := kTcpConStatusConnecting, cl_conn := c2\<rparr>;
                (evs3, cl3) = (case r of
                    None \<Rightarrow> UpdateConnectionStatus cl2
                  | Some err \<Rightarrow> if err \<noteq> EINPROGRESS then TcpClient_OnClose cl2 else ([], cl2))
            in ([Cl_socket fd, Cl_add_channel] @ map Conn (evs1 @ evs2) @ evs3, cl3)))"

definition connect_result :: "int \<Rightarrow> tcp_client \<Rightarrow> cl_event list \<times> tcp_client" where
  "connect_result so_error cl = (if so_error \<noteq> 0 then TcpClient_OnClose cl else UpdateConnectionStatus cl)"

type_synonym 'u client_result = "(cl_event list \<times> 'u \<times> tcp_client) result option"

definition TcpClient_OnRead :: "'u message_cb \<Rightarrow> (int + string) list \<Rightarrow> int \<Rightarrow> 'u \<Rightarrow> tcp_client \<Rightarrow> 'u client_result" where
  "TcpClient_OnRead cb rds so_error u cl =
     (if cl_status cl = kTcpConStatusConnecting then
        (let (evs, cl') = connect_result so_error cl in Some (Inr (evs, u, cl')))
      else if cl_status cl = kTcpConStatusConnected then
        map_option (\<lambda>r. bindR r (\<lambda>(evs, u', c'). let (es, cl') = base_call (evs, c') cl in Inr (es, u', cl')))
          (OnRead cb rds u (cl_conn cl))
      else Some (Inr ([], u, cl)))"

definition TcpClient_OnWrite :: "memory \<Rightarrow> (int + nat) list \<Rightarrow> int \<Rightarrow> 'u \<Rightarrow> tcp_client \<Rightarrow> 'u client_result" where
  "TcpClient_OnWrite mem ws so_error u cl =
     (if cl_status cl = kTcpConStatusConnecting then
        (let (evs, cl') = connect_result so_error cl in Some (Inr (evs, u, cl')))
      else if cl_status cl = kTcpConStatusConnected then
        map_option (\<lambda>r. bindR r (\<lambda>(evs, c', ws'). let (es, cl') = base_call (evs, c') cl in Inr (es, u, cl')))
          (OnWrite mem ws (cl_conn cl))
      else Some (Inr ([], u, cl)))"

definition TcpClient_Send :: "memory \<Rightarrow> nat \<Rightarrow> nat \<Rightarrow> int + nat \<Rightarrow> tcp_client \<Rightarrow> cl_event list \<times> tcp_client" where
  "TcpClient_Send mem buf sz w cl =
     (if cl_status cl = kTcpConStatusConnected then base_call (SendInLoop mem buf sz w (cl_conn cl)) cl else ([], cl))"

definition TcpClient_Send_list :: "(nat \<times> nat) list \<Rightarrow> tcp_client \<Rightarrow> cl_event list \<times> tcp_client" where
  "TcpClient_Send_list nodes cl =
     (if cl_status cl = kTcpConStatusConnected then base_call (SendInLoop_list nodes (cl_conn cl)) cl else ([], cl))"

text \<open>The destructor calls \<open>OnClose\<close>, which asks the dying object for a shared pointer to itself when
  its channel is in the loop; then the destructors of the base classes run. \<open>here\<close> says whether the
  destructor runs in the loop's thread.\<close>

definition TcpClient_destroy :: "bool \<Rightarrow> tcp_client \<Rightarrow> (cl_event list \<times> tcp_client) result" where
  "TcpClient_destroy here cl =
     (if active cl then Inl (Exception ''bad_weak_ptr'')
      else bindR (destroy_TcpConnection here (cl_conn cl)) (\<lambda>(evs, c).
             let (fd, ch) = Channel_Close (tc_chan c)
             in Inr (map Conn (evs @ (case fd of None \<Rightarrow> [] | Some d \<Rightarrow> [Closed_fd d])),
                  cl\<lparr>cl_status := kTcpConStatusDisConnected, cl_conn := c\<lparr>tc_chan := ch\<rparr>\<rparr>)))"

section \<open>Histories\<close>

text \<open>\<open>Op_cl_close\<close> stands for \<open>ForceClose\<close>, \<open>OnError\<close>, \<open>OnTimeout\<close> and a hang-up, which all call \<open>OnClose\<close>.\<close>

datatype client_op =
    Op_connect int "int option"
  | Op_cl_read "(int + string) list" int
  | Op_cl_write memory "(int + nat) list" int
  | Op_cl_send memory nat nat "int + nat"
  | Op_cl_list "(nat \<times> nat) list"
  | Op_cl_close

definition quiet_result :: "cl_event list \<times> tcp_client \<Rightarrow> 'u \<Rightarrow> 'u client_result" where
  "quiet_result r u = Some (Inr (fst r, u, snd r))"

fun client_step :: "'u message_cb \<Rightarrow> client_op \<Rightarrow> 'u \<Rightarrow> tcp_client \<Rightarrow> 'u client_result" where
  "client_step cb (Op_connect fd r) u cl = quiet_result (ConnectInLoop fd r cl) u"
| "client_step cb (Op_cl_read rds err) u cl = TcpClient_OnRead cb rds err u cl"
| "client_step cb (Op_cl_write mem ws err) u cl = TcpClient_OnWrite mem ws err u cl"
| "client_step cb (Op_cl_send mem buf n w) u cl = quiet_result (TcpClient_Send mem buf n w cl) u"
| "client_step cb (Op_cl_list nodes) u cl = quiet_result (TcpClient_Send_list nodes cl) u"
| "client_step cb Op_cl_close u cl = quiet_result (TcpClient_OnClose cl) u"

fun client_run :: "'u message_cb \<Rightarrow> client_op list \<Rightarrow> 'u \<Rightarrow> tcp_client \<Rightarrow> 'u client_result" where
  "client_run cb [] u cl = Some (Inr ([], u, cl))"
| "client_run cb (x # xs) u cl =
     (case client_step cb x u cl of
        None \<Rightarrow> None
      | Some (Inl e) \<Rightarrow> Some (Inl e)
      | Some (Inr (evs, u1, cl1)) \<Rightarrow>
          map_option (\<lambda>r. bindR r (\<lambda>(evs', u2, cl2). Inr (evs @ evs', u2, cl2))) (client_run cb xs u1 cl1))"


section \<open>The protocol of a client\<close>

text \<open>
  What a client may do in each phase: connect, be told it is connected, write and wait only while
  the channel is in the loop, and report and close only after the channel has been taken out.
  \<open>Init\<close> also stands for a client that has disconnected.
\<close>

definition phase :: "tcp_client \<Rightarrow> client_status" where
  "phase cl = (if active cl then cl_status cl else kTcpConStatusInit)"

fun allowed :: "client_status \<Rightarrow> cl_event \<Rightarrow> client_status option" where
  "allowed st (Cl_socket fd) = Some kTcpConStatusConnecting"
| "allowed st Cl_add_channel = (if st = kTcpConStatusConnecting then Some st else None)"
| "allowed st Connected_cb = (if st = kTcpConStatusConnecting then Some kTcpConStatusConnected else None)"
| "allowed st Cl_del_channel = (if st \<noteq> kTcpConStatusInit then Some kTcpConStatusInit else None)"
| "allowed st (Conn Close_cb) = (if st = kTcpConStatusInit then Some st else None)"
| "allowed st (Conn (Closed_fd fd)) = (if st = kTcpConStatusInit then Some st else None)"
| "allowed st (Conn (Wrote s)) = (if st = kTcpConStatusConnected then Some st else None)"
| "allowed st (Conn Write_complete_cb) = (if st = kTcpConStatusConnected then Some st else None)"
| "allowed st (Conn (Interest m)) = (if st \<noteq> kTcpConStatusInit then Some st else None)"
| "allowed st (Conn (Insert_entry n)) = (if st \<noteq> kTcpConStatusInit then Some st else None)"

fun monitor :: "client_status \<Rightarrow> cl_event list \<Rightarrow> client_status option" where
  "monitor st [] = Some st"
| "monitor st (e # es) = Option.bind (allowed st e) (\<lambda>st'. monitor st' es)"

lemma monitor_append: "monitor st (es @ fs) = Option.bind (monitor st es) (\<lambda>st'. monitor st' fs)"
  by (induction es arbitrary: st) (simp_all split: Option.bind_split)

lemma monitor_quiet: "quiet_run evs \<Longrightarrow> monitor kTcpConStatusConnected (map Conn evs) = Some kTcpConStatusConnected"
proof (induction evs)
  case (Cons e evs)
  then show ?case by (cases e) simp_all
qed simp

definition cl_inv :: "tcp_client \<Rightarrow> bool" where
  "cl_inv cl \<longleftrightarrow> tc_closeCb (cl_conn cl) \<and> cl_connectedCb cl \<and> (active cl \<longrightarrow> 0 < ch_fd (tc_chan (cl_conn cl)))"

text \<open>One step that respects the protocol.\<close>

definition step_ok :: "tcp_client \<Rightarrow> cl_event list \<times> tcp_client \<Rightarrow> bool" where
  "step_ok cl r \<longleftrightarrow> monitor (phase cl) (fst r) = Some (phase (snd r)) \<and> cl_inv (snd r)"

lemma close_step:
  assumes "cl_inv cl"
  shows "step_ok cl (TcpClient_OnClose cl)"
proof -
  have "monitor kTcpConStatusInit (map Conn (fst (OnClose c))) = Some kTcpConStatusInit" "tc_closeCb (snd (OnClose c)) = tc_closeCb c" for c
    by (auto simp: OnClose_def Channel_Close_def split: prod.splits option.splits)
  then show ?thesis using assms by (auto simp: step_ok_def TcpClient_OnClose_def phase_def active_def cl_inv_def split_beta)
qed

lemma quiet_not_closing: "quiet_run evs \<Longrightarrow> \<forall>e\<in>set evs. \<not> closing e"
proof (induction evs)
  case (Cons e evs)
  then show ?case by (cases e) (simp_all add: closing_def)
qed simp

lemma base_step:
  assumes inv: "cl_inv cl" and st: "cl_status cl = kTcpConStatusConnected"
    and r: "tc_isClosed (cl_conn cl) \<Longrightarrow> evs = [] \<and> c' = cl_conn cl" "live (cl_conn cl) \<Longrightarrow> close_spec (cl_conn cl) evs c'"
  shows "step_ok cl (base_call (evs, c') cl)"
proof (cases "tc_isClosed (cl_conn cl)")
  case True
  then have "base_call (evs, c') cl = ([], cl)" using r(1) by (simp add: base_call_def)
  then show ?thesis using inv by (simp add: step_ok_def)
next
  case False
  have l: "live (cl_conn cl)" using inv st False by (simp add: cl_inv_def live_def active_def)
  note spec = r(2) [OF l]
  have ph: "phase cl = kTcpConStatusConnected" using st by (simp add: phase_def active_def)
  show ?thesis
  proof (cases "tc_isClosed c'")
    case True
    then obtain pre fd where pre: "evs = pre @ [Close_cb, Closed_fd fd]" "quiet_run pre" using spec by (auto simp: close_spec_def)
    then have "takeWhile (\<lambda>e. \<not> closing e) evs = pre" "dropWhile (\<lambda>e. \<not> closing e) evs = [Close_cb, Closed_fd fd]"
      using quiet_not_closing [OF pre(2)] by (simp_all add: takeWhile_append dropWhile_append closing_def)
    then show ?thesis using True False monitor_quiet [OF pre(2)] spec inv ph
      by (simp add: step_ok_def base_call_def monitor_append cl_inv_def close_spec_def phase_def active_def)
  next
    case False
    then have "quiet_run evs" "live c'" using spec close_spec_live [OF spec _ l] by (simp_all add: close_spec_def)
    then show ?thesis using False monitor_quiet [of evs] inv ph st
      by (simp add: step_ok_def base_call_def cl_inv_def live_def phase_def active_def)
  qed
qed

lemma update_step: "cl_inv cl \<Longrightarrow> cl_status cl = kTcpConStatusConnecting \<Longrightarrow> step_ok cl (UpdateConnectionStatus cl)"
  by (simp add: step_ok_def UpdateConnectionStatus_def cl_inv_def phase_def active_def)

lemma result_step: "cl_inv cl \<Longrightarrow> cl_status cl = kTcpConStatusConnecting \<Longrightarrow> step_ok cl (connect_result err cl)"
  by (simp add: connect_result_def update_step close_step)

lemma connect_step:
  assumes inv: "cl_inv cl" and fd: "fd \<noteq> 0"
  shows "step_ok cl (ConnectInLoop fd r cl)"
proof (cases "fd < 0")
  case True
  let ?cl = "cl\<lparr>cl_conn := set_fd fd (cl_conn cl)\<rparr>"
  have ev: "monitor kTcpConStatusInit (map Conn (fst (OnClose c))) = Some kTcpConStatusInit" "tc_closeCb (snd (OnClose c)) = tc_closeCb c" for c
    by (auto simp: OnClose_def Channel_Close_def split: prod.splits option.splits)
  have "ConnectInLoop fd r cl = TcpClient_OnClose ?cl" using True by (simp add: ConnectInLoop_def)
  then show ?thesis using inv ev
    by (auto simp: step_ok_def TcpClient_OnClose_def phase_def active_def cl_inv_def set_fd_def split_beta)
next
  case False
  obtain c2 where c2: "c2 = snd (EnableCheckIdleTimeout 3 (snd (EnableWriting True (add_channel (set_fd fd (cl_conn cl))))))" by simp
  define cl2 where "cl2 = cl\<lparr>cl_status := kTcpConStatusConnecting, cl_conn := c2\<rparr>"
  obtain evs m where evs: "evs = [Cl_socket fd, Cl_add_channel, Conn (Interest m), Conn (Insert_entry 3)]"
    "ConnectInLoop fd r cl = (let (es, cl3) = (case r of None \<Rightarrow> UpdateConnectionStatus cl2
       | Some err \<Rightarrow> if err \<noteq> EINPROGRESS then TcpClient_OnClose cl2 else ([], cl2)) in (evs @ es, cl3))"
    using False by (cases r; cases "r = Some EINPROGRESS")
      (simp_all add: ConnectInLoop_def cl2_def c2 EnableWriting_def EnableCheckIdleTimeout_def Let_def split_beta)
  have inv2: "cl_inv cl2" "cl_status cl2 = kTcpConStatusConnecting"
    using inv fd False by (simp_all add: cl_inv_def cl2_def c2 EnableCheckIdleTimeout_def set_fd_def add_channel_def
        with_reading_def with_writing_def EnableWriting_def Let_def active_def)
  have first4: "monitor (phase cl) evs = Some (phase cl2)" using inv2(2) by (simp add: evs(1) phase_def active_def)
  have "step_ok cl2 (case r of None \<Rightarrow> UpdateConnectionStatus cl2
       | Some err \<Rightarrow> if err \<noteq> EINPROGRESS then TcpClient_OnClose cl2 else ([], cl2))"
    using update_step [OF inv2] close_step [OF inv2(1)] inv2(1) by (auto simp: step_ok_def split: option.split)
  then show ?thesis using first4 by (simp add: step_ok_def evs(2) split_beta monitor_append)
qed

definition client_op_ok :: "client_op \<Rightarrow> bool" where
  "client_op_ok x \<longleftrightarrow> (case x of Op_connect fd r \<Rightarrow> fd \<noteq> 0 | _ \<Rightarrow> True)"

context message_handler
begin

lemma client_step_ok:
  assumes inv: "cl_inv cl" and ok: "client_op_ok x" and r: "client_step cb x u cl = Some (Inr (evs, u', cl'))"
  shows "step_ok cl (evs, cl')"
proof (cases x)
  case (Op_connect fd r0)
  then show ?thesis using connect_step [OF inv, of fd r0] ok r by (auto simp: quiet_result_def client_op_ok_def)
next
  case (Op_cl_read rds err)
  show ?thesis
  proof (cases "cl_status cl = kTcpConStatusConnected")
    case True
    then obtain es c' where e: "OnRead cb rds u (cl_conn cl) = Some (Inr (es, u', c'))" "(evs, cl') = base_call (es, c') cl"
      using r Op_cl_read by (auto simp: TcpClient_OnRead_def bindR_eq_Inr_iff split_beta)
    show ?thesis unfolding e(2)
      by (rule base_step [OF inv True]) (use e(1) OnRead_spec [OF e(1)] in \<open>simp_all add: OnRead_def\<close>)
  next
    case False
    then show ?thesis using r Op_cl_read result_step [OF inv, of err] inv
      by (auto simp: TcpClient_OnRead_def step_ok_def split: if_splits prod.splits)
  qed
next
  case (Op_cl_write mem ws err)
  show ?thesis
  proof (cases "cl_status cl = kTcpConStatusConnected")
    case True
    then obtain es c' ws' where e: "OnWrite mem ws (cl_conn cl) = Some (Inr (es, c', ws'))" "(evs, cl') = base_call (es, c') cl"
      using r Op_cl_write by (auto simp: TcpClient_OnWrite_def bindR_eq_Inr_iff split_beta)
    show ?thesis unfolding e(2)
      by (rule base_step [OF inv True]) (use e(1) OnWrite_close_spec [OF e(1)] in \<open>simp_all add: OnWrite_def\<close>)
  next
    case False
    then show ?thesis using r Op_cl_write result_step [OF inv, of err] inv
      by (auto simp: TcpClient_OnWrite_def step_ok_def split: if_splits prod.splits)
  qed
next
  case (Op_cl_send mem buf n w)
  have "step_ok cl (base_call (fst (SendInLoop mem buf n w (cl_conn cl)), snd (SendInLoop mem buf n w (cl_conn cl))) cl)"
    if "cl_status cl = kTcpConStatusConnected"
    by (rule base_step [OF inv that]) (simp_all add: SendInLoop_close_spec, simp add: SendInLoop_def)
  then show ?thesis using r Op_cl_send inv by (auto simp: quiet_result_def TcpClient_Send_def step_ok_def split: if_splits)
next
  case (Op_cl_list nodes)
  have "step_ok cl (base_call (fst (SendInLoop_list nodes (cl_conn cl)), snd (SendInLoop_list nodes (cl_conn cl))) cl)"
    if "cl_status cl = kTcpConStatusConnected"
    by (rule base_step [OF inv that]) (simp_all add: SendInLoop_list_close_spec, simp add: SendInLoop_list_def)
  then show ?thesis using r Op_cl_list inv by (auto simp: quiet_result_def TcpClient_Send_list_def step_ok_def split: if_splits)
next
  case Op_cl_close
  then show ?thesis using close_step [OF inv] r by (auto simp: quiet_result_def)
qed

lemma client_run_ok:
  "client_run cb xs u cl = Some (Inr (evs, u', cl')) \<Longrightarrow> cl_inv cl \<Longrightarrow> list_all client_op_ok xs \<Longrightarrow>
     monitor (phase cl) evs = Some (phase cl') \<and> cl_inv cl'"
proof (induction xs arbitrary: u cl evs)
  case (Cons x xs)
  obtain es1 u1 cl1 es2 where s: "client_step cb x u cl = Some (Inr (es1, u1, cl1))" "client_run cb xs u1 cl1 = Some (Inr (es2, u', cl'))"
    "evs = es1 @ es2"
    using Cons.prems(1) by (auto simp: bindR_eq_Inr_iff split: option.splits sum.splits)
  have "step_ok cl (es1, cl1)" using client_step_ok [OF Cons.prems(2) _ s(1)] Cons.prems(3) by simp
  then show ?case using Cons.IH [OF s(2)] Cons.prems(3) s(3) by (simp add: step_ok_def monitor_append)
qed simp

end

text \<open>C10: over every history of a client (connecting, any number of times, reading, writing, sending,
  failing and closing, in any order and with any results) the calls come in the order of the
  protocol: the connect callback only while a connection is being made, at most once for each,
  bytes reach the wire only after it, and the close callback and the close of the descriptor come
  only after the channel was taken out of the loop; afterwards nothing is written any more until
  a new socket is made.\<close>

theorem client_protocol:
  assumes "message_handler cb" and "client_run cb ops u cl = Some (Inr (evs, u', cl'))" and "cl_inv cl" and "list_all client_op_ok ops"
  shows "monitor (phase cl) evs = Some (phase cl')"
  using message_handler.client_run_ok [OF assms] by (rule conjunct1)

definition sample_client :: tcp_client where
  "sample_client = (SetConnectCallback (new_TcpClient new_InetAddress))\<lparr>cl_conn := SetCloseCallback (new_TcpConnection (-1))\<rparr>"

definition sample_ops :: "client_op list" where
  "sample_ops = [Op_connect 5 (Some EINPROGRESS), Op_cl_send (memory_of ''hello'') 100 5 (Inr 5), Op_cl_write (memory_of ''hello'') [] 0,
     Op_cl_send (memory_of ''hello'') 100 5 (Inr 3), Op_cl_close]"

definition no_handler :: "unit message_cb" where
  "no_handler = api_handler (\<lambda>_. CHR ''x'') (\<lambda>u s. (u, length s, []))"

lemma no_handler_ok: "message_handler no_handler"
  unfolding no_handler_def by (rule api.message_handler_axioms)

lemma sample_ok: "cl_inv sample_client" "list_all client_op_ok sample_ops" "phase sample_client = kTcpConStatusInit"
  by (simp_all add: cl_inv_def sample_client_def SetConnectCallback_def new_TcpClient_def SetCloseCallback_def active_def
      client_op_ok_def sample_ops_def phase_def)

lemma sample_runs:
  "\<exists>evs cl'. client_run no_handler sample_ops () sample_client = Some (Inr (evs, (), cl')) \<and> Conn (Wrote ''hel'') \<in> set evs
    \<and> phase cl' = kTcpConStatusInit"
proof -
  have three: "mem_bytes (memory_of ''hello'') 100 3 = ''hel''"
    by (simp add: mem_bytes_def padd_def two64_def memory_of_def upt_conv_Cons)
  show ?thesis
    by (simp add: sample_ops_def sample_client_def SetConnectCallback_def new_TcpClient_def SetCloseCallback_def quiet_result_def
        ConnectInLoop_def set_fd_def add_channel_def EnableWriting_def EnableCheckIdleTimeout_def EINPROGRESS_def Let_def
        TcpClient_Send_def TcpClient_OnWrite_def connect_result_def UpdateConnectionStatus_def new_TcpConnection_def
        SendInLoop_def write_ret_def taken_def usub_def two64_def push_vec_def base_call_def TcpClient_OnClose_def OnClose_def active_def
        Channel_Close_def new_Channel_def with_writing_def with_reading_def phase_def three split: prod.splits)
qed

theorem client_protocol_witness:
  "\<exists>evs u' cl'. client_run no_handler sample_ops () sample_client = Some (Inr (evs, u', cl')) \<and>
     Conn (Wrote ''hel'') \<in> set evs \<and> monitor kTcpConStatusInit evs = Some kTcpConStatusInit"
proof -
  obtain evs cl' where r: "client_run no_handler sample_ops () sample_client = Some (Inr (evs, (), cl'))"
    "Conn (Wrote ''hel'') \<in> set evs" "phase cl' = kTcpConStatusInit" using sample_runs by blast
  show ?thesis using client_protocol [OF no_handler_ok r(1) sample_ok(1,2)] r sample_ok(3) by auto
qed


section \<open>Connecting again\<close>

fun dead_event :: "cl_event \<Rightarrow> bool" where
  "dead_event (Conn (Wrote s)) \<longleftrightarrow> False"
| "dead_event (Conn Write_complete_cb) \<longleftrightarrow> False"
| "dead_event (Conn Close_cb) \<longleftrightarrow> False"
| "dead_event (Conn (Closed_fd fd)) \<longleftrightarrow> False"
| "dead_event _ \<longleftrightarrow> True"

lemma closed_close: "tc_isClosed (cl_conn cl) \<Longrightarrow> TcpClient_OnClose cl =
    (if active cl then [Cl_del_channel] else [], cl\<lparr>cl_status := kTcpConStatusDisConnected\<rparr>)"
  by (simp add: TcpClient_OnClose_def OnClose_def)

lemma closed_result:
  assumes "tc_isClosed (cl_conn cl)"
  shows "list_all dead_event (fst (connect_result err cl))" "tc_isClosed (cl_conn (snd (connect_result err cl)))"
  using assms by (simp_all add: connect_result_def closed_close UpdateConnectionStatus_def)

lemma closed_connect:
  assumes "tc_isClosed (cl_conn cl)"
  shows "list_all dead_event (fst (ConnectInLoop fd r cl)) \<and> tc_isClosed (cl_conn (snd (ConnectInLoop fd r cl))) \<and>
    (0 \<le> fd \<and> r = None \<and> cl_connectedCb cl \<longrightarrow> Connected_cb \<in> set (fst (ConnectInLoop fd r cl)))"
  using assms by (cases r; cases "r = Some EINPROGRESS")
    (simp_all add: ConnectInLoop_def set_fd_def add_channel_def EnableWriting_def EnableCheckIdleTimeout_def Let_def split_beta
      closed_close UpdateConnectionStatus_def)

lemma closed_step:
  assumes "tc_isClosed (cl_conn cl)"
  shows "\<exists>evs cl'. client_step cb x u cl = Some (Inr (evs, u, cl')) \<and> list_all dead_event evs \<and> tc_isClosed (cl_conn cl')"
proof (cases x)
  case (Op_connect fd r)
  then show ?thesis using closed_connect [OF assms, of fd r] by (simp add: quiet_result_def)
next
  case (Op_cl_read rds err)
  then show ?thesis using assms closed_result [OF assms, of err]
    by (simp add: TcpClient_OnRead_def OnRead_def base_call_def split_beta)
next
  case (Op_cl_write mem ws err)
  then show ?thesis using assms closed_result [OF assms, of err]
    by (simp add: TcpClient_OnWrite_def OnWrite_def base_call_def split_beta)
next
  case (Op_cl_send mem buf n w)
  then show ?thesis using assms by (simp add: quiet_result_def TcpClient_Send_def SendInLoop_def base_call_def)
next
  case (Op_cl_list nodes)
  then show ?thesis using assms by (simp add: quiet_result_def TcpClient_Send_list_def SendInLoop_list_def base_call_def)
next
  case Op_cl_close
  then show ?thesis using assms by (simp add: quiet_result_def closed_close)
qed

lemma closed_run:
  "tc_isClosed (cl_conn cl) \<Longrightarrow>
     \<exists>evs cl'. client_run cb xs u cl = Some (Inr (evs, u, cl')) \<and> list_all dead_event evs \<and> tc_isClosed (cl_conn cl')"
proof (induction xs arbitrary: cl)
  case (Cons x xs)
  obtain es1 cl1 where 1: "client_step cb x u cl = Some (Inr (es1, u, cl1))" "list_all dead_event es1" "tc_isClosed (cl_conn cl1)"
    using closed_step [OF Cons.prems, of cb x u] by blast
  obtain es2 cl2 where 2: "client_run cb xs u cl1 = Some (Inr (es2, u, cl2))" "list_all dead_event es2" "tc_isClosed (cl_conn cl2)"
    using Cons.IH [OF 1(3)] by blast
  show ?case using 1 2 by simp
qed simp

text \<open>A client that has been closed once is dead: \<open>isClosed_\<close> is never reset. Connecting again makes
  a new socket and tells the owner that the connection is there, but whatever is done with it,
  nothing is read or written, no write completes, the close callback does not run, and the new
  descriptor is never closed.\<close>

theorem reconnect_dead:
  assumes "tc_isClosed (cl_conn cl)" and "cl_connectedCb cl" and "0 \<le> fd"
  shows "\<exists>evs cl'. client_run cb (Op_connect fd None # ops) u cl = Some (Inr (evs, u, cl')) \<and>
    Connected_cb \<in> set evs \<and> list_all dead_event evs \<and> tc_isClosed (cl_conn cl')"
proof -
  let ?r = "ConnectInLoop fd None cl"
  note c = closed_connect [OF assms(1), of fd None]
  obtain es2 cl2 where "client_run cb ops u (snd ?r) = Some (Inr (es2, u, cl2))" "list_all dead_event es2" "tc_isClosed (cl_conn cl2)"
    using closed_run [of "snd ?r" cb ops u] c by blast
  then show ?thesis using c assms(2,3) by (simp add: quiet_result_def)
qed

theorem reconnect_dead_witness:
  "\<exists>evs cl'. client_run no_handler (Op_connect 7 None # sample_ops) () (snd (TcpClient_OnClose sample_client)) = Some (Inr (evs, (), cl')) \<and>
    Connected_cb \<in> set evs \<and> list_all dead_event evs"
proof -
  have "tc_isClosed (cl_conn (snd (TcpClient_OnClose sample_client)))" "cl_connectedCb (snd (TcpClient_OnClose sample_client))"
    by (simp_all add: TcpClient_OnClose_def split_beta sample_client_def SetConnectCallback_def)
  from reconnect_dead [OF this, of 7 no_handler sample_ops "()"] show ?thesis by auto
qed

section \<open>Destruction\<close>

definition status_agrees :: "tcp_client \<Rightarrow> bool" where
  "status_agrees cl \<longleftrightarrow> (cl_status cl = kTcpConStatusDisConnected \<longrightarrow> tc_isClosed (cl_conn cl)) \<and>
     (cl_status cl = kTcpConStatusInit \<longrightarrow> \<not> tc_isClosed (cl_conn cl))"

lemma close_agrees: "status_agrees (snd (TcpClient_OnClose cl))"
  by (auto simp: status_agrees_def TcpClient_OnClose_def split_beta)

lemma connect_agrees: "status_agrees (snd (ConnectInLoop fd r cl))"
  using close_agrees by (auto simp: ConnectInLoop_def Let_def split_beta UpdateConnectionStatus_def status_agrees_def split: option.splits)

lemma result_agrees: "status_agrees (snd (connect_result err cl))"
  using close_agrees by (auto simp: connect_result_def UpdateConnectionStatus_def status_agrees_def)

lemma base_agrees: "cl_status cl = kTcpConStatusConnected \<Longrightarrow> status_agrees (snd (base_call r cl))"
  by (auto simp: base_call_def status_agrees_def)

lemma step_agrees:
  assumes "client_step cb x u cl = Some (Inr (evs, u', cl'))" and "status_agrees cl"
  shows "status_agrees cl'"
proof (cases x)
  case (Op_cl_read rds err)
  then show ?thesis using assms result_agrees [of err cl] base_agrees [of cl]
    by (auto simp: TcpClient_OnRead_def split_beta bindR_eq_Inr_iff split: if_splits)
next
  case (Op_cl_write mem ws err)
  then show ?thesis using assms result_agrees [of err cl] base_agrees [of cl]
    by (auto simp: TcpClient_OnWrite_def split_beta bindR_eq_Inr_iff split: if_splits)
next
  case (Op_cl_send mem buf n w)
  then show ?thesis using assms base_agrees [of cl "SendInLoop mem buf n w (cl_conn cl)"]
    by (auto simp: quiet_result_def TcpClient_Send_def split: if_splits)
next
  case (Op_cl_list nodes)
  then show ?thesis using assms base_agrees [of cl "SendInLoop_list nodes (cl_conn cl)"]
    by (auto simp: quiet_result_def TcpClient_Send_list_def split: if_splits)
qed (use assms close_agrees connect_agrees in \<open>auto simp: quiet_result_def\<close>)

lemma run_agrees:
  "client_run cb xs u cl = Some (Inr (evs, u', cl')) \<Longrightarrow> status_agrees cl \<Longrightarrow> status_agrees cl'"
proof (induction xs arbitrary: u cl evs)
  case (Cons x xs)
  then obtain es1 u1 cl1 es2 where s: "client_step cb x u cl = Some (Inr (es1, u1, cl1))" "client_run cb xs u1 cl1 = Some (Inr (es2, u', cl'))"
    by (auto simp: bindR_eq_Inr_iff split: option.splits sum.splits)
  show ?case by (rule Cons.IH [OF s(2) step_agrees [OF s(1) Cons.prems(2)]])
qed simp

text \<open>C33: after any history, a client with its callbacks set can be destroyed exactly when it has been
  closed: the destructor of a client that is connecting or connected, and of one that was never
  connected at all, ends the process with \<open>std::bad_weak_ptr\<close>. A closed one makes no call and closes
  at most its last descriptor. In any other thread than that of its loop no client can be destroyed.\<close>

theorem client_destroyed:
  assumes "message_handler cb" and "client_run cb ops u cl0 = Some (Inr (evs, u', cl))" and "cl_inv cl0" and "list_all client_op_ok ops"
    and "cl_status cl0 = kTcpConStatusInit" and "tc_isClosed (cl_conn cl0) = False"
  shows "isl (TcpClient_destroy False cl) \<and> (case TcpClient_destroy True cl of
      Inl e \<Rightarrow> e = Exception ''bad_weak_ptr'' \<and> cl_status cl \<noteq> kTcpConStatusDisConnected
    | Inr (evs, cl') \<Rightarrow> cl_status cl = kTcpConStatusDisConnected \<and>
        evs = (if 0 < ch_fd (tc_chan (cl_conn cl)) then [Conn (Closed_fd (ch_fd (tc_chan (cl_conn cl))))] else []) \<and>
        ch_fd (tc_chan (cl_conn cl')) \<le> 0)"
proof -
  have "status_agrees cl" using run_agrees [OF assms(2)] assms(5,6) by (simp add: status_agrees_def)
  moreover have "cl_inv cl" using message_handler.client_run_ok [OF assms(1-4)] by simp
  ultimately show ?thesis
    by (cases "cl_status cl") (auto simp: status_agrees_def TcpClient_destroy_def active_def cl_inv_def destroy_TcpConnection_def
        TcpConnection_OnClose_def AssertInLoopThread_def Channel_Close_def OnClose_def)
qed

theorem client_destroyed_witness:
  "\<exists>evs u' cl. client_run no_handler sample_ops () sample_client = Some (Inr (evs, u', cl)) \<and>
    (case TcpClient_destroy True cl of Inl e \<Rightarrow> cl_status cl \<noteq> kTcpConStatusDisConnected
     | Inr (evs, cl') \<Rightarrow> ch_fd (tc_chan (cl_conn cl')) \<le> 0)"
proof -
  obtain evs u' cl where r: "client_run no_handler sample_ops () sample_client = Some (Inr (evs, u', cl))"
    using sample_runs by blast
  show ?thesis using client_destroyed [OF no_handler_ok r sample_ok(1,2)] r
    by (auto simp: sample_client_def SetConnectCallback_def new_TcpClient_def SetCloseCallback_def new_TcpConnection_def split: sum.splits)
qed

end
