(* ===== verification/Connection.thy ===== *)
theory Connection
  imports InetAddress
begin

text \<open>
  \<open>src/network/net/Connection.{h,cpp}\<close>: what every connection carries besides its channel: the two
  addresses, the contexts by type, and the flag \<open>active_\<close> with its callback. A context that was
  reset is a null pointer in the map (\<open>Some None\<close>). \<open>Active\<close> called in the thread of the loop runs
  at once; from another thread it queues a function for the loop.
\<close>

section \<open>State\<close>

datatype context_type = kNormalContext | kRtmpContext | kHttpContext | kUserContext | kFlvContext

record 'x connection =
  cn_contexts :: "context_type \<Rightarrow> 'x option option"
  cn_activeCb :: bool
  cn_active :: bool
  cn_localAddr :: inet_address
  cn_peerAddr :: inet_address

definition new_Connection :: "inet_address \<Rightarrow> inet_address \<Rightarrow> 'x connection" where
  "new_Connection l p =
     \<lparr>cn_contexts = (\<lambda>_. None), cn_activeCb = False, cn_active = False, cn_localAddr = l, cn_peerAddr = p\<rparr>"

definition SetLocalAddr :: "inet_address \<Rightarrow> 'x connection \<Rightarrow> 'x connection" where
  "SetLocalAddr l c = c\<lparr>cn_localAddr := l\<rparr>"

definition SetPeerAddr :: "inet_address \<Rightarrow> 'x connection \<Rightarrow> 'x connection" where
  "SetPeerAddr p c = c\<lparr>cn_peerAddr := p\<rparr>"

definition SetContext :: "context_type \<Rightarrow> 'x option \<Rightarrow> 'x connection \<Rightarrow> 'x connection" where
  "SetContext t x c = c\<lparr>cn_contexts := (cn_contexts c)(t \<mapsto> x)\<rparr>"

definition GetContext :: "context_type \<Rightarrow> 'x connection \<Rightarrow> 'x option" where
  "GetContext t c = (case cn_contexts c t of None \<Rightarrow> None | Some x \<Rightarrow> x)"

definition ClearContext :: "context_type \<Rightarrow> 'x connection \<Rightarrow> 'x connection" where
  "ClearContext t c = c\<lparr>cn_contexts := (cn_contexts c)(t \<mapsto> None)\<rparr>"

definition ClearContext_all :: "'x connection \<Rightarrow> 'x connection" where
  "ClearContext_all c = c\<lparr>cn_contexts := (\<lambda>_. None)\<rparr>"

definition SetActiveCallback :: "'x connection \<Rightarrow> 'x connection" where
  "SetActiveCallback c = c\<lparr>cn_activeCb := True\<rparr>"

section \<open>Activation\<close>

text \<open>The function \<open>Active\<close> runs or queues; the number is how often it called \<open>activeCb_\<close>.\<close>

definition activate :: "'x connection \<Rightarrow> nat \<times> 'x connection" where
  "activate c = (if cn_activeCb c then 1 else 0, c\<lparr>cn_active := True\<rparr>)"

definition Deactive :: "'x connection \<Rightarrow> 'x connection" where
  "Deactive c = c\<lparr>cn_active := False\<rparr>"

text \<open>A connection with the number of its functions queued in the loop.\<close>

definition Active :: "bool \<Rightarrow> 'x connection \<times> nat \<Rightarrow> nat \<times> 'x connection \<times> nat" where
  "Active in_loop st =
     (case st of (c, queued) \<Rightarrow>
        if cn_active c then (0, c, queued)
        else if in_loop then (case activate c of (n, c') \<Rightarrow> (n, c', queued))
        else (0, c, queued + 1))"

fun run_queued :: "nat \<Rightarrow> 'x connection \<Rightarrow> nat \<times> 'x connection" where
  "run_queued 0 c = (0, c)"
| "run_queued (Suc k) c = (case activate c of (n, c1) \<Rightarrow> case run_queued k c1 of (m, c2) \<Rightarrow> (n + m, c2))"

datatype active_op = Op_active bool | Op_deactive | Op_round

fun active_step :: "active_op \<Rightarrow> 'x connection \<times> nat \<Rightarrow> nat \<times> 'x connection \<times> nat" where
  "active_step (Op_active b) st = Active b st"
| "active_step Op_deactive (c, q) = (0, Deactive c, q)"
| "active_step Op_round (c, q) = (case run_queued q c of (n, c') \<Rightarrow> (n, c', 0))"

fun active_run :: "active_op list \<Rightarrow> 'x connection \<times> nat \<Rightarrow> nat \<times> 'x connection \<times> nat" where
  "active_run [] st = (0, st)"
| "active_run (x # xs) st = (case active_step x st of (n, st1) \<Rightarrow> case active_run xs st1 of (m, st2) \<Rightarrow> (n + m, st2))"

section \<open>Properties\<close>

lemma context_store:
  "GetContext t (SetContext t' x c) = (if t = t' then x else GetContext t c)"
  "GetContext t (ClearContext t' c) = (if t = t' then None else GetContext t c)"
  "GetContext t (ClearContext_all c) = None"
  by (simp_all add: GetContext_def SetContext_def ClearContext_def ClearContext_all_def)

lemma run_queued_eq: "run_queued k c = (if k = 0 then (0, c) else (if cn_activeCb c then k else 0, c\<lparr>cn_active := True\<rparr>))"
  by (induction k arbitrary: c) (auto simp: activate_def)

lemma here_once:
  "list_all (\<lambda>x. x = Op_active True \<or> x = Op_round) ops \<Longrightarrow>
     active_run ops (c, 0) =
       (if cn_activeCb c \<and> \<not> cn_active c \<and> Op_active True \<in> set ops then 1 else 0,
        (if Op_active True \<in> set ops then c\<lparr>cn_active := True\<rparr> else c), 0)"
proof (induction ops arbitrary: c)
  case (Cons x xs)
  then show ?case by (cases "cn_active c") (auto simp: Active_def activate_def)
qed simp

lemma others_queue:
  "\<not> cn_active c \<Longrightarrow> active_run (replicate k (Op_active False)) (c, q) = (0, c, q + k)"
  by (induction k arbitrary: q) (simp_all add: Active_def)

lemma active_run_append: "active_run (xs @ ys) st =
  (case active_run xs st of (n, st1) \<Rightarrow> case active_run ys st1 of (m, st2) \<Rightarrow> (n + m, st2))"
  by (induction xs arbitrary: st) (simp_all split: prod.split)

text \<open>Activation in the thread of the loop calls the callback once, however often \<open>Active\<close> is called;
  but the flag is tested when \<open>Active\<close> is called and set when the queued function runs, so \<open>k\<close> calls
  from other threads before the next round of the loop call the callback \<open>k\<close> times.\<close>

theorem active_races:
  assumes "cn_activeCb c" and "\<not> cn_active c"
    and "list_all (\<lambda>x. x = Op_active True \<or> x = Op_round) ops" and "Op_active True \<in> set ops"
  shows "fst (active_run ops (c, 0)) = 1 \<and> fst (active_run (replicate k (Op_active False) @ [Op_round]) (c, 0)) = k"
  using assms others_queue [OF assms(2), of k 0] here_once [OF assms(3), of c]
  by (simp add: active_run_append run_queued_eq)

theorem active_races_witness:
  "fst (active_run [Op_active True, Op_round, Op_active True] (SetActiveCallback (new_Connection new_InetAddress new_InetAddress) :: unit connection, 0)) = 1 \<and>
   fst (active_run (replicate 3 (Op_active False) @ [Op_round]) (SetActiveCallback (new_Connection new_InetAddress new_InetAddress) :: unit connection, 0)) = 3"
  by (rule active_races) (simp_all add: SetActiveCallback_def new_Connection_def)

end
