(* ===== verification/Config.thy ===== *)
theory Config
  imports FileMgr InetAddress
begin

text \<open>
  \<open>src/base/Config.{h,cpp}\<close> and the start of \<open>src/main/main.cpp\<close>. The JSON library is not part of
  the sources: \<open>json_api\<close> holds the functions of \<open>Json::Value\<close> the code calls, on an unknown type of
  values; \<open>as_int\<close> and \<open>as_string\<close> may throw. A configuration file is the value its parser returned,
  or \<open>None\<close> when parsing failed. \<open>junk\<close> is the level an uninitialised \<open>LogInfo\<close> starts with.
\<close>

section \<open>State\<close>

record 'j json_api =
  js_member :: "'j \<Rightarrow> string \<Rightarrow> 'j"
  js_get :: "'j \<Rightarrow> string \<Rightarrow> 'j \<Rightarrow> 'j"
  js_text :: "string \<Rightarrow> 'j"
  js_isNull :: "'j \<Rightarrow> bool"
  js_isArray :: "'j \<Rightarrow> bool"
  js_elements :: "'j \<Rightarrow> 'j list"
  js_asString :: "'j \<Rightarrow> string result"
  js_asInt :: "'j \<Rightarrow> int result"

record log_info =
  li_level :: LogLevel
  li_path :: string
  li_name :: string
  li_rotate_type :: RotateType

record service_info =
  si_addr :: string
  si_port :: nat
  si_protocol :: string
  si_transport :: string

record config =
  cf_name :: string
  cf_cpuStart :: int
  cf_threadNums :: int
  cf_cpus :: int
  cf_logInfo :: "log_info option"
  cf_services :: "service_info list"

definition new_Config :: config where
  "new_Config = \<lparr>cf_name = [], cf_cpuStart = 0, cf_threadNums = 1, cf_cpus = 1, cf_logInfo = None, cf_services = []\<rparr>"

section \<open>Reading\<close>

definition read_string :: "'j json_api \<Rightarrow> 'j \<Rightarrow> string \<Rightarrow> (string \<Rightarrow> 'a \<Rightarrow> 'a) \<Rightarrow> 'a \<Rightarrow> 'a result" where
  "read_string js root key put x =
     (let v = js_member js root key in if js_isNull js v then Inr x else bindR (js_asString js v) (\<lambda>s. Inr (put s x)))"

definition read_int :: "'j json_api \<Rightarrow> 'j \<Rightarrow> string \<Rightarrow> (int \<Rightarrow> 'a \<Rightarrow> 'a) \<Rightarrow> 'a \<Rightarrow> 'a result" where
  "read_int js root key put x =
     (let v = js_member js root key in if js_isNull js v then Inr x else bindR (js_asInt js v) (\<lambda>n. Inr (put n x)))"

definition put_level :: "string \<Rightarrow> log_info \<Rightarrow> log_info" where
  "put_level level li =
     (if level = ''TRACE'' then li\<lparr>li_level := kTrace\<rparr>
      else if level = ''DEBUG'' then li\<lparr>li_level := kDebug\<rparr>
      else if level = ''INFO'' then li\<lparr>li_level := kInfo\<rparr>
      else if level = ''WARN'' then li\<lparr>li_level := kWarn\<rparr>
      else if level = ''ERROR'' then li\<lparr>li_level := kError\<rparr>
      else li)"

definition put_rotate :: "string \<Rightarrow> log_info \<Rightarrow> log_info" where
  "put_rotate rt li =
     (if rt = ''DAY'' then li\<lparr>li_rotate_type := kRotateDay\<rparr>
      else if rt = ''HOUR'' then li\<lparr>li_rotate_type := kRotateHour\<rparr>
      else li)"

definition ParseLogInfo :: "'j json_api \<Rightarrow> LogLevel \<Rightarrow> 'j \<Rightarrow> config \<Rightarrow> config result" where
  "ParseLogInfo js junk root cf =
     bindR (read_string js root ''level'' put_level \<lparr>li_level = junk, li_path = [], li_name = [], li_rotate_type = kRotateNone\<rparr>) (\<lambda>l1.
     bindR (read_string js root ''path'' (\<lambda>s l. l\<lparr>li_path := s\<rparr>) l1) (\<lambda>l2.
     bindR (read_string js root ''name'' (\<lambda>s l. l\<lparr>li_name := s\<rparr>) l2) (\<lambda>l3.
     bindR (read_string js root ''rotate'' put_rotate l3) (\<lambda>l4. Inr (cf\<lparr>cf_logInfo := Some l4\<rparr>)))))"

definition read_service :: "'j json_api \<Rightarrow> 'j \<Rightarrow> service_info result" where
  "read_service js s =
     bindR (js_asString js (js_get js s ''addr'' (js_text js ''0.0.0.0''))) (\<lambda>a.
     bindR (js_asInt js (js_get js s ''port'' (js_text js ''0''))) (\<lambda>p.
     bindR (js_asString js (js_get js s ''protocol'' (js_text js ''rtmp''))) (\<lambda>pr.
     bindR (js_asString js (js_get js s ''transport'' (js_text js ''tcp''))) (\<lambda>t.
       Inr \<lparr>si_addr = a, si_port = to_uint16 p, si_protocol = pr, si_transport = t\<rparr>))))"

fun read_services :: "'j json_api \<Rightarrow> 'j list \<Rightarrow> config \<Rightarrow> config result" where
  "read_services js [] cf = Inr cf"
| "read_services js (s # ss) cf =
     bindR (read_service js s) (\<lambda>i. read_services js ss (cf\<lparr>cf_services := cf_services cf @ [i]\<rparr>))"

definition ParseServiceInfo :: "'j json_api \<Rightarrow> 'j \<Rightarrow> config \<Rightarrow> (bool \<times> config) result" where
  "ParseServiceInfo js v cf =
     (if js_isNull js v \<or> \<not> js_isArray js v then Inr (False, cf)
      else bindR (read_services js (js_elements js v) cf) (\<lambda>cf'. Inr (True, cf')))"

definition Config_LoadConfig :: "'j json_api \<Rightarrow> LogLevel \<Rightarrow> 'j option \<Rightarrow> config \<Rightarrow> (bool \<times> config) result" where
  "Config_LoadConfig js junk file cf =
     (case file of
        None \<Rightarrow> Inr (False, cf)
      | Some root \<Rightarrow>
          bindR (read_string js root ''name'' (\<lambda>s c. c\<lparr>cf_name := s\<rparr>) cf) (\<lambda>c1.
          bindR (read_int js root ''cpu_start'' (\<lambda>n c. c\<lparr>cf_cpuStart := n\<rparr>) c1) (\<lambda>c2.
          bindR (read_int js root ''cpus'' (\<lambda>n c. c\<lparr>cf_cpus := n\<rparr>) c2) (\<lambda>c3.
          bindR (read_int js root ''threads'' (\<lambda>n c. c\<lparr>cf_threadNums := n\<rparr>) c3) (\<lambda>c4.
          bindR (let l = js_member js root ''log'' in if js_isNull js l then Inr c4 else ParseLogInfo js junk l c4) (\<lambda>c5.
            ParseServiceInfo js (js_member js root ''services'') c5))))))"

definition GetServiceInfo :: "string \<Rightarrow> string \<Rightarrow> config \<Rightarrow> service_info option" where
  "GetServiceInfo protocol transport cf =
     find (\<lambda>s. si_protocol s = protocol \<and> si_transport s = transport) (cf_services cf)"

text \<open>The manager keeps its old configuration when loading fails.\<close>

definition ConfigMgr_LoadConfig :: "'j json_api \<Rightarrow> LogLevel \<Rightarrow> 'j option \<Rightarrow> config option \<Rightarrow> (bool \<times> config option) result" where
  "ConfigMgr_LoadConfig js junk file old =
     bindR (Config_LoadConfig js junk file new_Config) (\<lambda>(ok, cf). Inr (if ok then (True, Some cf) else (False, old)))"

section \<open>The start of the program\<close>

text \<open>\<open>main\<close> up to its loop: the exit status, or the state with the logger it has set up.\<close>

definition main_start :: "'j json_api \<Rightarrow> LogLevel \<Rightarrow> (string \<Rightarrow> bool) \<Rightarrow> 'j option \<Rightarrow> file_mgr \<Rightarrow> (int + config \<times> logger \<times> file_mgr) result" where
  "main_start js junk can file fm =
     bindR (ConfigMgr_LoadConfig js junk file None) (\<lambda>(ok, cf).
       if \<not> ok then Inr (Inl (-1))
       else
         (case cf of
            None \<Rightarrow> Inl Null_deref
          | Some c \<Rightarrow>
              (case cf_logInfo c of
                 None \<Rightarrow> Inl Null_deref
               | Some li \<Rightarrow>
                   (case GetFileLog can (li_path li @ li_name li) fm of
                      (None, fm') \<Rightarrow> Inr (Inl (-1))
                    | (Some n, fm') \<Rightarrow>
                        (let fm2 = fm'\<lparr>fm_objs := (fm_objs fm')(n := SetRotate (li_rotate_type li) (fm_objs fm' n))\<rparr>
                         in Inr (Inr (c, (new_Logger (Some n))\<lparr>lo_level := li_level li\<rparr>, fm2)))))))"

section \<open>Properties\<close>

lemma read_services_result:
  "read_services js ss cf = Inr cf' \<Longrightarrow> \<exists>is. cf' = cf\<lparr>cf_services := cf_services cf @ is\<rparr> \<and> list_all2 (\<lambda>s i. read_service js s = Inr i) ss is"
proof (induction ss arbitrary: cf)
  case (Cons s ss)
  obtain i where i: "read_service js s = Inr i" "read_services js ss (cf\<lparr>cf_services := cf_services cf @ [i]\<rparr>) = Inr cf'"
    using Cons.prems by (auto simp: bindR_eq_Inr_iff)
  from Cons.IH [OF i(2)] obtain js' where "cf' = cf\<lparr>cf_services := cf_services cf @ i # js'\<rparr>" "list_all2 (\<lambda>s i. read_service js s = Inr i) ss js'"
    by auto
  then show ?case using i(1) by (intro exI [of _ "i # js'"]) simp
qed simp

lemma read_services_throws:
  "x \<in> set ss \<Longrightarrow> read_service js x = Inl e \<Longrightarrow> \<exists>e'. read_services js ss cf = Inl e'"
proof (induction ss arbitrary: cf)
  case (Cons s ss)
  then show ?case by (cases "read_service js s") auto
qed simp

text \<open>A service without a port stops the program with an exception: the default of the port is the
  text \<open>"0"\<close>, which \<open>asInt\<close> refuses (a text is not converted to a number); and a configuration
  without a log section loads, but the start of the program then dereferences the null pointer.\<close>

theorem incomplete_configs:
  assumes int_of_text: "\<And>s. js_asInt js (js_text js s) = Inl e" and default: "js_get js v ''port'' (js_text js ''0'') = js_text js ''0''"
    and v: "v \<in> set (js_elements js (js_member js root ''services''))"
    and services: "js_isNull js (js_member js root ''services'') = False" "js_isArray js (js_member js root ''services'') = True"
    and nolog: "js_isNull js (js_member js root2 ''log'')" and ok: "Config_LoadConfig js junk (Some root2) new_Config = Inr (True, cf)"
  shows "isl (main_start js junk can (Some root) fm) = True \<and> main_start js junk can (Some root2) fm = Inl Null_deref"
proof -
  have "\<exists>e'. read_service js v = Inl e'" using int_of_text default
    by (cases "js_asString js (js_get js v ''addr'' (js_text js ''0.0.0.0''))") (simp_all add: read_service_def)
  then obtain e1 where e1: "read_service js v = Inl e1" by blast
  have "\<exists>e'. ParseServiceInfo js (js_member js root ''services'') c = Inl e'" for c
    using read_services_throws [OF v e1, of c] services by (auto simp: ParseServiceInfo_def)
  then have p: "isl (ParseServiceInfo js (js_member js root ''services'') c)" for c by (metis isl_def)
  have bind: "isl (bindR r f)" if "\<And>x. isl (f x)" for r :: "'b result" and f :: "'b \<Rightarrow> 'c result"
    using that by (cases r) simp_all
  have "isl (Config_LoadConfig js junk (Some root) new_Config)" by (simp add: Config_LoadConfig_def bind p)
  then obtain e2 where "Config_LoadConfig js junk (Some root) new_Config = Inl e2" by (auto simp: isl_def)
  then have 1: "isl (main_start js junk can (Some root) fm)" by (simp add: main_start_def ConfigMgr_LoadConfig_def)
  have "cf_logInfo cf = None"
    using ok nolog by (auto simp: Config_LoadConfig_def bindR_eq_Inr_iff ParseServiceInfo_def read_string_def read_int_def new_Config_def Let_def
        split: if_splits dest!: read_services_result)
  then have 2: "main_start js junk can (Some root2) fm = Inl Null_deref" using ok by (simp add: main_start_def ConfigMgr_LoadConfig_def)
  show ?thesis using 1 2 by simp
qed

text \<open>A small JSON: null, numbers, texts, arrays and objects.\<close>

datatype json = J_null | J_int int | J_text string | J_array "json list" | J_object "(string \<times> json) list"

definition small_json :: "json json_api" where
  "small_json =
     \<lparr>js_member = (\<lambda>v k. case v of J_object m \<Rightarrow> (case map_of m k of Some w \<Rightarrow> w | None \<Rightarrow> J_null) | _ \<Rightarrow> J_null),
      js_get = (\<lambda>v k d. case v of J_object m \<Rightarrow> (case map_of m k of Some w \<Rightarrow> w | None \<Rightarrow> d) | _ \<Rightarrow> d),
      js_text = J_text, js_isNull = (\<lambda>v. v = J_null), js_isArray = (\<lambda>v. case v of J_array _ \<Rightarrow> True | _ \<Rightarrow> False),
      js_elements = (\<lambda>v. case v of J_array xs \<Rightarrow> xs | _ \<Rightarrow> []),
      js_asString = (\<lambda>v. case v of J_text s \<Rightarrow> Inr s | _ \<Rightarrow> Inl (Exception ''LogicError'')),
      js_asInt = (\<lambda>v. case v of J_int n \<Rightarrow> Inr n | _ \<Rightarrow> Inl (Exception ''LogicError''))\<rparr>"

definition empty_mgr :: file_mgr where
  "empty_mgr = \<lparr>fm_logs = [], fm_objs = (\<lambda>_. new_FileLog), fm_next = 0, fm_fs = \<lparr>fs_dir = (\<lambda>_. None), fs_data = (\<lambda>_. []), fs_next = 0\<rparr>, fm_last = None\<rparr>"

theorem incomplete_configs_witness:
  "isl (main_start small_json kInfo (\<lambda>_. True) (Some (J_object [(''services'', J_array [J_object [(''protocol'', J_text ''http'')]])])) empty_mgr) = True
   \<and> main_start small_json kInfo (\<lambda>_. True) (Some (J_object [(''services'', J_array [])])) empty_mgr = Inl Null_deref"
  by (rule incomplete_configs [where v = "J_object [(''protocol'', J_text ''http'')]" and e = "Exception ''LogicError''" and cf = new_Config])
    (simp_all add: small_json_def Config_LoadConfig_def read_string_def read_int_def ParseServiceInfo_def)

lemma started_log:
  assumes "main_start js junk can file fm = Inr (Inr (c, lo, fm'))" and "fm_logs fm = []"
  shows "\<exists>li n. cf_logInfo c = Some li \<and> lo_fileLog lo = Some n \<and> lo_level lo = li_level li \<and>
    map_of (fm_logs fm') (li_path li @ li_name li) = Some n \<and> fl_rotateType (fm_objs fm' n) = li_rotate_type li \<and>
    fl_filePath (fm_objs fm' n) = li_path li @ li_name li"
  using assms by (auto simp: main_start_def bindR_eq_Inr_iff GetFileLog_def SetRotate_def new_Logger_def FileLog_Open_def
      update_conv split: if_splits option.splits prod.splits)

end
