(* ===== verification/ServiceStart.thy ===== *)
theory ServiceStart
  imports HttpServer EventLoop Config
begin

text \<open>
  \<open>HttpService::Start\<close> of \<open>src/http/sample/HttpService.cpp\<close>, called by \<open>main\<close>: a pool of loops with one
  HTTP server per loop and configured HTTP service. Starting a server posts the opening of its
  acceptor to the loop of the server. A loop is here the pair of the loop and its acceptors;
  servers are numbered in the order of \<open>servers_\<close>, acceptor \<open>k\<close> of server \<open>k\<close> is channel \<open>k + 1\<close> and
  gets descriptor \<open>fds k\<close>, channel 0 is the pipe of the loop, made with \<open>np\<close>. The sockets of the
  process are one table, which a loop finds as the other loops have left it (\<open>with_sockets\<close>).
\<close>

section \<open>Starting the service\<close>

type_synonym service_loop = "(nat, nat \<Rightarrow> acceptor) loop_state"

record http_service =
  hs_servers :: "(nat \<times> inet_address) list"
  hs_loops :: "nat \<Rightarrow> service_loop"

text \<open>The function a server posts: \<open>Acceptor::Open\<close>, in the loop's thread.\<close>

definition open_server :: "(nat \<Rightarrow> int) \<Rightarrow> nat \<Rightarrow> service_loop \<Rightarrow> service_loop result" where
  "open_server fds k s =
     (case s of (lp, acc) \<Rightarrow>
        bindR (Acceptor_Open (fds k) (acc k, el_ep lp)) (\<lambda>(a, ep). Inr (lp\<lparr>el_ep := ep\<rparr>, acc(k := a))))"

definition is_http :: "service_info \<Rightarrow> bool" where
  "is_http s \<longleftrightarrow> si_protocol s = ''HTTP'' \<or> si_protocol s = ''http''"

definition service_address :: "service_info \<Rightarrow> inet_address" where
  "service_address s = InetAddress_port (si_addr s) (si_port s) False"

text \<open>The body of the inner loop: a new server in loop \<open>el\<close>, started from the main thread.\<close>

definition start_server :: "(nat \<Rightarrow> int) \<Rightarrow> (nat \<Rightarrow> new_pipe) \<Rightarrow> nat \<Rightarrow> service_info \<Rightarrow> http_service \<Rightarrow> http_service result" where
  "start_server fds np el s hs =
     (let k = length (hs_servers hs); addr = service_address s; (lp, acc) = hs_loops hs el;
          acc1 = acc(k := SetAcceptCallback (new_Acceptor (k + 1) addr))
      in bindR (RunInLoop (open_server fds) False k (np el) (lp, acc1)) (\<lambda>l.
           Inr (hs\<lparr>hs_servers := hs_servers hs @ [(el, addr)], hs_loops := (hs_loops hs)(el := l)\<rparr>)))"

fun start_services :: "(nat \<Rightarrow> int) \<Rightarrow> (nat \<Rightarrow> new_pipe) \<Rightarrow> nat \<Rightarrow> service_info list \<Rightarrow> http_service \<Rightarrow> http_service result" where
  "start_services fds np el [] hs = Inr hs"
| "start_services fds np el (s # ss) hs =
     bindR (if is_http s then start_server fds np el s hs else Inr hs) (start_services fds np el ss)"

fun start_loops :: "(nat \<Rightarrow> int) \<Rightarrow> (nat \<Rightarrow> new_pipe) \<Rightarrow> service_info list \<Rightarrow> nat list \<Rightarrow> http_service \<Rightarrow> http_service result" where
  "start_loops fds np ss [] hs = Inr hs"
| "start_loops fds np ss (el # els) hs = bindR (start_services fds np el ss hs) (start_loops fds np ss els)"

definition no_acceptors :: "nat \<Rightarrow> acceptor" where
  "no_acceptors k = new_Acceptor (k + 1) new_InetAddress"

definition HttpService_Start :: "(nat \<Rightarrow> int) \<Rightarrow> (nat \<Rightarrow> new_pipe) \<Rightarrow> config \<Rightarrow> http_service result" where
  "HttpService_Start fds np cf =
     start_loops fds np (cf_services cf) [0..<lp_size (new_EventLoopThreadPool (cf_threadNums cf))]
       \<lparr>hs_servers = [], hs_loops = (\<lambda>el. (new_EventLoop, no_acceptors))\<rparr>"

section \<open>What is posted\<close>

text \<open>A loop that nothing was done to but posting \<open>ks\<close>.\<close>

definition posted_only :: "new_pipe \<Rightarrow> nat list \<Rightarrow> nat event_loop \<Rightarrow> bool" where
  "posted_only np ks lp \<longleftrightarrow> loop_inv lp \<and> el_fns lp = ks \<and> (el_pipe lp = None \<longrightarrow> el_ep lp = new_Epoller 1024) \<and>
     (\<forall>c. c \<noteq> 0 \<longrightarrow> chan_fd c (el_ep lp) = -1) \<and> (\<forall>x. k_open (el_ep lp) x \<longrightarrow> x \<in> set (pipe_fds np))"

definition usable_pipe :: "new_pipe \<Rightarrow> bool" where
  "usable_pipe np \<longleftrightarrow> fresh_pipe np (new_Epoller 1024) \<and> snd np = 0"

lemma posted_only_new: "posted_only np [] new_EventLoop"
  by (simp add: posted_only_def new_EventLoop_def loop_inv_def new_in_sync)
    (simp add: new_Epoller_def chan_fd_def new_Channel_def)

lemma post_one:
  assumes p: "posted_only np ks lp" and u: "usable_pipe np"
  shows "\<exists>lp'. WakeUp np (lp\<lparr>el_fns := ks @ [k]\<rparr>) = Inr lp' \<and> posted_only np (ks @ [k]) lp'"
proof (cases "el_pipe lp")
  case None
  then have f: "fresh_pipe np (el_ep lp)" and i: "loop_inv lp" and c: "snd np = 0" using p u by (simp_all add: posted_only_def usable_pipe_def)
  obtain lp' where w: "WakeUp np (lp\<lparr>el_fns := ks @ [k]\<rparr>) = Inr lp'" "el_fns lp' = ks @ [k]" "loop_inv lp'" "el_pipe lp' \<noteq> None"
    "\<forall>c. c \<noteq> snd np \<longrightarrow> chan_fd c (el_ep lp') = chan_fd c (el_ep lp)"
    "\<forall>x. k_open (el_ep lp') x \<longrightarrow> k_open (el_ep lp) x \<or> x \<in> set (pipe_fds np)" using WakeUp_first [OF i f None, of "ks @ [k]"] by blast
  have "\<forall>x. k_open (el_ep lp') x \<longrightarrow> x \<in> set (pipe_fds np)" using w(6) p unfolding posted_only_def by blast
  then have "posted_only np (ks @ [k]) lp'" using w c p by (auto simp: posted_only_def)
  then show ?thesis using w(1) by blast
next
  case (Some pe)
  from WakeUp_again [OF _ this, of np "ks @ [k]"] p show ?thesis by (auto simp: posted_only_def)
qed

definition own_servers :: "nat \<Rightarrow> (nat \<times> inet_address) list \<Rightarrow> nat list" where
  "own_servers el svs = filter (\<lambda>k. fst (svs ! k) = el) [0..<length svs]"

definition ready_acceptor :: "nat \<Rightarrow> inet_address \<Rightarrow> acceptor" where
  "ready_acceptor k addr = SetAcceptCallback (new_Acceptor (k + 1) addr)"

text \<open>Each loop has the openings of its own servers to run, on acceptors that are ready for it.\<close>

definition service_ok :: "(nat \<Rightarrow> new_pipe) \<Rightarrow> http_service \<Rightarrow> bool" where
  "service_ok np hs \<longleftrightarrow> (\<forall>el. posted_only (np el) (own_servers el (hs_servers hs)) (fst (hs_loops hs el)) \<and>
     (\<forall>k\<in>set (own_servers el (hs_servers hs)). snd (hs_loops hs el) k = ready_acceptor k (snd (hs_servers hs ! k))))"

lemma own_servers_snoc: "own_servers el (svs @ [(e, a)]) = own_servers el svs @ (if e = el then [length svs] else [])"
proof -
  have "filter (\<lambda>k. fst ((svs @ [(e, a)]) ! k) = el) [0..<length svs] = filter (\<lambda>k. fst (svs ! k) = el) [0..<length svs]"
    by (rule filter_cong) (simp_all add: nth_append)
  then show ?thesis by (simp add: own_servers_def)
qed

lemma own_servers_in: "k \<in> set (own_servers el svs) \<longleftrightarrow> k < length svs \<and> fst (svs ! k) = el"
  by (auto simp: own_servers_def)

lemma start_server_ok:
  assumes ok: "service_ok np hs" and u: "\<And>el. usable_pipe (np el)"
  shows "\<exists>hs'. start_server fds np el s hs = Inr hs' \<and> service_ok np hs' \<and>
    hs_servers hs' = hs_servers hs @ [(el, service_address s)]"
proof -
  let ?k = "length (hs_servers hs)" and ?addr = "service_address s"
  obtain lp acc where l: "hs_loops hs el = (lp, acc)" by (cases "hs_loops hs el")
  have p: "posted_only (np el) (own_servers el (hs_servers hs)) lp" using ok l by (simp add: service_ok_def) (metis fst_conv)
  obtain lp' where w: "WakeUp (np el) (lp\<lparr>el_fns := own_servers el (hs_servers hs) @ [?k]\<rparr>) = Inr lp'"
    "posted_only (np el) (own_servers el (hs_servers hs) @ [?k]) lp'" using post_one [OF p u] by blast
  let ?hs = "hs\<lparr>hs_servers := hs_servers hs @ [(el, ?addr)],
    hs_loops := (hs_loops hs)(el := (lp', acc(?k := ready_acceptor ?k ?addr)))\<rparr>"
  have "start_server fds np el s hs = Inr ?hs"
    using w(1) p by (simp add: start_server_def l Let_def RunInLoop_def ready_acceptor_def posted_only_def)
  moreover have "service_ok np ?hs"
    unfolding service_ok_def
  proof (intro allI)
    fix e
    have o: "own_servers e (hs_servers ?hs) = own_servers e (hs_servers hs) @ (if el = e then [?k] else [])"
      by (simp add: own_servers_snoc)
    have old: "posted_only (np e) (own_servers e (hs_servers hs)) (fst (hs_loops hs e))"
      "\<And>k. k \<in> set (own_servers e (hs_servers hs)) \<Longrightarrow>
        k < ?k \<and> snd (hs_loops hs e) k = ready_acceptor k (snd (hs_servers hs ! k))"
      using ok by (simp_all add: service_ok_def own_servers_in)
    show "posted_only (np e) (own_servers e (hs_servers ?hs)) (fst (hs_loops ?hs e)) \<and>
      (\<forall>k\<in>set (own_servers e (hs_servers ?hs)). snd (hs_loops ?hs e) k = ready_acceptor k (snd (hs_servers ?hs ! k)))"
    proof (cases "e = el")
      case True
      then show ?thesis using w(2) old(2) l unfolding o by (auto simp: nth_append)
    next
      case False
      then show ?thesis using old unfolding o by (simp add: nth_append)
    qed
  qed
  ultimately show ?thesis by auto
qed

lemma start_services_ok:
  assumes u: "\<And>el. usable_pipe (np el)"
  shows "service_ok np hs \<Longrightarrow> \<exists>hs'. start_services fds np el ss hs = Inr hs' \<and> service_ok np hs' \<and>
    hs_servers hs' = hs_servers hs @ map (\<lambda>s. (el, service_address s)) (filter is_http ss)"
proof (induction ss arbitrary: hs)
  case (Cons s ss)
  show ?case
  proof (cases "is_http s")
    case True
    obtain h1 where h1: "start_server fds np el s hs = Inr h1" "service_ok np h1" "hs_servers h1 = hs_servers hs @ [(el, service_address s)]"
      using start_server_ok [OF Cons.prems u] by blast
    from Cons.IH [OF h1(2)] h1 True show ?thesis by auto
  qed (use Cons in auto)
qed simp

lemma start_loops_ok:
  assumes u: "\<And>el. usable_pipe (np el)"
  shows "service_ok np hs \<Longrightarrow> \<exists>hs'. start_loops fds np ss els hs = Inr hs' \<and> service_ok np hs' \<and>
    hs_servers hs' = hs_servers hs @ List.product els (map service_address (filter is_http ss))"
proof (induction els arbitrary: hs)
  case (Cons el els)
  obtain h1 where h1: "start_services fds np el ss hs = Inr h1" "service_ok np h1"
    "hs_servers h1 = hs_servers hs @ map (\<lambda>s. (el, service_address s)) (filter is_http ss)"
    using start_services_ok [OF u Cons.prems] by blast
  from Cons.IH [OF h1(2)] h1 show ?case by (auto simp: comp_def)
qed simp

section \<open>What the loops then do\<close>

definition with_sockets :: "sock_table \<Rightarrow> service_loop \<Rightarrow> service_loop" where
  "with_sockets t s = (case s of (lp, acc) \<Rightarrow> (lp\<lparr>el_ep := (el_ep lp)\<lparr>k_socks := t\<rparr>\<rparr>, acc))"

lemma accepting_frame:
  assumes "accepting (a, ep) fd" and "in_sync ep'" and "ep_store ep' (ac_id a) = ep_store ep (ac_id a)" and "ep_channels ep' fd = ep_channels ep fd"
    and "map_of (k_socks ep') fd = map_of (k_socks ep) fd"
  shows "accepting (a, ep') fd"
proof -
  have l: "in_sync ep" "ac_socketOpt a" "chan_fd (ac_id a) ep = fd" "ep_channels ep fd = Some (ac_id a)" "\<exists>m. k_interest ep fd = Some m \<and> bit m 0"
    using assms(1) by (simp_all add: accepting_def listening_def)
  have "ep_channels ep' fd = Some (ac_id a)" using l(4) assms(4) by simp
  from in_syncD(1) [OF assms(2) this] in_syncD(1) [OF l(1,4)] l assms show ?thesis by (simp add: accepting_def listening_def chan_fd_def)
qed

definition opened :: "(nat \<Rightarrow> int) \<Rightarrow> (nat \<times> inet_address) list \<Rightarrow> nat \<Rightarrow> service_loop \<Rightarrow> bool" where
  "opened fds svs k s \<longleftrightarrow> (case s of (lp, acc) \<Rightarrow>
     accepting (acc k, el_ep lp) (fds k) \<and> ac_id (acc k) = k + 1 \<and> ac_acceptCb (acc k) \<and> ac_addr (acc k) = snd (svs ! k))"

text \<open>The address of server \<open>k\<close>.\<close>

definition server_bind :: "(nat \<times> inet_address) list \<Rightarrow> nat \<Rightarrow> sock_addr" where
  "server_bind svs k = GetSockAddr inet_pton6 (snd (svs ! k))"

text \<open>A socket that shares its port keeps no address to itself.\<close>

lemma shareable_listener:
  assumes "shareable sa t" and "map_of t' = (map_of t)(fd \<mapsto> listener v6 sa')" and "distinct (map fst t')"
  shows "shareable sa t'"
  using assms by (auto simp: shareable_def may_share_def listener_def)

lemma open_servers:
  assumes fds: "\<And>k. 0 < fds k" "inj fds" "\<And>k. fds k \<notin> F"
  shows "in_sync (el_ep lp) \<Longrightarrow> distinct (pre @ ks) \<Longrightarrow> \<forall>k\<in>set pre. opened fds svs k (lp, acc) \<Longrightarrow>
    \<forall>k\<in>set ks. acc k = ready_acceptor k (snd (svs ! k)) \<and> chan_fd (k + 1) (el_ep lp) = -1 \<Longrightarrow>
    \<forall>x. k_open (el_ep lp) x \<longrightarrow> x \<in> F \<union> fds ` set pre \<Longrightarrow>
    \<forall>k\<in>set ks. shareable (server_bind svs k) (k_socks (el_ep lp)) \<Longrightarrow>
    \<exists>s. run_all (open_server fds) ks (lp, acc) = Inr s \<and> (\<forall>k\<in>set (pre @ ks). opened fds svs k s) \<and>
      (\<forall>x. x \<notin> fds ` set ks \<longrightarrow> map_of (k_socks (el_ep (fst s))) x = map_of (k_socks (el_ep lp)) x)"
proof (induction ks arbitrary: lp acc pre)
  case Nil
  then show ?case by simp
next
  case (Cons k ks)
  let ?ep = "el_ep lp" and ?a = "ready_acceptor k (snd (svs ! k))"
  have a: "acc k = ?a" "chan_fd (k + 1) ?ep = -1" "ac_id ?a = k + 1" "ac_acceptCb ?a" "ac_addr ?a = snd (svs ! k)"
    using Cons.prems(4) by (simp_all add: ready_acceptor_def SetAcceptCallback_def new_Acceptor_def)
  have gone: "ep_channels ?ep (chan_fd (ac_id ?a) ?ep) = None" using a(2,3) unregistered(2) [OF Cons.prems(1), of "k + 1"] by simp
  have "fds k \<notin> fds ` set pre" using Cons.prems(2) fds(2) by (auto dest: injD)
  then have free: "\<not> k_open ?ep (fds k)" using Cons.prems(5) fds(3) by blast
  obtain a' ep' where o: "Acceptor_Open (fds k) (?a, ?ep) = Inr (a', ep')" "listening (a', ep') (fds k)" "ac_id a' = k + 1"
    "ac_acceptCb a'" "\<forall>x. x \<noteq> fds k \<longrightarrow> ep_channels ep' x = ep_channels ?ep x" "\<forall>d. d \<noteq> k + 1 \<longrightarrow> ep_store ep' d = ep_store ?ep d"
    "\<forall>x. k_open ep' x \<longrightarrow> k_open ?ep x \<or> x = fds k" "ac_addr a' = ac_addr ?a"
    "k_socks ep' = listener_socket inet_pton6 (ac_addr ?a) (fds k) (k_socks (close_channel (ac_id ?a) ?ep))"
    using open_ok [OF Cons.prems(1) gone fds(1) [of k]] free a(2-5) unfolding a(1) by auto
  have "shareable (bind_address ?a) (k_socks ?ep)" using Cons.prems(6) a(5) by (simp add: bind_address_def server_bind_def)
  from open_accepts [OF o(1,2,8) fds(1) o(9) this] have acc': "accepting (a', ep') (fds k)"
    and socks: "map_of (k_socks ep') = (map_of (k_socks ?ep))(fds k \<mapsto> listener (in_isIpv6 (ac_addr ?a)) (bind_address ?a))"
      "distinct (map fst (k_socks ep'))" using a(2,3) by (simp_all add: close_channel_socks)
  have s': "in_sync ep'" using o(2) by (simp add: listening_def)
  let ?lp = "lp\<lparr>el_ep := ep'\<rparr>" and ?acc = "acc(k := a')"
  have now: "\<forall>j\<in>set (pre @ [k]). opened fds svs j (?lp, ?acc)"
  proof
    fix j assume j: "j \<in> set (pre @ [k])"
    show "opened fds svs j (?lp, ?acc)"
    proof (cases "j = k")
      case False
      then have old: "opened fds svs j (lp, acc)" using j Cons.prems(3) by simp
      have "ep_channels ep' (fds j) = ep_channels ?ep (fds j)" "ep_store ep' (j + 1) = ep_store ?ep (j + 1)"
        "map_of (k_socks ep') (fds j) = map_of (k_socks ?ep) (fds j)"
        using o(5,6) socks(1) False fds(2) by (auto dest: injD)
      then show ?thesis using old False accepting_frame [of "acc j" ?ep "fds j", OF _ s'] by (simp add: opened_def)
    qed (use o acc' a(5) in \<open>simp add: opened_def\<close>)
  qed
  have later: "\<forall>j\<in>set ks. ?acc j = ready_acceptor j (snd (svs ! j)) \<and> chan_fd (j + 1) (el_ep ?lp) = -1"
    using Cons.prems(2,4) o(6) by (auto simp: chan_fd_def)
  have used: "\<forall>x. k_open (el_ep ?lp) x \<longrightarrow> x \<in> F \<union> fds ` set (pre @ [k])" using o(7) Cons.prems(5) by auto
  have "in_sync (el_ep ?lp)" "distinct ((pre @ [k]) @ ks)" using s' Cons.prems(2) by auto
  moreover have "\<forall>j\<in>set ks. shareable (server_bind svs j) (k_socks (el_ep ?lp))"
    using Cons.prems(6) shareable_listener [OF _ socks] by simp
  moreover note Cons.IH [OF _ _ now later used]
  ultimately obtain s where
    "run_all (open_server fds) ks (?lp, ?acc) = Inr s" "\<forall>j\<in>set ((pre @ [k]) @ ks). opened fds svs j s"
    "\<forall>x. x \<notin> fds ` set ks \<longrightarrow> map_of (k_socks (el_ep (fst s))) x = map_of (k_socks (el_ep ?lp)) x" by blast
  moreover have "open_server fds k (lp, acc) = Inr (?lp, ?acc)" using o(1) a(1) by (simp add: open_server_def)
  ultimately show ?case using socks(1) by auto
qed

section \<open>Properties\<close>



end
