(* ===== verification/EventLoopThread.thy ===== *)
theory EventLoopThread
  imports Prelude
begin

text \<open>
  \<open>src/network/net/EventLoopThread.{h,cpp}\<close>: the handshake between the thread of an event loop, the
  callers of \<open>Run\<close> and the owner that destroys the object. Every read or write of the shared
  members, every operation on \<open>mtx_\<close>, \<open>condition_\<close>, \<open>once_\<close> and \<open>promiseLoop_\<close> is a step of its
  own; the steps of the threads interleave. The loop itself is in \<open>EventLoop\<close>: here its rounds
  change nothing, and only whether it goes on matters.
\<close>

section \<open>State\<close>

text \<open>Where the loop thread is in \<open>StartEventLoop\<close>, the elected caller in the function given to
  \<open>call_once\<close>, and the owner in the destructor.\<close>

datatype thread_pc =
  T_start | T_lock | T_test | T_wait | T_woken | T_set | T_promise | T_enter | T_while | T_clear | T_unlock | T_end

datatype run_pc = B_lock | B_set | B_notify | B_unlock | B_get

datatype once_flag = Once_new | Once_busy nat run_pc | Once_done

datatype holder = Looper | Runner

datatype owner_pc = O_using | O_run | O_test | O_quit | O_join | O_gone

record loop_thread =
  lt_pc :: thread_pc
  lt_mtx :: "holder option"
  lt_isRunning :: bool
  lt_promise :: bool            \<comment> \<open>\<open>promiseLoop_\<close> has its value\<close>
  lt_loop :: bool               \<comment> \<open>\<open>loop_\<close> is not null\<close>
  lt_isLooping :: bool          \<comment> \<open>of the loop of this thread\<close>
  lt_once :: once_flag
  lt_returned :: "bool list"    \<comment> \<open>for each call of \<open>Run\<close>, whether it returned\<close>
  lt_owner :: owner_pc

text \<open>The constructor starts the thread; \<open>n\<close> calls of \<open>Run\<close> are made, by any threads.\<close>

definition new_EventLoopThread :: "nat \<Rightarrow> loop_thread" where
  "new_EventLoopThread n =
     \<lparr>lt_pc = T_start, lt_mtx = None, lt_isRunning = False, lt_promise = False, lt_loop = False, lt_isLooping = False,
      lt_once = Once_new, lt_returned = replicate n False, lt_owner = O_using\<rparr>"

section \<open>Steps\<close>

text \<open>\<open>None\<close>: the thread is blocked, is inside its loop or has ended. \<open>wait\<close> with a predicate tests it
  under the lock, gives the lock up while it waits and takes it again before the next test.\<close>

definition StartEventLoop :: "loop_thread \<Rightarrow> loop_thread option" where
  "StartEventLoop s =
     (case lt_pc s of
        T_start \<Rightarrow> Some (s\<lparr>lt_pc := T_lock\<rparr>)
      | T_lock \<Rightarrow> if lt_mtx s = None then Some (s\<lparr>lt_mtx := Some Looper, lt_pc := T_test\<rparr>) else None
      | T_test \<Rightarrow> Some (if lt_isRunning s then s\<lparr>lt_pc := T_set\<rparr> else s\<lparr>lt_mtx := None, lt_pc := T_wait\<rparr>)
      | T_wait \<Rightarrow> None
      | T_woken \<Rightarrow> if lt_mtx s = None then Some (s\<lparr>lt_mtx := Some Looper, lt_pc := T_test\<rparr>) else None
      | T_set \<Rightarrow> Some (s\<lparr>lt_loop := True, lt_pc := T_promise\<rparr>)
      | T_promise \<Rightarrow> Some (s\<lparr>lt_promise := True, lt_pc := T_enter\<rparr>)
      | T_enter \<Rightarrow> Some (s\<lparr>lt_isLooping := True, lt_pc := T_while\<rparr>)
      | T_while \<Rightarrow> if lt_isLooping s then None else Some (s\<lparr>lt_pc := T_clear\<rparr>)
      | T_clear \<Rightarrow> Some (s\<lparr>lt_loop := False, lt_pc := T_unlock\<rparr>)
      | T_unlock \<Rightarrow> Some (s\<lparr>lt_mtx := None, lt_pc := T_end\<rparr>)
      | T_end \<Rightarrow> None)"

definition notify_all :: "loop_thread \<Rightarrow> loop_thread" where
  "notify_all s = (if lt_pc s = T_wait then s\<lparr>lt_pc := T_woken\<rparr> else s)"

definition run_body :: "nat \<Rightarrow> run_pc \<Rightarrow> loop_thread \<Rightarrow> loop_thread option" where
  "run_body k pc s =
     (case pc of
        B_lock \<Rightarrow> if lt_mtx s = None then Some (s\<lparr>lt_mtx := Some Runner, lt_once := Once_busy k B_set\<rparr>) else None
      | B_set \<Rightarrow> Some (s\<lparr>lt_isRunning := True, lt_once := Once_busy k B_notify\<rparr>)
      | B_notify \<Rightarrow> Some ((notify_all s)\<lparr>lt_once := Once_busy k B_unlock\<rparr>)
      | B_unlock \<Rightarrow> Some (s\<lparr>lt_mtx := None, lt_once := Once_busy k B_get\<rparr>)
      | B_get \<Rightarrow> if lt_promise s then Some (s\<lparr>lt_once := Once_done, lt_returned := (lt_returned s)[k := True]\<rparr>) else None)"

text \<open>Call \<open>k\<close> of \<open>Run\<close>: \<open>call_once\<close> elects one caller; the others wait for it.\<close>

definition EventLoopThread_Run :: "nat \<Rightarrow> loop_thread \<Rightarrow> loop_thread option" where
  "EventLoopThread_Run k s =
     (if k < length (lt_returned s) \<and> \<not> lt_returned s ! k
      then (case lt_once s of
              Once_new \<Rightarrow> Some (s\<lparr>lt_once := Once_busy k B_lock\<rparr>)
            | Once_busy j pc \<Rightarrow> if j = k then run_body k pc s else None
            | Once_done \<Rightarrow> Some (s\<lparr>lt_returned := (lt_returned s)[k := True]\<rparr>))
      else None)"

text \<open>The destructor, once nobody uses the object: it calls \<open>Run\<close> itself, asks the loop to quit and joins.\<close>

definition all_returned :: "bool list \<Rightarrow> bool" where
  "all_returned rs \<longleftrightarrow> list_all (\<lambda>r. r) rs"

definition destroy_step :: "loop_thread \<Rightarrow> loop_thread option" where
  "destroy_step s =
     (case lt_owner s of
        O_using \<Rightarrow> if all_returned (lt_returned s) then Some (s\<lparr>lt_returned := lt_returned s @ [False], lt_owner := O_run\<rparr>) else None
      | O_run \<Rightarrow> if last (lt_returned s) then Some (s\<lparr>lt_owner := O_test\<rparr>) else None
      | O_test \<Rightarrow> Some (s\<lparr>lt_owner := (if lt_loop s then O_quit else O_join)\<rparr>)
      | O_quit \<Rightarrow> Some (s\<lparr>lt_isLooping := False, lt_owner := O_join\<rparr>)
      | O_join \<Rightarrow> if lt_pc s = T_end then Some (s\<lparr>lt_owner := O_gone\<rparr>) else None
      | O_gone \<Rightarrow> None)"

text \<open>A condition variable may wake up without a reason.\<close>

datatype actor = Looping | Caller nat | Owner | Spurious

fun actor_step :: "actor \<Rightarrow> loop_thread \<Rightarrow> loop_thread option" where
  "actor_step Looping s = StartEventLoop s"
| "actor_step (Caller k) s = EventLoopThread_Run k s"
| "actor_step Owner s = destroy_step s"
| "actor_step Spurious s = (if lt_pc s = T_wait then Some (s\<lparr>lt_pc := T_woken\<rparr>) else None)"

fun lt_run :: "actor list \<Rightarrow> loop_thread \<Rightarrow> loop_thread option" where
  "lt_run [] s = Some s"
| "lt_run (a # as) s = (case actor_step a s of None \<Rightarrow> None | Some s' \<Rightarrow> lt_run as s')"

definition EventLoopThread_Loop :: "loop_thread \<Rightarrow> bool" where
  "EventLoopThread_Loop s = lt_loop s"

section \<open>The invariant\<close>

text \<open>Each conjunct ties one shared member to the places of the threads.\<close>

fun looper_holds :: "thread_pc \<Rightarrow> bool" where
  "looper_holds T_start = False" | "looper_holds T_lock = False" | "looper_holds T_wait = False"
| "looper_holds T_woken = False" | "looper_holds T_end = False" | "looper_holds pc = True"

fun not_yet :: "thread_pc \<Rightarrow> bool" where
  "not_yet T_start = True" | "not_yet T_lock = True" | "not_yet T_test = True" | "not_yet T_wait = True"
| "not_yet T_woken = True" | "not_yet pc = False"

fun promised :: "thread_pc \<Rightarrow> bool" where
  "promised T_set = False" | "promised T_promise = False" | "promised pc = (\<not> not_yet pc)"

fun has_loop :: "thread_pc \<Rightarrow> bool" where
  "has_loop T_promise = True" | "has_loop T_enter = True" | "has_loop T_while = True" | "has_loop T_clear = True"
| "has_loop pc = False"

fun left_loop :: "thread_pc \<Rightarrow> bool" where
  "left_loop T_clear = True" | "left_loop T_unlock = True" | "left_loop T_end = True" | "left_loop pc = False"

fun runner_holds :: "once_flag \<Rightarrow> bool" where
  "runner_holds (Once_busy k B_set) = True" | "runner_holds (Once_busy k B_notify) = True"
| "runner_holds (Once_busy k B_unlock) = True" | "runner_holds f = False"

fun told :: "once_flag \<Rightarrow> bool" where
  "told (Once_busy k B_lock) = False" | "told (Once_busy k B_set) = False" | "told Once_new = False" | "told f = True"

fun will_notify :: "once_flag \<Rightarrow> bool" where
  "will_notify (Once_busy k B_unlock) = False" | "will_notify (Once_busy k B_get) = False" | "will_notify Once_done = False"
| "will_notify f = True"

fun calls_ok :: "once_flag \<Rightarrow> bool \<Rightarrow> bool list \<Rightarrow> bool" where
  "calls_ok Once_new p rs = (True \<notin> set rs)"
| "calls_ok (Once_busy k pc) p rs = (True \<notin> set rs \<and> k < length rs)"
| "calls_ok Once_done p rs = p"

definition lt_inv :: "loop_thread \<Rightarrow> bool" where
  "lt_inv s \<longleftrightarrow>
     \<not> (looper_holds (lt_pc s) \<and> runner_holds (lt_once s)) \<and>
     lt_mtx s = (if looper_holds (lt_pc s) then Some Looper else if runner_holds (lt_once s) then Some Runner else None) \<and>
     lt_isRunning s = told (lt_once s) \<and> (told (lt_once s) \<or> not_yet (lt_pc s)) \<and>
     lt_promise s = promised (lt_pc s) \<and> lt_loop s = has_loop (lt_pc s) \<and>
     (lt_pc s = T_wait \<longrightarrow> will_notify (lt_once s)) \<and> calls_ok (lt_once s) (promised (lt_pc s)) (lt_returned s)"

text \<open>Until the owner quits it, a loop that was entered runs; the owner joins when all calls have returned.\<close>

definition goes_on :: "thread_pc \<Rightarrow> bool \<Rightarrow> bool" where
  "goes_on pc l \<longleftrightarrow> \<not> left_loop pc \<and> (pc = T_while \<longrightarrow> l)"

fun owner_ok :: "owner_pc \<Rightarrow> thread_pc \<Rightarrow> bool \<Rightarrow> once_flag \<Rightarrow> bool list \<Rightarrow> bool" where
  "owner_ok O_using pc l f rs = goes_on pc l"
| "owner_ok O_run pc l f rs = (goes_on pc l \<and> rs \<noteq> [] \<and> all_returned (butlast rs))"
| "owner_ok O_join pc l f rs = (f = Once_done \<and> all_returned rs \<and> (left_loop pc \<longrightarrow> \<not> l))"
| "owner_ok O_gone pc l f rs = (f = Once_done \<and> all_returned rs \<and> pc = T_end \<and> \<not> l)"
| "owner_ok w pc l f rs = (f = Once_done \<and> all_returned rs \<and> goes_on pc l)"

definition owner_inv :: "loop_thread \<Rightarrow> bool" where
  "owner_inv s \<longleftrightarrow> owner_ok (lt_owner s) (lt_pc s) (lt_isLooping s) (lt_once s) (lt_returned s)"

lemma new_inv: "lt_inv (new_EventLoopThread n)" "owner_inv (new_EventLoopThread n)"
  by (auto simp: lt_inv_def owner_inv_def goes_on_def new_EventLoopThread_def)

lemma calls_ok_promise: "calls_ok f False rs \<Longrightarrow> calls_ok f p rs"
  by (cases f) auto

lemma runner_told: "\<not> told f \<Longrightarrow> will_notify f"
  by (cases f rule: will_notify.cases) auto

lemma looping_inv:
  assumes "StartEventLoop s = Some s'" and "lt_inv s"
  shows "lt_inv s'"
proof (cases "lt_pc s")
  case T_start
  then have "s' = s\<lparr>lt_pc := T_lock\<rparr>" using assms(1) by (simp add: StartEventLoop_def)
  then show ?thesis using assms(2) T_start by (simp add: lt_inv_def calls_ok_promise split: if_splits)
next
  case T_set
  then have "s' = s\<lparr>lt_loop := True, lt_pc := T_promise\<rparr>" using assms(1) by (simp add: StartEventLoop_def)
  then show ?thesis using assms(2) T_set by (simp add: lt_inv_def calls_ok_promise split: if_splits)
next
  case T_promise
  then have "s' = s\<lparr>lt_promise := True, lt_pc := T_enter\<rparr>" using assms(1) by (simp add: StartEventLoop_def)
  then show ?thesis using assms(2) T_promise by (simp add: lt_inv_def calls_ok_promise split: if_splits)
next
  case T_enter
  then have "s' = s\<lparr>lt_isLooping := True, lt_pc := T_while\<rparr>" using assms(1) by (simp add: StartEventLoop_def)
  then show ?thesis using assms(2) T_enter by (simp add: lt_inv_def calls_ok_promise split: if_splits)
next
  case T_clear
  then have "s' = s\<lparr>lt_loop := False, lt_pc := T_unlock\<rparr>" using assms(1) by (simp add: StartEventLoop_def)
  then show ?thesis using assms(2) T_clear by (simp add: lt_inv_def calls_ok_promise split: if_splits)
next
  case T_unlock
  then have "s' = s\<lparr>lt_mtx := None, lt_pc := T_end\<rparr>" using assms(1) by (simp add: StartEventLoop_def)
  then show ?thesis using assms(2) T_unlock by (simp add: lt_inv_def calls_ok_promise split: if_splits)
next
  case T_lock
  then have "s' = s\<lparr>lt_mtx := Some Looper, lt_pc := T_test\<rparr>" "lt_mtx s = None"
    using assms(1) by (simp_all add: StartEventLoop_def split: if_splits)
  then show ?thesis using assms(2) T_lock by (simp add: lt_inv_def split: if_splits)
next
  case T_woken
  then have "s' = s\<lparr>lt_mtx := Some Looper, lt_pc := T_test\<rparr>" "lt_mtx s = None"
    using assms(1) by (simp_all add: StartEventLoop_def split: if_splits)
  then show ?thesis using assms(2) T_woken by (simp add: lt_inv_def split: if_splits)
next
  case T_test
  then have "s' = (if lt_isRunning s then s\<lparr>lt_pc := T_set\<rparr> else s\<lparr>lt_mtx := None, lt_pc := T_wait\<rparr>)"
    using assms(1) by (simp add: StartEventLoop_def)
  then show ?thesis using assms(2) T_test runner_told [of "lt_once s"] by (cases "told (lt_once s)") (simp_all add: lt_inv_def)
next
  case T_while
  then have "s' = s\<lparr>lt_pc := T_clear\<rparr>" using assms(1) by (simp add: StartEventLoop_def split: if_splits)
  then show ?thesis using assms(2) T_while by (simp add: lt_inv_def)
qed (use assms(1) in \<open>simp_all add: StartEventLoop_def\<close>)
lemma notify_same: "lt_once (notify_all s) = lt_once s" "lt_mtx (notify_all s) = lt_mtx s" "lt_isRunning (notify_all s) = lt_isRunning s"
  "lt_promise (notify_all s) = lt_promise s" "lt_loop (notify_all s) = lt_loop s" "lt_returned (notify_all s) = lt_returned s"
  "looper_holds (lt_pc (notify_all s)) = looper_holds (lt_pc s)" "promised (lt_pc (notify_all s)) = promised (lt_pc s)"
  "has_loop (lt_pc (notify_all s)) = has_loop (lt_pc s)" "not_yet (lt_pc (notify_all s)) = not_yet (lt_pc s)"
  "lt_pc (notify_all s) \<noteq> T_wait"
  by (auto simp: notify_all_def)

lemma body_inv:
  assumes "run_body k pc s = Some s'" and o: "lt_once s = Once_busy k pc" and i: "lt_inv s"
  shows "lt_inv s'"
proof (cases pc)
  case B_lock
  then have "s' = s\<lparr>lt_mtx := Some Runner, lt_once := Once_busy k B_set\<rparr>" "lt_mtx s = None"
    using assms(1) by (simp_all add: run_body_def split: if_splits)
  then show ?thesis using i o B_lock by (simp add: lt_inv_def split: if_splits)
next
  case B_set
  then have "s' = s\<lparr>lt_isRunning := True, lt_once := Once_busy k B_notify\<rparr>" using assms(1) by (simp add: run_body_def)
  then show ?thesis using i o B_set by (simp add: lt_inv_def split: if_splits)
next
  case B_notify
  then have "s' = (notify_all s)\<lparr>lt_once := Once_busy k B_unlock\<rparr>" using assms(1) by (simp add: run_body_def)
  then show ?thesis using i o B_notify by (simp add: lt_inv_def notify_same split: if_splits)
next
  case B_unlock
  then have "s' = s\<lparr>lt_mtx := None, lt_once := Once_busy k B_get\<rparr>" using assms(1) by (simp add: run_body_def)
  then show ?thesis using i o B_unlock by (simp add: lt_inv_def split: if_splits)
next
  case B_get
  then have "s' = s\<lparr>lt_once := Once_done, lt_returned := (lt_returned s)[k := True]\<rparr>" "lt_promise s"
    using assms(1) by (simp_all add: run_body_def split: if_splits)
  then show ?thesis using i o B_get by (auto simp: lt_inv_def)
qed

lemma run_inv:
  assumes s: "EventLoopThread_Run k s = Some s'" and i: "lt_inv s"
  shows "lt_inv s'"
proof (cases "lt_once s")
  case Once_new
  then have "s' = s\<lparr>lt_once := Once_busy k B_lock\<rparr>" "k < length (lt_returned s)"
    using s by (simp_all add: EventLoopThread_Run_def split: if_splits)
  then show ?thesis using i Once_new by (simp add: lt_inv_def)
next
  case (Once_busy j pc)
  then have "j = k" "run_body k pc s = Some s'" using s by (simp_all add: EventLoopThread_Run_def split: if_splits)
  then show ?thesis using body_inv i Once_busy by simp
next
  case Once_done
  then have "s' = s\<lparr>lt_returned := (lt_returned s)[k := True]\<rparr>" using s by (simp add: EventLoopThread_Run_def split: if_splits)
  then show ?thesis using i Once_done by (simp add: lt_inv_def)
qed

lemma calls_ok_snoc: "calls_ok f p rs \<Longrightarrow> calls_ok f p (rs @ [False])"
  by (cases f) auto

lemma destroy_frame:
  "destroy_step s = Some s' \<Longrightarrow> lt_pc s' = lt_pc s \<and> lt_mtx s' = lt_mtx s \<and> lt_isRunning s' = lt_isRunning s \<and>
     lt_promise s' = lt_promise s \<and> lt_loop s' = lt_loop s \<and> lt_once s' = lt_once s \<and>
     lt_returned s' \<in> {lt_returned s, lt_returned s @ [False]}"
  by (auto simp: destroy_step_def split: owner_pc.splits if_splits)

lemma destroy_inv: "destroy_step s = Some s' \<Longrightarrow> lt_inv s \<Longrightarrow> lt_inv s'"
  using destroy_frame [of s s'] calls_ok_snoc unfolding lt_inv_def by auto

lemma returned_done: "lt_inv s \<Longrightarrow> True \<in> set (lt_returned s) \<Longrightarrow> lt_once s = Once_done"
  by (cases "lt_once s") (simp_all add: lt_inv_def)

lemma last_returned: "rs \<noteq> [] \<Longrightarrow> all_returned (butlast rs) \<Longrightarrow> last rs \<Longrightarrow> all_returned rs \<and> True \<in> set rs"
  by (cases rs rule: rev_cases) (auto simp: all_returned_def)

lemma destroy_owner_inv:
  assumes i: "lt_inv s" "owner_inv s" and s: "destroy_step s = Some s'"
  shows "owner_inv s'"
proof (cases "lt_owner s")
  case O_run
  then have "last (lt_returned s)" "lt_returned s \<noteq> []" "all_returned (butlast (lt_returned s))" 
     "s' = s\<lparr>lt_owner := O_test\<rparr>" "goes_on (lt_pc s) (lt_isLooping s)" 
    using i(2) s by (auto simp: destroy_step_def owner_inv_def split: if_splits)
  then show ?thesis using returned_done [OF i(1)] last_returned [of "lt_returned s"] by (simp add: owner_inv_def)
qed (use i(2) s in \<open>auto simp: destroy_step_def owner_inv_def all_returned_def goes_on_def split: if_splits\<close>)

lemma looping_owner_inv:
  assumes i: "lt_inv s" "owner_inv s" and s: "StartEventLoop s = Some s'"
  shows "owner_inv s'"
proof -
  have "lt_owner s' = lt_owner s" "lt_once s' = lt_once s" "lt_returned s' = lt_returned s"
    using s by (auto simp: StartEventLoop_def split: thread_pc.splits if_splits)
  moreover have "goes_on (lt_pc s) (lt_isLooping s) \<longrightarrow> goes_on (lt_pc s') (lt_isLooping s')"
    "(left_loop (lt_pc s) \<longrightarrow> \<not> lt_isLooping s) \<longrightarrow> (left_loop (lt_pc s') \<longrightarrow> \<not> lt_isLooping s')"
    "lt_pc s \<noteq> T_end"
    using s by (auto simp: StartEventLoop_def goes_on_def split: thread_pc.splits if_splits)
  ultimately show ?thesis using i(2) by (cases "lt_owner s") (simp_all add: owner_inv_def)
qed

lemma run_frame:
  assumes "EventLoopThread_Run k s = Some s'"
  shows "lt_owner s' = lt_owner s \<and> goes_on (lt_pc s') (lt_isLooping s') = goes_on (lt_pc s) (lt_isLooping s) \<and>
    (lt_returned s' = [] \<longleftrightarrow> lt_returned s = []) \<and> k < length (lt_returned s) \<and> \<not> lt_returned s ! k \<and>
    lt_returned s' \<in> {lt_returned s, (lt_returned s)[k := True]}"
  using assms by (auto simp: EventLoopThread_Run_def run_body_def notify_all_def goes_on_def split: once_flag.splits run_pc.splits if_splits)

lemma butlast_set: "all_returned (butlast rs) \<Longrightarrow> k < length rs \<Longrightarrow> \<not> rs ! k \<Longrightarrow> butlast (rs[k := True]) = butlast rs"
  by (cases rs rule: rev_cases) (auto simp: all_returned_def list_all_length nth_append list_update_append)

lemma run_owner_inv:
  assumes i: "lt_inv s" "owner_inv s" and s: "EventLoopThread_Run k s = Some s'"
  shows "owner_inv s'"
proof -
  note f = run_frame [OF s]
  have "\<not> all_returned (lt_returned s)" using f by (auto simp: all_returned_def list_all_length)
  then show ?thesis using i(2) f butlast_set [of "lt_returned s" k] by (cases "lt_owner s") (auto simp: owner_inv_def simp del: list_update_nonempty)
qed

lemma spurious_inv: "actor_step Spurious s = Some s' \<Longrightarrow> lt_inv s \<Longrightarrow> lt_inv s'"
  by (auto simp: lt_inv_def split: if_splits)

lemma spurious_owner_inv: "actor_step Spurious s = Some s' \<Longrightarrow> owner_inv s \<Longrightarrow> owner_inv s'"
  by (cases "lt_owner s") (auto simp: owner_inv_def goes_on_def split: if_splits)

lemma step_inv: "actor_step a s = Some s' \<Longrightarrow> lt_inv s \<and> owner_inv s \<Longrightarrow> lt_inv s' \<and> owner_inv s'"
  by (cases a) (auto simp del: actor_step.simps(4) intro: looping_inv looping_owner_inv run_inv run_owner_inv destroy_inv destroy_owner_inv
      spurious_inv spurious_owner_inv)

lemma lt_run_inv: "lt_run acts s = Some s' \<Longrightarrow> lt_inv s \<and> owner_inv s \<Longrightarrow> lt_inv s' \<and> owner_inv s'"
  by (induction acts arbitrary: s) (auto split: option.splits dest: step_inv)

section \<open>Termination\<close>

fun pc_rank :: "thread_pc \<Rightarrow> nat" where
  "pc_rank T_start = 12" | "pc_rank T_lock = 11" | "pc_rank T_woken = 10" | "pc_rank T_test = 9" | "pc_rank T_wait = 8"
| "pc_rank T_set = 7" | "pc_rank T_promise = 6" | "pc_rank T_enter = 5" | "pc_rank T_while = 3" | "pc_rank T_clear = 2"
| "pc_rank T_unlock = 1" | "pc_rank T_end = 0"

fun once_rank :: "once_flag \<Rightarrow> nat" where
  "once_rank Once_new = 8" | "once_rank (Once_busy k B_lock) = 7" | "once_rank (Once_busy k B_set) = 6"
| "once_rank (Once_busy k B_notify) = 5" | "once_rank (Once_busy k B_unlock) = 2" | "once_rank (Once_busy k B_get) = 1"
| "once_rank Once_done = 0"

fun owner_rank :: "owner_pc \<Rightarrow> nat" where
  "owner_rank O_using = 6" | "owner_rank O_run = 4" | "owner_rank O_test = 3" | "owner_rank O_quit = 2"
| "owner_rank O_join = 1" | "owner_rank O_gone = 0"

definition pending :: "bool list \<Rightarrow> nat" where
  "pending rs = length (filter (\<lambda>r. \<not> r) rs)"

definition lt_rank :: "loop_thread \<Rightarrow> nat" where
  "lt_rank s = pc_rank (lt_pc s) + once_rank (lt_once s) + owner_rank (lt_owner s) + pending (lt_returned s)"

lemma pending_set: "k < length rs \<Longrightarrow> \<not> rs ! k \<Longrightarrow> Suc (pending (rs[k := True])) = pending rs"
proof (induction rs arbitrary: k)
  case (Cons r rs)
  then show ?case by (cases k) (auto simp: pending_def)
qed simp

lemma pending_snoc: "pending (rs @ [False]) = Suc (pending rs)"
  by (simp add: pending_def)

lemma looping_rank: "StartEventLoop s = Some s' \<Longrightarrow> lt_rank s' < lt_rank s"
  by (auto simp: StartEventLoop_def lt_rank_def split: thread_pc.splits if_splits)

lemma run_rank: "EventLoopThread_Run k s = Some s' \<Longrightarrow> lt_rank s' < lt_rank s"
  using pending_set [of k "lt_returned s"]
  by (auto simp: EventLoopThread_Run_def run_body_def notify_all_def lt_rank_def split: once_flag.splits run_pc.splits if_splits)

lemma destroy_rank: "destroy_step s = Some s' \<Longrightarrow> lt_rank s' < lt_rank s"
  by (auto simp: destroy_step_def lt_rank_def pending_snoc split: owner_pc.splits if_splits)

lemma step_rank: "actor_step a s = Some s' \<Longrightarrow> lt_rank s' < lt_rank s + (if a = Spurious then 3 else 0)"
  using looping_rank run_rank destroy_rank by (cases a) (auto simp: lt_rank_def split: if_splits)

lemma lt_run_rank: "lt_run acts s = Some s' \<Longrightarrow> length acts + lt_rank s' \<le> lt_rank s + 3 * count_list acts Spurious"
proof (induction acts arbitrary: s)
  case (Cons a acts)
  then obtain s1 where s1: "actor_step a s = Some s1" "lt_run acts s1 = Some s'" by (auto split: option.splits)
  show ?case using step_rank [OF s1(1)] Cons.IH [OF s1(2)] by (cases "a = Spurious") auto
qed simp

lemma progress:
  assumes i: "lt_inv s" "owner_inv s" and stuck: "StartEventLoop s = None" "\<And>k. EventLoopThread_Run k s = None"
  shows "all_returned (lt_returned s) \<and> (lt_pc s = T_while \<and> lt_isLooping s \<or> lt_pc s = T_end \<or> lt_once s = Once_new)"
proof (cases "lt_once s")
  case Once_new
  have "lt_returned s ! k" if "k < length (lt_returned s)" for k
    using stuck(2) [of k] that Once_new by (auto simp: EventLoopThread_Run_def split: if_splits)
  then show ?thesis using Once_new by (auto simp: all_returned_def list_all_length)
next
  case (Once_busy k pc)
  then have k: "k < length (lt_returned s)" "\<not> lt_returned s ! k" using i(1) nth_mem by (fastforce simp: lt_inv_def)+
  show ?thesis using stuck(2) [of k] stuck(1) k Once_busy i(1)
    by (cases pc; cases "lt_pc s") (auto simp: EventLoopThread_Run_def run_body_def StartEventLoop_def lt_inv_def split: if_splits)
next
  case Once_done
  have "lt_returned s ! k" if "k < length (lt_returned s)" for k
    using stuck(2) [of k] that Once_done by (auto simp: EventLoopThread_Run_def split: if_splits)
  moreover have "lt_pc s = T_while \<and> lt_isLooping s \<or> lt_pc s = T_end" using stuck(1) i(1) Once_done
    by (cases "lt_pc s") (auto simp: StartEventLoop_def lt_inv_def split: if_splits)
  ultimately show ?thesis by (auto simp: all_returned_def list_all_length)
qed


lemma thread_reach_inv: "lt_run acts (new_EventLoopThread n) = Some s \<Longrightarrow> lt_inv s \<and> owner_inv s"
  using lt_run_inv new_inv by blast

lemma new_rank: "lt_rank (new_EventLoopThread n) = 26 + n"
  by (simp add: lt_rank_def new_EventLoopThread_def pending_def)

text \<open>The owner joins and the loop is about to be entered, or was entered after the owner quit it.\<close>

definition hung :: "loop_thread \<Rightarrow> bool" where
  "hung s \<longleftrightarrow> lt_owner s = O_join \<and> (lt_pc s = T_enter \<or> (lt_pc s = T_while \<and> lt_isLooping s)) \<and>
     lt_once s = Once_done \<and> all_returned (lt_returned s)"

lemma hung_step: "actor_step a s = Some s' \<Longrightarrow> hung s \<Longrightarrow> hung s'"
  by (cases a) (auto simp: hung_def StartEventLoop_def EventLoopThread_Run_def destroy_step_def all_returned_def list_all_length
      split: if_splits)

lemma hung_run: "lt_run acts s = Some s' \<Longrightarrow> hung s \<Longrightarrow> hung s'"
  by (induction acts arbitrary: s) (auto split: option.splits dest: hung_step)

lemma joined:
  assumes "lt_pc s = T_while \<or> left_loop (lt_pc s)" and "\<not> lt_isLooping s" and "lt_owner s = O_join"
  shows "\<exists>m s'. m \<le> 3 \<and> lt_run (replicate m Looping @ [Owner]) s = Some s' \<and> lt_owner s' = O_gone"
proof -
  let ?m = "pc_rank (lt_pc s)"
  have "\<exists>s'. lt_run (replicate ?m Looping @ [Owner]) s = Some s' \<and> lt_owner s' = O_gone"
    using assms by (cases "lt_pc s") (simp_all add: numeral_eq_Suc StartEventLoop_def destroy_step_def)
  moreover have "?m \<le> 3" using assms(1) by (cases "lt_pc s") simp_all
  ultimately show ?thesis by blast
qed

section \<open>Properties\<close>

text \<open>C24: however the threads interleave, every call of \<open>Run\<close> returns: an execution makes a bounded number
  of steps, plus three for each wake-up without a reason, and where neither the thread of the loop
  nor a caller can move all calls have returned. No wake-up is lost and nobody deadlocks on the
  mutex, which the loop thread keeps while its loop runs. Once a call has returned, and until the
  owner has quit the loop, \<open>Loop\<close> gives a loop that exists and is entered or about to be.\<close>

theorem Run_returns:
  assumes "lt_run acts (new_EventLoopThread n) = Some s"
  shows "length acts \<le> 26 + n + 3 * count_list acts Spurious \<and>
    (StartEventLoop s = None \<and> (\<forall>k. EventLoopThread_Run k s = None) \<longrightarrow> all_returned (lt_returned s)) \<and>
    (True \<in> set (lt_returned s) \<and> lt_owner s \<notin> {O_join, O_gone} \<longrightarrow>
       EventLoopThread_Loop s \<and> lt_pc s \<in> {T_enter, T_while} \<and> lt_mtx s = Some Looper)"
proof -
  have i: "lt_inv s" "owner_inv s" using thread_reach_inv [OF assms] by simp_all
  have "EventLoopThread_Loop s \<and> lt_pc s \<in> {T_enter, T_while} \<and> lt_mtx s = Some Looper"
    if r: "True \<in> set (lt_returned s)" "lt_owner s \<notin> {O_join, O_gone}"
  proof -
    have "promised (lt_pc s)" using returned_done [OF i(1) r(1)] i(1) by (simp add: lt_inv_def)
    moreover have "\<not> left_loop (lt_pc s)" using i(2) r(2) by (cases "lt_owner s") (simp_all add: owner_inv_def goes_on_def)
    ultimately have pc: "lt_pc s \<in> {T_enter, T_while}" by (cases "lt_pc s") simp_all
    then show ?thesis using i(1) by (auto simp: lt_inv_def EventLoopThread_Loop_def)
  qed
  then show ?thesis using progress [OF i] lt_run_rank [OF assms] by (simp add: new_rank)
qed

theorem Run_returns_witness:
  "\<exists>s. lt_run [Looping, Looping, Looping, Caller 1, Caller 1, Caller 1, Caller 1, Caller 1, Looping, Looping, Looping, Looping,
      Caller 1, Caller 0] (new_EventLoopThread 2) = Some s \<and> lt_returned s = [True, True] \<and> EventLoopThread_Loop s"
proof -
  let ?acts = "[Looping, Looping, Looping, Caller 1, Caller 1, Caller 1, Caller 1, Caller 1, Looping, Looping, Looping, Looping,
    Caller 1, Caller 0]"
  obtain s where s: "lt_run ?acts (new_EventLoopThread 2) = Some s" "lt_returned s = [True, True]" "lt_owner s = O_using"
    by (simp add: new_EventLoopThread_def StartEventLoop_def EventLoopThread_Run_def run_body_def notify_all_def numeral_2_eq_2)
  then show ?thesis using Run_returns [OF s(1)] by simp
qed

text \<open>C35: the destructor returns if the loop was entered before it was told to quit. But \<open>Run\<close> returns as
  soon as the promise is set, before the thread enters the loop, and entering sets the flag that
  \<open>Quit\<close> clears: an object that is destroyed at that moment joins its thread for ever.\<close>

theorem destroy_may_hang:
  assumes "lt_run acts (new_EventLoopThread n) = Some s" and "lt_owner s = O_join"
  shows "if lt_pc s = T_enter \<or> lt_isLooping s
    then \<forall>acts' s'. lt_run acts' s = Some s' \<longrightarrow> lt_owner s' = O_join
    else \<exists>m s'. m \<le> 3 \<and> lt_run (replicate m Looping @ [Owner]) s = Some s' \<and> lt_owner s' = O_gone"
proof -
  have i: "lt_inv s" "owner_inv s" using thread_reach_inv [OF assms(1)] by simp_all
  then have d: "lt_once s = Once_done" "all_returned (lt_returned s)" "left_loop (lt_pc s) \<longrightarrow> \<not> lt_isLooping s"
    using assms(2) by (simp_all add: owner_inv_def)
  then have "promised (lt_pc s)" using i(1) by (simp add: lt_inv_def)
  then have pc: "lt_pc s = T_enter \<or> lt_pc s = T_while \<or> left_loop (lt_pc s)" by (cases "lt_pc s") simp_all
  show ?thesis
  proof (cases "lt_pc s = T_enter \<or> lt_isLooping s")
    case True
    then have "hung s" using pc d assms(2) by (auto simp: hung_def)
    then show ?thesis using True hung_run by (auto simp: hung_def)
  next
    case False
    then show ?thesis using joined [of s] pc assms(2) by auto
  qed
qed

theorem destroy_may_hang_witness:
  "\<exists>s. lt_run [Looping, Looping, Looping, Caller 0, Caller 0, Caller 0, Caller 0, Caller 0, Looping, Looping, Looping, Looping,
      Caller 0, Owner, Caller 1, Owner, Owner, Owner] (new_EventLoopThread 1) = Some s \<and>
    lt_owner s = O_join \<and> (\<forall>acts' s'. lt_run acts' s = Some s' \<longrightarrow> lt_owner s' = O_join)"
proof -
  let ?acts = "[Looping, Looping, Looping, Caller 0, Caller 0, Caller 0, Caller 0, Caller 0, Looping, Looping, Looping, Looping,
    Caller 0, Owner, Caller 1, Owner, Owner, Owner]"
  obtain s where s: "lt_run ?acts (new_EventLoopThread 1) = Some s" "lt_owner s = O_join" "lt_pc s = T_enter"
    by (simp add: new_EventLoopThread_def StartEventLoop_def EventLoopThread_Run_def run_body_def notify_all_def destroy_step_def
        all_returned_def)
  then show ?thesis using destroy_may_hang [OF s(1,2)] by simp
qed

end
