(* ===== verification/Program.thy ===== *)
theory Program
  imports ServiceStart TaskMgr
begin

text \<open>
  \<open>src/main/main.cpp\<close> as a whole: \<open>main_start\<close> of \<open>Config\<close> reads the configuration and opens the log,
  then \<open>main\<close> adds the task that checks the log for rotation, starts the service and runs the task
  manager for ever. Between the rounds of this loop any thread may log a line.
\<close>

section \<open>The program\<close>

record program =
  pg_tasks :: task_mgr
  pg_fm :: file_mgr
  pg_logger :: logger

text \<open>\<open>task1\<close> is task 0 of the manager; its callback checks the logs and restarts the task.\<close>

definition task1 :: "int \<Rightarrow> task" where
  "task1 now = new_Task (Some [Act_Restart 0]) 1000 now"

definition main_setup :: "int \<Rightarrow> logger \<Rightarrow> file_mgr \<Rightarrow> program" where
  "main_setup now lo fm =
     \<lparr>pg_tasks = snd (TaskMgr_Add 0 \<lparr>tm_tasks = [], tm_objs = (\<lambda>_. task1 now)\<rparr>), pg_fm = fm, pg_logger = lo\<rparr>"

definition main :: "'j json_api \<Rightarrow> LogLevel \<Rightarrow> (string \<Rightarrow> bool) \<Rightarrow> 'j option \<Rightarrow> int \<Rightarrow> (nat \<Rightarrow> int) \<Rightarrow> (nat \<Rightarrow> new_pipe) \<Rightarrow>
    file_mgr \<Rightarrow> (int + program \<times> http_service) result" where
  "main js junk can file now fds np fm =
     bindR (main_start js junk can file fm) (\<lambda>r.
       case r of
         Inl status \<Rightarrow> Inr (Inl status)
       | Inr (cf, lo, fm') \<Rightarrow> bindR (HttpService_Start fds np cf) (\<lambda>hs. Inr (Inr (main_setup now lo fm', hs))))"

text \<open>A round of the loop at time \<open>now\<close>; the callback sees the calendar \<open>civil\<close> and restarts its task at \<open>clock\<close>.\<close>

definition main_round :: "(string \<Rightarrow> bool) \<Rightarrow> int \<Rightarrow> int \<Rightarrow> civil_time \<Rightarrow> program \<Rightarrow> program option" where
  "main_round can now clock civil p =
     map_option (\<lambda>(done, tm).
       p\<lparr>pg_tasks := tm, pg_fm := (if 0 \<in> set done then OnCheck can civil (pg_fm p) else pg_fm p)\<rparr>)
       (TaskMgr_OnWork (\<lambda>_. clock) now (pg_tasks p))"

definition log_msg :: "string \<Rightarrow> program \<Rightarrow> string \<times> program" where
  "log_msg msg p = (case Logger_Write msg (pg_logger p) (pg_fm p) of (out, fm) \<Rightarrow> (out, p\<lparr>pg_fm := fm\<rparr>))"

section \<open>Histories\<close>

text \<open>The name under which a check at \<open>now\<close> puts the log away when the last one was at \<open>l\<close>.\<close>

definition check_suffix :: "RotateType \<Rightarrow> civil_time \<Rightarrow> civil_time \<Rightarrow> string option" where
  "check_suffix t l now =
     (case t of
        kRotateNone \<Rightarrow> None
      | kRotateMinute \<Rightarrow> if ct_minute l \<noteq> ct_minute now then Some (minute_suffix l) else None
      | kRotateHour \<Rightarrow> if ct_hour l \<noteq> ct_hour now then Some (hour_suffix l) else None
      | kRotateDay \<Rightarrow> if ct_day l \<noteq> ct_day now then Some (day_suffix l) else None)"

lemma check_log_suffix:
  "check_log can l now n fm =
     (case check_suffix (fl_rotateType (fm_objs fm n)) l now of None \<Rightarrow> fm | Some sfx \<Rightarrow> rotate_log can sfx n fm)"
  unfolding check_log_cases
  by (cases "fl_rotateType (fm_objs fm n)") (simp_all add: check_suffix_def RotateMinutes_def RotateHours_def RotateDays_def)

text \<open>What a check at \<open>now\<close> renames the file of log \<open>n\<close> to.\<close>

definition put_away :: "nat \<Rightarrow> civil_time \<Rightarrow> file_mgr \<Rightarrow> string option" where
  "put_away n now fm =
     (case fm_last fm of
        None \<Rightarrow> None
      | Some l \<Rightarrow>
          if FileSize (fm_objs fm n) (fm_fs fm) > 0
          then map_option (\<lambda>sfx. rotated_name sfx (fl_filePath (fm_objs fm n))) (check_suffix (fl_rotateType (fm_objs fm n)) l now)
          else None)"

definition due :: "int \<Rightarrow> program \<Rightarrow> bool" where
  "due now p \<longleftrightarrow> When (pg_tasks p) 0 < now"

text \<open>
  Lines and rounds in any order: the names files were put away under, the lines, and the times at
  which the check restarted. The clock does not run backwards within a round, and a rotated name
  is not in use.
\<close>

inductive log_hist :: "program \<Rightarrow> nat \<Rightarrow> string list \<Rightarrow> string list \<Rightarrow> int list \<Rightarrow> program \<Rightarrow> bool" for p0 n where
  start: "log_hist p0 n [] [] [] p0"
| line: "log_hist p0 n names lns checks p \<Longrightarrow> log_msg msg p = (out, p') \<Longrightarrow> log_hist p0 n names (lns @ [msg]) checks p'"
| idle: "log_hist p0 n names lns checks p \<Longrightarrow> \<not> due now p \<Longrightarrow> main_round (\<lambda>_. True) now clock civil p = Some p' \<Longrightarrow>
    log_hist p0 n names lns checks p'"
| check: "log_hist p0 n names lns checks p \<Longrightarrow> due now p \<Longrightarrow> now \<le> clock \<Longrightarrow> put_away n civil (pg_fm p) = None \<Longrightarrow>
    main_round (\<lambda>_. True) now clock civil p = Some p' \<Longrightarrow> log_hist p0 n names lns (checks @ [clock]) p'"
| rotate: "log_hist p0 n names lns checks p \<Longrightarrow> due now p \<Longrightarrow> now \<le> clock \<Longrightarrow> put_away n civil (pg_fm p) = Some name \<Longrightarrow>
    fs_dir (fm_fs (pg_fm p)) name = None \<Longrightarrow> main_round (\<lambda>_. True) now clock civil p = Some p' \<Longrightarrow>
    log_hist p0 n (names @ [name]) lns (checks @ [clock]) p'"

section \<open>The invariant\<close>

text \<open>The log is open, its file is at its path and nowhere else, and what was put away together with
  what is in the file is \<open>written\<close>.\<close>

definition one_file :: "string \<Rightarrow> nat \<Rightarrow> file_mgr \<Rightarrow> bool" where
  "one_file path n fm \<longleftrightarrow> path \<noteq> [] \<and> fm_logs fm = [(path, n)] \<and> fl_filePath (fm_objs fm n) = path \<and>
     (\<exists>i. fl_fd (fm_objs fm n) = Some i \<and> fs_dir (fm_fs fm) path = Some i \<and> (\<forall>x. fs_dir (fm_fs fm) x = Some i \<longrightarrow> x = path)) \<and>
     (\<forall>x j. fs_dir (fm_fs fm) x = Some j \<longrightarrow> j < fs_next (fm_fs fm))"

definition text_of :: "fsys \<Rightarrow> string \<Rightarrow> string" where
  "text_of fs path = (case contents fs path of None \<Rightarrow> [] | Some s \<Rightarrow> s)"

definition all_there :: "string \<Rightarrow> string list \<Rightarrow> string \<Rightarrow> fsys \<Rightarrow> bool" where
  "all_there path names written fs \<longleftrightarrow> path \<notin> set names \<and> (\<forall>x\<in>set names. fs_dir fs x \<noteq> None) \<and>
     concat (map (text_of fs) names) @ text_of fs path = written"

definition checker_ok :: "int list \<Rightarrow> task_mgr \<Rightarrow> bool" where
  "checker_ok checks tm \<longleftrightarrow> tm_tasks tm = [0] \<and> tk_cb (tm_objs tm 0) = Some [Act_Restart 0] \<and> tk_interval (tm_objs tm 0) = 1000 \<and>
     sorted_wrt (\<lambda>a b. a + 1000 < b) checks \<and> (checks \<noteq> [] \<longrightarrow> When tm 0 = last checks + 1000)"

lemma write_there:
  assumes o: "one_file path n fm" and a: "all_there path names written (fm_fs fm)" and l: "lo_fileLog lo = Some n"
    and w: "Logger_Write msg lo fm = (out, fm')"
  shows "one_file path n fm' \<and> all_there path names (written @ msg) (fm_fs fm')"
proof -
  obtain i where i: "fl_fd (fm_objs fm n) = Some i" "fs_dir (fm_fs fm) path = Some i" "\<And>x. fs_dir (fm_fs fm) x = Some i \<Longrightarrow> x = path"
    using o by (auto simp: one_file_def)
  let ?fs = "(fm_fs fm)\<lparr>fs_data := (fs_data (fm_fs fm))(i := fs_data (fm_fs fm) i @ msg)\<rparr>"
  have fm': "fm' = fm\<lparr>fm_fs := ?fs\<rparr>" using w l i(1) by (simp add: Logger_Write_def WriteLog_def)
  have same: "text_of ?fs x = text_of (fm_fs fm) x" if "x \<in> set names" for x
  proof -
    have "x \<noteq> path" using a that by (auto simp: all_there_def)
    then show ?thesis using i(3) [of x] by (auto simp: text_of_def contents_def split: option.split)
  qed
  have "concat (map (text_of ?fs) names) = concat (map (text_of (fm_fs fm)) names)"
    by (rule arg_cong [of _ _ concat]) (rule map_cong [OF refl same])
  moreover have "text_of ?fs path = text_of (fm_fs fm) path @ msg" using i(2) by (simp add: text_of_def contents_def)
  ultimately have "all_there path names (written @ msg) ?fs" using a by (auto simp: all_there_def)
  then show ?thesis using o fm' by (auto simp: one_file_def)
qed

lemma rotate_there:
  assumes o: "one_file path n fm" and a: "all_there path names written (fm_fs fm)" and name: "fs_dir (fm_fs fm) name = None"
    and r: "Rotate (\<lambda>_. True) name (fm_objs fm n) (fm_fs fm) = (lg, fs)"
  shows "one_file path n (fm\<lparr>fm_objs := (fm_objs fm)(n := lg), fm_fs := fs\<rparr>) \<and> all_there path (names @ [name]) written fs"
proof -
  let ?fs = "fm_fs fm"
  obtain i where i: "fl_fd (fm_objs fm n) = Some i" "fs_dir ?fs path = Some i" "\<And>x. fs_dir ?fs x = Some i \<Longrightarrow> x = path"
    using o by (auto simp: one_file_def)
  have p: "path \<noteq> []" "fl_filePath (fm_objs fm n) = path" and lt: "\<And>x j. fs_dir ?fs x = Some j \<Longrightarrow> j < fs_next ?fs"
    using o by (simp_all add: one_file_def)
  have np: "name \<noteq> path" using name i(2) by auto
  have pi: "fs_dir ?fs (fl_filePath (fm_objs fm n)) = Some i" "fl_filePath (fm_objs fm n) \<noteq> []" "name \<noteq> fl_filePath (fm_objs fm n)"
    using i(2) p np by simp_all
  note rot = rotated_file [where can = "\<lambda>_. True", OF i(1) pi TrueI TrueI lt [OF i(2)]]
  have lg: "lg = (fm_objs fm n)\<lparr>fl_fd := Some (fs_next ?fs)\<rparr>"
    and fs: "fs = ?fs\<lparr>fs_dir := (((fs_dir ?fs)(path := None))(name \<mapsto> i))(path \<mapsto> fs_next ?fs),
        fs_data := (fs_data ?fs)(fs_next ?fs := []), fs_next := fs_next ?fs + 1\<rparr>"
    using r p(2) unfolding rot by simp_all
  have "text_of fs x = text_of ?fs x" if "x \<in> set names" for x
  proof -
    have "x \<noteq> path" "x \<noteq> name" using a name that by (auto simp: all_there_def)
    then show ?thesis using lt [of x] by (auto simp: fs text_of_def contents_def split: option.split)
  qed
  then have "concat (map (text_of fs) names) = concat (map (text_of ?fs) names)"
    by (intro arg_cong [of _ _ concat] map_cong refl)
  moreover have "text_of fs name = text_of ?fs path" "text_of fs path = []"
    using np i(2) lt [OF i(2)] by (simp_all add: fs text_of_def contents_def)
  moreover have "fs_dir fs x \<noteq> None" if "x \<in> set (names @ [name])" for x using that a np by (auto simp: all_there_def fs)
  ultimately have "all_there path (names @ [name]) written fs" using a np by (simp add: all_there_def)
  moreover have "one_file path n (fm\<lparr>fm_objs := (fm_objs fm)(n := lg), fm_fs := fs\<rparr>)"
  proof -
    have d: "fs_dir fs x = (if x = path then Some (fs_next ?fs) else if x = name then Some i else fs_dir ?fs x)" for x by (simp add: fs)
    have 1: "j < fs_next ?fs + 1" if "fs_dir fs x = Some j" for x j
      using that lt [of x j] lt [OF i(2)] by (simp add: d split: if_splits)
    have 2: "x = path" if "fs_dir fs x = Some (fs_next ?fs)" for x
      using that lt [of x "fs_next ?fs"] lt [OF i(2)] by (simp add: d split: if_splits)
    have k: "fs_next fs = fs_next ?fs + 1" "fs_dir fs path = Some (fs_next ?fs)" "fl_fd lg = Some (fs_next ?fs)" "fl_filePath lg = path"
      by (simp_all add: fs lg p(2))
    then have "\<exists>j. fl_fd lg = Some j \<and> fs_dir fs path = Some j \<and> (\<forall>x. fs_dir fs x = Some j \<longrightarrow> x = path)" using 2 by blast
    moreover have "\<forall>x j. fs_dir fs x = Some j \<longrightarrow> j < fs_next fs" using 1 k(1) by simp
    moreover have "fm_logs fm = [(path, n)]" using o by (simp add: one_file_def)
    ultimately show ?thesis using p(1) k(4) by (simp add: one_file_def)
  qed
  ultimately show ?thesis by simp
qed

lemma OnCheck_one:
  assumes o: "one_file path n fm"
  shows "(put_away n now fm = None \<longrightarrow> (\<exists>l. OnCheck can now fm = fm\<lparr>fm_last := l\<rparr>)) \<and>
    (\<forall>name lg fs. put_away n now fm = Some name \<and> Rotate can name (fm_objs fm n) (fm_fs fm) = (lg, fs) \<longrightarrow>
       OnCheck can now fm = fm\<lparr>fm_objs := (fm_objs fm)(n := lg), fm_fs := fs, fm_last := Some now\<rparr>)"
proof (cases "fm_last fm")
  case None
  then show ?thesis by (auto simp: OnCheck_def put_away_def)
next
  case (Some l)
  let ?t = "fl_rotateType (fm_objs fm n)"
  have one: "fm_logs fm = [(path, n)]" using o by (simp add: one_file_def)
  have same: "check_suffix ?t l now = None" if "ct_day l = ct_day now" "ct_hour l = ct_hour now" "ct_minute l = ct_minute now"
    using that by (cases ?t) (simp_all add: check_suffix_def)
  have r: "rotate_log can sfx n fm =
      (if FileSize (fm_objs fm n) (fm_fs fm) > 0
       then case Rotate can (rotated_name sfx (fl_filePath (fm_objs fm n))) (fm_objs fm n) (fm_fs fm) of
         (lg, fs) \<Rightarrow> fm\<lparr>fm_objs := (fm_objs fm)(n := lg), fm_fs := fs\<rparr> else fm)" for sfx
    by (simp add: rotate_log_def Let_def)
  show ?thesis
  proof (cases "check_suffix ?t l now")
    case None
    then show ?thesis using Some by (auto simp: OnCheck_def put_away_def Let_def one check_log_suffix)
  next
    case (Some sfx)
    then have d: "(ct_day l = ct_day now \<and> ct_hour l = ct_hour now \<and> ct_minute l = ct_minute now) = False" using same by auto
    have "OnCheck can now fm = (rotate_log can sfx n fm)\<lparr>fm_last := Some now\<rparr>"
      using \<open>fm_last fm = Some l\<close> Some unfolding OnCheck_def Let_def one by (simp only: option.case d if_False) (simp add: check_log_suffix)
    then show ?thesis using \<open>fm_last fm = Some l\<close> Some by (auto simp: put_away_def r)
  qed
qed

lemma round_ok:
  assumes c: "checker_ok checks (pg_tasks p)" and r: "main_round can now clock civil p = Some p'"
  shows "(\<not> due now p \<longrightarrow> p' = p) \<and>
    (due now p \<and> now \<le> clock \<longrightarrow> checker_ok (checks @ [clock]) (pg_tasks p') \<and> pg_logger p' = pg_logger p \<and>
       pg_fm p' = OnCheck can civil (pg_fm p))"
proof -
  let ?tm = "pg_tasks p"
  have t: "tm_tasks ?tm = [0]" "tk_cb (tm_objs ?tm 0) = Some [Act_Restart 0]" "tk_interval (tm_objs ?tm 0) = 1000"
    "sorted_wrt (\<lambda>a b. a + 1000 < b) checks" "checks \<noteq> [] \<longrightarrow> When ?tm 0 = last checks + 1000" using c by (simp_all add: checker_ok_def)
  show ?thesis
  proof (cases "due now p")
    case False
    have same: "p\<lparr>pg_tasks := ?tm\<lparr>tm_tasks := [0]\<rparr>\<rparr> = p" using t(1) by (cases p; cases "pg_tasks p") auto
    have "p' = p\<lparr>pg_tasks := ?tm\<lparr>tm_tasks := [0]\<rparr>\<rparr>"
      using False r t(1) by (simp add: main_round_def TaskMgr_OnWork_def due_def)
    then show ?thesis using False unfolding same by simp
  next
    case True
    have "sorted_wrt (\<lambda>a b. a + 1000 < b) (checks @ [clock])" if "now \<le> clock"
    proof -
      have "a + 1000 < clock" if a: "a \<in> set checks" for a
      proof -
        have ne: "checks \<noteq> []" using a by auto
        have "a \<le> last checks"
        proof (cases "a = last checks")
          case False
          have s: "sorted_wrt (\<lambda>a b. a + 1000 < b) (butlast checks @ [last checks])" using t(4) ne by simp
          have "a \<in> set (butlast checks)" using a ne False by (metis append_butlast_last_id set_append UnE empty_iff empty_set insertE list.simps(15))
          then show ?thesis using s by (fastforce simp: sorted_wrt_append simp del: append_butlast_last_id)
        qed simp
        then show ?thesis using t(5) ne True \<open>now \<le> clock\<close> by (simp add: due_def)
      qed
      then show ?thesis using t(4) by (simp add: sorted_wrt_append)
    qed
    then show ?thesis using True r t(1-3)
      by (auto simp: main_round_def TaskMgr_OnWork_def due_def Task_Run_def When_def Task_Restart_def checker_ok_def)
  qed
qed

lemma round_returns: "checker_ok checks (pg_tasks p) \<Longrightarrow> \<exists>p'. main_round can now clock civil p = Some p'"
  by (simp add: main_round_def TaskMgr_OnWork_def checker_ok_def Task_Run_def)

text \<open>In every history of the program.\<close>

lemma one_file_last [simp]: "one_file path n (fm\<lparr>fm_last := l\<rparr>) = one_file path n fm"
  by (simp add: one_file_def)

lemma log_hist_inv:
  assumes start: "one_file path n (pg_fm p0)" "all_there path [] old (fm_fs (pg_fm p0))" "lo_fileLog (pg_logger p0) = Some n"
    "checker_ok [] (pg_tasks p0)"
  shows "log_hist p0 n names lns checks p \<Longrightarrow> one_file path n (pg_fm p) \<and> all_there path names (old @ concat lns) (fm_fs (pg_fm p)) \<and>
    lo_fileLog (pg_logger p) = Some n \<and> checker_ok checks (pg_tasks p)"
proof (induction rule: log_hist.induct)
  case start
  then show ?case using assms by simp
next
  case (line names lns checks p msg out p')
  then show ?case using write_there [of path n "pg_fm p" names "old @ concat lns" "pg_logger p" msg]
    by (auto simp: log_msg_def split: prod.splits)
next
  case (idle names lns checks p now clock civil p')
  then have "p' = p" using round_ok by blast
  then show ?case using idle.IH by simp
next
  case (check names lns checks p now clock civil p')
  then have p': "checker_ok (checks @ [clock]) (pg_tasks p')" "pg_logger p' = pg_logger p"
    "pg_fm p' = OnCheck (\<lambda>_. True) civil (pg_fm p)" using round_ok by blast+
  moreover obtain l where "OnCheck (\<lambda>_. True) civil (pg_fm p) = (pg_fm p)\<lparr>fm_last := l\<rparr>"
    using OnCheck_one [of path n "pg_fm p" civil "\<lambda>_. True"] check by auto
  ultimately show ?case using check.IH by simp
next
  case (rotate names lns checks p now clock civil name p')
  then have p': "checker_ok (checks @ [clock]) (pg_tasks p')" "pg_logger p' = pg_logger p"
    "pg_fm p' = OnCheck (\<lambda>_. True) civil (pg_fm p)" using round_ok by blast+
  obtain lg fs where r: "Rotate (\<lambda>_. True) name (fm_objs (pg_fm p) n) (fm_fs (pg_fm p)) = (lg, fs)" by fastforce
  have "OnCheck (\<lambda>_. True) civil (pg_fm p) = (pg_fm p)\<lparr>fm_objs := (fm_objs (pg_fm p))(n := lg), fm_fs := fs, fm_last := Some civil\<rparr>"
    using OnCheck_one [of path n "pg_fm p" civil "\<lambda>_. True"] rotate.IH rotate.hyps(4) r by auto
  moreover have "one_file path n ((pg_fm p)\<lparr>fm_objs := (fm_objs (pg_fm p))(n := lg), fm_fs := fs\<rparr>) \<and>
      all_there path (names @ [name]) (old @ concat lns) fs" using rotate_there [OF _ _ rotate.hyps(5) r] rotate.IH by blast
  ultimately show ?case using p' rotate.IH by (simp add: one_file_def)
qed

text \<open>Each path of the file system has a file of its own.\<close>

definition no_links :: "fsys \<Rightarrow> bool" where
  "no_links fs \<longleftrightarrow> (\<forall>x j. fs_dir fs x = Some j \<longrightarrow> j < fs_next fs \<and> (\<forall>y. fs_dir fs y = Some j \<longrightarrow> y = x))"

lemma open_one:
  assumes "no_links fs" and "FileLog_Open (\<lambda>_. True) path new_FileLog fs = (ok, lg, fs')"
  shows "ok \<and> fl_filePath lg = path \<and> (\<exists>i. fl_fd lg = Some i \<and> fs_dir fs' path = Some i \<and> (\<forall>x. fs_dir fs' x = Some i \<longrightarrow> x = path)) \<and>
    (\<forall>x j. fs_dir fs' x = Some j \<longrightarrow> j < fs_next fs') \<and> text_of fs' path = text_of fs path"
proof (cases "fs_dir fs path")
  case None
  have lt: "fs_dir fs x \<noteq> Some (fs_next fs)" "fs_dir fs x = Some j \<Longrightarrow> j < Suc (fs_next fs)" for x j
    using assms(1) by (auto simp: no_links_def intro: less_SucI)
  then show ?thesis using assms(2) None by (auto simp: FileLog_Open_def sys_open_def text_of_def contents_def new_FileLog_def split: if_splits)
next
  case (Some i)
  then show ?thesis using assms by (auto simp: FileLog_Open_def sys_open_def no_links_def)
qed

lemma main_start_log:
  assumes "main_start js junk can file fm = Inr (Inr (cf, lo, fm'))"
  shows "\<exists>(li :: log_info) n fm1. GetFileLog can (li_path li @ li_name li) fm = (Some n, fm1) \<and> lo_fileLog lo = Some n \<and>
    fm' = fm1\<lparr>fm_objs := (fm_objs fm1)(n := SetRotate (li_rotate_type li) (fm_objs fm1 n))\<rparr>"
proof -
  obtain ok c where "(if \<not> ok then Inr (Inl (-1)) else case c of None \<Rightarrow> Inl Null_deref
      | Some c \<Rightarrow> (case cf_logInfo c of None \<Rightarrow> Inl Null_deref
        | Some li \<Rightarrow> (case GetFileLog can (li_path li @ li_name li) fm of (None, fm') \<Rightarrow> Inr (Inl (-1))
          | (Some n, fm') \<Rightarrow> (let fm2 = fm'\<lparr>fm_objs := (fm_objs fm')(n := SetRotate (li_rotate_type li) (fm_objs fm' n))\<rparr>
              in Inr (Inr (c, (new_Logger (Some n))\<lparr>lo_level := li_level li\<rparr>, fm2)))))) =
      (Inr (Inr (cf, lo, fm')) :: (int + config \<times> logger \<times> file_mgr) result)"
    using assms unfolding main_start_def bindR_eq_Inr_iff by auto
  then show ?thesis
    by (auto simp: new_Logger_def Let_def split: if_splits option.splits prod.splits)
      (intro exI conjI, assumption, rule refl)
qed

lemma main_opens:
  assumes m: "main js junk (\<lambda>_. True) file now fds np fm = Inr (Inr (p0, hs))" and fm: "fm_logs fm = []" "no_links (fm_fs fm)"
    and path: "fl_filePath (fm_objs (pg_fm p0) (fm_next fm)) = path" "path \<noteq> []"
  shows "one_file path (fm_next fm) (pg_fm p0) \<and> all_there path [] (text_of (fm_fs fm) path) (fm_fs (pg_fm p0)) \<and>
    lo_fileLog (pg_logger p0) = Some (fm_next fm) \<and> checker_ok [] (pg_tasks p0)"
proof -
  obtain cf lo fm' where s: "main_start js junk (\<lambda>_. True) file fm = Inr (Inr (cf, lo, fm'))" "p0 = main_setup now lo fm'"
  proof -
    obtain r where r: "main_start js junk (\<lambda>_. True) file fm = Inr r" "(case r of Inl status \<Rightarrow> Inr (Inl status)
        | Inr (cf, lo, fm') \<Rightarrow> bindR (HttpService_Start fds np cf) (\<lambda>hs. Inr (Inr (main_setup now lo fm', hs)))) = Inr (Inr (p0, hs))"
      using m unfolding main_def bindR_eq_Inr_iff by blast
    then show thesis using that by (cases r) (auto simp: bindR_eq_Inr_iff)
  qed
  obtain li :: log_info and n fm1 where g: "GetFileLog (\<lambda>_. True) (li_path li @ li_name li) fm = (Some n, fm1)" "lo_fileLog lo = Some n"
    "fm' = fm1\<lparr>fm_objs := (fm_objs fm1)(n := SetRotate (li_rotate_type li) (fm_objs fm1 n))\<rparr>"
    using main_start_log [OF s(1)] by blast
  let ?path = "li_path li @ li_name li"
  obtain ok lg fs' where o: "FileLog_Open (\<lambda>_. True) ?path new_FileLog (fm_fs fm) = (ok, lg, fs')"
    by (cases "FileLog_Open (\<lambda>_. True) ?path new_FileLog (fm_fs fm)") auto
  note op = open_one [OF fm(2) o]
  have fm1: "n = fm_next fm" "fm_logs fm1 = [(?path, n)]" "fm_objs fm1 = (fm_objs fm)(n := lg)" "fm_fs fm1 = fs'"
    using g(1) fm(1) o op [THEN conjunct1] by (auto simp: GetFileLog_def)
  have q: "pg_fm p0 = fm'" "pg_logger p0 = lo" using s(2) by (simp_all add: main_setup_def)
  have pe: "path = ?path" using path(1) op by (simp add: q g(3) fm1 SetRotate_def)
  have "one_file path n fm'" using op path(2) by (auto simp: pe one_file_def g(3) fm1 SetRotate_def)
  moreover have "all_there path [] (text_of (fm_fs fm) path) (fm_fs fm')" using op by (simp add: pe all_there_def g(3) fm1)
  moreover have "checker_ok [] (pg_tasks p0)"
    using s(2) by (simp add: main_setup_def checker_ok_def TaskMgr_Add_def task1_def new_Task_def)
  ultimately show ?thesis using q g(2) fm1(1) by simp
qed

section \<open>Properties\<close>

text \<open>C29: the log of the running program is complete: in every history of lines and rounds of \<open>main\<close>, what
  the rotations put away, in their order, followed by what is in the file now, is what the file held
  before and every line that was logged, in order, provided no rotated name was in use. The check
  is never lost from the task manager, no round blocks, and checks are more than a second apart.\<close>

theorem log_complete:
  assumes "main js junk (\<lambda>_. True) file now fds np fm = Inr (Inr (p0, hs))" and "fm_logs fm = []" and "no_links (fm_fs fm)"
    and "fl_filePath (fm_objs (pg_fm p0) (fm_next fm)) = path" and "path \<noteq> []"
    and "log_hist p0 (fm_next fm) names lns checks p"
  shows "concat (map (text_of (fm_fs (pg_fm p))) names) @ text_of (fm_fs (pg_fm p)) path = text_of (fm_fs fm) path @ concat lns \<and>
    fst (log_msg msg p) = [] \<and> tm_tasks (pg_tasks p) = [0] \<and> main_round can now' clock civil p \<noteq> None \<and>
    sorted_wrt (\<lambda>a b. a + 1000 < b) checks"
proof -
  have m: "one_file path (fm_next fm) (pg_fm p0)" "all_there path [] (text_of (fm_fs fm) path) (fm_fs (pg_fm p0))"
    "lo_fileLog (pg_logger p0) = Some (fm_next fm)" "checker_ok [] (pg_tasks p0)" using main_opens [OF assms(1-5)] by simp_all
  have h: "one_file path (fm_next fm) (pg_fm p)" "all_there path names (text_of (fm_fs fm) path @ concat lns) (fm_fs (pg_fm p))"
    "lo_fileLog (pg_logger p) = Some (fm_next fm)" "checker_ok checks (pg_tasks p)"
    using log_hist_inv [OF m(1-4) assms(6)] by simp_all
  have "\<exists>i. fl_fd (fm_objs (pg_fm p) (fm_next fm)) = Some i" using h(1) unfolding one_file_def by blast
  then have "fst (log_msg msg p) = []" using h(3) by (auto simp: log_msg_def Logger_Write_def WriteLog_def)
  moreover have "main_round can now' clock civil p \<noteq> None"
    using round_returns [OF h(4), of can now' clock civil] by auto
  ultimately show ?thesis using h(2,4) by (simp add: all_there_def checker_ok_def)
qed

text \<open>A configuration with a log that is rotated every day, and days.\<close>

definition small_config :: json where
  "small_config = J_object [(''services'', J_array []),
     (''log'', J_object [(''level'', J_text ''INFO''), (''name'', J_text ''app.log''), (''rotate'', J_text ''DAY'')])]"

definition day_one :: "nat \<Rightarrow> civil_time" where
  "day_one d = \<lparr>ct_year = 1, ct_month = 1, ct_day = d, ct_hour = 0, ct_minute = 0, ct_second = 0\<rparr>"

lemma small_start:
  "\<exists>p0 hs. main small_json kInfo (\<lambda>_. True) (Some small_config) 0 fds np empty_mgr = Inr (Inr (p0, hs)) \<and>
     fm_logs (pg_fm p0) = [(''app.log'', 0)] \<and> fm_last (pg_fm p0) = None \<and>
     fm_objs (pg_fm p0) 0 = \<lparr>fl_fd = Some 0, fl_rotateType = kRotateDay, fl_filePath = ''app.log''\<rparr> \<and>
     fm_fs (pg_fm p0) = \<lparr>fs_dir = [''app.log'' \<mapsto> 0], fs_data = (\<lambda>_. []), fs_next = 1\<rparr> \<and>
     lo_fileLog (pg_logger p0) = Some 0 \<and> checker_ok [] (pg_tasks p0) \<and> When (pg_tasks p0) 0 = 1000"
proof -
  let ?cf = "new_Config\<lparr>cf_logInfo := Some \<lparr>li_level = kInfo, li_path = [], li_name = ''app.log'', li_rotate_type = kRotateDay\<rparr>\<rparr>"
  let ?fm = "empty_mgr\<lparr>fm_logs := [(''app.log'', 0)], fm_next := 1,
    fm_objs := (\<lambda>_. new_FileLog)(0 := \<lparr>fl_fd = Some 0, fl_rotateType = kRotateDay, fl_filePath = ''app.log''\<rparr>),
    fm_fs := \<lparr>fs_dir = [''app.log'' \<mapsto> 0], fs_data = (\<lambda>_. []), fs_next = 1\<rparr>\<rparr>"
  have "ConfigMgr_LoadConfig small_json kInfo (Some small_config) None = Inr (True, Some ?cf)"
    by (simp add: small_config_def ConfigMgr_LoadConfig_def Config_LoadConfig_def small_json_def read_string_def read_int_def
        ParseLogInfo_def ParseServiceInfo_def Let_def put_rotate_def put_level_def new_Config_def)
  then have "main_start small_json kInfo (\<lambda>_. True) (Some small_config) empty_mgr =
      Inr (Inr (?cf, \<lparr>lo_level = kInfo, lo_fileLog = Some 0\<rparr>, ?fm))"
    by (simp add: main_start_def GetFileLog_def empty_mgr_def FileLog_Open_def sys_open_def new_FileLog_def SetRotate_def new_Logger_def fun_eq_iff)
  moreover have "\<exists>hs. HttpService_Start fds np ?cf = Inr hs"
    by (simp add: HttpService_Start_def new_Config_def new_EventLoopThreadPool_def)
  ultimately show ?thesis
    by (auto simp: main_def empty_mgr_def main_setup_def TaskMgr_Add_def checker_ok_def task1_def new_Task_def When_def)
qed


theorem log_complete_witness:
  "\<exists>p0 hs name p. main small_json kInfo (\<lambda>_. True) (Some small_config) 0 (\<lambda>k. int k + 10) (\<lambda>el. (Some (3, 4), 0)) empty_mgr = Inr (Inr (p0, hs)) \<and>
     log_hist p0 0 [name] [''a'', ''b''] [1001, 3000] p \<and>
     text_of (fm_fs (pg_fm p)) name @ text_of (fm_fs (pg_fm p)) ''app.log'' = ''ab''"
proof -
  obtain p0 hs where m: "main small_json kInfo (\<lambda>_. True) (Some small_config) 0 (\<lambda>k. int k + 10) (\<lambda>el. (Some (3, 4), 0)) empty_mgr = Inr (Inr (p0, hs))"
    and s: "fm_logs (pg_fm p0) = [(''app.log'', 0)]" "fm_last (pg_fm p0) = None"
     "fm_objs (pg_fm p0) 0 = \<lparr>fl_fd = Some 0, fl_rotateType = kRotateDay, fl_filePath = ''app.log''\<rparr>"
     "fm_fs (pg_fm p0) = \<lparr>fs_dir = [''app.log'' \<mapsto> 0], fs_data = (\<lambda>_. []), fs_next = 1\<rparr>"
     "lo_fileLog (pg_logger p0) = Some 0" "checker_ok [] (pg_tasks p0)" "When (pg_tasks p0) 0 = 1000"
    using small_start [of "\<lambda>k. int k + 10" "\<lambda>el. (Some (3, 4), 0)"] by blast
  let ?fs = "\<lparr>fs_dir = [''app.log'' \<mapsto> 0], fs_data = (\<lambda>_. [])(0 := ''a''), fs_next = 1\<rparr>"
  define p1 where "p1 = p0\<lparr>pg_fm := (pg_fm p0)\<lparr>fm_fs := ?fs\<rparr>\<rparr>"
  have "log_msg ''a'' p0 = ([], p1)" using s by (simp add: log_msg_def Logger_Write_def WriteLog_def p1_def)
  then have h1: "log_hist p0 0 [] [''a''] [] p1" using log_hist.line [OF log_hist.start] by force
  have p1: "checker_ok [] (pg_tasks p1)" "due 1001 p1" "put_away 0 (day_one 1) (pg_fm p1) = None" using s by (simp_all add: p1_def due_def put_away_def)
  obtain p2 where p2: "main_round (\<lambda>_. True) 1001 1001 (day_one 1) p1 = Some p2" using round_returns [OF p1(1)] by blast
  have h2: "log_hist p0 0 [] [''a''] [1001] p2" using log_hist.check [OF h1 p1(2) _ p1(3) p2] by simp
  have q2: "checker_ok [1001] (pg_tasks p2)" "pg_logger p2 = pg_logger p0" "pg_fm p2 = (pg_fm p1)\<lparr>fm_last := Some (day_one 1)\<rparr>"
    using round_ok [OF p1(1) p2] p1(2) s by (simp_all add: OnCheck_def p1_def)
  have "rotated_name (day_suffix (day_one 1)) ''app.log'' = ''./app_   1-01-01.log''" by code_simp
  then have p3: "due 3000 p2" "put_away 0 (day_one 2) (pg_fm p2) = Some ''./app_   1-01-01.log''" "fs_dir (fm_fs (pg_fm p2)) ''./app_   1-01-01.log'' = None"
    using q2 s by (simp_all add: due_def checker_ok_def put_away_def p1_def FileSize_def check_suffix_def day_one_def)
  obtain p4 where p4: "main_round (\<lambda>_. True) 3000 3000 (day_one 2) p2 = Some p4" using round_returns [OF q2(1)] by blast
  have h4: "log_hist p0 0 [''./app_   1-01-01.log''] [''a''] [1001, 3000] p4" using log_hist.rotate [OF h2 p3(1) _ p3(2,3) p4] by simp
  obtain out p5 where "log_msg ''b'' p4 = (out, p5)" by fastforce
  then have h5: "log_hist p0 0 [''./app_   1-01-01.log''] [''a'', ''b''] [1001, 3000] p5" using log_hist.line [OF h4] by force
  have fm: "fm_logs empty_mgr = []" "no_links (fm_fs empty_mgr)" "fm_next empty_mgr = 0" "text_of (fm_fs empty_mgr) x = []" for x
    by (simp_all add: empty_mgr_def no_links_def text_of_def contents_def)
  have "fl_filePath (fm_objs (pg_fm p0) (fm_next empty_mgr)) = ''app.log''" using s fm(3) by simp
  from log_complete [OF m fm(1,2) this, of "[''./app_   1-01-01.log'']" "[''a'', ''b'']" "[1001, 3000]" p5] h5
  have "text_of (fm_fs (pg_fm p5)) ''./app_   1-01-01.log'' @ text_of (fm_fs (pg_fm p5)) ''app.log'' = ''ab''"
    by (simp add: fm)
  then show ?thesis using m h5 by blast
qed

end
