(* ===== verification/PostedSends.thy ===== *)
theory PostedSends
  imports EventLoop TcpConnection UdpSocket TcpClient
begin

text \<open>
  \<open>TcpConnection::Send\<close> and \<open>UdpSocket::Send\<close> from any thread: the loop of the socket runs
  \<open>SendInLoop\<close>, at once in its own thread and from its queue otherwise. What is posted holds the
  address of the bytes, or a reference to the caller's list of nodes, both read when the function
  runs. Write events, closing and what the program writes into its memory and lists are steps of
  their own. The clients' \<open>Connect\<close> goes the same way.
\<close>

section \<open>A socket in a loop\<close>

text \<open>
  \<open>act\<close> is what a call does to the socket. The state beside the loop is the socket, the events it
  has made and the calls that have run.
\<close>

type_synonym ('f, 'c, 'e) act = "'f \<Rightarrow> 'c \<Rightarrow> ('e list \<times> 'c) result"
type_synonym ('f, 'c, 'e) socket_world = "'c \<times> 'e list \<times> 'f list"

definition run_call :: "('f, 'c, 'e) act \<Rightarrow> 'f \<Rightarrow> ('f, ('f, 'c, 'e) socket_world) loop_state
    \<Rightarrow> ('f, ('f, 'c, 'e) socket_world) loop_state result" where
  "run_call act f s = (case s of (lp, c, out, calls) \<Rightarrow> bindR (act f c) (\<lambda>(evs, c'). Inr (lp, c', out @ evs, calls @ [f])))"

fun acts :: "('f, 'c, 'e) act \<Rightarrow> 'f list \<Rightarrow> 'c \<Rightarrow> ('e list \<times> 'c) result" where
  "acts act [] c = Inr ([], c)"
| "acts act (f # fs) c = bindR (act f c) (\<lambda>(evs, c1). bindR (acts act fs c1) (\<lambda>(evs', c2). Inr (evs @ evs', c2)))"

definition no_handlers :: "('f, 'w) handlers" where
  "no_handlers call c s = Inr s"

section \<open>Connections and datagram sockets\<close>

definition shared_act :: "('x, 'c, 'e) shared_op \<Rightarrow> ('n list \<Rightarrow> 'x) \<Rightarrow> (('x, 'n) shared_call, ('n, 'c) shared, 'e) act" where
  "shared_act run mk f w = (case shared_run run mk f w of None \<Rightarrow> Inl (Exception ''does not return'') | Some r \<Rightarrow> r)"

definition conn_act :: "(conn_call, conn_world, tc_event) act" where
  "conn_act = shared_act run_op Op_SendList"

type_synonym conn_loop = "(conn_call, (conn_call, conn_world, tc_event) socket_world) loop_state"

definition TcpConnection_Send :: "bool \<Rightarrow> nat \<Rightarrow> nat \<Rightarrow> int + nat \<Rightarrow> new_pipe \<Rightarrow> conn_loop \<Rightarrow> conn_loop result" where
  "TcpConnection_Send here buf sz w np s = RunInLoop (run_call conn_act) here (Call (Op_Send buf sz w)) np s"

definition TcpConnection_Send_list :: "bool \<Rightarrow> nat \<Rightarrow> new_pipe \<Rightarrow> conn_loop \<Rightarrow> conn_loop result" where
  "TcpConnection_Send_list here l np s = RunInLoop (run_call conn_act) here (Call_list l) np s"

definition udp_act :: "(udp_call, udp_world, udp_event) act" where
  "udp_act = shared_act udp_op_run Op_udp_list"

type_synonym udp_loop = "(udp_call, (udp_call, udp_world, udp_event) socket_world) loop_state"

definition UdpSocket_Send :: "bool \<Rightarrow> udp_node \<Rightarrow> int option \<Rightarrow> new_pipe \<Rightarrow> udp_loop \<Rightarrow> udp_loop result" where
  "UdpSocket_Send here n w np s = RunInLoop (run_call udp_act) here (Call (Op_udp_send n w)) np s"

definition UdpSocket_Send_list :: "bool \<Rightarrow> nat \<Rightarrow> new_pipe \<Rightarrow> udp_loop \<Rightarrow> udp_loop result" where
  "UdpSocket_Send_list here l np s = RunInLoop (run_call udp_act) here (Call_list l) np s"

text \<open>\<open>Connect\<close> of the clients runs \<open>ConnectInLoop\<close> in the loop.\<close>

definition client_act :: "'u message_cb \<Rightarrow> (client_op, 'u \<times> tcp_client, cl_event) act" where
  "client_act cb f s = (case s of (u, cl) \<Rightarrow>
     (case TcpClient.client_step cb f u cl of
        None \<Rightarrow> Inl (Exception ''does not return'')
      | Some r \<Rightarrow> bindR r (\<lambda>(evs, u', cl'). Inr (evs, u', cl'))))"

type_synonym 'u client_loop = "(client_op, (client_op, 'u \<times> tcp_client, cl_event) socket_world) loop_state"

definition TcpClient_Connect :: "'u message_cb \<Rightarrow> bool \<Rightarrow> int \<Rightarrow> int option \<Rightarrow> new_pipe \<Rightarrow> 'u client_loop \<Rightarrow> 'u client_loop result" where
  "TcpClient_Connect cb here fd r np s = RunInLoop (run_call (client_act cb)) here (Op_connect fd r) np s"

definition UdpClient_Connect :: "(string \<Rightarrow> nat list option) \<Rightarrow> bool \<Rightarrow> int \<Rightarrow> new_pipe \<Rightarrow>
    (int, (int, udp_client, udp_event) socket_world) loop_state \<Rightarrow> (int, (int, udp_client, udp_event) socket_world) loop_state result" where
  "UdpClient_Connect pton6 here fd np s = RunInLoop (run_call (\<lambda>fd uc. Inr (UdpClient_ConnectInLoop pton6 fd uc))) here fd np s"

section \<open>What histories keep\<close>

lemma run_call_Inr:
  "run_call act f (lp, c, out, calls) = Inr (lp', w') \<Longrightarrow>
     \<exists>evs c'. act f c = Inr (evs, c') \<and> lp' = lp \<and> w' = (c', out @ evs, calls @ [f])"
  by (auto simp: run_call_def bindR_eq_Inr_iff)

lemma run_call_step: "run_call act f (lp, w) = Inr (lp', w') \<Longrightarrow> lp' = lp"
  by (cases w) (auto simp: run_call_def bindR_eq_Inr_iff)

interpretation socket_calls: loop_client "run_call act" no_handlers
  by unfold_locales (auto simp: no_handlers_def dest!: run_call_step)

lemma run_all_keeps:
  assumes step: "\<And>f lp w hist lp' w'. I w hist \<Longrightarrow> run f (lp, w) = Inr (lp', w') \<Longrightarrow> I w' (hist @ [f])"
  shows "run_all (noting run) fs (lp, w, hist) = Inr (lp', w', hist') \<Longrightarrow> I w hist \<Longrightarrow> I w' hist'"
proof (induction fs arbitrary: lp w hist)
  case (Cons f fs)
  then obtain lp1 w1 where "run f (lp, w) = Inr (lp1, w1)" "run_all (noting run) fs (lp1, w1, hist @ [f]) = Inr (lp', w', hist')"
    by (auto simp: bindR_eq_Inr_iff noting_Inr)
  then show ?case using Cons.IH step Cons.prems(2) by blast
qed simp

lemma handle_none: "handle_all (beside no_handlers) cs (lp, w, hist) = Inr (lp', w', hist') \<Longrightarrow> w' = w"
proof (induction cs arbitrary: lp)
  case (Cons c cs)
  have d: "dispatch (beside no_handlers) call c (lp, w, hist) = Inr (lp1, w1, h1) \<Longrightarrow> w1 = w \<and> h1 = hist" for call lp1 w1 h1
    by (auto simp: dispatch_def beside_def no_handlers_def split: option.splits if_splits)
  from Cons.prems obtain lp1 w1 h1 where
    1: "(case HandleEvent (ep_store (el_ep lp) c) of None \<Rightarrow> Inr (lp, w, hist)
       | Some call \<Rightarrow> dispatch (beside no_handlers) call c (lp, w, hist)) = Inr (lp1, w1, h1)"
    and 2: "handle_all (beside no_handlers) cs (lp1, w1, h1) = Inr (lp', w', hist')" by (auto simp: bindR_eq_Inr_iff)
  have "w1 = w" "h1 = hist" using 1 d by (auto split: option.splits)
  then show ?case using Cons.IH 2 by simp
qed simp

lemma handling_none: "handling run (beside no_handlers) cs s fs s' \<Longrightarrow> fst (snd s') = fst (snd s)"
proof (induction rule: handling.induct)
  case (handler c s s1 cs fs s')
  then show ?case using handle_none [of "[c]" "fst s" "fst (snd s)" "snd (snd s)" "fst s1" "fst (snd s1)" "snd (snd s1)"] by simp
next
  case (post np s cs f s1 fs s')
  then show ?case by (cases s) (auto simp: RunInLoop_def bindR_eq_Inr_iff)
qed simp

lemma hist_keeps:
  assumes I0: "I w0 []" and step: "\<And>f lp w hist lp' w'. I w hist \<Longrightarrow> run f (lp, w) = Inr (lp', w') \<Longrightarrow> I w' hist \<and> I w' (hist @ [f])"
  shows "loop_hist run no_handlers w0 ps s \<Longrightarrow> I (fst (snd s)) (snd (snd s))"
proof (induction rule: loop_hist.induct)
  case start
  then show ?case using I0 by simp
next
  case (post ps lp w hist np f lp' w')
  then show ?case by (auto simp: RunInLoop_def bindR_eq_Inr_iff)
next
  case (own ps lp w hist f np lp' w')
  then show ?case using step by (simp add: RunInLoop_def)
next
  case (round ps lp w hist xs ys cs ep fs s1 now evs s')
  obtain lp1 w1 h1 lp' w' hist' where s: "s1 = (lp1, w1, h1)" "s' = (lp', w', hist')" by (cases s1, cases s')
  obtain lp2 where r: "run_all (noting run) (el_fns lp1) (lp1, w1, h1) = Inr (lp2, w', hist')"
    using round.hyps(5) by (auto simp: s round_end_def RunFuctions_def bindR_eq_Inr_iff split: prod.splits)
  have "w1 = w" "h1 = hist" using handling_none [OF round.hyps(4)] handling_beside [OF round.hyps(4)] by (simp_all add: s)
  then have "I w' hist'" using run_all_keeps [of I run, OF _ r] step round.IH by auto
  then show ?case by (simp add: s)
qed

lemma acts_snoc:
  "acts act fs c = Inr (evs, c1) \<Longrightarrow> act f c1 = Inr (evs', c2) \<Longrightarrow> acts act (fs @ [f]) c = Inr (evs @ evs', c2)"
  by (induction fs arbitrary: c evs) (auto simp: bindR_eq_Inr_iff)

text \<open>The calls made what the socket is, and those from the queue are among them, in order.\<close>

definition made :: "('f, 'c, 'e) act \<Rightarrow> 'c \<Rightarrow> ('f, 'c, 'e) socket_world \<Rightarrow> 'f list \<Rightarrow> bool" where
  "made act c0 w hist \<longleftrightarrow> (case w of (c, out, calls) \<Rightarrow> acts act calls c0 = Inr (out, c) \<and> subseq hist calls)"

lemma made_step:
  assumes m: "made act c0 w hist" and r: "run_call act f (lp, w) = Inr (lp', w')"
  shows "made act c0 w' hist \<and> made act c0 w' (hist @ [f])"
proof -
  obtain c out calls where w: "w = (c, out, calls)" by (cases w)
  obtain evs c' where x: "act f c = Inr (evs, c')" "w' = (c', out @ evs, calls @ [f])"
    using run_call_Inr [OF r [unfolded w]] by blast
  have "acts act calls c0 = Inr (out, c)" "subseq hist calls" using m by (simp_all add: made_def w)
  then show ?thesis using acts_snoc [where act = act, OF _ x(1)] by (simp add: made_def x(2) list_emb_append_mono subseq_rev_drop_many)
qed

lemma world_made:
  assumes "loop_hist (run_call act) no_handlers (c0, [], []) ps (lp, (c, out, calls), hist)"
  shows "acts act calls c0 = Inr (out, c) \<and> subseq hist calls"
proof -
  have "made act c0 (c0, [], []) []" by (simp add: made_def)
  from hist_keeps [where I = "made act c0", OF this made_step assms] show ?thesis by (simp add: made_def)
qed

lemma acts_shared: "acts (shared_act run mk) fs w = Inr r \<Longrightarrow> shared_runs run mk fs w = Some (Inr r)"
  by (induction fs arbitrary: w r) (auto simp: shared_act_def bindR_eq_Inr_iff split: option.splits)

lemma client_act_Inr:
  "client_act cb f (u, cl) = Inr (evs, u', cl') \<longleftrightarrow> TcpClient.client_step cb f u cl = Some (Inr (evs, u', cl'))"
  by (auto simp: client_act_def bindR_eq_Inr_iff split: option.splits)

lemma acts_client: "acts (client_act cb) fs (u, cl) = Inr (evs, u', cl') \<Longrightarrow> client_run cb fs u cl = Some (Inr (evs, u', cl'))"
  by (induction fs arbitrary: u cl evs) (auto simp: client_act_Inr bindR_eq_Inr_iff)

lemma posted:
  assumes "loop_hist run handle w0 ps (lp, w, hist)" and "loop_client run handle" and "fresh_pipe np (el_ep lp)"
  shows "\<exists>lp'. RunInLoop run False f np (lp, w) = Inr (lp', w) \<and> el_fns lp' = el_fns lp @ [f]"
  using WakeUp_inv [OF _ assms(3), of "el_fns lp @ [f]"] loop_client.hist_inv [OF assms(2,1)] by (auto simp: RunInLoop_def)

text \<open>A history for the examples: one call in the loop, then a posted one.\<close>

lemma own_then_post:
  assumes "run_call act g (new_EventLoop, c, [], []) = Inr (new_EventLoop, w)"
  shows "\<exists>lp. loop_hist (run_call act) no_handlers (c, [], []) [f] (lp, w, []) \<and> el_fns lp = [f]"
proof -
  have p: "fresh_pipe (Some (3, 4), 0) (el_ep new_EventLoop)"
    by (simp add: fresh_pipe_def new_EventLoop_def new_Epoller_def chan_fd_def new_Channel_def)
  have h: "loop_hist (run_call act) no_handlers (c, [], []) [] (new_EventLoop, w, [])"
    by (rule loop_hist.own [where f = g and np = "(None, 0)", OF loop_hist.start]) (simp add: RunInLoop_def assms)
  obtain lp where "RunInLoop (run_call act) False f (Some (3, 4), 0) (new_EventLoop, w) = Inr (lp, w)" "el_fns lp = [f]"
    using posted [OF h socket_calls.loop_client_axioms p] by (auto simp: new_EventLoop_def)
  then show ?thesis using loop_hist.post [OF h p] by fastforce
qed

section \<open>Properties\<close>

text \<open>C20: data that any threads send on a connection leaves in the order in which the sends were posted.
  Over every history of its loop in which no list has an empty node and the program does not change
  bytes that are queued: every call of \<open>Send\<close> from another thread runs once, after those posted
  before it, or is still waiting; and what is on the wire and what is queued are, in order, what was
  queued before and what each call that ran took: while the connection is open all its bytes, from
  the memory and the list as they are when it runs, or one byte more when a direct \<open>write\<close> fails, and
  nothing once it is closed. Posting never fails.\<close>

theorem posted_sends:
  assumes "loop_hist (run_call conn_act) no_handlers ((m0, ls0, c0), [], []) ps (lp, ((m, ls, c), out, calls), hist)"
    and "tc_inv c0" and "sends_ok calls (m0, ls0, c0)"
  shows "hist @ el_fns lp = ps \<and> subseq hist calls \<and> conn_runs calls (m0, ls0, c0) = Some (Inr (out, m, ls, c)) \<and>
    wrote out @ pending m c = pending m0 c0 @ taken_along calls (m0, ls0, c0) \<and>
    (if fresh_pipe np (el_ep lp)
     then (\<exists>lp'. TcpConnection_Send False buf sz k np (lp, (m, ls, c), out, calls) = Inr (lp', (m, ls, c), out, calls) \<and>
         el_fns lp' = el_fns lp @ [Call (Op_Send buf sz k)]) \<and>
       (\<exists>lp'. TcpConnection_Send_list False l np (lp, (m, ls, c), out, calls) = Inr (lp', (m, ls, c), out, calls) \<and>
         el_fns lp' = el_fns lp @ [Call_list l])
     else True)"
proof -
  have made: "conn_runs calls (m0, ls0, c0) = Some (Inr (out, m, ls, c))" "subseq hist calls"
    using world_made [OF assms(1)] acts_shared by (auto simp: conn_act_def conn_runs_def)
  then have "wrote out @ pending m c = pending m0 c0 @ taken_along calls (m0, ls0, c0)"
    using conn_runs_spec [OF assms(2,3)] by auto
  then show ?thesis
    using made socket_calls.hist_inv [OF assms(1)] posted [OF assms(1) socket_calls.loop_client_axioms]
    by (simp add: TcpConnection_Send_def TcpConnection_Send_list_def)
qed

lemma sample_call: "sends_ok [Call (Op_Send 100 5 (Inr 3))] (memory_of ''hello'', ls, new_TcpConnection 5)"
  "taken_along [Call (Op_Send 100 5 (Inr 3))] (memory_of ''hello'', ls, new_TcpConnection 5) = ''hello''"
  by (simp_all add: sends_ok_def taken_along_def two64_def memory_of_hello in_memory_def split: option.split sum.split)
    (simp_all add: new_TcpConnection_def)

theorem posted_sends_witness:
  "\<exists>lp m ls c out. loop_hist (run_call conn_act) no_handlers ((memory_of ''hello'', \<lambda>_. [(100, 2)], new_TcpConnection 5), [], []) [Call_list 7]
      (lp, ((m, ls, c), out, [Call (Op_Send 100 5 (Inr 3))]), []) \<and> el_fns lp = [Call_list 7] \<and>
    wrote out @ pending m c = ''hello''"
proof -
  let ?w = "(memory_of ''hello'', \<lambda>_. [(100, 2)], new_TcpConnection 5)" and ?f = "Call_list 7" and ?g = "Call (Op_Send 100 5 (Inr 3))"
  obtain m ls c out where r: "run_call conn_act ?g (new_EventLoop, ?w, [], []) = Inr (new_EventLoop, (m, ls, c), out, [?g])"
    by (cases "SendInLoop (memory_of ''hello'') 100 5 (Inr 3) (new_TcpConnection 5)")
      (auto simp: run_call_def conn_act_def shared_act_def in_memory_def)
  obtain lp where h: "loop_hist (run_call conn_act) no_handlers (?w, [], []) [?f] (lp, ((m, ls, c), out, [?g]), [])" "el_fns lp = [?f]"
    using own_then_post [OF r] by blast
  have "pending (memory_of ''hello'') (new_TcpConnection 5) = []" by (simp add: pending_def new_TcpConnection_def)
  then have "wrote out @ pending m c = ''hello''"
    using posted_sends [OF h(1) tc_inv_new sample_call(1), of "(None, 0)" 100 5 "Inr 9" 7] by (simp add: sample_call(2))
  then show ?thesis using h by blast
qed



text \<open>The protocol of a client does not depend on the threads that call \<open>Connect\<close>: over every history of
  the loop the events come in its order, and \<open>Connect\<close> from another thread posts one connection.\<close>

theorem posted_connects:
  assumes "loop_hist (run_call (client_act cb)) no_handlers ((u0, cl0), [], []) ps (lp, ((u, cl), out, calls), hist)"
    and "message_handler cb" and "cl_inv cl0" and "list_all client_op_ok calls"
  shows "hist @ el_fns lp = ps \<and> subseq hist calls \<and> monitor (phase cl0) out = Some (phase cl) \<and>
    (if fresh_pipe np (el_ep lp)
     then \<exists>lp'. TcpClient_Connect cb False fd r np (lp, (u, cl), out, calls) = Inr (lp', (u, cl), out, calls) \<and>
       el_fns lp' = el_fns lp @ [Op_connect fd r]
     else True)"
proof -
  have "client_run cb calls u0 cl0 = Some (Inr (out, u, cl))" "subseq hist calls"
    using acts_client [OF conjunct1 [OF world_made [OF assms(1)]]] world_made [OF assms(1)] by simp_all
  then show ?thesis
    using message_handler.client_run_ok [OF assms(2) _ assms(3,4)] socket_calls.hist_inv [OF assms(1)]
      posted [OF assms(1) socket_calls.loop_client_axioms]
    by (auto simp: TcpClient_Connect_def)
qed

theorem posted_connects_witness:
  "\<exists>lp cl out. loop_hist (run_call (client_act no_handler)) no_handlers (((), sample_client), [], [])
      [Op_cl_close] (lp, (((), cl), out, [Op_connect 5 (Some EINPROGRESS)]), []) \<and>
    monitor kTcpConStatusInit out = Some (phase cl)"
proof -
  let ?g = "Op_connect 5 (Some EINPROGRESS)"
  obtain cl out where r: "run_call (client_act no_handler) ?g (new_EventLoop, ((), sample_client), [], [])
      = Inr (new_EventLoop, ((), cl), out, [?g])"
    by (cases "ConnectInLoop 5 (Some EINPROGRESS) sample_client") (auto simp: run_call_def client_act_def quiet_result_def)
  obtain lp where h: "loop_hist (run_call (client_act no_handler)) no_handlers (((), sample_client), [], [])
      [Op_cl_close] (lp, (((), cl), out, [?g]), [])" using own_then_post [OF r] by blast
  have "list_all client_op_ok [?g]" by (simp add: client_op_ok_def)
  from posted_connects [OF h no_handler_ok sample_ok(1) this] have "monitor kTcpConStatusInit out = Some (phase cl)"
    unfolding sample_ok(3) by blast
  with h show ?thesis by blast
qed

end
