(* ===== verification/SocketTimeouts.thy ===== *)
theory SocketTimeouts
  imports TimingWheel
begin

text \<open>
  \<open>SetTimeoutCallback\<close> of \<open>TcpConnection\<close> and of \<open>UdpSocket\<close>, called in the loop's thread: functions on
  the timing wheel with what they capture. A datagram socket's function holds the socket and the
  callback by value. Both forms of a connection capture the local pointer \<open>cp\<close> by reference. A local
  variable lives in the frame of its call: the frames of the calls that have not returned map to the
  connection their \<open>cp\<close> points to, and a function that reads the variable of another frame faults.
\<close>

section \<open>Functions on the wheel\<close>

datatype timeout_fn = By_value nat nat | By_reference nat nat  \<comment> \<open>socket or frame, callback\<close>
datatype timeout_call = Called nat nat nat

record timeouts =
  to_wheel :: timing_wheel
  to_fns :: "timeout_fn list"
  to_frames :: "nat \<Rightarrow> nat option"

text \<open>The callbacks of the wheel are positions in the list of functions, and so are the frames of the
  calls that set them. Other objects of the wheel are not of this component.\<close>

fun call_timeout :: "(nat \<Rightarrow> nat option) \<Rightarrow> timeout_fn list \<Rightarrow> timer_event \<Rightarrow> timeout_call list result" where
  "call_timeout frames fns (Fired (Once i)) =
     (if i < length fns
      then (case fns ! i of
              By_value sock cb \<Rightarrow> Inr [Called i sock cb]
            | By_reference fr cb \<Rightarrow>
                (case frames fr of Some conn \<Rightarrow> Inr [Called i conn cb] | None \<Rightarrow> Inl Dangling))
      else Inr [])"
| "call_timeout frames fns _ = Inr []"

fun call_timeouts :: "(nat \<Rightarrow> nat option) \<Rightarrow> timeout_fn list \<Rightarrow> timer_event list \<Rightarrow> timeout_call list result" where
  "call_timeouts frames fns [] = Inr []"
| "call_timeouts frames fns (e # es) =
     bindR (call_timeout frames fns e) (\<lambda>cs. bindR (call_timeouts frames fns es) (\<lambda>cs'. Inr (cs @ cs')))"

definition run_timeout_fn :: "nat \<Rightarrow> timeout_fn \<Rightarrow> timeouts \<Rightarrow> (timeout_call list \<times> timeouts) result" where
  "run_timeout_fn timeout f s =
     (let i = length (to_fns s); fns = to_fns s @ [f]
      in bindR (RunAfter timeout i (to_wheel s)) (\<lambda>(evs, tw).
           bindR (call_timeouts (to_frames s) fns evs) (\<lambda>cs. Inr (cs, s\<lparr>to_wheel := tw, to_fns := fns\<rparr>))))"

text \<open>The call makes the variable and its return ends it.\<close>

definition TcpConnection_SetTimeoutCallback :: "nat \<Rightarrow> nat \<Rightarrow> nat \<Rightarrow> timeouts \<Rightarrow> (timeout_call list \<times> timeouts) result" where
  "TcpConnection_SetTimeoutCallback timeout conn cb s =
     (let fr = length (to_fns s)
      in bindR (run_timeout_fn timeout (By_reference fr cb) (s\<lparr>to_frames := (to_frames s)(fr := Some conn)\<rparr>))
           (\<lambda>(cs, s'). Inr (cs, s'\<lparr>to_frames := (to_frames s')(fr := None)\<rparr>)))"

definition UdpSocket_SetTimeoutCallback :: "nat \<Rightarrow> nat \<Rightarrow> nat \<Rightarrow> timeouts \<Rightarrow> (timeout_call list \<times> timeouts) result" where
  "UdpSocket_SetTimeoutCallback timeout sock cb s = run_timeout_fn timeout (By_value sock cb) s"

text \<open>A tick of the loop runs what the wheel releases.\<close>

definition tick_timeouts :: "int \<Rightarrow> timeouts \<Rightarrow> (timeout_call list \<times> timeouts) result" where
  "tick_timeouts now s =
     bindR (OnTimer now (to_wheel s)) (\<lambda>(evs, tw).
       bindR (call_timeouts (to_frames s) (to_fns s) evs) (\<lambda>cs. Inr (cs, s\<lparr>to_wheel := tw\<rparr>)))"

fun run_timeouts :: "int list \<Rightarrow> timeouts \<Rightarrow> (timeout_call list \<times> timeouts) result" where
  "run_timeouts [] s = Inr ([], s)"
| "run_timeouts (t # ts) s =
     bindR (tick_timeouts t s) (\<lambda>(cs, s1). bindR (run_timeouts ts s1) (\<lambda>(cs', s2). Inr (cs @ cs', s2)))"

section \<open>Calls and events\<close>

lemma call_timeouts_append:
  "call_timeouts frames fns (es @ es') =
     bindR (call_timeouts frames fns es) (\<lambda>cs. bindR (call_timeouts frames fns es') (\<lambda>cs'. Inr (cs @ cs')))"
  by (induction es) (simp_all add: bindR_assoc)

lemma run_timeouts_wheel:
  "run_timer ts (to_wheel s) = Inr (evs, tw) \<Longrightarrow>
     run_timeouts ts s = bindR (call_timeouts (to_frames s) (to_fns s) evs) (\<lambda>cs. Inr (cs, s\<lparr>to_wheel := tw\<rparr>))"
proof (induction ts arbitrary: s evs)
  case (Cons t ts)
  then obtain e1 tw1 e2 where t: "OnTimer t (to_wheel s) = Inr (e1, tw1)" "run_timer ts tw1 = Inr (e2, tw)" "evs = e1 @ e2"
    by (auto simp: andthen_Inr)
  have "run_timeouts ts (s\<lparr>to_wheel := tw1\<rparr>) = bindR (call_timeouts (to_frames s) (to_fns s) e2) (\<lambda>cs. Inr (cs, s\<lparr>to_wheel := tw\<rparr>))"
    using Cons.IH [of "s\<lparr>to_wheel := tw1\<rparr>"] t(2) by simp
  then show ?case by (simp add: t(1,3) tick_timeouts_def bindR_assoc call_timeouts_append)
qed simp

lemma run_timeouts_Inr:
  "run_timeouts ts s = Inr (cs, s') \<Longrightarrow> \<exists>evs tw. run_timer ts (to_wheel s) = Inr (evs, tw)"
proof (induction ts arbitrary: s cs)
  case (Cons t ts)
  then obtain e1 tw1 c1 c2 where t: "OnTimer t (to_wheel s) = Inr (e1, tw1)" "run_timeouts ts (s\<lparr>to_wheel := tw1\<rparr>) = Inr (c2, s')"
    by (auto simp: tick_timeouts_def bindR_eq_Inr_iff)
  then show ?case using Cons.IH [OF t(2)] by (auto simp: andthen_Inr)
qed simp

lemma call_by_value:
  "i < length fns \<Longrightarrow> fns ! i = By_value sock cb \<Longrightarrow> call_timeouts frames fns es = Inr cs \<Longrightarrow>
     count_list cs (Called i sock cb) = count_list es (Fired (Once i))"
proof (induction es arbitrary: cs)
  case (Cons e es)
  then obtain c1 c2 where c: "call_timeout frames fns e = Inr c1" "call_timeouts frames fns es = Inr c2" "cs = c1 @ c2"
    by (auto simp: bindR_eq_Inr_iff)
  have "count_list c1 (Called i sock cb) = (if e = Fired (Once i) then 1 else 0)"
    using c(1) Cons.prems(1,2) by (cases "(frames, fns, e)" rule: call_timeout.cases) (auto split: if_splits timeout_fn.splits option.splits)
  then show ?case using Cons.IH [OF Cons.prems(1,2) c(2)] c(3) by simp
qed simp

lemma call_by_reference:
  "i < length fns \<Longrightarrow> fns ! i = By_reference fr cb \<Longrightarrow> frames fr = None \<Longrightarrow> Fired (Once i) \<in> set es \<Longrightarrow>
     \<exists>e. call_timeouts frames fns es = Inl e"
proof (induction es)
  case (Cons e es)
  then show ?case by (cases "call_timeout frames fns e"; cases "call_timeouts frames fns es") auto
qed simp

text \<open>What calling functions on the wheel can end in.\<close>

lemma call_timeouts_fault: "call_timeouts frames fns es = Inl e \<Longrightarrow> e = Dangling"
proof (induction es)
  case (Cons x es)
  have "call_timeout frames fns x = Inl e \<Longrightarrow> e = Dangling"
    by (cases "(frames, fns, x)" rule: call_timeout.cases) (auto split: if_splits timeout_fn.splits option.splits)
  with Cons show ?case by (cases "call_timeout frames fns x"; cases "call_timeouts frames fns es") auto
qed simp

section \<open>Properties\<close>

text \<open>C32: for delays below an hour that are not whole minutes: a timeout callback of a datagram socket runs
  exactly once, with its socket, at the tick that the wheel fixes. That of a connection does not run
  at that tick: it is registered all the same, and any run of the loop that gets as far as that tick
  reads the local pointer of a call that has returned, unless it faults before.\<close>

theorem timeout_callbacks:
  assumes "tw_inv (to_wheel s)" "tw_lastTs (to_wheel s) \<noteq> 0" "nowhere (Once (length (to_fns s))) (to_wheel s)"
    and "timeout mod 60 \<noteq> 0" "timeout < 3600" "spaced (tw_lastTs (to_wheel s)) ts"
  shows "let reached = timeout \<le> length ts + (if timeout < 60 then 0 else tw_tick (to_wheel s) mod 60)
    in \<exists>s1 s2. UdpSocket_SetTimeoutCallback timeout sock cb s = Inr ([], s1) \<and>
      TcpConnection_SetTimeoutCallback timeout sock cb s = Inr ([], s2) \<and>
      (case run_timeouts ts s1 of
         Inl e \<Rightarrow> True
       | Inr (cs, s') \<Rightarrow> count_list cs (Called (length (to_fns s)) sock cb) = (if reached then 1 else 0)) \<and>
      (case run_timer ts (to_wheel s2) of
         Inl e \<Rightarrow> isl (run_timeouts ts s2)
       | Inr (evs, tw) \<Rightarrow> if reached then run_timeouts ts s2 = Inl Dangling else True)"
proof -
  let ?i = "length (to_fns s)"
  define reached where "reached \<longleftrightarrow> timeout \<le> length ts + (if timeout < 60 then 0 else tw_tick (to_wheel s) mod 60)"
  obtain tw1 where tw: "RunAfter timeout ?i (to_wheel s) = Inr ([], tw1)"
    and once: "\<And>evs tw2. run_timer ts tw1 = Inr (evs, tw2) \<Longrightarrow> count_list evs (Fired (Once ?i)) = (if reached then 1 else 0)"
    using once_when_due [OF assms(1-5)] assms(6) unfolding reached_def by blast
  define s1 where "s1 = s\<lparr>to_wheel := tw1, to_fns := to_fns s @ [By_value sock cb]\<rparr>"
  define s2 where "s2 = s\<lparr>to_wheel := tw1, to_fns := to_fns s @ [By_reference ?i cb], to_frames := (to_frames s)(?i := None)\<rparr>"
  have set: "UdpSocket_SetTimeoutCallback timeout sock cb s = Inr ([], s1)" "TcpConnection_SetTimeoutCallback timeout sock cb s = Inr ([], s2)"
    by (simp_all add: UdpSocket_SetTimeoutCallback_def TcpConnection_SetTimeoutCallback_def run_timeout_fn_def tw s1_def s2_def Let_def)
  have udp: "count_list cs (Called ?i sock cb) = (if reached then 1 else 0)" if r: "run_timeouts ts s1 = Inr (cs, s')" for cs s'
  proof -
    obtain evs tw2 where e: "run_timer ts tw1 = Inr (evs, tw2)" using run_timeouts_Inr [OF r] by (auto simp: s1_def)
    have "call_timeouts (to_frames s1) (to_fns s1) evs = Inr cs"
      using r run_timeouts_wheel [of ts s1, unfolded s1_def, simplified, OF e] by (auto simp: s1_def bindR_eq_Inr_iff)
    then show ?thesis using call_by_value [of ?i "to_fns s1" sock cb] once [OF e] by (simp add: s1_def)
  qed
  have tcp: "run_timeouts ts s2 = Inl Dangling" if r: "run_timer ts tw1 = Inr (evs, tw2)" and "reached" for evs tw2
  proof -
    have "Fired (Once ?i) \<in> set evs" using once [OF r] that(2) count_list_0_iff [of evs "Fired (Once ?i)"] by auto
    then obtain e where "call_timeouts (to_frames s2) (to_fns s2) evs = Inl e"
      using call_by_reference [of ?i "to_fns s2" ?i cb "to_frames s2"] by (auto simp: s2_def)
    then show ?thesis using run_timeouts_wheel [of ts s2] r call_timeouts_fault by (auto simp: s2_def)
  qed
  have "isl (run_timeouts ts s2)" if "run_timer ts tw1 = Inl e" for e
    using run_timeouts_Inr [of ts s2] that by (cases "run_timeouts ts s2") (auto simp: s2_def)
  then show ?thesis unfolding Let_def reached_def [symmetric] using set udp tcp
    by (intro exI [of _ s1] exI [of _ s2]) (auto simp: s2_def split: sum.split)
qed

theorem timeout_callbacks_witness:
  "\<exists>s1 s2. UdpSocket_SetTimeoutCallback 1 5 7 \<lparr>to_wheel = started, to_fns = [], to_frames = (\<lambda>_. None)\<rparr> = Inr ([], s1) \<and>
      TcpConnection_SetTimeoutCallback 1 5 7 \<lparr>to_wheel = started, to_fns = [], to_frames = (\<lambda>_. None)\<rparr> = Inr ([], s2) \<and>
      (case run_timeouts [6000] s1 of Inl e \<Rightarrow> True | Inr (cs, s') \<Rightarrow> count_list cs (Called 0 5 7) = 1) \<and>
      isl (run_timeouts [6000] s2)"
proof -
  let ?s = "\<lparr>to_wheel = started, to_fns = [], to_frames = (\<lambda>_. None)\<rparr>"
  have s: "tw_inv (to_wheel ?s)" "tw_lastTs (to_wheel ?s) \<noteq> 0" "nowhere (Once (length (to_fns ?s))) (to_wheel ?s)"
    "spaced (tw_lastTs (to_wheel ?s)) [6000]" "length (to_fns ?s) = 0" by (simp_all add: started_ok)
  have t: "((1::nat) \<le> length [6000::int] + (if (1::nat) < 60 then 0 else tw_tick (to_wheel ?s) mod 60)) = True" by simp
  have d: "(1::nat) mod 60 \<noteq> 0" "(1::nat) < 3600" by simp_all
  obtain s1 s2 where "UdpSocket_SetTimeoutCallback 1 5 7 ?s = Inr ([], s1)" "TcpConnection_SetTimeoutCallback 1 5 7 ?s = Inr ([], s2)"
    "case run_timeouts [6000] s1 of Inl e \<Rightarrow> True | Inr (cs, s') \<Rightarrow> count_list cs (Called 0 5 7) = 1"
    "case run_timer [6000] (to_wheel s2) of Inl e \<Rightarrow> isl (run_timeouts [6000] s2) | Inr (evs, tw) \<Rightarrow> run_timeouts [6000] s2 = Inl Dangling"
    using timeout_callbacks [OF s(1-3) d s(4), of 5 7] unfolding s(5) Let_def t if_True by blast
  then show ?thesis by (intro exI [of _ s1] exI [of _ s2]) (auto split: sum.splits simp del: run_timeouts.simps run_timer.simps)
qed

text \<open>With more than thirty days the function runs inside \<open>SetTimeoutCallback\<close>, where what it refers
  to is still there.\<close>

theorem timeout_at_once:
  assumes "nowhere (Once (length (to_fns s))) (to_wheel s)" "timeout div kTimingDay > 30"
  shows "TcpConnection_SetTimeoutCallback timeout conn cb s
    = Inr ([Called (length (to_fns s)) conn cb],
        s\<lparr>to_fns := to_fns s @ [By_reference (length (to_fns s)) cb], to_frames := (to_frames s)(length (to_fns s) := None)\<rparr>)"
proof -
  have "InsertEntry timeout (Once (length (to_fns s))) (to_wheel s) = Inr (to_wheel s)"
    using long_delay [OF assms(2)] by simp
  then show ?thesis using assms(1)
    by (simp add: TcpConnection_SetTimeoutCallback_def run_timeout_fn_def RunAfter_def release_def nowhere_def fire_def Let_def)
qed

end
