(* ===== verification/ServerLoop.thy ===== *)
theory ServerLoop
  imports TcpServer EventLoop
begin

text \<open>
  A server in the rounds of its loop: \<open>EventLoop::Loop\<close> polls, each reported channel calls its
  handler (of \<open>Acceptor\<close> or \<open>TcpConnection\<close>) by its event mask, the posted functions run, and the
  wheel ticks. The poller and the wheel of the loop are those of the server. What \<open>epoll_wait\<close>, \<open>read\<close>,
  \<open>write\<close>, \<open>accept4\<close> and \<open>socket\<close> give during the round is an argument. Theory \<open>EventLoop\<close> shows that the pipe,
  which wakes the loop for a posted function, and its clients leave each other alone; here a
  function is posted by putting it into the queue, before the round that runs it: no handler reads
  the queue, so that a post in the middle of a round is no different.
\<close>

section \<open>Handlers\<close>

record kernel_data =
  kd_reads :: "nat \<Rightarrow> (int + string) list"
  kd_memory :: memory
  kd_writes :: "nat \<Rightarrow> (int + nat) list"
  kd_accepts :: "(int + int \<times> sock_addr) list"
  kd_socket :: int

text \<open>The virtual handlers of the channels: channel 0 is an \<open>Acceptor\<close>, whose \<open>OnWrite\<close> is the empty
  one of \<open>Channel\<close>, the others are connections.\<close>

definition event_input :: "(nat list \<Rightarrow> string) \<Rightarrow> (int \<times> inet_address \<Rightarrow> 'u) \<Rightarrow> kernel_data \<Rightarrow> channel_call \<Rightarrow> nat \<Rightarrow>
    'u server_input option" where
  "event_input ntop6 mk kd call c =
     (if c = 0 then
        (case call of
           Call_OnRead \<Rightarrow> Some (Incoming ntop6 (kd_accepts kd) (kd_socket kd) mk)
         | Call_OnWrite \<Rightarrow> None
         | _ \<Rightarrow> Some (Listen_error (kd_socket kd)))
      else
        Some (case call of
           Call_OnRead \<Rightarrow> Readable c (kd_reads kd c)
         | Call_OnWrite \<Rightarrow> Writable c (kd_memory kd) (kd_writes kd c)
         | Call_OnError \<Rightarrow> Failed c
         | Call_OnClose \<Rightarrow> Hangup c))"

definition server_result :: "'u message_cb \<Rightarrow> 'u server_input \<Rightarrow> 'u tcp_server \<Rightarrow> 'u tcp_server result" where
  "server_result cb x sv = (case server_call cb x sv of None \<Rightarrow> Inl (Exception ''does not return'') | Some r \<Rightarrow> r)"

fun server_calls :: "'u message_cb \<Rightarrow> 'u server_input list \<Rightarrow> 'u tcp_server \<Rightarrow> 'u tcp_server result" where
  "server_calls cb [] sv = Inr sv"
| "server_calls cb (x # xs) sv = bindR (server_result cb x sv) (server_calls cb xs)"

section \<open>Rounds\<close>

type_synonym 'u server_loop = "('u server_input, 'u tcp_server) loop_state"

definition in_loop :: "'u server_input event_loop \<Rightarrow> 'u tcp_server \<Rightarrow> 'u tcp_server" where
  "in_loop lp sv = sv\<lparr>sv_ep := el_ep lp, sv_wheel := el_wheel lp\<rparr>"

definition to_loop :: "'u tcp_server \<Rightarrow> 'u server_input event_loop \<Rightarrow> 'u server_loop" where
  "to_loop sv lp = (lp\<lparr>el_ep := sv_ep sv, el_wheel := sv_wheel sv\<rparr>, sv)"

definition server_fn :: "'u message_cb \<Rightarrow> 'u server_input \<Rightarrow> 'u server_loop \<Rightarrow> 'u server_loop result" where
  "server_fn cb x s = (case s of (lp, sv) \<Rightarrow> bindR (server_result cb x (in_loop lp sv)) (\<lambda>sv'. Inr (to_loop sv' lp)))"

definition server_handler :: "'u message_cb \<Rightarrow> (channel_call \<Rightarrow> nat \<Rightarrow> 'u server_input option) \<Rightarrow>
    ('u server_input, 'u tcp_server) handlers" where
  "server_handler cb g call c s = (case g call c of None \<Rightarrow> Inr s | Some x \<Rightarrow> server_fn cb x s)"

definition server_round :: "'u message_cb \<Rightarrow> (channel_call \<Rightarrow> nat \<Rightarrow> 'u server_input option) \<Rightarrow> int + (int \<times> 32 word) list \<Rightarrow> int \<Rightarrow>
    'u server_loop \<Rightarrow> 'u server_loop result" where
  "server_round cb g polled now s =
     bindR (loop_round (server_handler cb g) (server_fn cb) polled now s) (\<lambda>(evs, lp, sv).
       bindR (fire_timeouts evs (in_loop lp sv)) (\<lambda>sv'. Inr (to_loop sv' lp)))"

section \<open>The calls of a round\<close>

definition reported_channels :: "(int \<times> 32 word) list \<Rightarrow> epoll_state \<Rightarrow> (nat \<times> 32 word) list" where
  "reported_channels ready ep =
     List.map_filter (\<lambda>(fd, ev). if fd < 0 then None else map_option (\<lambda>c. (c, ev)) (ep_channels ep fd)) ready"

definition channel_input :: "(channel_call \<Rightarrow> nat \<Rightarrow> 'u server_input option) \<Rightarrow> nat \<times> 32 word \<Rightarrow> 'u server_input option" where
  "channel_input g r = Option.bind (HandleEvent (SetRevents (snd r) (new_Channel 0))) (\<lambda>call. g call (fst r))"

definition round_calls :: "(channel_call \<Rightarrow> nat \<Rightarrow> 'u server_input option) \<Rightarrow> (int \<times> 32 word) list \<Rightarrow> int \<Rightarrow>
    'u server_input list \<Rightarrow> epoll_state \<Rightarrow> 'u server_input list" where
  "round_calls g ready now fns ep =
     Polled ready # List.map_filter (channel_input g) (reported_channels ready ep) @ fns @ [Tick now]"

section \<open>What a poll reports, in order\<close>

lemma HandleEvent_cong: "ch_revents a = ch_revents b \<Longrightarrow> HandleEvent a = HandleEvent b"
  by (simp add: HandleEvent_def)

lemma reported_Cons: "reported_channels ((fd, ev) # ready) ep =
    (if fd < 0 then reported_channels ready ep
     else case ep_channels ep fd of None \<Rightarrow> reported_channels ready ep | Some c \<Rightarrow> (c, ev) # reported_channels ready ep)"
  by (simp add: reported_channels_def List.map_filter_def split: option.split)

lemma reported_cong: "ep_channels ep = ep_channels ep' \<Longrightarrow> reported_channels ready ep = reported_channels ready ep'"
  by (simp add: reported_channels_def cong: if_cong)

lemma reported_registered: "(c, ev) \<in> set (reported_channels ready ep) \<Longrightarrow> \<exists>fd. (fd, ev) \<in> set ready \<and> ep_channels ep fd = Some c"
  by (auto simp: reported_channels_def List.map_filter_def split: if_splits)

lemma reported_poll: "fst (poll_events ready ep) = map fst (reported_channels ready ep)"
proof (induction ready ep rule: poll_events.induct)
  case (2 fd ev ready ep)
  have "reported_channels ready (update_chan c f ep) = reported_channels ready ep" for c f by (rule reported_cong) simp
  then show ?case using 2 by (simp add: reported_Cons split_beta Let_def split: option.split)
qed (simp add: reported_channels_def List.map_filter_def)

lemma reported_distinct:
  assumes "in_sync ep" and "distinct (map fst ready)"
  shows "distinct (map fst (reported_channels ready ep))"
  using assms(2)
proof (induction ready)
  case (Cons r ready)
  obtain fd ev where r: "r = (fd, ev)" by (cases r)
  have "c \<notin> fst ` set (reported_channels ready ep)" if "ep_channels ep fd = Some c" for c
  proof
    assume "c \<in> fst ` set (reported_channels ready ep)"
    then obtain fd' ev' where f: "(fd', ev') \<in> set ready" "ep_channels ep fd' = Some c" using reported_registered by fastforce
    then have "fd' = fd" using in_syncD(1) [OF assms(1) that] in_syncD(1) [OF assms(1) f(2)] by simp
    then show False using f(1) Cons.prems r by force
  qed
  then show ?case using Cons r by (auto simp: reported_Cons split: option.split)
qed (simp add: reported_channels_def List.map_filter_def)

lemma reported_revents:
  "distinct (map fst (reported_channels ready ep)) \<Longrightarrow> (c, ev) \<in> set (reported_channels ready ep) \<Longrightarrow>
     ch_revents (ep_store (snd (poll_events ready ep)) c) = ev"
proof (induction ready ep rule: poll_events.induct)
  case (2 fd ev' ready ep)
  have same: "reported_channels ready (update_chan d f ep) = reported_channels ready ep" for d f by (rule reported_cong) simp
  show ?case
  proof (cases "fd < 0 \<or> ep_channels ep fd = None")
    case True
    then show ?thesis using 2 by (auto simp: reported_Cons)
  next
    case False
    then obtain d where d: "ep_channels ep fd = Some d" "\<not> fd < 0" by auto
    let ?ep = "update_chan d (SetRevents ev') ep"
    have q: "d \<notin> fst ` set (reported_channels ready ep)" "distinct (map fst (reported_channels ready ep))"
      "c = d \<and> ev = ev' \<or> (c, ev) \<in> set (reported_channels ready ep)"
      using "2.prems" d by (auto simp: reported_Cons)
    have "ep_store (snd (poll_events ready ?ep)) d = ep_store ?ep d"
      by (rule poll_events_store) (use q(1) in \<open>simp add: reported_poll same\<close>)
    then have "ch_revents (ep_store (snd (poll_events ready ?ep)) d) = ev'" by (simp add: SetRevents_def)
    then show ?thesis using "2.IH"(3) [OF d(2,1)] q d by (auto simp: same split_beta Let_def)
  qed
qed (simp add: reported_channels_def List.map_filter_def)

section \<open>What a call leaves alone\<close>

fun target :: "'u server_input \<Rightarrow> nat option" where
  "target (Incoming ntop6 rs fd mk) = Some 0"
| "target (Listen_error fd) = Some 0"
| "target (Readable c rds) = Some c"
| "target (Writable c mem ws) = Some c"
| "target (Failed c) = Some c"
| "target (Hangup c) = Some c"
| "target _ = None"

text \<open>A call on one channel: the acceptor stays what it is, connections are only added, and the
  channels of the others keep their events.\<close>

definition aside :: "nat \<Rightarrow> 'u tcp_server \<Rightarrow> 'u tcp_server \<Rightarrow> bool" where
  "aside d sv sv' \<longleftrightarrow> ac_id (sv_acceptor sv') = ac_id (sv_acceptor sv) \<and> sv_next sv \<le> sv_next sv' \<and>
     (\<forall>c. c \<noteq> d \<and> c < sv_next sv \<longrightarrow> ep_store (sv_ep sv') c = ep_store (sv_ep sv) c)"

lemma aside_refl [simp]: "aside d sv sv"
  by (simp add: aside_def)

lemma aside_trans: "aside d a b \<Longrightarrow> aside d b c \<Longrightarrow> aside d a c"
  by (auto simp: aside_def)

lemma aside_fields [simp]:
  "aside d (sv\<lparr>sv_objs := f\<rparr>) sv' = aside d sv sv'" "aside d (sv\<lparr>sv_ctx := g\<rparr>) sv' = aside d sv sv'"
  by (simp_all add: aside_def)

lemma ctl_store:
  "Epoller_AddChannel c ep = Inr ep' \<Longrightarrow> ep_store ep' = ep_store ep"
  "Epoller_RemoveChannel c ep = Inr ep' \<Longrightarrow> ep_store ep' = ep_store ep"
  "Epoller_UpdateChannel c ep = Inr ep' \<Longrightarrow> ep_store ep' = ep_store ep"
  by (auto simp: epoller_defs Let_def split: if_splits)

lemma event_aside: "apply_event c ev sv = Inr sv' \<Longrightarrow> aside c sv sv'"
  by (cases ev) (auto simp: apply_event_def OnConnectionClose_def DelChannel_def bindR_eq_Inr_iff aside_def sys_close_def Let_def
      dest!: ctl_store)

lemma events_aside: "apply_events c evs sv = Inr sv' \<Longrightarrow> aside c sv sv'"
  by (induction evs arbitrary: sv) (auto simp: bindR_eq_Inr_iff intro: aside_trans event_aside)

lemma commit_aside: "commit c r sv = Inr sv' \<Longrightarrow> aside c sv sv'"
  by (auto simp: commit_def dest: events_aside)

lemma accept_aside:
  assumes "OnAccet fd u sv = Inr sv'"
  shows "aside d sv sv'"
proof -
  let ?c = "sv_next sv"
  obtain ep r where a: "AddChannel ?c (open_channel fd ?c (sv_ep sv)) = Inr ep"
    and c: "commit ?c r (sv\<lparr>sv_connections := ?c # sv_connections sv, sv_ep := ep, sv_next := ?c + 1, sv_ctx := (sv_ctx sv)(?c := u)\<rparr>) = Inr sv'"
    using assms unfolding OnAccet_def Let_def bindR_eq_Inr_iff by blast
  have "x \<noteq> ?c \<Longrightarrow> ep_store ep x = ep_store (sv_ep sv) x" for x
    using a by (auto simp: AddChannel_def open_channel_def dest!: ctl_store)
  then show ?thesis using commit_aside [OF c] by (auto simp: aside_def)
qed

lemma accept_loop_aside:
  "accept_loop ntop6 cb rs (ep, sv) = Inr ((ep', sv'), bad) \<Longrightarrow> cb = None \<or> cb = Some (accept_call mk) \<Longrightarrow>
     aside d (sv\<lparr>sv_ep := ep\<rparr>) (sv'\<lparr>sv_ep := ep'\<rparr>)"
proof (induction rs arbitrary: ep sv)
  case (Cons r rs)
  show ?case
  proof (cases r)
    case (Inl err)
    then show ?thesis using Cons.prems by auto
  next
    case (Inr x)
    then obtain ep1 sv1 where 1: "(case cb of None \<Rightarrow> Inr (ep, sv) | Some f \<Rightarrow> f (Socket_Accept ntop6 x new_InetAddress) (ep, sv)) = Inr (ep1, sv1)"
      "accept_loop ntop6 cb rs (ep1, sv1) = Inr ((ep', sv'), bad)"
      using Cons.prems(1) by (auto simp: bindR_eq_Inr_iff)
    have "aside d (sv\<lparr>sv_ep := ep\<rparr>) (sv1\<lparr>sv_ep := ep1\<rparr>)"
    proof (cases cb)
      case (Some f)
      then have "f = accept_call mk" using Cons.prems(2) by simp
      then have "OnAccet (fst (Socket_Accept ntop6 x new_InetAddress)) (mk (Socket_Accept ntop6 x new_InetAddress)) (sv\<lparr>sv_ep := ep\<rparr>) = Inr sv1"
        "ep1 = sv_ep sv1" using 1(1) Some by (auto simp: accept_call_def bindR_eq_Inr_iff)
      then show ?thesis using accept_aside [of _ _ "sv\<lparr>sv_ep := ep\<rparr>" sv1 d] by simp
    qed (use 1(1) in simp)
    then show ?thesis using Cons.IH [OF 1(2) Cons.prems(2)] aside_trans by blast
  qed
qed simp

lemma reopen_aside:
  assumes "Acceptor_OnClose fd (a, ep) = Inr (a', ep')"
  shows "ac_id a' = ac_id a \<and> (\<forall>c. c \<noteq> ac_id a \<longrightarrow> ep_store ep' c = ep_store ep c)"
  using assms by (auto simp: Acceptor_OnClose_def Acceptor_Stop_def Acceptor_Open_def DelChannel_def AddChannel_def bindR_eq_Inr_iff
      Let_def open_socket_def set_channel_fd_def close_channel_def Channel_Close_def sys_close_def split: if_splits prod.splits option.splits
      dest!: ctl_store)

lemma incoming_aside:
  assumes "server_incoming ntop6 rs fd mk sv = Inr sv'" and "ac_id (sv_acceptor sv) = 0"
  shows "aside 0 sv sv'"
proof (cases "ac_socketOpt (sv_acceptor sv)")
  case False
  then show ?thesis using assms(1) by (auto simp: server_incoming_def Acceptor_OnRead_def set_acceptor_def aside_def)
next
  case True
  then obtain ep1 sv1 bad where l: "accept_loop ntop6 (if ac_acceptCb (sv_acceptor sv) then Some (accept_call mk) else None) rs (sv_ep sv, sv)
      = Inr ((ep1, sv1), bad)"
    and r: "(if bad then bindR (Acceptor_OnClose fd (sv_acceptor sv, ep1)) (\<lambda>st. Inr (set_acceptor st sv1))
        else Inr (set_acceptor (sv_acceptor sv, ep1) sv1)) = Inr sv'"
    using assms(1) by (auto simp: server_incoming_def Acceptor_OnRead_def bindR_eq_Inr_iff split: if_splits)
  have 1: "aside 0 sv (sv1\<lparr>sv_ep := ep1\<rparr>)" using accept_loop_aside [OF l, of mk 0] by (simp split: if_splits)
  show ?thesis
  proof (cases bad)
    case True
    then obtain a ep2 where "Acceptor_OnClose fd (sv_acceptor sv, ep1) = Inr (a, ep2)" "sv' = set_acceptor (a, ep2) sv1"
      using r by (auto simp: bindR_eq_Inr_iff)
    then show ?thesis using reopen_aside [of fd "sv_acceptor sv" ep1 a ep2] 1 assms(2) by (auto simp: aside_def set_acceptor_def)
  next
    case False
    then show ?thesis using r 1 by (auto simp: aside_def set_acceptor_def)
  qed
qed

lemma call_aside:
  assumes "server_result cb x sv = Inr sv'" and "target x = Some d" and "ac_id (sv_acceptor sv) = 0"
  shows "aside d sv sv'"
proof (cases x)
  case (Incoming ntop6 rs fd mk)
  then show ?thesis using assms incoming_aside [of ntop6 rs fd mk sv sv'] by (simp add: server_result_def)
next
  case (Listen_error fd)
  then show ?thesis using assms reopen_aside [of fd "sv_acceptor sv" "sv_ep sv"]
    by (auto simp: server_result_def bindR_eq_Inr_iff Acceptor_OnError_def set_acceptor_def aside_def)
next
  case (Readable c rds)
  then show ?thesis using assms by (auto simp: server_result_def bindR_eq_Inr_iff dest!: commit_aside split: option.splits)
next
  case (Writable c mem ws)
  then show ?thesis using assms by (auto simp: server_result_def bindR_eq_Inr_iff dest!: commit_aside split: option.splits)
qed (use assms in \<open>auto simp: server_result_def dest: commit_aside\<close>)

section \<open>A round is its calls\<close>

text \<open>The loop and the server have the same poller and wheel.\<close>

definition joined :: "'u server_input event_loop \<Rightarrow> 'u tcp_server \<Rightarrow> bool" where
  "joined lp sv \<longleftrightarrow> el_pipe lp = None \<and> el_ep lp = sv_ep sv \<and> el_wheel lp = sv_wheel sv"

lemma joined_loop: "joined lp sv \<Longrightarrow> in_loop lp sv = sv" "joined lp sv \<Longrightarrow> to_loop sv lp = (lp, sv)"
  by (simp_all add: joined_def in_loop_def to_loop_def)

lemma joined_to: "joined lp sv \<Longrightarrow> joined (fst (to_loop sv' lp)) sv'" "to_loop sv (fst (to_loop sv' lp)) = to_loop sv lp"
  by (simp_all add: joined_def to_loop_def)

lemma to_loop_fst: "to_loop sv' lp = (fst (to_loop sv' lp), sv')"
  by (simp add: to_loop_def)

text \<open>The inputs of a handler go to its channel.\<close>

definition own_channel :: "(channel_call \<Rightarrow> nat \<Rightarrow> 'u server_input option) \<Rightarrow> bool" where
  "own_channel g \<longleftrightarrow> (\<forall>call c x. g call c = Some x \<longrightarrow> target x = Some c)"

lemma own_event_input: "own_channel (event_input ntop6 mk kd)"
  by (auto simp: own_channel_def event_input_def split: channel_call.splits)

lemma handle_calls:
  assumes "own_channel g"
  shows "joined lp sv \<Longrightarrow> ac_id (sv_acceptor sv) = 0 \<Longrightarrow> distinct (map fst rs) \<Longrightarrow>
    \<forall>(c, ev)\<in>set rs. c < sv_next sv \<and> ch_revents (ep_store (sv_ep sv) c) = ev \<Longrightarrow>
    handle_all (server_handler cb g) (map fst rs) (lp, sv)
      = bindR (server_calls cb (List.map_filter (channel_input g) rs) sv) (\<lambda>sv'. Inr (to_loop sv' lp))"
proof (induction rs arbitrary: lp sv)
  case Nil
  then show ?case by (simp add: joined_loop List.map_filter_def)
next
  case (Cons r rs)
  obtain c ev where r: "r = (c, ev)" by (cases r)
  have h: "HandleEvent (ep_store (el_ep lp) c) = HandleEvent (SetRevents ev (new_Channel 0))"
    using Cons.prems r by (intro HandleEvent_cong) (auto simp: joined_def SetRevents_def)
  have d: "dispatch (server_handler cb g) call c (lp, sv) = server_handler cb g call c (lp, sv)" for call
    using Cons.prems(1) by (simp add: dispatch_def joined_def)
  show ?case
  proof (cases "channel_input g (c, ev)")
    case None
    then have "(case HandleEvent (ep_store (el_ep lp) c) of None \<Rightarrow> Inr (lp, sv)
        | Some call \<Rightarrow> dispatch (server_handler cb g) call c (lp, sv)) = Inr (lp, sv)"
      unfolding h d by (auto simp: channel_input_def server_handler_def split: option.splits)
    then show ?thesis using Cons.IH [OF Cons.prems(1,2)] Cons.prems(3,4) None r by (simp add: List.map_filter_def)
  next
    case (Some x)
    then have step: "(case HandleEvent (ep_store (el_ep lp) c) of None \<Rightarrow> Inr (lp, sv)
        | Some call \<Rightarrow> dispatch (server_handler cb g) call c (lp, sv)) = bindR (server_result cb x sv) (\<lambda>sv'. Inr (to_loop sv' lp))"
      unfolding h d by (auto simp: channel_input_def server_handler_def server_fn_def joined_loop [OF Cons.prems(1)] split: option.splits bind_splits)
    have t: "target x = Some c" using Some assms by (auto simp: channel_input_def own_channel_def split: bind_splits)
    have later: "handle_all (server_handler cb g) (map fst rs) (to_loop sv1 lp)
        = bindR (server_calls cb (List.map_filter (channel_input g) rs) sv1) (\<lambda>sv'. Inr (to_loop sv' lp))"
      if "server_result cb x sv = Inr sv1" for sv1
    proof -
      have a: "aside c sv sv1" by (rule call_aside [OF that t Cons.prems(2)])
      have rest: "\<forall>(c', ev')\<in>set rs. c' < sv_next sv1 \<and> ch_revents (ep_store (sv_ep sv1) c') = ev'"
      proof (clarify)
        fix c' ev' assume m: "(c', ev') \<in> set rs"
        then have "c' \<noteq> c" using Cons.prems(3) r by force
        moreover have "c' < sv_next sv" "ch_revents (ep_store (sv_ep sv) c') = ev'" using Cons.prems(4) m by auto
        ultimately show "c' < sv_next sv1 \<and> ch_revents (ep_store (sv_ep sv1) c') = ev'" using a by (simp add: aside_def)
      qed
      have "ac_id (sv_acceptor sv1) = 0" using a Cons.prems(2) by (simp add: aside_def)
      from Cons.IH [OF joined_to(1) [OF Cons.prems(1)] this _ rest] show ?thesis
        using Cons.prems(3) by (simp add: joined_to(2) to_loop_fst [symmetric])
    qed
    have "handle_all (server_handler cb g) (map fst (r # rs)) (lp, sv)
        = bindR (server_result cb x sv) (\<lambda>sv1. handle_all (server_handler cb g) (map fst rs) (to_loop sv1 lp))"
      by (simp add: r step bindR_assoc)
    also have "\<dots> = bindR (server_calls cb (List.map_filter (channel_input g) (r # rs)) sv) (\<lambda>sv'. Inr (to_loop sv' lp))"
      using Some r by (simp add: List.map_filter_def bindR_assoc later cong: bindR_cong)
    finally show ?thesis .
  qed
qed

text \<open>The server's own copies of the poller and the wheel are refreshed before they are used.\<close>

definition refreshed :: "'u server_loop \<Rightarrow> 'u server_loop" where
  "refreshed s = (case s of (lp, sv) \<Rightarrow> (lp, in_loop lp sv))"

lemma refreshed_fields [simp]:
  "fst (refreshed s) = fst s" "refreshed (refreshed s) = refreshed s" "refreshed (to_loop sv lp) = to_loop sv lp"
  "in_loop lp (in_loop lp' sv) = in_loop lp sv"
  by (simp_all add: refreshed_def in_loop_def to_loop_def split: prod.split)

lemma server_fn_refreshed: "server_fn cb x (refreshed s) = server_fn cb x s"
  by (simp add: server_fn_def refreshed_def split: prod.split)

lemma server_fn_refreshes: "bindR (server_fn cb x s) (\<lambda>s1. Inr (refreshed s1)) = server_fn cb x s"
  by (simp add: server_fn_def bindR_assoc split: prod.split)

lemma server_fn_fields: "server_fn cb x s = Inr s1 \<Longrightarrow> el_pipe (fst s1) = el_pipe (fst s) \<and> el_fns (fst s1) = el_fns (fst s)"
  by (auto simp: server_fn_def to_loop_def bindR_eq_Inr_iff split: prod.splits)

lemma handler_fields:
  "server_handler cb g call c s = Inr s1 \<Longrightarrow> el_pipe (fst s1) = el_pipe (fst s) \<and> el_fns (fst s1) = el_fns (fst s)"
  by (auto simp: server_handler_def server_fn_fields split: option.splits)

lemma handler_refreshed:
  "server_handler cb g call c (refreshed s) = bindR (server_handler cb g call c s) (\<lambda>s1. Inr (refreshed s1))"
  by (simp add: server_handler_def server_fn_refreshed server_fn_refreshes split: option.split)

lemma handle_all_refreshed:
  "el_pipe (fst s) = None \<Longrightarrow>
     handle_all (server_handler cb g) cs (refreshed s) = bindR (handle_all (server_handler cb g) cs s) (\<lambda>s1. Inr (refreshed s1))"
proof (induction cs arbitrary: s)
  case (Cons c cs)
  let ?one = "\<lambda>s. case HandleEvent (ep_store (el_ep (fst s)) c) of None \<Rightarrow> Inr s | Some call \<Rightarrow> dispatch (server_handler cb g) call c s"
  have d: "dispatch (server_handler cb g) call c s' = server_handler cb g call c s'" if "el_pipe (fst s') = None" for call s'
    using that by (cases s') (simp add: dispatch_def)
  have one: "?one (refreshed s) = bindR (?one s) (\<lambda>s1. Inr (refreshed s1))"
    using Cons.prems by (simp add: d handler_refreshed split: option.split)
  have keep: "el_pipe (fst s1) = None" if "?one s = Inr s1" for s1
    using that Cons.prems by (auto simp: d handler_fields split: option.splits)
  have "handle_all (server_handler cb g) (c # cs) (refreshed s) = bindR (?one (refreshed s)) (handle_all (server_handler cb g) cs)"
    by simp
  also have "\<dots> = bindR (?one s) (\<lambda>s1. handle_all (server_handler cb g) cs (refreshed s1))"
    unfolding one by (simp only: bindR_assoc bindR.simps)
  also have "\<dots> = bindR (?one s) (\<lambda>s1. bindR (handle_all (server_handler cb g) cs s1) (\<lambda>s2. Inr (refreshed s2)))"
    by (rule bindR_cong [OF refl], rule Cons.IH [OF keep])
  finally show ?case by (simp only: handle_all.simps bindR_assoc)
qed simp

lemma handle_all_fns:
  "el_pipe (fst s) = None \<Longrightarrow> handle_all (server_handler cb g) cs s = Inr s1 \<Longrightarrow> el_fns (fst s1) = el_fns (fst s)"
proof (induction cs arbitrary: s)
  case (Cons c cs)
  have d: "dispatch (server_handler cb g) call c s = server_handler cb g call c s" for call
    using Cons.prems(1) by (cases s) (simp add: dispatch_def)
  obtain s0 where "(case HandleEvent (ep_store (el_ep (fst s)) c) of None \<Rightarrow> Inr s | Some call \<Rightarrow> dispatch (server_handler cb g) call c s) = Inr s0"
    "handle_all (server_handler cb g) cs s0 = Inr s1" using Cons.prems(2) by (auto simp: bindR_eq_Inr_iff)
  moreover from this(1) have "el_pipe (fst s0) = None \<and> el_fns (fst s0) = el_fns (fst s)"
    using Cons.prems(1) by (auto simp: d handler_fields split: option.splits)
  ultimately show ?case using Cons.IH [of s0] by simp
qed simp

lemma run_all_refreshed:
  "run_all (server_fn cb) fns (refreshed s) = bindR (run_all (server_fn cb) fns s) (\<lambda>s1. Inr (refreshed s1))"
proof (induction fns arbitrary: s)
  case (Cons x fns)
  have "bindR (server_fn cb x s) (\<lambda>s1. run_all (server_fn cb) fns (refreshed s1)) = bindR (server_fn cb x s) (run_all (server_fn cb) fns)"
    by (subst (2) server_fn_refreshes [symmetric]) (simp add: bindR_assoc)
  then show ?case using Cons by (simp add: server_fn_refreshed bindR_assoc)
qed simp

lemma server_fn_joined: "joined lp sv \<Longrightarrow> server_fn cb x (lp, sv) = bindR (server_result cb x sv) (\<lambda>sv'. Inr (to_loop sv' lp))"
  by (simp add: server_fn_def joined_loop)

lemma run_calls:
  "joined lp sv \<Longrightarrow> run_all (server_fn cb) fns (lp, sv) = bindR (server_calls cb fns sv) (\<lambda>sv'. Inr (to_loop sv' lp))"
proof (induction fns arbitrary: lp sv)
  case (Cons x fns)
  have "run_all (server_fn cb) fns (to_loop sv1 lp) = bindR (server_calls cb fns sv1) (\<lambda>sv'. Inr (to_loop sv' lp))" for sv1
    using Cons.IH [OF joined_to(1) [OF Cons.prems]] by (simp add: joined_to(2) to_loop_fst [symmetric])
  then show ?case by (simp add: server_fn_joined [OF Cons.prems] bindR_assoc)
qed (simp add: joined_loop)

lemma server_calls_append: "server_calls cb (xs @ ys) sv = bindR (server_calls cb xs sv) (server_calls cb ys)"
  by (induction xs arbitrary: sv) (simp_all add: bindR_assoc cong: bindR_cong)

text \<open>The end of a round: the tick of the wheel.\<close>

definition round_tick :: "int \<Rightarrow> 'u server_loop \<Rightarrow> 'u server_loop result" where
  "round_tick now s =
     (case s of (lp, sv) \<Rightarrow> bindR (OnTimer now (el_wheel lp)) (\<lambda>(evs, tw).
        let lp' = lp\<lparr>el_fns := [], el_wheel := tw\<rparr>
        in bindR (fire_timeouts evs (in_loop lp' sv)) (\<lambda>sv'. Inr (to_loop sv' lp'))))"

lemma tick_refreshed: "round_tick now (refreshed s) = round_tick now s"
  by (simp add: round_tick_def refreshed_def split: prod.split)

lemma tick_call: "round_tick now (to_loop sv lp) = bindR (server_result cb (Tick now) sv) (\<lambda>sv'. Inr (to_loop sv' (lp\<lparr>el_fns := []\<rparr>)))"
  by (cases "OnTimer now (sv_wheel sv)") (auto simp: round_tick_def to_loop_def in_loop_def server_result_def bindR_assoc)

lemma round_parts:
  "server_round cb g (Inr ready) now (lp, sv) =
     (case poll_ready ready (el_ep lp) of (cs, ep) \<Rightarrow>
        bindR (handle_all (server_handler cb g) cs (lp\<lparr>el_ep := ep\<rparr>, sv)) (\<lambda>s1.
        bindR (run_all (server_fn cb) (el_fns (fst s1)) s1) (round_tick now)))"
  by (simp add: server_round_def loop_round_Inr RunFuctions_def round_tick_def [abs_def] bindR_assoc case_prod_unfold Let_def)

lemma failed_poll: "server_round cb g (Inl err) now s = Inl exit_fault"
  by (simp add: server_round_def loop_round_Inl)

lemma polled: "server_result cb (Polled ready) sv = Inr (sv\<lparr>sv_ep := snd (poll_ready ready (sv_ep sv))\<rparr>)"
  by (simp add: server_result_def)

text \<open>The channels that a poll of a sound server reports are its own.\<close>

lemma reported_exist:
  assumes inv: "sv_inv sv" and r: "(c, ev) \<in> set (reported_channels ready (sv_ep sv))"
  shows "if c = 0 then listening_on sv else conn_exists c sv"
proof -
  have core: "sv_core sv" and s: "in_sync (sv_ep sv)" using inv by (simp_all add: sv_inv_def sv_core_def)
  obtain fd where f: "ep_channels (sv_ep sv) fd = Some c" using reported_registered [OF r] by blast
  then have fd: "chan_fd c (sv_ep sv) = fd" "0 < fd" using in_syncD(1) [OF s f] by simp_all
  show ?thesis
  proof (cases "c = 0")
    case True
    then show ?thesis using f fd by (simp add: listening_on_def)
  next
    case False
    then have "c \<in> set (sv_connections sv)" using core fd by (simp add: sv_core_def)
    then show ?thesis using inv False unfolding sv_inv_def conn_ok_def by metis
  qed
qed

lemma round_eq:
  assumes "message_handler cb" and "server_reach cb b sv" and "joined lp sv" and "own_channel g" and "distinct (map fst ready)"
  shows "server_round cb g (Inr ready) now (lp, sv)
    = bindR (server_calls cb (round_calls g ready now (el_fns lp) (sv_ep sv)) sv) (\<lambda>sv'. Inr (to_loop sv' (lp\<lparr>el_fns := []\<rparr>)))"
proof -
  have inv: "sv_inv sv" using message_handler.reach_inv [OF assms(1,2)] by simp
  then have s: "in_sync (sv_ep sv)" and a: "ac_id (sv_acceptor sv) = 0" "0 < sv_next sv" by (simp_all add: sv_inv_def sv_core_def acceptor_ok_def)
  let ?rs = "reported_channels ready (sv_ep sv)" and ?ep = "snd (poll_ready ready (sv_ep sv))"
  let ?sv1 = "sv\<lparr>sv_ep := ?ep\<rparr>" and ?lp1 = "lp\<lparr>el_ep := ?ep\<rparr>" and ?hs = "List.map_filter (channel_input g) (reported_channels ready (sv_ep sv))"
  have j: "joined ?lp1 ?sv1" and pipe: "el_pipe (fst (?lp1, sv)) = None" and lp: "el_ep lp = sv_ep sv" using assms(3) by (simp_all add: joined_def)
  have ref: "refreshed (?lp1, sv) = (?lp1, ?sv1)" using assms(3) by (simp add: refreshed_def in_loop_def joined_def)
  have dist: "distinct (map fst ?rs)" by (rule reported_distinct [OF s assms(5)])
  have known: "\<forall>(c, ev)\<in>set ?rs. c < sv_next ?sv1 \<and> ch_revents (ep_store (sv_ep ?sv1) c) = ev"
  proof (clarify)
    fix c ev assume m: "(c, ev) \<in> set ?rs"
    have "c < sv_next sv" using reported_exist [OF inv m] a(2) by (auto simp: conn_exists_def split: if_splits)
    then show "c < sv_next ?sv1 \<and> ch_revents (ep_store (sv_ep ?sv1) c) = ev"
      using reported_revents [OF dist m] by (simp add: Poll_events)
  qed
  let ?after = "\<lambda>s1. bindR (run_all (server_fn cb) (el_fns (fst s1)) s1) (round_tick now)"
  have after: "?after (refreshed s1) = ?after s1" for s1
    by (simp add: run_all_refreshed bindR_assoc tick_refreshed)
  have "server_round cb g (Inr ready) now (lp, sv) = bindR (handle_all (server_handler cb g) (map fst ?rs) (?lp1, sv)) ?after"
    by (simp add: round_parts lp split_beta Poll_events reported_poll)
  also have "\<dots> = bindR (handle_all (server_handler cb g) (map fst ?rs) (refreshed (?lp1, sv))) ?after"
    by (simp only: handle_all_refreshed [OF pipe] bindR_assoc bindR.simps after)
  also have "\<dots> = bindR (server_calls cb ?hs ?sv1) (\<lambda>sv2. ?after (to_loop sv2 ?lp1))"
    unfolding ref using handle_calls [OF assms(4) j _ dist known, of cb] a(1) by (simp add: bindR_assoc)
  also have "\<dots> = bindR (server_calls cb ?hs ?sv1) (\<lambda>sv2. bindR (server_calls cb (el_fns lp @ [Tick now]) sv2)
      (\<lambda>sv'. Inr (to_loop sv' (lp\<lparr>el_fns := []\<rparr>))))"
  proof (rule bindR_cong [OF refl])
    fix sv2
    have f: "el_fns (fst (to_loop sv2 ?lp1)) = el_fns lp" by (simp add: to_loop_def)
    have "run_all (server_fn cb) (el_fns lp) (to_loop sv2 ?lp1) = bindR (server_calls cb (el_fns lp) sv2) (\<lambda>sv'. Inr (to_loop sv' ?lp1))"
      using run_calls [OF joined_to(1) [OF j], of cb "el_fns lp" sv2] by (simp add: to_loop_fst [symmetric] joined_to(2))
    moreover have "to_loop sv' (?lp1\<lparr>el_fns := []\<rparr>) = to_loop sv' (lp\<lparr>el_fns := []\<rparr>)" for sv' by (simp add: to_loop_def)
    ultimately show "?after (to_loop sv2 ?lp1) = bindR (server_calls cb (el_fns lp @ [Tick now]) sv2) (\<lambda>sv'. Inr (to_loop sv' (lp\<lparr>el_fns := []\<rparr>)))"
      by (simp add: f bindR_assoc tick_call [where cb = cb] server_calls_append)
  qed
  also have "\<dots> = bindR (server_calls cb (round_calls g ready now (el_fns lp) (sv_ep sv)) sv) (\<lambda>sv'. Inr (to_loop sv' (lp\<lparr>el_fns := []\<rparr>)))"
    by (simp add: round_calls_def polled server_calls_append bindR_assoc)
  finally show ?thesis .
qed

section \<open>Histories of the loop\<close>

text \<open>
  What other threads post: starting and stopping the server and the calls of its users. What the
  kernel and the users warrant for each call of a round, in the state in which it is made:
  \<open>accept4\<close> and \<open>socket\<close> give descriptors that are not open, \<open>Start\<close> finds the server not
  listening, and users call connections that exist. Nothing is said about where events go.
\<close>

fun posted_input :: "'u server_input \<Rightarrow> bool" where
  "posted_input (Start fd) = True"
| "posted_input Stop = True"
| "posted_input (Api c mem ops) = True"
| "posted_input _ = False"

fun warranted :: "'u server_input \<Rightarrow> 'u tcp_server \<Rightarrow> bool" where
  "warranted (Start fd) sv \<longleftrightarrow> \<not> listening_on sv \<and> free_fd fd sv"
| "warranted (Incoming ntop6 rs fd mk) sv \<longleftrightarrow> free_fd fd sv \<and> fd \<notin> set (new_fds rs) \<and> distinct (new_fds rs) \<and>
     list_all (\<lambda>x. 0 < x \<and> \<not> k_open (sv_ep sv) x) (new_fds rs)"
| "warranted (Listen_error fd) sv \<longleftrightarrow> free_fd fd sv"
| "warranted (Api c mem ops) sv \<longleftrightarrow> conn_exists c sv"
| "warranted _ sv \<longleftrightarrow> True"

fun along :: "('u server_input \<Rightarrow> 'u tcp_server \<Rightarrow> bool) \<Rightarrow> 'u message_cb \<Rightarrow> 'u server_input list \<Rightarrow> 'u tcp_server \<Rightarrow> bool" where
  "along P cb [] sv = True"
| "along P cb (x # xs) sv = (P x sv \<and> (case server_result cb x sv of Inl e \<Rightarrow> True | Inr sv' \<Rightarrow> along P cb xs sv'))"

inductive server_hist :: "'u message_cb \<Rightarrow> (nat list \<Rightarrow> string) \<Rightarrow> (int \<times> inet_address \<Rightarrow> 'u) \<Rightarrow> 'u server_loop \<Rightarrow> bool"
  for cb ntop6 mk where
  start: "server_hist cb ntop6 mk (new_EventLoop, new_TcpServer wc addr u)"
| post: "server_hist cb ntop6 mk (lp, sv) \<Longrightarrow> posted_input x \<Longrightarrow> server_hist cb ntop6 mk (lp\<lparr>el_fns := el_fns lp @ [x]\<rparr>, sv)"
| round: "server_hist cb ntop6 mk (lp, sv) \<Longrightarrow> distinct (map fst ready) \<Longrightarrow>
    along warranted cb (round_calls (event_input ntop6 mk kd) ready now (el_fns lp) (sv_ep sv)) sv \<Longrightarrow>
    server_round cb (event_input ntop6 mk kd) (Inr ready) now (lp, sv) = Inr s' \<Longrightarrow> server_hist cb ntop6 mk s'"

section \<open>Every call has its object\<close>

text \<open>What a call needs beyond that: events go to connections that exist and, for the acceptor, to a
  server that listens.\<close>

fun addressed :: "'u server_input \<Rightarrow> 'u tcp_server \<Rightarrow> bool" where
  "addressed (Incoming ntop6 rs fd mk) sv \<longleftrightarrow> listening_on sv"
| "addressed (Listen_error fd) sv \<longleftrightarrow> listening_on sv"
| "addressed (Readable c rds) sv \<longleftrightarrow> conn_exists c sv"
| "addressed (Writable c mem ws) sv \<longleftrightarrow> conn_exists c sv"
| "addressed (Failed c) sv \<longleftrightarrow> conn_exists c sv"
| "addressed (Hangup c) sv \<longleftrightarrow> conn_exists c sv"
| "addressed _ sv \<longleftrightarrow> True"

lemma call_ok_iff: "call_ok x sv \<longleftrightarrow> warranted x sv \<and> addressed x sv"
  by (cases x) auto

lemma along_append:
  "along P cb (xs @ ys) sv \<longleftrightarrow> along P cb xs sv \<and> (case server_calls cb xs sv of Inl e \<Rightarrow> True | Inr sv' \<Rightarrow> along P cb ys sv')"
  by (induction xs arbitrary: sv) (auto split: sum.split)

lemma along_call_ok: "along call_ok cb xs sv \<longleftrightarrow> along warranted cb xs sv \<and> along addressed cb xs sv"
  by (induction xs arbitrary: sv) (auto simp: call_ok_iff split: sum.split)

lemma along_always: "(\<And>x sv. x \<in> set xs \<Longrightarrow> P x sv) \<Longrightarrow> along P cb xs sv"
  by (induction xs arbitrary: sv) (auto split: sum.split)

lemma event_addressed:
  "event_input ntop6 mk kd call c = Some x \<Longrightarrow> (if c = 0 then listening_on sv else conn_exists c sv) \<Longrightarrow> addressed x sv"
  by (auto simp: event_input_def split: channel_call.splits if_splits)

lemma result_call: "server_result cb x sv = Inr sv' \<Longrightarrow> server_call cb x sv = Some (Inr sv')"
  by (simp add: server_result_def split: option.splits)

lemma addressed_kept:
  assumes "aside d sv sv'" and "listening_on sv' = listening_on sv" and "addressed y sv"
  shows "addressed y sv'"
  using assms by (cases y) (auto simp: aside_def conn_exists_def)

text \<open>What a fault comes from: the message handler, the buffer or the queue of one connection, never the
  poller or the wheel.\<close>

definition own_fault :: "'u message_cb \<Rightarrow> 'u server_input \<Rightarrow> 'u tcp_server \<Rightarrow> fault \<Rightarrow> bool" where
  "own_fault cb x sv e \<longleftrightarrow>
     (case x of
        Readable c rds \<Rightarrow> conn_exists c sv \<and> (case OnRead cb rds (sv_ctx sv c) (sv_objs sv c) of
           None \<Rightarrow> e = Exception ''does not return'' | Some r \<Rightarrow> r = Inl e)
      | Writable c mem ws \<Rightarrow> conn_exists c sv \<and> (case OnWrite mem ws (sv_objs sv c) of
           None \<Rightarrow> e = Exception ''does not return'' | Some r \<Rightarrow> r = Inl e)
      | Api c mem ops \<Rightarrow> conn_exists c sv \<and> (case run_ops mem ops (sv_objs sv c) of
           None \<Rightarrow> e = Exception ''does not return'' | Some r \<Rightarrow> r = Inl e)
      | _ \<Rightarrow> False)"

text \<open>The call of a list that faults: the calls before it run, it is made in a state that calls of the
  server reach, and the fault is that of the connection it is made on.\<close>

definition faulty_call :: "'u message_cb \<Rightarrow> 'u server_input list \<Rightarrow> 'u tcp_server \<Rightarrow> fault \<Rightarrow> bool" where
  "faulty_call cb xs sv e \<longleftrightarrow>
     (\<exists>before x after sv1 b. xs = before @ x # after \<and> server_calls cb before sv = Inr sv1 \<and> server_reach cb b sv1 \<and> own_fault cb x sv1 e)"

lemma faulty_first: "server_reach cb b sv \<Longrightarrow> own_fault cb x sv e \<Longrightarrow> faulty_call cb (x # xs) sv e"
  unfolding faulty_call_def by (rule exI [of _ "[]"]) auto

lemma faulty_later: "server_result cb x sv = Inr sv1 \<Longrightarrow> faulty_call cb xs sv1 e \<Longrightarrow> faulty_call cb (x # xs) sv e"
  unfolding faulty_call_def by (elim exE conjE, rule_tac x = "x # before" in exI) auto

lemma result_cases:
  obtains "r = None" | e where "r = Some (Inl e)" | v where "r = Some (Inr v)"
  by (cases r) (auto, metis old.sum.exhaust)

context message_handler
begin

lemma events_addressed:
  "server_reach cb b sv \<Longrightarrow> \<forall>x\<in>set xs. target x \<noteq> None \<and> addressed x sv \<Longrightarrow> along warranted cb xs sv \<Longrightarrow> along addressed cb xs sv"
proof (induction xs arbitrary: sv)
  case (Cons x xs)
  show ?case
  proof (cases "server_result cb x sv")
    case (Inr sv1)
    have inv: "sv_inv sv" "listening_on sv = b" using reach_inv [OF Cons.prems(1)] by simp_all
    have ok: "call_ok x sv" using Cons.prems(2,3) by (simp add: call_ok_iff)
    have l: "listens x b = b" using Cons.prems(2) by (cases x) auto
    have r1: "server_reach cb b sv1" using server_reach.step [OF Cons.prems(1) ok result_call [OF Inr]] l by simp
    obtain d where d: "target x = Some d" using Cons.prems(2) by auto
    have "ac_id (sv_acceptor sv) = 0" using inv(1) by (simp add: sv_inv_def acceptor_ok_def)
    then have a: "aside d sv sv1" by (rule call_aside [OF Inr d])
    have "listening_on sv1 = listening_on sv" using reach_inv [OF r1] inv(2) by simp
    then have "\<forall>y\<in>set xs. target y \<noteq> None \<and> addressed y sv1" using addressed_kept [OF a] Cons.prems(2) by simp
    then show ?thesis using Cons.IH [OF r1] Cons.prems(2,3) Inr by simp
  qed (use Cons.prems(2) in simp)
qed simp

lemma call_fault:
  assumes inv: "sv_inv sv" and ok: "call_ok x sv" and r: "server_result cb x sv = Inl e"
  shows "own_fault cb x sv e"
proof (cases x)
  case (Start fd)
  then show ?thesis using start_ok [OF inv, of fd] ok r by (auto simp: server_result_def)
next
  case Stop
  then show ?thesis using stop_ok [OF inv] r by (auto simp: server_result_def)
next
  case (Incoming ntop6 rs fd mk)
  then show ?thesis using incoming_ok [OF inv, of ntop6 rs fd mk] ok r by (auto simp: server_result_def)
next
  case (Listen_error fd)
  then show ?thesis using recover_ok [OF inv, of fd] ok r by (auto simp: Acceptor_OnError_def server_result_def)
next
  case (Readable c rds)
  then show ?thesis using readable_ok [OF inv, of c rds] ok r
    by (cases "OnRead cb rds (sv_ctx sv c) (sv_objs sv c)" rule: result_cases) (auto simp: own_fault_def server_result_def)
next
  case (Writable c mem ws)
  then show ?thesis using writable_ok [OF inv, of c mem ws] ok r
    by (cases "OnWrite mem ws (sv_objs sv c)" rule: result_cases) (auto simp: own_fault_def server_result_def)
next
  case (Api c mem ops)
  then show ?thesis using api_ok [OF inv, of c mem ops] ok r
    by (cases "run_ops mem ops (sv_objs sv c)" rule: result_cases) (auto simp: own_fault_def server_result_def)
next
  case (Tick now)
  then show ?thesis using tick_ok [OF inv, of now] r by (auto simp: server_result_def)
next
  case (Failed c)
  then show ?thesis using commit_close [OF inv, of c] ok r by (auto simp: server_result_def OnError_def)
next
  case (Hangup c)
  then show ?thesis using commit_close [OF inv, of c] ok r by (auto simp: server_result_def)
qed (use r in \<open>simp add: server_result_def\<close>)

lemma calls_reach:
  "server_reach cb b sv \<Longrightarrow> along call_ok cb xs sv \<Longrightarrow>
     (case server_calls cb xs sv of
        Inl e \<Rightarrow> faulty_call cb xs sv e
      | Inr sv' \<Rightarrow> \<exists>b'. server_reach cb b' sv')"
proof (induction xs arbitrary: b sv)
  case (Cons x xs)
  show ?case
  proof (cases "server_result cb x sv")
    case (Inl e)
    then have "own_fault cb x sv e" using call_fault reach_inv [OF Cons.prems(1)] Cons.prems(2) by simp
    then show ?thesis using faulty_first [OF Cons.prems(1)] Inl by simp
  next
    case (Inr sv1)
    have ok: "call_ok x sv" "along call_ok cb xs sv1" using Cons.prems(2) Inr by simp_all
    from Cons.IH [OF server_reach.step [OF Cons.prems(1) ok(1) result_call [OF Inr]] ok(2)] show ?thesis
      by (auto simp: Inr faulty_later [OF Inr] split: sum.splits)
  qed
qed auto

text \<open>The calls of a round are addressed.\<close>

lemma round_addressed:
  assumes r: "server_reach cb b sv" and w: "along warranted cb (round_calls (event_input ntop6 mk kd) ready now fns (sv_ep sv)) sv"
    and p: "list_all posted_input fns"
  shows "along call_ok cb (round_calls (event_input ntop6 mk kd) ready now fns (sv_ep sv)) sv"
proof -
  let ?g = "event_input ntop6 mk kd" and ?sv1 = "sv\<lparr>sv_ep := snd (poll_ready ready (sv_ep sv))\<rparr>"
  let ?hs = "List.map_filter (channel_input ?g) (reported_channels ready (sv_ep sv))"
  have inv: "sv_inv sv" using reach_inv [OF r] by simp
  have r1: "server_reach cb b ?sv1" using server_reach.step [OF r, of "Polled ready" ?sv1] by simp
  have l1: "listening_on ?sv1 = listening_on sv" using poll_inv [OF inv] by simp
  have "target x \<noteq> None \<and> addressed x ?sv1" if m: "x \<in> set ?hs" for x
  proof -
    obtain c ev call where h: "(c, ev) \<in> set (reported_channels ready (sv_ep sv))" "?g call c = Some x"
      using m by (auto simp: List.map_filter_def channel_input_def split: bind_splits)
    have "if c = 0 then listening_on ?sv1 else conn_exists c ?sv1" using reported_exist [OF inv h(1)] l1 by simp
    then show ?thesis using event_addressed [OF h(2)] own_event_input [of ntop6 mk kd] h(2) by (auto simp: own_channel_def)
  qed
  then have "along addressed cb ?hs ?sv1"
    using events_addressed [OF r1, of ?hs] w by (simp add: round_calls_def polled along_append)
  moreover have "along addressed cb (fns @ [Tick now]) sv2" for sv2
  proof (rule along_always)
    fix x sv assume "x \<in> set (fns @ [Tick now])"
    then have "posted_input x \<or> x = Tick now" using p by (auto simp: list_all_iff)
    then show "addressed x sv" by (cases x) auto
  qed
  ultimately have "along addressed cb (round_calls ?g ready now fns (sv_ep sv)) sv"
    by (simp add: round_calls_def polled along_append split: sum.split)
  then show ?thesis using w by (simp add: along_call_ok)
qed

lemma round_reach:
  assumes r: "server_reach cb b sv" and j: "joined lp sv" and p: "list_all posted_input (el_fns lp)" and d: "distinct (map fst ready)"
    and w: "along warranted cb (round_calls (event_input ntop6 mk kd) ready now (el_fns lp) (sv_ep sv)) sv"
  shows "case server_round cb (event_input ntop6 mk kd) (Inr ready) now (lp, sv) of
      Inl e \<Rightarrow> faulty_call cb (round_calls (event_input ntop6 mk kd) ready now (el_fns lp) (sv_ep sv)) sv e
    | Inr (lp', sv') \<Rightarrow> el_fns lp' = [] \<and> joined lp' sv' \<and> (\<exists>b'. server_reach cb b' sv')"
proof -
  note eq = round_eq [OF message_handler_axioms r j own_event_input d, of ntop6 mk kd now]
  show ?thesis using calls_reach [OF r round_addressed [OF r w p]] j
    unfolding eq by (auto simp: to_loop_def joined_def split: sum.splits)
qed

lemma hist_reach:
  "server_hist cb ntop6 mk s \<Longrightarrow> (\<exists>b. server_reach cb b (snd s)) \<and> joined (fst s) (snd s) \<and> list_all posted_input (el_fns (fst s))"
proof (induction rule: server_hist.induct)
  case (start wc addr u)
  have "server_reach cb False (new_TcpServer wc addr u)" by (rule server_reach.start)
  then show ?case by (auto simp: joined_def new_EventLoop_def new_TcpServer_def)
next
  case (round lp sv ready kd now s')
  then obtain b where "server_reach cb b sv" "joined lp sv" "list_all posted_input (el_fns lp)" by auto
  from round_reach [OF this round.hyps(2,3)] show ?case using round.hyps(4) by (cases s') auto
qed (auto simp: joined_def)

end

section \<open>Properties\<close>

text \<open>C19: a round of the loop of a server is the sequence of its calls: the poll, then for each reported
  descriptor that is registered, once and in the order of the report, the handler that its event
  mask selects on the channel it belongs to, then the posted functions in order, then the tick of
  the wheel, whatever earlier handlers do to channels and connections; it faults where the first of
  these calls faults. When \<open>epoll_wait\<close> fails there is no call: the process exits.\<close>

theorem round_is_calls:
  assumes "message_handler cb" and "server_hist cb ntop6 mk (lp, sv)" and "distinct (map fst ready)"
  shows "server_round cb (event_input ntop6 mk kd) (Inr ready) now (lp, sv)
      = bindR (server_calls cb (round_calls (event_input ntop6 mk kd) ready now (el_fns lp) (sv_ep sv)) sv)
          (\<lambda>sv'. Inr (to_loop sv' (lp\<lparr>el_fns := []\<rparr>))) \<and>
    server_round cb (event_input ntop6 mk kd) (Inl err) now (lp, sv) = Inl exit_fault"
proof -
  obtain b where "server_reach cb b sv" "joined lp sv" using message_handler.hist_reach [OF assms(1,2)] by auto
  from round_eq [OF assms(1) this own_event_input assms(3)] show ?thesis by (simp add: failed_poll)
qed

text \<open>C18: the server in its loop refines the server that is called: after any history of posts and rounds,
  whatever is reported, its state is one that calls alone reach, so all that holds of these holds of
  it. In a round for which the kernel reports a descriptor once and hands out descriptors that are not
  open, users call connections that exist, and \<open>Start\<close> finds the server not listening: no event
  reaches a connection that does not exist or an acceptor that does not listen; when the poll succeeds
  the round faults only inside one of its own calls, in the message handler, the buffer or the queue
  of the connection that this call is made on, in the state the calls before it have left; and no
  registration makes the process exit. When \<open>epoll_wait\<close> fails, the process exits.\<close>

theorem loop_refines_server:
  assumes "message_handler cb" and "server_hist cb ntop6 mk (lp, sv)"
  shows "(\<exists>b. server_reach cb b sv) \<and> el_ep lp = sv_ep sv \<and> el_wheel lp = sv_wheel sv \<and>
    (if distinct (map fst ready) \<and>
        along warranted cb (round_calls (event_input ntop6 mk kd) ready now (el_fns lp) (sv_ep sv)) sv
     then along call_ok cb (round_calls (event_input ntop6 mk kd) ready now (el_fns lp) (sv_ep sv)) sv \<and>
       (case server_round cb (event_input ntop6 mk kd) (Inr ready) now (lp, sv) of
          Inl e \<Rightarrow> faulty_call cb (round_calls (event_input ntop6 mk kd) ready now (el_fns lp) (sv_ep sv)) sv e
        | Inr (lp', sv') \<Rightarrow> el_fns lp' = [] \<and> (\<exists>b. server_reach cb b sv'))
     else True) \<and>
    server_round cb (event_input ntop6 mk kd) (Inl err) now (lp, sv) = Inl exit_fault"
proof -
  obtain b where h: "server_reach cb b sv" "joined lp sv" "list_all posted_input (el_fns lp)"
    using message_handler.hist_reach [OF assms] by auto
  show ?thesis
    using h message_handler.round_reach [OF assms(1) h, of ready ntop6 mk kd now]
      message_handler.round_addressed [OF assms(1) h(1) _ h(3), of ntop6 mk kd ready now]
    by (auto simp: joined_def failed_poll split: sum.splits)
qed

lemma poll_open: "k_open (snd (poll_ready ready ep)) = k_open ep"
proof -
  have "k_open (snd (poll_events ready ep)) = k_open ep"
    by (induction ready ep rule: poll_events.induct) (simp_all add: split_beta Let_def split: option.split)
  then show ?thesis by (simp add: poll_ready_def split_beta)
qed

text \<open>A server that was posted to listen, on descriptor 4, and has run one round.\<close>

definition sample_kernel :: kernel_data where
  "sample_kernel = \<lparr>kd_reads = (\<lambda>_. []), kd_memory = (\<lambda>_. CHR ''x''), kd_writes = (\<lambda>_. []),
     kd_accepts = [Inr (5, Sockaddr_in 80 1)], kd_socket = 7\<rparr>"

lemma drop_all_handler: "message_handler drop_all"
  unfolding drop_all_def by (rule api.message_handler_axioms)

lemma sample_server:
  "\<exists>lp sv. server_hist drop_all (\<lambda>_. []) (\<lambda>_. ()) (lp, sv) \<and> el_fns lp = [] \<and> listening_on sv \<and> ep_channels (sv_ep sv) 4 = Some 0 \<and>
     \<not> k_open (sv_ep sv) 5 \<and> \<not> k_open (sv_ep sv) 7"
proof -
  let ?s0 = "new_TcpServer False new_InetAddress ()" and ?g = "event_input (\<lambda>_. []) (\<lambda>_. ()) sample_kernel"
  let ?lp0 = "new_EventLoop :: unit server_input event_loop"
  let ?lp = "?lp0\<lparr>el_fns := el_fns ?lp0 @ [Start 4]\<rparr>"
  have off: "\<not> listening_on ?s0" by (simp add: listening_on_def new_TcpServer_def) (simp add: new_Epoller_def)
  have k: "free_fd 4 ?s0" by (simp add: free_fd_def new_TcpServer_def new_Epoller_def)
  obtain s1 where 1: "TcpServer_Start 4 ?s0 = Inr s1" "sv_inv s1" "listening_on s1" using start_ok [OF new_server_inv off k] by blast
  have s1: "k_open (sv_ep s1) = (k_open (sv_ep ?s0))(4 := True)" "sv_wheel s1 = new_TimingWheel" "chan_fd 0 (sv_ep s1) = 4"
    using 1(1) by (auto simp: TcpServer_Start_def Acceptor_Start_def Acceptor_Open_def bindR_eq_Inr_iff AddChannel_def Epoller_AddChannel_def
        epoll_ctl_add_def or_exit_def open_socket_def set_channel_fd_def set_acceptor_def new_TcpServer_def close_channel_def Channel_Close_def new_Epoller_def
        new_Channel_def update_chan_def SetAcceptCallback_def new_Acceptor_def chan_fd_def with_reading_def Let_def split: if_splits)
  have h0: "server_hist drop_all (\<lambda>_. []) (\<lambda>_. ()) (?lp, ?s0)" by (rule server_hist.post [OF server_hist.start]) simp
  have p: "snd (poll_ready [] (sv_ep ?s0)) = sv_ep ?s0" by (simp add: poll_ready_def new_TcpServer_def new_Epoller_def)
  have c: "round_calls ?g [] 0 (el_fns ?lp) (sv_ep ?s0) = [Polled [], Start 4, Tick 0]"
    by (simp add: round_calls_def reported_channels_def List.map_filter_def new_EventLoop_def)
  have w: "along warranted drop_all (round_calls ?g [] 0 (el_fns ?lp) (sv_ep ?s0)) ?s0"
    using off k p unfolding c by (simp add: polled split: sum.split)
  have t: "OnTimer 0 new_TimingWheel = Inr ([], new_TimingWheel)" by (simp add: OnTimer_def new_TimingWheel_def)
  have j: "joined ?lp ?s0" by (simp add: joined_def new_EventLoop_def new_TcpServer_def)
  have "server_calls drop_all [Polled [], Start 4, Tick 0] ?s0 = Inr s1"
    using 1(1) p s1(2) by (simp add: polled) (simp add: server_result_def t)
  then have "server_round drop_all ?g (Inr []) 0 (?lp, ?s0) = Inr (to_loop s1 (?lp\<lparr>el_fns := []\<rparr>))"
    using round_eq [OF drop_all_handler server_reach.start j own_event_input, of "[]" "\<lambda>_. []" "\<lambda>_. ()" sample_kernel 0]
    unfolding c by simp
  then have "server_hist drop_all (\<lambda>_. []) (\<lambda>_. ()) (to_loop s1 (?lp\<lparr>el_fns := []\<rparr>))"
    using server_hist.round [OF h0 _ w] by simp
  then show ?thesis using s1(1,3) 1(3) by (intro exI [of _ "fst (to_loop s1 (?lp\<lparr>el_fns := []\<rparr>))"] exI [of _ s1])
      (simp add: to_loop_def new_TcpServer_def new_Epoller_def listening_on_def)
qed

lemma sample_calls:
  assumes "el_fns lp = []" and "ep_channels ep 4 = Some 0"
  shows "round_calls (event_input (\<lambda>_. []) (\<lambda>_. ()) sample_kernel) [(4, EPOLLIN)] 1000 (el_fns lp) ep
    = [Polled [(4, EPOLLIN)], Incoming (\<lambda>_. []) [Inr (5, Sockaddr_in 80 1)] 7 (\<lambda>_. ()), Tick 1000]"
  using assms by (simp add: round_calls_def reported_Cons) (simp add: reported_channels_def List.map_filter_def channel_input_def
      HandleEvent_def SetRevents_def has_def epoll_bits event_input_def sample_kernel_def Let_def)

theorem round_is_calls_witness:
  "\<exists>lp sv. server_hist drop_all (\<lambda>_. []) (\<lambda>_. ()) (lp, sv) \<and>
     server_round drop_all (event_input (\<lambda>_. []) (\<lambda>_. ()) sample_kernel) (Inr [(4, EPOLLIN)]) 1000 (lp, sv)
       = bindR (server_calls drop_all [Polled [(4, EPOLLIN)], Incoming (\<lambda>_. []) [Inr (5, Sockaddr_in 80 1)] 7 (\<lambda>_. ()), Tick 1000] sv)
           (\<lambda>sv'. Inr (to_loop sv' (lp\<lparr>el_fns := []\<rparr>)))"
proof -
  obtain lp sv where h: "server_hist drop_all (\<lambda>_. []) (\<lambda>_. ()) (lp, sv)" "el_fns lp = []" "ep_channels (sv_ep sv) 4 = Some 0"
    using sample_server by blast
  have "round_calls (event_input (\<lambda>_. []) (\<lambda>_. ()) sample_kernel) [(4, EPOLLIN)] 1000 (el_fns lp) (sv_ep sv)
      = [Polled [(4, EPOLLIN)], Incoming (\<lambda>_. []) [Inr (5, Sockaddr_in 80 1)] 7 (\<lambda>_. ()), Tick 1000]"
    by (rule sample_calls [OF h(2,3)])
  then show ?thesis using round_is_calls [OF drop_all_handler h(1), of "[(4, EPOLLIN)]" sample_kernel 1000] h(1) by auto
qed

theorem loop_refines_server_witness:
  "\<exists>lp sv b. server_hist drop_all (\<lambda>_. []) (\<lambda>_. ()) (lp, sv) \<and> server_reach drop_all b sv \<and>
     along call_ok drop_all (round_calls (event_input (\<lambda>_. []) (\<lambda>_. ()) sample_kernel) [(4, EPOLLIN)] 1000 (el_fns lp) (sv_ep sv)) sv"
proof -
  obtain lp sv where h: "server_hist drop_all (\<lambda>_. []) (\<lambda>_. ()) (lp, sv)" "el_fns lp = []" "ep_channels (sv_ep sv) 4 = Some 0"
    "\<not> k_open (sv_ep sv) 5" "\<not> k_open (sv_ep sv) 7" using sample_server by blast
  let ?g = "event_input (\<lambda>_. []) (\<lambda>_. ()) sample_kernel"
  have c: "round_calls ?g [(4, EPOLLIN)] 1000 (el_fns lp) (sv_ep sv)
      = [Polled [(4, EPOLLIN)], Incoming (\<lambda>_. []) [Inr (5, Sockaddr_in 80 1)] 7 (\<lambda>_. ()), Tick 1000]"
    by (rule sample_calls [OF h(2,3)])
  have "along warranted drop_all (round_calls ?g [(4, EPOLLIN)] 1000 (el_fns lp) (sv_ep sv)) sv"
    using h(3-5) unfolding c by (simp add: polled free_fd_def poll_open split: sum.split)
  then show ?thesis using loop_refines_server [OF drop_all_handler h(1), of "[(4, EPOLLIN)]" sample_kernel 1000 4] h(1) by auto
qed

end
