(* ===== verification/LoopLocks.thy ===== *)
theory LoopLocks
  imports Main
begin

text \<open>
  The mutexes of several loops. \<open>EventLoop::RunFuctions\<close> keeps the mutex of its loop while it runs
  the posted functions, and \<open>RunInLoop\<close> takes that of the loop it posts to, except in that loop's own
  thread, where the function runs at once. A posted function is what it does with loops: it posts
  functions and goes on. One step is what a thread does between two waits for a mutex; it is
  \<open>None\<close> while the thread waits.
\<close>

section \<open>Threads and mutexes\<close>

datatype posted_fn = Return | Post nat posted_fn posted_fn  \<comment> \<open>the loop, the function posted, the rest\<close>

record loops =
  ls_fns :: "nat \<Rightarrow> posted_fn list"   \<comment> \<open>the function that runs is at the front\<close>
  ls_locked :: "nat \<Rightarrow> bool"          \<comment> \<open>the thread of the loop is in \<open>RunFuctions\<close> and has the mutex\<close>

fun run_then :: "posted_fn \<Rightarrow> posted_fn \<Rightarrow> posted_fn" where
  "run_then Return k = k"
| "run_then (Post j g f) k = Post j g (run_then f k)"

text \<open>\<open>RunInLoop\<close> from a thread that is not that of loop \<open>j\<close>.\<close>

definition post_to :: "nat \<Rightarrow> posted_fn \<Rightarrow> loops \<Rightarrow> loops option" where
  "post_to j g s = (if ls_locked s j then None else Some (s\<lparr>ls_fns := (ls_fns s)(j := ls_fns s j @ [g])\<rparr>))"

definition thread_step :: "nat \<Rightarrow> loops \<Rightarrow> loops option" where
  "thread_step i s =
     (if \<not> ls_locked s i then Some (s\<lparr>ls_locked := (ls_locked s)(i := True)\<rparr>)
      else
        (case ls_fns s i of
           [] \<Rightarrow> Some (s\<lparr>ls_locked := (ls_locked s)(i := False)\<rparr>)
         | Return # fs \<Rightarrow> Some (s\<lparr>ls_fns := (ls_fns s)(i := fs)\<rparr>)
         | Post j g k # fs \<Rightarrow>
             if j = i then Some (s\<lparr>ls_fns := (ls_fns s)(i := run_then g k # fs)\<rparr>)
             else map_option (\<lambda>s'. s'\<lparr>ls_fns := (ls_fns s')(i := k # fs)\<rparr>) (post_to j g s)))"

text \<open>What \<open>n\<close> loops and other threads do, when the functions that come from outside satisfy \<open>P\<close>.\<close>

inductive loops_run :: "nat \<Rightarrow> (nat \<Rightarrow> posted_fn \<Rightarrow> bool) \<Rightarrow> loops \<Rightarrow> loops \<Rightarrow> bool" for n P s0 where
  start: "loops_run n P s0 s0"
| thread: "loops_run n P s0 s \<Longrightarrow> i < n \<Longrightarrow> thread_step i s = Some s' \<Longrightarrow> loops_run n P s0 s'"
| outside: "loops_run n P s0 s \<Longrightarrow> i < n \<Longrightarrow> P i f \<Longrightarrow> post_to i f s = Some s' \<Longrightarrow> loops_run n P s0 s'"

section \<open>Work that is left\<close>

fun weight :: "posted_fn \<Rightarrow> nat" where
  "weight Return = 1"
| "weight (Post j g k) = 1 + weight g + weight k"

definition work :: "posted_fn list \<Rightarrow> nat" where
  "work fs = sum_list (map weight fs)"

definition calls_left :: "nat \<Rightarrow> loops \<Rightarrow> nat" where
  "calls_left n s = (\<Sum>i<n. work (ls_fns s i))"

definition busy :: "loops \<Rightarrow> nat \<Rightarrow> bool" where
  "busy s i \<longleftrightarrow> ls_locked s i \<or> ls_fns s i \<noteq> []"

lemma weight_run_then: "weight (run_then g k) < weight g + weight k"
  by (induction g) auto

lemma sum_change:
  assumes "(i::nat) < n" and "\<And>k. k \<noteq> i \<Longrightarrow> f' k = f k"
  shows "(\<Sum>k<n. f' k) + f i = (\<Sum>k<n. f k) + (f' i :: nat)"
proof -
  have "(\<Sum>k\<in>{..<n} - {i}. f' k) = (\<Sum>k\<in>{..<n} - {i}. f k)" by (rule sum.cong) (use assms(2) in auto)
  then show ?thesis using assms(1) sum.remove [of "{..<n}" i f'] sum.remove [of "{..<n}" i f] by simp
qed

lemma work_one:
  assumes "i < n" and "work fs < work (ls_fns s i)"
  shows "calls_left n (s\<lparr>ls_fns := (ls_fns s)(i := fs)\<rparr>) < calls_left n s"
  using sum_change [OF assms(1), of "\<lambda>x. work (((ls_fns s)(i := fs)) x)" "\<lambda>x. work (ls_fns s x)"] assms(2)
  by (simp add: calls_left_def)

lemma work_post:
  assumes "i < n" and "j < n" and "j \<noteq> i" and "ls_fns s i = Post j g k # fs"
  shows "calls_left n (s\<lparr>ls_fns := (ls_fns s)(j := ls_fns s j @ [g], i := k # fs)\<rparr>) < calls_left n s"
proof -
  let ?F1 = "(ls_fns s)(j := ls_fns s j @ [g])"
  let ?F2 = "?F1(i := k # fs)"
  have "(\<Sum>x<n. work (?F2 x)) + work (?F1 i) = (\<Sum>x<n. work (?F1 x)) + work (?F2 i)"
    by (rule sum_change [OF assms(1)]) simp
  moreover have "(\<Sum>x<n. work (?F1 x)) + work (ls_fns s j) = (\<Sum>x<n. work (ls_fns s x)) + work (?F1 j)"
    by (rule sum_change [OF assms(2)]) simp
  moreover have "work (?F1 j) = work (ls_fns s j) + weight g" "work (?F2 i) + weight g < work (?F1 i)"
    using assms(3,4) by (simp_all add: work_def)
  ultimately show ?thesis unfolding calls_left_def by simp
qed

section \<open>Posting upwards\<close>

text \<open>The functions of a loop post to the loop itself and to loops above it, and so do those they post.\<close>

fun upward :: "nat \<Rightarrow> (nat \<Rightarrow> nat) \<Rightarrow> nat \<Rightarrow> posted_fn \<Rightarrow> bool" where
  "upward n rank i Return = True"
| "upward n rank i (Post j g k) \<longleftrightarrow> j < n \<and> (j = i \<or> rank i < rank j) \<and> upward n rank j g \<and> upward n rank i k"

definition all_upward :: "nat \<Rightarrow> (nat \<Rightarrow> nat) \<Rightarrow> loops \<Rightarrow> bool" where
  "all_upward n rank s \<longleftrightarrow> (\<forall>i. list_all (upward n rank i) (ls_fns s i))"

lemma upward_run_then: "upward n rank i g \<Longrightarrow> upward n rank i k \<Longrightarrow> upward n rank i (run_then g k)"
  by (induction g) auto

lemma step_upward: "thread_step i s = Some s' \<Longrightarrow> all_upward n rank s \<Longrightarrow> all_upward n rank s'"
proof -
  assume st: "thread_step i s = Some s'" and up: "all_upward n rank s"
  have i: "list_all (upward n rank i) (ls_fns s i)" and a: "list_all (upward n rank x) (ls_fns s x)" for x
    using up by (simp_all add: all_upward_def)
  show ?thesis
  proof (cases "\<not> ls_locked s i \<or> ls_fns s i = []")
    case True
    then have "ls_fns s' = ls_fns s" using st by (auto simp: thread_step_def split: if_splits)
    then show ?thesis using up by (simp add: all_upward_def)
  next
    case False
    then obtain f fs where f: "ls_fns s i = f # fs" by (cases "ls_fns s i") auto
    show ?thesis
    proof (cases f)
      case Return
      then show ?thesis using st False f i a by (auto simp: thread_step_def all_upward_def)
    next
      case (Post j g k)
      then show ?thesis using st False f i a
        by (auto simp: thread_step_def all_upward_def post_to_def upward_run_then split: if_splits)
    qed
  qed
qed

lemma run_upward:
  "loops_run n (upward n rank) s0 s \<Longrightarrow> all_upward n rank s0 \<Longrightarrow> all_upward n rank s"
proof (induction rule: loops_run.induct)
  case (outside s i f s')
  then show ?case by (auto simp: post_to_def all_upward_def split: if_splits)
qed (auto intro: step_upward)

text \<open>A step runs part of a function, or takes or gives back the mutex of its loop, which a thread with
  something to run does not give back.\<close>

lemma step_kind:
  assumes "i < n" and "all_upward n rank s" and "thread_step i s = Some s'"
  shows "if ls_locked s i \<and> ls_fns s i \<noteq> [] then calls_left n s' < calls_left n s
    else s' = s\<lparr>ls_locked := (ls_locked s)(i := \<not> ls_locked s i)\<rparr>"
proof (cases "ls_locked s i \<and> ls_fns s i \<noteq> []")
  case False
  then show ?thesis using assms(3) by (auto simp: thread_step_def split: if_splits)
next
  case True
  then obtain f fs where f: "ls_fns s i = f # fs" by (cases "ls_fns s i") auto
  show ?thesis
  proof (cases f)
    case Return
    then show ?thesis using assms(3) True f work_one [OF assms(1), of fs s] by (auto simp: thread_step_def work_def)
  next
    case (Post j g k)
    have "list_all (upward n rank i) (ls_fns s i)" using assms(2) by (simp add: all_upward_def)
    then have j: "j < n" using f Post by simp
    show ?thesis
    proof (cases "j = i")
      case same: True
      then show ?thesis using assms(3) True f Post work_one [OF assms(1), of "run_then g k # fs" s] weight_run_then [of g k]
        by (auto simp: thread_step_def work_def)
    next
      case False
      then show ?thesis using assms(3) True f Post work_post [OF assms(1) j False, of s g k fs]
        by (auto simp: thread_step_def post_to_def split: if_splits)
    qed
  qed
qed

lemma waits_for:
  "thread_step i s = None \<Longrightarrow> ls_locked s i \<and> (\<exists>j g k fs. ls_fns s i = Post j g k # fs \<and> j \<noteq> i \<and> ls_locked s j)"
  by (auto simp: thread_step_def post_to_def split: if_splits list.splits posted_fn.splits)

text \<open>Of the threads that hold a mutex the one of the highest rank does not wait.\<close>

lemma highest_runs:
  assumes up: "all_upward n rank s" and i: "i < n" "ls_locked s i"
  shows "\<exists>m<n. ls_locked s m \<and> thread_step m s \<noteq> None"
proof -
  let ?S = "{m. m < n \<and> ls_locked s m}"
  have "finite ?S" "?S \<noteq> {}" using i by auto
  then obtain m where m: "m \<in> ?S" "Max (rank ` ?S) = rank m" by (rule obtains_MAX [where f = rank])
  have "thread_step m s \<noteq> None"
  proof
    assume "thread_step m s = None"
    from waits_for [OF this] obtain j g k fs where j: "ls_fns s m = Post j g k # fs" "j \<noteq> m" "ls_locked s j" by blast
    have "list_all (upward n rank m) (ls_fns s m)" using up by (simp add: all_upward_def)
    then have "j < n" "rank m < rank j" using j by auto
    then show False using m(2) j(3) Max_ge [OF finite_imageI [OF \<open>finite ?S\<close>], of "rank j" rank] by simp
  qed
  then show ?thesis using m(1) by auto
qed

section \<open>Schedules\<close>

text \<open>The threads take turns as \<open>sched\<close> says; a thread that waits lets its turn pass. A schedule is fair
  when a thread that can go on again and again does so again and again.\<close>

primrec play :: "(nat \<Rightarrow> nat) \<Rightarrow> loops \<Rightarrow> nat \<Rightarrow> loops" where
  "play sched s 0 = s"
| "play sched s (Suc k) =
     (case thread_step (sched k) (play sched s k) of None \<Rightarrow> play sched s k | Some s' \<Rightarrow> s')"

definition can_go :: "(nat \<Rightarrow> nat) \<Rightarrow> loops \<Rightarrow> nat \<Rightarrow> nat \<Rightarrow> bool" where
  "can_go sched s i k \<longleftrightarrow> thread_step i (play sched s k) \<noteq> None"

definition fair :: "nat \<Rightarrow> (nat \<Rightarrow> nat) \<Rightarrow> loops \<Rightarrow> bool" where
  "fair n sched s \<longleftrightarrow> (\<forall>k. sched k < n) \<and>
     (\<forall>i<n. (\<forall>k. \<exists>l\<ge>k. can_go sched s i l) \<longrightarrow> (\<forall>k. \<exists>l\<ge>k. sched l = i \<and> can_go sched s i l))"

lemma fairD: "fair n sched s \<Longrightarrow> i < n \<Longrightarrow> (\<And>k. \<exists>l\<ge>k. can_go sched s i l) \<Longrightarrow> \<exists>l\<ge>k. sched l = i \<and> can_go sched s i l"
  by (simp add: fair_def)

lemma idle_can_go: "ls_fns (play sched s k) i = [] \<or> \<not> ls_locked (play sched s k) i \<Longrightarrow> can_go sched s i k"
  by (auto simp: can_go_def thread_step_def)

lemma play_upward: "all_upward n rank s \<Longrightarrow> all_upward n rank (play sched s k)"
  by (induction k) (auto split: option.split intro: step_upward)

lemma play_kind:
  assumes "all_upward n rank s" and "\<forall>k. sched k < n"
  shows "if can_go sched s (sched k) k
    then if ls_locked (play sched s k) (sched k) \<and> ls_fns (play sched s k) (sched k) \<noteq> []
      then calls_left n (play sched s (Suc k)) < calls_left n (play sched s k)
      else play sched s (Suc k)
        = (play sched s k)\<lparr>ls_locked := (ls_locked (play sched s k))(sched k := \<not> ls_locked (play sched s k) (sched k))\<rparr>
    else play sched s (Suc k) = play sched s k"
  using step_kind [OF assms(2) [rule_format, of k] play_upward [OF assms(1), of sched k]]
  by (auto simp: can_go_def split: option.split)

text \<open>From some moment on no function is run any more: what is left stays.\<close>

lemma work_settles:
  assumes "all_upward n rank s" and "\<forall>k. sched k < n"
  shows "\<exists>K. (\<forall>l\<ge>K. ls_fns (play sched s l) = ls_fns (play sched s K)) \<and>
    (\<forall>l\<ge>K. can_go sched s (sched l) l \<longrightarrow> \<not> (ls_locked (play sched s l) (sched l) \<and> ls_fns (play sched s l) (sched l) \<noteq> []))"
proof -
  let ?w = "\<lambda>k. calls_left n (play sched s k)"
  define K where "K = (ARG_MIN ?w k. True)"
  have least: "?w K \<le> ?w k" for k unfolding K_def by (rule arg_min_nat_le) simp
  have dec: "?w (Suc k) \<le> ?w k" for k
    using play_kind [OF assms, of k] by (auto simp: calls_left_def split: if_splits)
  have "?w l \<le> ?w K" if "K \<le> l" for l by (rule lift_Suc_antimono_le [where f = ?w, OF dec that])
  then have eq: "?w l = ?w K" if "K \<le> l" for l using least [of l] that by (simp add: le_antisym)
  have quiet: "\<not> (ls_locked (play sched s l) (sched l) \<and> ls_fns (play sched s l) (sched l) \<noteq> [])"
    if "K \<le> l" "can_go sched s (sched l) l" for l
    using play_kind [OF assms, of l] eq [of l] eq [of "Suc l"] that by (auto split: if_splits)
  have "ls_fns (play sched s l) = ls_fns (play sched s K)" if "K \<le> l" for l
    using that
  proof (induction rule: dec_induct)
    case (step l)
    then show ?case using play_kind [OF assms, of l] quiet [of l] by (auto simp del: play.simps split: if_splits)
  qed simp
  with quiet show ?thesis by (intro exI [of _ K]) blast
qed

lemma fair_drains:
  assumes up: "all_upward n rank s" and fair: "fair n sched s"
  shows "\<exists>k. \<forall>i<n. ls_fns (play sched s k) i = []"
proof (rule ccontr)
  let ?p = "play sched s"
  have sched: "\<forall>k. sched k < n" using fair by (simp add: fair_def)
  assume "\<nexists>k. \<forall>i<n. ls_fns (?p k) i = []"
  then have left: "\<exists>i<n. ls_fns (?p k) i \<noteq> []" for k by blast
  obtain K where fns: "\<And>l. K \<le> l \<Longrightarrow> ls_fns (?p l) = ls_fns (?p K)"
    and quiet: "\<And>l. K \<le> l \<Longrightarrow> can_go sched s (sched l) l \<Longrightarrow> \<not> (ls_locked (?p l) (sched l) \<and> ls_fns (?p l) (sched l) \<noteq> [])"
    using work_settles [OF up sched] by (elim exE conjE) blast
  let ?F = "ls_fns (?p K)"
  let ?S = "{i. i < n \<and> ?F i \<noteq> []}"
  have "finite ?S" "?S \<noteq> {}" using left [of K] by auto
  then obtain m where m: "m \<in> ?S" "Max (rank ` ?S) = rank m" by (rule obtains_MAX [where f = rank])
  have toggle: "?p (Suc l) = (?p l)\<lparr>ls_locked := (ls_locked (?p l))(sched l := \<not> ls_locked (?p l) (sched l))\<rparr>"
    if "K \<le> l" "can_go sched s (sched l) l" for l
    using play_kind [OF up sched, of l] by (simp only: that(2) quiet [OF that] if_True if_False)
  have stay: "ls_locked (?p (Suc l)) m" if "K \<le> l" "ls_locked (?p l) m" for l
  proof (cases "can_go sched s (sched l) l")
    case True
    have "sched l \<noteq> m" using quiet [OF that(1) True] that(2) m(1) fns [OF that(1)] by auto
    then show ?thesis using toggle [OF that(1) True] that(2) by simp
  next
    case False
    then show ?thesis using that(2) by (simp add: can_go_def)
  qed
  obtain L where L: "K \<le> L" "ls_locked (?p L) m"
  proof (cases "ls_locked (?p K) m")
    case False
    show thesis
    proof (rule ccontr)
      assume no: "\<not> thesis"
      have un: "\<not> ls_locked (?p l) m" if "K \<le> l" for l using no \<open>\<And>L. K \<le> L \<Longrightarrow> ls_locked (?p L) m \<Longrightarrow> thesis\<close> that by blast
      have "\<exists>l\<ge>k. can_go sched s m l" for k using idle_can_go [where sched = sched and s = s and k = "max k K" and i = m] un [of "max k K"] by (intro exI [of _ "max k K"]) simp
      from fairD [OF fair _ this, of K] obtain l where l: "K \<le> l" "sched l = m" "can_go sched s m l" using m(1) by auto
      then have "ls_locked (?p (Suc l)) m" using toggle [of l] un [of l] by simp
      then show False using un [of "Suc l"] l(1) by simp
    qed
  qed (use that in blast)
  have locked: "ls_locked (?p l) m" if "L \<le> l" for l using that
    by (induction rule: dec_induct) (use L stay in \<open>auto simp del: play.simps\<close>)
  have "\<exists>l\<ge>k. can_go sched s m l" for k
  proof -
    obtain f fs where f: "?F m = f # fs" using m(1) by (cases "?F m") auto
    let ?k = "max k L"
    have F: "ls_fns (?p l) = ?F" if "?k \<le> l" for l using fns [of l] that L(1) by simp
    show ?thesis
    proof (cases "\<exists>j g c. f = Post j g c \<and> j \<noteq> m")
      case False
      then have "can_go sched s m ?k" using F [of ?k] f locked [of ?k]
        by (cases f) (auto simp: can_go_def thread_step_def)
      then show ?thesis by (intro exI [of _ ?k]) simp
    next
      case True
      then obtain j g c where j: "f = Post j g c" "j \<noteq> m" by blast
      have "list_all (upward n rank m) (?F m)" using play_upward [OF up, of sched K] by (simp add: all_upward_def)
      then have r: "j < n" "rank m < rank j" using j f by auto
      have "j \<notin> ?S" using m(2) r(2) Max_ge [OF finite_imageI [OF \<open>finite ?S\<close>], of "rank j" rank] by auto
      then have e: "?F j = []" using r(1) by simp
      have "can_go sched s j (max x ?k)" for x using F [of "max x ?k"] e by (intro idle_can_go) simp
      then have "\<exists>l\<ge>x. can_go sched s j l" for x by (intro exI [of _ "max x ?k"]) simp
      from fairD [OF fair r(1) this, of ?k] obtain l where l: "?k \<le> l" "sched l = j" "can_go sched s j l" by auto
      have go: "can_go sched s m x" if "?k \<le> x" "\<not> ls_locked (?p x) j" for x
        using F [OF that(1)] f j that locked [of x] by (simp add: can_go_def thread_step_def post_to_def)
      show ?thesis
      proof (cases "ls_locked (?p l) j")
        case True
        then have "\<not> ls_locked (?p (Suc l)) j" using toggle [of l] l L(1) by simp
        then show ?thesis using go [of "Suc l"] l(1) by (intro exI [of _ "Suc l"]) simp
      qed (use go [of l] l(1) in \<open>auto intro: exI [of _ l]\<close>)
    qed
  qed
  from fairD [OF fair _ this, of L] obtain l where "L \<le> l" "sched l = m" "can_go sched s m l" using m(1) by auto
  then show False using quiet [of l] locked [of l] fns [of l] L(1) m(1) by simp
qed

section \<open>Properties\<close>

text \<open>C22: when posted functions post only upwards in some order of the loops, the loops never wait for each
  other in a circle: in every state that is reached, however the threads and those outside
  interleave, as long as a loop has something to run or holds its mutex some such thread can go on;
  and once nothing more is posted from outside, under every fair schedule of the threads a moment
  comes when all posted functions have run.\<close>

theorem upward_loops_drain:
  assumes "loops_run n (upward n rank) s0 s" and "all_upward n rank s0"
  shows "(if \<exists>i<n. busy s i then \<exists>m<n. busy s m \<and> thread_step m s \<noteq> None else True) \<and>
    (if fair n sched s then \<exists>k. \<forall>i<n. ls_fns (play sched s k) i = [] else True)"
proof -
  have up: "all_upward n rank s" by (rule run_upward [OF assms(1,2)])
  have "\<exists>m<n. busy s m \<and> thread_step m s \<noteq> None" if i: "i < n" "busy s i" for i
  proof (cases "\<exists>k<n. ls_locked s k")
    case True
    then obtain m where "m < n" "ls_locked s m" "thread_step m s \<noteq> None" using highest_runs [OF up] by blast
    then show ?thesis by (auto simp: busy_def)
  next
    case False
    then show ?thesis using i by (auto simp: thread_step_def)
  qed
  then show ?thesis using fair_drains [OF up, of sched] by auto
qed

text \<open>Two loops whose functions post to each other.\<close>

definition crossed :: loops where
  "crossed = \<lparr>ls_fns = (\<lambda>_. [])(0 := [Post 1 Return Return], 1 := [Post 0 Return Return]), ls_locked = (\<lambda>_. False)\<rparr>"

definition upwards :: loops where
  "upwards = crossed\<lparr>ls_fns := (ls_fns crossed)(1 := [Post 1 Return Return])\<rparr>"

lemma in_turns_fair: "fair 2 (\<lambda>k. k mod 2) upwards"
proof -
  let ?sched = "\<lambda>k. k mod 2 :: nat"
  let ?p = "play ?sched upwards"
  have start: "ls_fns (?p 12) 0 = [] \<and> ls_fns (?p 12) 1 = []" by code_simp
  have empty: "ls_fns (?p l) 0 = [] \<and> ls_fns (?p l) 1 = []" if "12 \<le> l" for l using that
  proof (induction rule: dec_induct)
    case (step l)
    have "l mod 2 = 0 \<or> l mod 2 = 1" by linarith
    then show ?case using step by (auto simp: thread_step_def)
  qed (rule start)
  have go: "can_go ?sched upwards i l" if "12 \<le> l" "i < 2" for i l
    using empty [OF that(1)] that(2) by (intro idle_can_go) (auto simp: less_2_cases_iff)
  have "\<exists>l\<ge>k. l mod 2 = i \<and> can_go ?sched upwards i l" if "i < 2" for i k
    using go [of "2 * (k + 6) + i" i] that by (intro exI [of _ "2 * (k + 6) + i"]) (auto simp: less_2_cases_iff)
  then show ?thesis by (simp add: fair_def)
qed

theorem upward_loops_drain_witness:
  "(\<exists>m<2. busy upwards m \<and> thread_step m upwards \<noteq> None) \<and>
    (\<exists>k. \<forall>i<2. ls_fns (play (\<lambda>k. k mod 2) upwards k) i = [])"
proof -
  have "all_upward 2 (\<lambda>i. i) upwards" by (simp add: all_upward_def upwards_def crossed_def)
  note drain = upward_loops_drain [OF loops_run.start this, of "\<lambda>k. k mod 2"]
  have "\<exists>i<2. busy upwards i" by (intro exI [of _ 0]) (simp add: busy_def upwards_def crossed_def)
  then show ?thesis using drain in_turns_fair by (simp split: if_splits)
qed

text \<open>Each of two threads waits for the mutex of the other.\<close>

definition embraced :: "nat \<Rightarrow> nat \<Rightarrow> loops \<Rightarrow> bool" where
  "embraced i j s \<longleftrightarrow> i \<noteq> j \<and> ls_locked s i \<and> ls_locked s j \<and>
     (\<exists>g k fs. ls_fns s i = Post j g k # fs) \<and> (\<exists>g k fs. ls_fns s j = Post i g k # fs)"

lemma embraced_waits: "embraced i j s \<Longrightarrow> thread_step i s = None \<and> thread_step j s = None \<and> post_to i f s = None \<and> post_to j f s = None"
  by (auto simp: embraced_def thread_step_def post_to_def)

lemma thread_step_other:
  assumes "thread_step m s = Some s'" and "x \<noteq> m" and "ls_locked s x"
  shows "ls_fns s' x = ls_fns s x \<and> ls_locked s' x"
  using assms by (auto simp: thread_step_def post_to_def split: if_splits list.splits posted_fn.splits)

lemma embraced_run: "loops_run n P s0 s \<Longrightarrow> embraced i j s0 \<Longrightarrow> embraced i j s"
proof (induction rule: loops_run.induct)
  case (thread s m s')
  then have e: "embraced i j s" by simp
  then have "m \<noteq> i" "m \<noteq> j" using embraced_waits [OF e] thread.hyps(3) by auto
  then show ?case using e thread_step_other [OF thread.hyps(3), of i] thread_step_other [OF thread.hyps(3), of j]
    by (auto simp: embraced_def)
next
  case (outside s m f s')
  then have e: "embraced i j s" by simp
  then have "m \<noteq> i" "m \<noteq> j" using embraced_waits [OF e] outside.hyps(4) by auto
  then show ?case using e outside.hyps(4) by (auto simp: embraced_def post_to_def split: if_splits)
qed simp

text \<open>C23: without such an order they stop for ever: when a function of loop \<open>i\<close> posts to loop \<open>j\<close> and one of
  loop \<open>j\<close> posts to \<open>i\<close>, and both threads have begun to run them, neither goes on again, whatever the
  other threads do, and no post to either loop ever returns.\<close>

theorem crossed_posts_deadlock:
  assumes "ls_fns s0 i = Post j g k # fs" and "ls_fns s0 j = Post i g' k' # fs'" and "i \<noteq> j"
    and "\<not> ls_locked s0 i" and "\<not> ls_locked s0 j"
  shows "\<exists>s1 s2. thread_step i s0 = Some s1 \<and> thread_step j s1 = Some s2 \<and>
    (\<forall>s. loops_run n P s2 s \<longrightarrow> thread_step i s = None \<and> thread_step j s = None \<and> post_to i f s = None \<and> post_to j f s = None)"
proof -
  let ?s1 = "s0\<lparr>ls_locked := (ls_locked s0)(i := True)\<rparr>"
  let ?s2 = "s0\<lparr>ls_locked := (ls_locked s0)(i := True, j := True)\<rparr>"
  have e: "embraced i j ?s2" using assms by (simp add: embraced_def)
  have "thread_step i s = None \<and> thread_step j s = None \<and> post_to i f s = None \<and> post_to j f s = None"
    if "loops_run n P ?s2 s" for s using embraced_waits [OF embraced_run [OF that e]] .
  moreover have "thread_step i s0 = Some ?s1" "thread_step j ?s1 = Some ?s2" using assms(3-5) by (simp_all add: thread_step_def)
  ultimately show ?thesis by blast
qed

theorem crossed_posts_deadlock_witness:
  "\<exists>s1 s2. thread_step 0 crossed = Some s1 \<and> thread_step 1 s1 = Some s2 \<and>
    (\<forall>s. loops_run 2 (\<lambda>_ _. True) s2 s \<longrightarrow> thread_step 0 s = None \<and> thread_step 1 s = None \<and> post_to 0 Return s = None \<and> post_to 1 Return s = None)"
  by (rule crossed_posts_deadlock) (simp_all add: crossed_def)

end
